(* ===== verification/JX_Prelude.thy ===== *)
theory JX_Prelude
  imports Main "HOL-Library.Word"
begin

section \<open>Shared vocabulary of the kernel model\<close>

text \<open>
  Machine types of \<^verbatim>\<open>Headers/types.h\<close> on the i386 target (a \<^verbatim>\<open>long\<close> and a pointer are
  32 bits wide), the result type every fallible kernel routine returns, the
  physical memory as a byte store, and the generic lemmas on words, lists and
  results that several components use.

  The kernel has three ways not to return a value: \<^verbatim>\<open>sys_panic\<close> stops the machine,
  \<^verbatim>\<open>domain_panic\<close> kills the domain, and \<^verbatim>\<open>exceptionHandler\<close> throws a Java exception.  A failed
  \<^verbatim>\<open>ASSERT\<close> traps (the shipped configuration compiles with \<^verbatim>\<open>-DDEBUG\<close>).  Each is
  a \<open>fault\<close>.  \<open>OutOfFuel\<close> is not an outcome of the code: it is what a loop with a
  fuel argument yields when the fuel is used up, so a loop that runs forever is
  one that yields \<open>OutOfFuel\<close> for every fuel.
\<close>

unbundle bit_operations_syntax

subsection \<open>Types\<close>

type_synonym u1 = "8 word"
type_synonym u2 = "16 word"
type_synonym u4 = "32 word"
type_synonym u8 = "64 word"

text \<open>\<open>jint\<close> is the signed 32 bit type; it is kept as its bit pattern and read with
  \<open>sint\<close> where the code compares signed values.\<close>

type_synonym jint = "32 word"
type_synonym memory = "u4 \<Rightarrow> u1"

datatype fault =
    SysPanic string
  | DomainPanic string
  | JavaThrow string
  | AssertFail string
  | OutOfFuel

datatype 'a res = Ok 'a | Fault fault

fun rbind :: "'a res \<Rightarrow> ('a \<Rightarrow> 'b res) \<Rightarrow> 'b res" where
  "rbind (Ok x) f = f x"
| "rbind (Fault e) f = Fault e"

fun is_ok :: "'a res \<Rightarrow> bool" where
  "is_ok (Ok _) = True"
| "is_ok (Fault _) = False"

text \<open>\<open>ASSERT(b)\<close> followed by the rest of the routine.\<close>

definition rassert :: "bool \<Rightarrow> string \<Rightarrow> 'a res \<Rightarrow> 'a res" where
  "rassert b msg k = (if b then k else Fault (AssertFail msg))"

named_theorems kernel_simps \<open>unfolding rules for the operations of the components\<close>

subsection \<open>Results\<close>

lemma rbind_eq_Ok [simp]: "rbind m f = Ok y \<longleftrightarrow> (\<exists>x. m = Ok x \<and> f x = Ok y)"
  by (cases m) auto

lemma rbind_eq_Fault: "rbind m f = Fault e \<longleftrightarrow> m = Fault e \<or> (\<exists>x. m = Ok x \<and> f x = Fault e)"
  by (cases m) auto

lemma rbind_split:
  "P (rbind m f) \<longleftrightarrow> (\<forall>x. m = Ok x \<longrightarrow> P (f x)) \<and> (\<forall>e. m = Fault e \<longrightarrow> P (Fault e))"
  by (cases m) auto

lemma rassert_eq_Ok [simp]: "rassert b msg k = Ok y \<longleftrightarrow> b \<and> k = Ok y"
  by (simp add: rassert_def)

lemma rassert_True [simp]: "rassert True msg k = k"
  by (simp add: rassert_def)

lemma is_ok_iff: "is_ok r \<longleftrightarrow> (\<exists>x. r = Ok x)"
  by (cases r) auto

subsection \<open>Lists\<close>

lemma nth_update_eq: "xs[i := x] ! j = (if i = j \<and> j < length xs then x else xs ! j)"
  by (cases "j < length xs") (simp_all add: nth_list_update, metis length_list_update list_update_beyond
      nth_list_update_neq not_less)

subsection \<open>Signed values\<close>

lemma sint_u4: "sint (x::u4) = (if unat x < 2147483648 then int (unat x) else int (unat x) - 4294967296)"
proof -
  have u: "uint x < 4294967296" "0 \<le> uint x" using unsigned_less [where ?'a = int and w = x] by simp_all
  have "sint x = signed_take_bit 31 (uint x)" by (simp add: sint_uint)
  also have "\<dots> = (if uint x < 2147483648 then uint x else uint x - 4294967296)"
  proof (cases "uint x < 2147483648")
    case True
    have "- (2 ^ 31) \<le> uint x" using u(2) by (rule order_trans [rotated]) simp
    moreover have "uint x < 2 ^ 31" using True by simp
    ultimately show ?thesis using True signed_take_bit_int_eq_self [of 31 "uint x"] by simp
  next
    case False
    have "(uint x + 2147483648) mod 4294967296 = (uint x - 2147483648 + 4294967296) mod 4294967296"
      by (rule arg_cong [where f = "\<lambda>y. y mod 4294967296"]) simp
    also have "\<dots> = (uint x - 2147483648) mod 4294967296" by (rule mod_add_self2)
    finally have "signed_take_bit 31 (uint x) = signed_take_bit 31 (uint x - 2 ^ 32)"
      by (simp add: signed_take_bit_eq_take_bit_shift take_bit_eq_mod)
    also have "\<dots> = uint x - 2 ^ 32" using False u by (intro signed_take_bit_int_eq_self) simp_all
    finally show ?thesis using False by simp
  qed
  finally have "sint x = (if uint x < 2147483648 then uint x else uint x - 4294967296)" .
  moreover have e: "uint x = int (unat x)" by simp
  ultimately show ?thesis unfolding e by (simp only: of_nat_less_numeral_iff)
qed

lemma sint_nonneg: "0 \<le> sint (x::u4) \<longleftrightarrow> unat x < 2147483648"
proof -
  have "int (unat x) < 4294967296" using unsigned_less [where ?'a = int and w = x] by simp
  then show ?thesis unfolding sint_u4 by (auto simp del: of_nat_less_iff)
qed

subsection \<open>Little-endian accesses\<close>

definition read32 :: "memory \<Rightarrow> u4 \<Rightarrow> u4" where
  "read32 m a = ucast (m a) OR push_bit 8 (ucast (m (a + 1)))
     OR push_bit 16 (ucast (m (a + 2))) OR push_bit 24 (ucast (m (a + 3)))"

definition write32 :: "memory \<Rightarrow> u4 \<Rightarrow> u4 \<Rightarrow> memory" where
  "write32 m a v = m(a := ucast v, a + 1 := ucast (drop_bit 8 v),
     a + 2 := ucast (drop_bit 16 v), a + 3 := ucast (drop_bit 24 v))"

definition read16 :: "memory \<Rightarrow> u4 \<Rightarrow> u2" where
  "read16 m a = ucast (m a) OR push_bit 8 (ucast (m (a + 1)))"

definition write16 :: "memory \<Rightarrow> u4 \<Rightarrow> u2 \<Rightarrow> memory" where
  "write16 m a v = m(a := ucast v, a + 1 := ucast (drop_bit 8 v))"

lemma join_bytes:
  "ucast (ucast (v::u4) :: u1) OR push_bit 8 (ucast (ucast (drop_bit 8 v) :: u1))
     OR push_bit 16 (ucast (ucast (drop_bit 16 v) :: u1)) OR push_bit 24 (ucast (ucast (drop_bit 24 v) :: u1)) = v"
proof (rule bit_eqI)
  fix n assume "possible_bit TYPE(u4) n"
  then have n: "n < 32" by (simp add: possible_bit_word)
  consider "n < 8" | "8 \<le> n" "n < 16" | "16 \<le> n" "n < 24" | "24 \<le> n" by linarith
  then show "bit (ucast (ucast (v::u4) :: u1) OR push_bit 8 (ucast (ucast (drop_bit 8 v) :: u1))
     OR push_bit 16 (ucast (ucast (drop_bit 16 v) :: u1)) OR push_bit 24 (ucast (ucast (drop_bit 24 v) :: u1)) :: u4) n = bit v n"
    using n by cases (auto simp: bit_or_iff bit_push_bit_iff bit_unsigned_iff bit_drop_bit_eq)
qed

lemma read32_write32 [simp]: "read32 (write32 m a v) a = v"
  unfolding read32_def write32_def using join_bytes [of v] by simp

lemma write32_other:
  "x \<noteq> a \<Longrightarrow> x \<noteq> a + 1 \<Longrightarrow> x \<noteq> a + 2 \<Longrightarrow> x \<noteq> a + 3 \<Longrightarrow> write32 m a v x = m x"
  by (simp add: write32_def)

lemma read32_cong:
  "m' a = m a \<Longrightarrow> m' (a + 1) = m (a + 1) \<Longrightarrow> m' (a + 2) = m (a + 2) \<Longrightarrow> m' (a + 3) = m (a + 3) \<Longrightarrow>
   read32 m' a = read32 m a"
  by (simp add: read32_def)

lemma read32_write32_above:
  assumes "4 \<le> k" "k < 4294967293"
  shows "read32 (write32 m a v) (a + of_nat k) = read32 m (a + of_nat k)"
proof -
  have "a + of_nat k + of_nat i \<noteq> a + of_nat j" if "i < 4" "j < 4" for i j :: nat
  proof
    assume "a + of_nat k + of_nat i = a + of_nat j"
    then have "unat (of_nat (k + i) :: u4) = unat (of_nat j :: u4)" by (simp add: add.assoc)
    then have "k + i = j" using assms that by (simp only: unat_of_nat) simp
    with assms that show False by simp
  qed
  note ne = this
  show ?thesis
    using ne [of 0 0] ne [of 0 1] ne [of 0 2] ne [of 0 3] ne [of 1 0] ne [of 1 1] ne [of 1 2] ne [of 1 3]
      ne [of 2 0] ne [of 2 1] ne [of 2 2] ne [of 2 3] ne [of 3 0] ne [of 3 1] ne [of 3 2] ne [of 3 3]
    by (intro read32_cong write32_other) simp_all
qed

lemma bytes_read32:
  "ucast (read32 m a) = m a" "ucast (drop_bit 8 (read32 m a)) = m (a + 1)"
  "ucast (drop_bit 16 (read32 m a)) = m (a + 2)" "ucast (drop_bit 24 (read32 m a)) = m (a + 3)"
  unfolding read32_def
  by (rule bit_word_eqI, auto simp: bit_unsigned_iff bit_or_iff bit_push_bit_iff bit_drop_bit_eq dest: bit_imp_le_length)+

lemma bytes_read16:
  "ucast (read16 m a) = m a" "ucast (drop_bit 8 (read16 m a)) = m (a + 1)"
  unfolding read16_def
  by (rule bit_word_eqI, auto simp: bit_unsigned_iff bit_or_iff bit_push_bit_iff bit_drop_bit_eq dest: bit_imp_le_length)+

subsection \<open>Distances\<close>

lemma unat_minus:
  assumes k: "k < 4294967296"
  shows "unat (x - of_nat k :: u4) = (if k \<le> unat x then unat x - k else unat x + 4294967296 - k)"
proof -
  define y where "y = unat (x - of_nat k)"
  have y: "y < 4294967296" unfolding y_def using unsigned_less [where ?'a = nat and w = "x - of_nat k"] by simp
  have "unat x = unat ((x - of_nat k) + of_nat k)" by simp
  also have "\<dots> = (y + k) mod 4294967296"
    using k by (simp only: unat_word_ariths y_def [symmetric]) (simp add: unat_of_nat)
  finally have x: "unat x = (y + k) mod 4294967296" .
  show ?thesis
  proof (cases "y + k < 4294967296")
    case True
    then show ?thesis using x by (simp add: y_def [symmetric])
  next
    case False
    have "(y + k) mod 4294967296 = (y + k - 4294967296) mod 4294967296" using False by (intro le_mod_geq) simp
    also have "\<dots> = y + k - 4294967296" using y k by (intro mod_less) simp
    finally have "unat x = y + k - 4294967296" using x by simp
    then show ?thesis using False y k by (simp add: y_def [symmetric])
  qed
qed

end
