(* ===== verification/Jxmalloc.thy ===== *)
theory Jxmalloc
  imports JX_Prelude
begin

section \<open>The block allocator (core/malloc.c)\<close>

text \<open>
  The global memory manager hands out runs of 1024 byte blocks.  Its state is the
  static data of \<^verbatim>\<open>core/malloc.c\<close>; the bitmap is not an array of its own but lives
  in the managed memory, at \<^verbatim>\<open>jxmem_start\<close>, so the model keeps the byte store and reads and
  writes \<^verbatim>\<open>bitmap[pos]\<close> there.  \<^verbatim>\<open>LOCK_MALLOC\<close> masks interrupts, so each
  routine is one atomic step.  The model follows the shipped configuration: \<^verbatim>\<open>KERNEL\<close>,
  \<^verbatim>\<open>DEBUG\<close> (hence \<^verbatim>\<open>CHECK_FREE\<close>), no \<^verbatim>\<open>MALLOC_STAT\<close>.

  The first part holds the definitions, the second the block-level view of each
  routine (which blocks are in use before and after), the third the search loop:
  what it returns, that it does return when a fitting run exists, and the two
  situations in which it never does.
\<close>

unbundle bit_operations_syntax

subsection \<open>State and address arithmetic\<close>

record malloc_state =
  jxmem_start :: u4
  jxmem_end :: u4
  n_blocks :: u4
  n_free :: u4
  current_block :: u4
  bitmap :: u4
  bitmap_size :: u4
  bitmap_size_blocks :: u4
  inited :: bool
  mem :: memory

definition BLOCKSIZE :: u4 where "BLOCKSIZE = 1024"

definition BLOCKADDR_N_NULLBITS :: nat where "BLOCKADDR_N_NULLBITS = 10"

definition BLOCKADDR_MASK :: u4 where "BLOCKADDR_MASK = NOT (BLOCKSIZE - 1)"

definition ALIGN_NEXT_BLOCK :: "u4 \<Rightarrow> u4" where
  "ALIGN_NEXT_BLOCK a = (a + (BLOCKSIZE - 1)) AND BLOCKADDR_MASK"

definition ALIGN_PREV_BLOCK :: "u4 \<Rightarrow> u4" where
  "ALIGN_PREV_BLOCK a = a AND BLOCKADDR_MASK"

definition GETADDR :: "malloc_state \<Rightarrow> u4 \<Rightarrow> u4" where
  "GETADDR s block = jxmem_start s + block * BLOCKSIZE"

text \<open>\<^verbatim>\<open>bitmap[pos]\<close> and the test \<^verbatim>\<open>bitmap[b >> 3] & 1 << (b & 0x7)\<close> that
  \<^verbatim>\<open>nextFree\<close> and \<^verbatim>\<open>isFree\<close> share.\<close>

definition bitmap_at :: "malloc_state \<Rightarrow> u4 \<Rightarrow> u1" where
  "bitmap_at s pos = mem s (bitmap s + pos)"

definition bitmap_set :: "malloc_state \<Rightarrow> u4 \<Rightarrow> u1 \<Rightarrow> malloc_state" where
  "bitmap_set s pos v = s\<lparr>mem := (mem s)(bitmap s + pos := v)\<rparr>"

definition block_used :: "malloc_state \<Rightarrow> u4 \<Rightarrow> bool" where
  "block_used s b = (bitmap_at s (drop_bit 3 b) AND push_bit (unat (b AND 7)) 1 \<noteq> 0)"

subsection \<open>Marking blocks\<close>

definition markCurrentUsed :: "malloc_state \<Rightarrow> malloc_state" where
  "markCurrentUsed s =
     (let pos = drop_bit 3 (current_block s);
          o' = current_block s AND 7;
          s' = bitmap_set s pos (bitmap_at s pos OR push_bit (unat o') 1)
      in s'\<lparr>n_free := n_free s' - 1\<rparr>)"

text \<open>\<^verbatim>\<open>current_block++; current_block %= n_blocks;\<close>\<close>

definition advance :: "malloc_state \<Rightarrow> malloc_state" where
  "advance s = s\<lparr>current_block := (current_block s + 1) mod n_blocks s\<rparr>"

primrec markUsed_loop :: "nat \<Rightarrow> malloc_state \<Rightarrow> malloc_state" where
  "markUsed_loop 0 s = s"
| "markUsed_loop (Suc k) s = markUsed_loop k (advance (markCurrentUsed s))"

definition markUsed :: "u4 \<Rightarrow> malloc_state \<Rightarrow> u4 \<times> malloc_state" where
  "markUsed nblocks s = (GETADDR s (current_block s), markUsed_loop (unat nblocks) s)"

definition markUnused :: "u4 \<Rightarrow> malloc_state \<Rightarrow> malloc_state res" where
  "markUnused blocknr s =
     (let pos = drop_bit 3 blocknr;
          o' = push_bit (unat (blocknr AND 7)) 1
      in if bitmap_at s pos AND o' = 0
         then Fault (SysPanic ''freed block was not marked as used!'')
         else let s' = bitmap_set s pos (bitmap_at s pos AND NOT o')
              in Ok (s'\<lparr>n_free := n_free s' + 1\<rparr>))"

subsection \<open>Searching\<close>

fun nextFree :: "nat \<Rightarrow> u4 \<Rightarrow> malloc_state \<Rightarrow> malloc_state res" where
  "nextFree 0 dont_cross s = Fault OutOfFuel"
| "nextFree (Suc fuel) dont_cross s =
     (if block_used s (current_block s)
      then let s' = advance s
           in if current_block s' = dont_cross then Fault (SysPanic ''Out of memory'')
              else nextFree fuel dont_cross s'
      else Ok s)"

text \<open>The loop of \<^verbatim>\<open>isFree\<close>: the first offset \<open>i\<close> below \<open>nblocks\<close> (counted with
  \<open>k\<close> iterations to go) whose block is in use.\<close>

fun isFree_scan :: "malloc_state \<Rightarrow> nat \<Rightarrow> u4 \<Rightarrow> u4 option" where
  "isFree_scan s 0 i = None"
| "isFree_scan s (Suc k) i =
     (if block_used s (current_block s + i) then Some i else isFree_scan s k (i + 1))"

definition isFree :: "u4 \<Rightarrow> malloc_state \<Rightarrow> (bool \<times> malloc_state) res" where
  "isFree nblocks s =
     (if current_block s + nblocks > n_blocks s
      then if current_block s = 0 then Fault (SysPanic ''Out of memory'')
           else Ok (False, s\<lparr>current_block := 0\<rparr>)
      else case isFree_scan s (unat nblocks) 0 of
             Some i \<Rightarrow> Ok (False, s\<lparr>current_block := (current_block s + (i + 1)) mod n_blocks s\<rparr>)
           | None \<Rightarrow> Ok (True, s))"

subsection \<open>Allocation and release\<close>

text \<open>The \<^verbatim>\<open>for (;;)\<close> of \<^verbatim>\<open>jxmalloc_internal\<close>.\<close>

fun malloc_loop :: "nat \<Rightarrow> u4 \<Rightarrow> u4 \<Rightarrow> u4 \<Rightarrow> malloc_state \<Rightarrow> (u4 \<times> malloc_state) res" where
  "malloc_loop 0 size_blk alignmask start_block s = Fault OutOfFuel"
| "malloc_loop (Suc fuel) size_blk alignmask start_block s =
     rbind (isFree size_blk s) (\<lambda>(free, s1).
       if free \<and> GETADDR s1 (current_block s1) AND alignmask = 0
       then Ok (markUsed size_blk s1)
       else if \<not> free \<and> current_block s1 = start_block
       then Fault (SysPanic ''Out of memory'')
       else rbind (nextFree (Suc (unat (n_blocks s1))) (current_block s1) s1)
              (malloc_loop fuel size_blk alignmask start_block))"

definition jxmalloc_internal :: "nat \<Rightarrow> u4 \<Rightarrow> u4 \<Rightarrow> malloc_state \<Rightarrow> (u4 \<times> malloc_state) res" where
  "jxmalloc_internal fuel size_blk align s =
     malloc_loop fuel size_blk (align - 1) (current_block s) s"

definition jxmalloc :: "nat \<Rightarrow> u4 \<Rightarrow> malloc_state \<Rightarrow> (u4 \<times> malloc_state) res" where
  "jxmalloc fuel sz s =
     jxmalloc_internal fuel (drop_bit BLOCKADDR_N_NULLBITS (ALIGN_NEXT_BLOCK sz)) 1 s"

definition jxmalloc_align :: "nat \<Rightarrow> u4 \<Rightarrow> u4 \<Rightarrow> malloc_state \<Rightarrow> (u4 \<times> malloc_state) res" where
  "jxmalloc_align fuel size_blk align s = jxmalloc_internal fuel size_blk align s"

fun markUnused_loop :: "nat \<Rightarrow> u4 \<Rightarrow> malloc_state \<Rightarrow> malloc_state res" where
  "markUnused_loop 0 b s = Ok s"
| "markUnused_loop (Suc k) b s = rbind (markUnused b s) (markUnused_loop k (b + 1))"

definition jxfree :: "u4 \<Rightarrow> u4 \<Rightarrow> malloc_state \<Rightarrow> malloc_state res" where
  "jxfree addr sz s =
     (let b = (addr - jxmem_start s) div BLOCKSIZE;
          nb = ALIGN_NEXT_BLOCK sz div BLOCKSIZE
      in markUnused_loop (unat nb) b s)"

definition jxmalloc_getTotalMemory :: "malloc_state \<Rightarrow> u4" where
  "jxmalloc_getTotalMemory s = jxmem_end s - jxmem_start s"

definition jxmalloc_getTotalFreeMemory :: "malloc_state \<Rightarrow> u4" where
  "jxmalloc_getTotalFreeMemory s = n_free s * BLOCKSIZE"

subsection \<open>Initialisation from the multiboot tags\<close>

text \<open>The walk over the multiboot2 tags: the last memory-information tag (type 4) and the
  first two module tags (type 3), with a count of all module tags.  \<open>tag\<close> is the address of a
  \<^verbatim>\<open>struct multiboot_tag\<close>: \<^verbatim>\<open>type\<close> at offset 0 and \<^verbatim>\<open>size\<close> at 4.\<close>

record boot_scan =
  bs_meminfo :: "u4 option"
  bs_m0 :: "u4 option"
  bs_m1 :: "u4 option"
  bs_count :: nat

definition boot_tag :: "memory \<Rightarrow> u4 \<Rightarrow> boot_scan \<Rightarrow> boot_scan" where
  "boot_tag m tag r =
     (if read32 m tag = 4 then r\<lparr>bs_meminfo := Some tag\<rparr>
      else if read32 m tag = 3
      then let r' = (if bs_count r = 0 then r\<lparr>bs_m0 := Some tag\<rparr>
                     else if bs_count r = 1 then r\<lparr>bs_m1 := Some tag\<rparr> else r)
           in r'\<lparr>bs_count := bs_count r + 1\<rparr>
      else r)"

fun boot_walk :: "nat \<Rightarrow> memory \<Rightarrow> u4 \<Rightarrow> boot_scan \<Rightarrow> boot_scan res" where
  "boot_walk 0 m tag r = Fault OutOfFuel"
| "boot_walk (Suc fuel) m tag r =
     (if read32 m tag = 0 then Ok r
      else boot_walk fuel m (tag + ((read32 m (tag + 4) + 7) AND NOT 7)) (boot_tag m tag r))"

definition memset0 :: "u4 \<Rightarrow> u4 \<Rightarrow> memory \<Rightarrow> memory" where
  "memset0 a len m = (\<lambda>x. if x - a < len then 0 else m x)"

text \<open>What follows the multiboot scan: the block count, the bitmap and the
  reservation of the bitmap's own blocks.\<close>

definition jxmalloc_setup :: "u4 \<Rightarrow> u4 \<Rightarrow> malloc_state \<Rightarrow> malloc_state" where
  "jxmalloc_setup start stop s =
     (let nb = (stop - start) div BLOCKSIZE;
          bsz = drop_bit 3 nb;
          bsb = ALIGN_NEXT_BLOCK bsz div BLOCKSIZE;
          s1 = s\<lparr>jxmem_start := start, jxmem_end := stop, n_blocks := nb, n_free := nb,
                 bitmap_size := bsz, bitmap_size_blocks := bsb, bitmap := start,
                 current_block := 0, mem := memset0 start bsz (mem s)\<rparr>;
          s2 = snd (markUsed bsb s1)
      in s2\<lparr>inited := True\<rparr>)"

definition jxmalloc_init :: "nat \<Rightarrow> u4 \<Rightarrow> malloc_state \<Rightarrow> malloc_state res" where
  "jxmalloc_init fuel boot_info s =
     (if inited s then Fault (SysPanic ''jxmalloc already initialized!'')
      else rbind (boot_walk fuel (mem s) (boot_info + 8)
                    \<lparr>bs_meminfo = None, bs_m0 = None, bs_m1 = None, bs_count = 0\<rparr>)
        (\<lambda>r. case bs_meminfo r of
               None \<Rightarrow> Fault (SysPanic ''No memory information tag found'')
             | Some mi \<Rightarrow>
                 if bs_count r > 2 then Fault (SysPanic ''Max 2 modules expected'')
                 else let stop = ALIGN_PREV_BLOCK (0x100000 + read32 (mem s) (mi + 12) * 1024)
                      in case (if bs_count r = 1 then bs_m0 r
                               else if bs_count r = 2 then bs_m1 r else None) of
                           None \<Rightarrow> Fault (SysPanic ''max 2 modules expected'')
                         | Some m \<Rightarrow>
                             Ok (jxmalloc_setup (ALIGN_NEXT_BLOCK (read32 (mem s) (m + 12) + 1))
                                   stop s)))"

subsection \<open>Bits of the bitmap\<close>


lemma and7_take_bit: "(b::u4) AND 7 = take_bit 3 b"
  by (simp add: take_bit_eq_mask mask_eq_exp_minus_1)

lemma block_index_inj:
  "drop_bit 3 b = drop_bit 3 c \<Longrightarrow> unat ((b::u4) AND 7) = unat (c AND 7) \<Longrightarrow> b = c"
  by (metis and7_take_bit bits_ident word_unat_eq_iff)

lemma unat_and7: "unat ((b::u4) AND 7) < 8"
  by (rule order_le_less_trans [of _ "unat (7::u4)"])
    (simp_all only: word_le_nat_alt [symmetric] word_and_le1, simp)

lemma block_used_bit: "block_used s b = bit (bitmap_at s (drop_bit 3 b)) (unat (b AND 7))"
  by (simp add: block_used_def bit_iff_and_push_bit_not_eq_0)

lemma bitmap_at_set [simp]:
  "bitmap_at (bitmap_set s p v) q = (if p = q then v else bitmap_at s q)"
  by (simp add: bitmap_at_def bitmap_set_def)

lemma bitmap_at_updates [simp]:
  "bitmap_at (s\<lparr>n_free := x\<rparr>) p = bitmap_at s p"
  "bitmap_at (s\<lparr>current_block := x\<rparr>) p = bitmap_at s p"
  "bitmap_at (s\<lparr>inited := y\<rparr>) p = bitmap_at s p"
  by (simp_all add: bitmap_at_def)

lemma same_block: "drop_bit 3 b = drop_bit 3 c \<Longrightarrow> (unat ((b::u4) AND 7) = unat (c AND 7)) = (b = c)"
  by (auto dest!: block_index_inj)

lemma bit_exp8: "n < 8 \<Longrightarrow> bit (2 ^ m :: u1) n = (m = n)"
  by (auto simp: bit_exp_iff)

lemma and_exp_eq_0: "((w::u1) AND 2 ^ n = 0) = (\<not> bit w n)"
  by (simp add: bit_iff_and_push_bit_not_eq_0)

lemma markCurrentUsed_used:
  "block_used (markCurrentUsed s) b = (block_used s b \<or> b = current_block s)"
  using unat_and7 [of b] same_block [of b "current_block s"]
  by (auto simp: markCurrentUsed_def Let_def block_used_bit bit_or_iff bit_exp8)

lemma markUnused_eq:
  "markUnused c s = (if block_used s c then Ok (bitmap_set s (drop_bit 3 c)
       (bitmap_at s (drop_bit 3 c) AND NOT (2 ^ unat (c AND 7)))\<lparr>n_free := n_free s + 1\<rparr>)
     else Fault (SysPanic ''freed block was not marked as used!''))"
  by (simp add: markUnused_def Let_def block_used_def bitmap_set_def)

lemma markUnused_used:
  assumes "markUnused c s = Ok s'"
  shows "block_used s' b = (block_used s b \<and> b \<noteq> c)"
  using assms unat_and7 [of b] same_block [of b c]
  by (auto simp: markUnused_eq block_used_bit bit_and_iff bit_not_iff bit_exp8 split: if_splits)


subsection \<open>Block numbers as naturals\<close>

definition cur :: "malloc_state \<Rightarrow> nat" where "cur s = unat (current_block s)"
definition nblk :: "malloc_state \<Rightarrow> nat" where "nblk s = unat (n_blocks s)"
definition ublk :: "malloc_state \<Rightarrow> nat \<Rightarrow> bool" where "ublk s k = block_used s (of_nat k)"

lemma nblk_bound: "nblk s < 2 ^ 32"
  using unsigned_less [of "n_blocks s", where ?'a = nat] by (simp add: nblk_def)

lemma block_used_ublk: "block_used s b = ublk s (unat b)"
  by (simp add: ublk_def)

lemma ublk_cong: "mem s' = mem s \<Longrightarrow> bitmap s' = bitmap s \<Longrightarrow> ublk s' k = ublk s k"
  by (simp add: ublk_def block_used_def bitmap_at_def)

lemma cur_simps [simp]:
  "ublk (s\<lparr>current_block := c\<rparr>) k = ublk s k"
  "nblk (s\<lparr>current_block := c\<rparr>) = nblk s"
  "cur (s\<lparr>current_block := c\<rparr>) = unat c"
  "GETADDR (s\<lparr>current_block := c\<rparr>) b = GETADDR s b"
  "ublk (s\<lparr>n_free := c\<rparr>) k = ublk s k"
  by (simp_all add: ublk_def block_used_def nblk_def cur_def GETADDR_def)

lemma unat_of_nat_u4 [simp]: "k < 4294967296 \<Longrightarrow> unat (of_nat k :: u4) = k"
  by (simp add: unat_of_nat)

lemma of_nat_unat_u4: "of_nat (unat (w::u4)) = w"
  by simp

lemma unat_add_u4: "unat (a::u4) + unat b < 2 ^ 32 \<Longrightarrow> unat (a + b) = unat a + unat b"
  by (simp add: unat_add_lem [THEN iffD1])

lemma advance_cur: "cur s < nblk s \<Longrightarrow> cur (advance s) = Suc (cur s) mod nblk s"
  using nblk_bound [of s] unat_add_u4 [of "current_block s" 1]
  by (simp add: advance_def cur_def nblk_def unat_mod_distrib)

lemma advance_other [simp]:
  "ublk (advance s) k = ublk s k" "nblk (advance s) = nblk s" "n_free (advance s) = n_free s"
  "jxmem_start (advance s) = jxmem_start s" "jxmem_end (advance s) = jxmem_end s"
  "bitmap (advance s) = bitmap s" "inited (advance s) = inited s" "n_blocks (advance s) = n_blocks s"
  by (simp_all add: advance_def)

lemma markCurrentUsed_other [simp]:
  "nblk (markCurrentUsed s) = nblk s" "cur (markCurrentUsed s) = cur s"
  "n_free (markCurrentUsed s) = n_free s - 1" "jxmem_start (markCurrentUsed s) = jxmem_start s"
  "jxmem_end (markCurrentUsed s) = jxmem_end s" "bitmap (markCurrentUsed s) = bitmap s"
  "inited (markCurrentUsed s) = inited s" "n_blocks (markCurrentUsed s) = n_blocks s"
  by (simp_all add: markCurrentUsed_def Let_def bitmap_set_def nblk_def cur_def)

lemma markCurrentUsed_ublk:
  "k < 2 ^ 32 \<Longrightarrow> ublk (markCurrentUsed s) k = (ublk s k \<or> k = cur s)"
  by (auto simp: ublk_def markCurrentUsed_used cur_def dest!: arg_cong [where f = unat])

subsection \<open>Marking a run\<close>

lemma markUsed_loop_other [simp]:
  "nblk (markUsed_loop k s) = nblk s" "jxmem_start (markUsed_loop k s) = jxmem_start s"
  "jxmem_end (markUsed_loop k s) = jxmem_end s" "bitmap (markUsed_loop k s) = bitmap s"
  "inited (markUsed_loop k s) = inited s" "n_blocks (markUsed_loop k s) = n_blocks s"
  "n_free (markUsed_loop k s) = n_free s - of_nat k"
  by (induction k arbitrary: s) simp_all

lemma markUsed_loop_ublk:
  assumes "cur s < nblk s" "cur s + k \<le> nblk s" "j < 2 ^ 32"
  shows "ublk (markUsed_loop k s) j = (ublk s j \<or> cur s \<le> j \<and> j < cur s + k)
    \<and> cur (markUsed_loop k s) = (cur s + k) mod nblk s"
  using assms
proof (induction k arbitrary: s)
  case 0
  then show ?case by auto
next
  case (Suc k)
  let ?t = "advance (markCurrentUsed s)"
  show ?case
  proof (cases k)
    case 0
    with Suc.prems show ?thesis
      by (auto simp: markCurrentUsed_ublk advance_cur)
  next
    case (Suc k')
    with Suc.prems have c: "cur ?t = Suc (cur s)" by (simp add: advance_cur)
    with Suc Suc.prems have "cur ?t < nblk ?t" "cur ?t + k \<le> nblk ?t" by simp_all
    from Suc.IH [OF this Suc.prems(3)] Suc.prems c show ?thesis
      by (auto simp: markCurrentUsed_ublk)
  qed
qed

subsection \<open>The test for a free run\<close>

lemma isFree_scan_None:
  "isFree_scan s k i = None \<longleftrightarrow> (\<forall>j<k. \<not> block_used s (current_block s + i + of_nat j))"
proof (induction k arbitrary: i)
  case (Suc k)
  have "(\<forall>j<Suc k. \<not> block_used s (current_block s + i + of_nat j)) \<longleftrightarrow>
    \<not> block_used s (current_block s + i) \<and>
    (\<forall>j<k. \<not> block_used s (current_block s + (i + 1) + of_nat j))"
    by (auto simp: less_Suc_eq_0_disj algebra_simps)
  with Suc.IH [of "i + 1"] show ?case by auto
qed simp

lemma isFree_scan_Some:
  "isFree_scan s k i = Some u \<Longrightarrow> \<exists>j<k. u = i + of_nat j
     \<and> block_used s (current_block s + i + of_nat j)
     \<and> (\<forall>m<j. \<not> block_used s (current_block s + i + of_nat m))"
proof (induction k arbitrary: i)
  case (Suc k)
  show ?case
  proof (cases "block_used s (current_block s + i)")
    case True
    with Suc.prems show ?thesis by (intro exI [of _ 0]) simp
  next
    case False
    with Suc.prems have "isFree_scan s k (i + 1) = Some u" by simp
    from Suc.IH [OF this] obtain j where j: "j < k" "u = i + 1 + of_nat j"
      "block_used s (current_block s + (i + 1) + of_nat j)"
      "\<forall>m<j. \<not> block_used s (current_block s + (i + 1) + of_nat m)" by blast
    have "\<forall>m<Suc j. \<not> block_used s (current_block s + i + of_nat m)"
      using False j(4) by (auto simp: less_Suc_eq_0_disj algebra_simps)
    with j show ?thesis by (intro exI [of _ "Suc j"]) (simp add: algebra_simps)
  qed
qed simp

lemma ublk_offset: "cur s + j < 2 ^ 32 \<Longrightarrow> block_used s (current_block s + of_nat j) = ublk s (cur s + j)"
  by (simp add: ublk_def cur_def)

text \<open>What \<^verbatim>\<open>isFree\<close> answers and where it leaves the rotating pointer.\<close>

lemma isFree_cases:
  assumes "cur s < nblk s" "cur s + unat n < 2 ^ 32"
  shows "nblk s < cur s + unat n \<and> isFree n s =
        (if cur s = 0 then Fault (SysPanic ''Out of memory'') else Ok (False, s\<lparr>current_block := 0\<rparr>))
    \<or> cur s + unat n \<le> nblk s \<and> (\<forall>j<unat n. \<not> ublk s (cur s + j)) \<and> isFree n s = Ok (True, s)
    \<or> (\<exists>u. cur s + unat n \<le> nblk s \<and> cur s \<le> u \<and> u < cur s + unat n \<and> ublk s u
         \<and> (\<forall>j. cur s \<le> j \<and> j < u \<longrightarrow> \<not> ublk s j)
         \<and> isFree n s = Ok (False, s\<lparr>current_block := of_nat (Suc u mod nblk s)\<rparr>))"
proof (cases "nblk s < cur s + unat n")
  case True
  with assms show ?thesis
    by (simp add: isFree_def word_less_nat_alt unat_add_u4 cur_def nblk_def unat_eq_zero)
next
  case False
  then have le: "\<not> n_blocks s < current_block s + n"
    using assms by (simp add: word_less_nat_alt unat_add_u4 cur_def nblk_def)
  show ?thesis
  proof (cases "isFree_scan s (unat n) 0")
    case None
    have "\<forall>j<unat n. \<not> ublk s (cur s + j)"
    proof (intro allI impI)
      fix j assume "j < unat n"
      with None assms(2) show "\<not> ublk s (cur s + j)"
        using ublk_offset [of s j] by (simp add: isFree_scan_None)
    qed
    with None le False show ?thesis by (simp add: isFree_def)
  next
    case (Some u)
    from isFree_scan_Some [OF Some] obtain j where j: "j < unat n" "u = of_nat j"
      "block_used s (current_block s + of_nat j)"
      "\<forall>m<j. \<not> block_used s (current_block s + of_nat m)" by auto
    have used: "ublk s (cur s + j)" using ublk_offset [of s j] j assms(2) by simp
    have free: "\<not> ublk s i" if "cur s \<le> i" "i < cur s + j" for i
    proof -
      from that obtain m where "i = cur s + m" "m < j" using le_Suc_ex by fastforce
      with j(1,4) assms(2) show ?thesis using ublk_offset [of s m] by simp
    qed
    have "unat (current_block s + (of_nat j + 1)) = Suc (cur s + j)"
    proof -
      have "current_block s + (of_nat j + 1) = of_nat (Suc (cur s + j))"
        by (simp add: cur_def algebra_simps)
      moreover have "Suc (cur s + j) < 4294967296" using j(1) False nblk_bound [of s] by simp
      ultimately show ?thesis by (simp only: unat_of_nat_u4)
    qed
    then have "(current_block s + (u + 1)) mod n_blocks s = of_nat (Suc (cur s + j) mod nblk s)"
      unfolding j(2) using of_nat_unat_u4 [of "(current_block s + (of_nat j + 1)) mod n_blocks s"]
      by (simp add: unat_mod_distrib nblk_def)
    then have eq: "isFree n s = Ok (False, s\<lparr>current_block := of_nat (Suc (cur s + j) mod nblk s)\<rparr>)"
      using Some le by (simp add: isFree_def)
    show ?thesis
      using False j(1) used free eq by (intro disjI2) (auto intro!: exI [of _ "cur s + j"])
  qed
qed

subsection \<open>Advancing to the next free block\<close>

declare nextFree.simps(2) [simp del]

lemma nextFree_Ok:
  "nextFree fuel dc s = Ok s' \<Longrightarrow> cur s < nblk s \<Longrightarrow>
     (\<exists>c. s' = s\<lparr>current_block := c\<rparr>) \<and> cur s' < nblk s' \<and> \<not> ublk s' (cur s')"
proof (induction fuel dc s rule: nextFree.induct)
  case (2 fuel dc s)
  show ?case
  proof (cases "block_used s (current_block s)")
    case True
    with "2.prems" have ok: "nextFree fuel dc (advance s) = Ok s'" and ne: "current_block (advance s) \<noteq> dc"
      by (auto simp: Let_def nextFree.simps split: if_splits)
    have "cur (advance s) < nblk (advance s)" using "2.prems"(2) by (simp add: advance_cur)
    with "2.IH" [OF True refl ne ok] show ?thesis by (auto simp: advance_def)
  next
    case False
    with "2.prems" show ?thesis
      by (auto simp: block_used_ublk cur_def nextFree.simps intro!: exI [of _ "current_block s"])
  qed
qed simp

text \<open>Without crossing \<open>dc\<close> the loop stops at the first free block at or above the pointer.\<close>

lemma nextFree_up:
  assumes "cur s \<le> f" "f < nblk s" "\<not> ublk s f" "\<forall>j. cur s \<le> j \<and> j < f \<longrightarrow> ublk s j"
    and "\<forall>j. cur s < j \<and> j \<le> f \<longrightarrow> of_nat j \<noteq> dc" and "f - cur s < fuel"
  shows "nextFree fuel dc s = Ok (s\<lparr>current_block := of_nat f\<rparr>)"
  using assms
proof (induction "f - cur s" arbitrary: s fuel)
  case 0
  then obtain k where "fuel = Suc k" by (cases fuel) auto
  with 0 show ?case by (auto simp: block_used_ublk cur_def nextFree.simps)
next
  case (Suc d)
  then obtain k where k: "fuel = Suc k" by (cases fuel) auto
  from Suc.hyps(2) have lt: "cur s < f" by simp
  with Suc.prems(2) have c: "cur (advance s) = Suc (cur s)" by (simp add: advance_cur)
  have used: "block_used s (current_block s)"
    using Suc.prems(4) lt by (simp add: block_used_ublk cur_def)
  have "current_block (advance s) = of_nat (Suc (cur s))" using c by (metis cur_def of_nat_unat_u4)
  then have ne: "current_block (advance s) \<noteq> dc" using Suc.prems(5) lt by (simp del: of_nat_Suc)
  have "nextFree k dc (advance s) = Ok ((advance s)\<lparr>current_block := of_nat f\<rparr>)"
    using Suc.prems Suc.hyps(2) c lt k by (intro Suc.hyps(1)) auto
  with k used ne show ?case by (simp add: Let_def advance_def nextFree.simps)
qed

text \<open>When everything up to the end is in use the pointer wraps to block 0.\<close>

lemma nextFree_wrap:
  assumes "cur s < nblk s" "\<forall>j. cur s \<le> j \<and> j < nblk s \<longrightarrow> ublk s j" "dc \<noteq> 0"
    and "\<forall>j. cur s < j \<and> j < nblk s \<longrightarrow> of_nat j \<noteq> dc"
  shows "nextFree (fuel + (nblk s - cur s)) dc s = nextFree fuel dc (s\<lparr>current_block := 0\<rparr>)"
  using assms
proof (induction "nblk s - cur s" arbitrary: s)
  case (Suc d)
  have used: "block_used s (current_block s)"
    using Suc.prems(1,2) by (simp add: block_used_ublk cur_def)
  have ca: "current_block (advance s) = of_nat (Suc (cur s) mod nblk s)"
    using advance_cur [OF Suc.prems(1)] by (metis cur_def of_nat_unat_u4)
  show ?case
  proof (cases "Suc (cur s) = nblk s")
    case True
    then have "nblk s - cur s = Suc 0" by simp
    moreover have "advance s = s\<lparr>current_block := 0\<rparr>" using True ca by (simp add: advance_def)
    ultimately show ?thesis using used Suc.prems(3) by (simp add: Let_def nextFree.simps)
  next
    case False
    with Suc.prems(1) have lt: "Suc (cur s) < nblk s" by simp
    with ca have c: "current_block (advance s) = of_nat (Suc (cur s))" by simp
    have cc: "cur (advance s) = Suc (cur s)" using lt Suc.prems(1) by (simp add: advance_cur)
    have ne: "current_block (advance s) \<noteq> dc" using c lt Suc.prems(4) by (simp del: of_nat_Suc)
    have "nextFree (fuel + (nblk (advance s) - cur (advance s))) dc (advance s)
        = nextFree fuel dc ((advance s)\<lparr>current_block := 0\<rparr>)"
      using Suc.prems Suc.hyps(2) lt cc by (intro Suc.hyps(1)) auto
    moreover have "nblk s - cur s = Suc (nblk (advance s) - cur (advance s))" using cc lt by simp
    ultimately show ?thesis using used ne
      by (simp add: Let_def nextFree.simps) (simp add: advance_def)
  qed
qed simp


subsection \<open>The search loop\<close>

definition free_run :: "malloc_state \<Rightarrow> nat \<Rightarrow> nat \<Rightarrow> bool" where
  "free_run s c n = (c < nblk s \<and> c + n \<le> nblk s \<and> (\<forall>j<n. \<not> ublk s (c + j)))"

lemma free_run_cur [simp]: "free_run (s\<lparr>current_block := x\<rparr>) c n = free_run s c n"
  by (simp add: free_run_def)

lemma cur_upd_id: "s\<lparr>current_block := of_nat (cur s)\<rparr> = s"
  by (simp add: cur_def)

lemma of_nat_eq_u4: "j < nblk s \<Longrightarrow> of_nat j = (x::u4) \<longleftrightarrow> j = unat x"
  using nblk_bound [of s] by (auto simp: of_nat_unat_u4)

lemma of_nat_ne_cur: "j < nblk s \<Longrightarrow> j \<noteq> cur s \<Longrightarrow> of_nat j \<noteq> current_block s"
  by (simp add: of_nat_eq_u4 cur_def)

lemma unat_of_nat_mod: "0 < nblk s \<Longrightarrow> unat (of_nat (k mod nblk s) :: u4) = k mod nblk s"
  using order.strict_trans [OF mod_less_divisor [of "nblk s" k] nblk_bound [of s]] by simp

lemma malloc_loop_hit:
  assumes "isFree n s = Ok (True, s)" "GETADDR s (current_block s) AND am = 0"
  shows "malloc_loop (Suc k) n am st s = Ok (markUsed n s)"
  using assms by simp

lemma malloc_loop_step:
  assumes "isFree n s = Ok (False, s1)" "current_block s1 \<noteq> st"
    and "nextFree (Suc (unat (n_blocks s1))) (current_block s1) s1 = Ok s2"
  shows "malloc_loop (Suc k) n am st s = malloc_loop k n am st s2"
  using assms by simp

declare malloc_loop.simps(2) [simp del]

lemma malloc_loop_Ok:
  assumes "malloc_loop fuel n am st s = Ok (addr, s')" "cur s < nblk s" "nblk s + unat n \<le> 2 ^ 32"
  shows "\<exists>c. free_run s c (unat n) \<and> addr = GETADDR s (of_nat c) \<and> addr AND am = 0
    \<and> s' = markUsed_loop (unat n) (s\<lparr>current_block := of_nat c\<rparr>)"
  using assms
proof (induction fuel arbitrary: s)
  case (Suc fuel)
  from Suc.prems(1) obtain free s1 where f: "isFree n s = Ok (free, s1)"
    and r: "(if free \<and> GETADDR s1 (current_block s1) AND am = 0 then Ok (markUsed n s1)
       else if \<not> free \<and> current_block s1 = st then Fault (SysPanic ''Out of memory'')
       else rbind (nextFree (Suc (unat (n_blocks s1))) (current_block s1) s1)
              (malloc_loop fuel n am st)) = Ok (addr, s')"
    by (auto simp: malloc_loop.simps)
  have iF: "(free \<longrightarrow> s1 = s \<and> free_run s (cur s) (unat n)) \<and> (\<exists>x. s1 = s\<lparr>current_block := x\<rparr>)
      \<and> cur s1 < nblk s1"
    using isFree_cases [of s n] Suc.prems(2,3) f nblk_bound [of s]
    by (auto simp: free_run_def unat_of_nat_mod split: if_splits intro: exI [of _ "current_block s"])
  then obtain x where s1: "s1 = s\<lparr>current_block := x\<rparr>" and c1: "cur s1 < nblk s1" by blast
  show ?case
  proof (cases "free \<and> GETADDR s1 (current_block s1) AND am = 0")
    case True
    with iF r have "free_run s (cur s) (unat n)" "s1 = s" "markUsed n s = (addr, s')" by auto
    then show ?thesis using True
      by (intro exI [of _ "cur s"]) (auto simp: markUsed_def cur_def)
  next
    case False
    with r obtain s2 where nf: "nextFree (Suc (unat (n_blocks s1))) (current_block s1) s1 = Ok s2"
      and l: "malloc_loop fuel n am st s2 = Ok (addr, s')" by (auto split: if_splits)
    from nextFree_Ok [OF nf c1] s1 obtain y where s2: "s2 = s\<lparr>current_block := y\<rparr>"
      and c2: "cur s2 < nblk s2" by auto
    from Suc.IH [OF l c2] Suc.prems(3) s2 show ?thesis by auto
  qed
qed simp

lemma free_ex_first:
  assumes "\<not> ublk s b" "a \<le> b"
  obtains f where "a \<le> f" "f \<le> b" "\<not> ublk s f" "\<forall>j. a \<le> j \<and> j < f \<longrightarrow> ublk s j"
proof -
  let ?P = "\<lambda>j. a \<le> j \<and> \<not> ublk s j"
  have "?P b" using assms by simp
  then show thesis
    using that [of "Least ?P"] LeastI [of ?P b] Least_le [of ?P b] not_less_Least [of _ ?P] by blast
qed

lemma nextFree_first:
  assumes "cur s \<le> b" "b < nblk s" "\<not> ublk s b"
  obtains f where "cur s \<le> f" "f \<le> b"
    "nextFree (Suc (unat (n_blocks s))) (current_block s) s = Ok (s\<lparr>current_block := of_nat f\<rparr>)"
proof -
  obtain f where f: "cur s \<le> f" "f \<le> b" "\<not> ublk s f" "\<forall>j. cur s \<le> j \<and> j < f \<longrightarrow> ublk s j"
    using free_ex_first [OF assms(3,1)] by blast
  have "\<forall>j. cur s < j \<and> j \<le> f \<longrightarrow> of_nat j \<noteq> current_block s"
    using f(2) assms(2) of_nat_ne_cur [of _ s] by auto
  then have "nextFree (Suc (unat (n_blocks s))) (current_block s) s = Ok (s\<lparr>current_block := of_nat f\<rparr>)"
    using f assms(2) by (intro nextFree_up) (auto simp: nblk_def)
  with f that show thesis by blast
qed

text \<open>Below a fitting run the search climbs to it without leaving the ascent.\<close>

lemma malloc_loop_up:
  assumes run: "free_run s b (unat n)" and n: "0 < unat n" and b: "cur s \<le> b"
    and st: "\<forall>j. cur s < j \<and> j \<le> b \<longrightarrow> of_nat j \<noteq> st"
    and al: "\<forall>c. GETADDR s c AND am = 0" and fuel: "b - cur s < fuel"
  shows "is_ok (malloc_loop fuel n am st s)"
  using assms
proof (induction "b - cur s" arbitrary: s fuel rule: less_induct)
  case less
  from less.prems(1) have bn: "b < nblk s" "b + unat n \<le> nblk s" "\<And>j. j < unat n \<Longrightarrow> \<not> ublk s (b + j)"
    by (auto simp: free_run_def)
  from less.prems(6) obtain k where k: "fuel = Suc k" by (cases fuel) auto
  have c: "cur s < nblk s" "cur s + unat n < 2 ^ 32" "cur s + unat n \<le> nblk s"
    using bn less.prems(3) nblk_bound [of s] by simp_all
  from isFree_cases [OF c(1,2)] c(3) consider
      (free) "isFree n s = Ok (True, s)"
    | (used) u where "cur s \<le> u" "u < cur s + unat n" "ublk s u"
        "isFree n s = Ok (False, s\<lparr>current_block := of_nat (Suc u mod nblk s)\<rparr>)"
    by (meson linorder_not_less)
  then show ?case
  proof cases
    case free
    with k less.prems(5) show ?thesis by (simp add: malloc_loop_hit)
  next
    case used
    have ub: "u < b"
    proof (rule ccontr)
      assume "\<not> u < b"
      then obtain j where "u = b + j" using le_Suc_ex not_less by blast
      with used less.prems(3) bn(3) [of j] show False by simp
    qed
    let ?s1 = "s\<lparr>current_block := of_nat (Suc u)\<rparr>"
    have c1: "cur ?s1 = Suc u" using ub bn(1) nblk_bound [of s] by (simp del: of_nat_Suc)
    have eq: "isFree n s = Ok (False, ?s1)" using used(4) ub bn(1) by simp
    have ne: "of_nat (Suc u) \<noteq> st" using less.prems(4) ub used(1) by (simp del: of_nat_Suc)
    have nb: "\<not> ublk ?s1 b" using bn(3) [of 0] less.prems(2) by simp
    obtain f where f: "Suc u \<le> f" "f \<le> b"
      "nextFree (Suc (unat (n_blocks ?s1))) (current_block ?s1) ?s1 = Ok (?s1\<lparr>current_block := of_nat f\<rparr>)"
      using nextFree_first [of ?s1 b] nb ub bn(1) c1 by auto
    let ?s2 = "s\<lparr>current_block := of_nat f\<rparr>"
    have c2: "cur ?s2 = f" using f(2) bn(1) nblk_bound [of s] by simp
    have "is_ok (malloc_loop k n am st ?s2)"
      using less.prems c2 f(1,2) used(1) k by (intro less.hyps) auto
    moreover have "malloc_loop fuel n am st s = malloc_loop k n am st ?s2"
      unfolding k using eq ne f(3) by (intro malloc_loop_step [where ?s1.0 = ?s1]) auto
    ultimately show ?thesis by simp
  qed
qed

text \<open>Above every fitting run the search climbs to the end, wraps, and climbs again.\<close>

lemma malloc_loop_from_0:
  assumes "free_run s b (unat n)" "0 < unat n" "\<forall>j\<le>b. of_nat j \<noteq> st"
    and "\<forall>c. GETADDR s c AND am = 0" "b < fuel" "f \<le> b" "s' = s\<lparr>current_block := of_nat f\<rparr>"
  shows "is_ok (malloc_loop fuel n am st s')"
proof -
  have "cur s' = f" using assms(1,6,7) nblk_bound [of s] by (simp add: free_run_def)
  then show ?thesis using assms by (intro malloc_loop_up [of _ b]) auto
qed

lemma nextFree_zero_first:
  assumes "b < nblk s" "\<not> ublk s b"
  obtains f where "f \<le> b" "nextFree (Suc (unat (n_blocks s))) 0 (s\<lparr>current_block := 0\<rparr>)
    = Ok (s\<lparr>current_block := of_nat f\<rparr>)"
  using nextFree_first [of "s\<lparr>current_block := 0\<rparr>" b] assms by auto

lemma nextFree_around:
  assumes "b < nblk s" "\<not> ublk s b" "b < cur s" "cur s < nblk s"
  obtains f where "f < nblk s" "f \<le> b \<or> cur s \<le> f"
    "nextFree (Suc (unat (n_blocks s))) (current_block s) s = Ok (s\<lparr>current_block := of_nat f\<rparr>)"
proof (cases "\<exists>g. cur s \<le> g \<and> g < nblk s \<and> \<not> ublk s g")
  case True
  then obtain g where g: "cur s \<le> g" "g < nblk s" "\<not> ublk s g" by blast
  then show thesis using nextFree_first [OF g] that by (metis le_less_trans)
next
  case False
  let ?s0 = "s\<lparr>current_block := 0\<rparr>"
  obtain f where f: "f \<le> b" "\<not> ublk s f" "\<forall>j<f. ublk s j"
    using free_ex_first [OF assms(2), of 0] by auto
  have nz: "current_block s \<noteq> 0" using assms(3) by (auto simp: cur_def)
  note dc = of_nat_ne_cur [of _ s]
  have "nextFree (Suc (cur s) + (nblk s - cur s)) (current_block s) s
      = nextFree (Suc (cur s)) (current_block s) ?s0"
    using False assms(4) nz dc by (intro nextFree_wrap) auto
  moreover have "\<dots> = Ok (?s0\<lparr>current_block := of_nat f\<rparr>)"
    using f assms dc by (intro nextFree_up) (auto simp: cur_def)
  moreover have "Suc (cur s) + (nblk s - cur s) = Suc (unat (n_blocks s))"
    using assms(4) by (simp add: nblk_def)
  ultimately have "nextFree (Suc (unat (n_blocks s))) (current_block s) s
      = Ok (s\<lparr>current_block := of_nat f\<rparr>)"
    by simp
  moreover have "f < nblk s" using f(1) assms(1) by simp
  ultimately show thesis using that [of f] f(1) by blast
qed

lemma malloc_loop_down:
  assumes run: "free_run s b (unat n)" and n: "0 < unat n" and b: "b < unat st" "unat st \<le> cur s"
    and c: "cur s < nblk s" and big: "nblk s + unat n \<le> 2 ^ 32"
    and al: "\<forall>c. GETADDR s c AND am = 0" and fuel: "nblk s - cur s + b + 1 < fuel"
  shows "is_ok (malloc_loop fuel n am st s)"
  using assms
proof (induction "nblk s - cur s" arbitrary: s fuel rule: less_induct)
  case less
  note p = less.prems
  from p(1,2) have bn: "b < nblk s" "\<not> ublk s b" by (auto simp: free_run_def)
  from p(8) obtain k where k: "fuel = Suc k" by (cases fuel) auto
  have nst: "\<forall>j\<le>b. of_nat j \<noteq> st" using p(3) bn(1) nblk_bound [of s] by auto
  have st0: "st \<noteq> 0" using p(3) by auto
  have from0: "is_ok (malloc_loop k n am st (s\<lparr>current_block := of_nat f\<rparr>))" if "f \<le> b" for f
    using p nst that k by (intro malloc_loop_from_0 [OF p(1,2) nst p(7) _ that refl]) auto
  have zero: "is_ok (malloc_loop fuel n am st s)" if "isFree n s = Ok (False, s\<lparr>current_block := 0\<rparr>)"
  proof -
    obtain f where f: "f \<le> b" "nextFree (Suc (unat (n_blocks s))) 0 (s\<lparr>current_block := 0\<rparr>)
      = Ok (s\<lparr>current_block := of_nat f\<rparr>)" using nextFree_zero_first [OF bn] by blast
    have "malloc_loop fuel n am st s = malloc_loop k n am st (s\<lparr>current_block := of_nat f\<rparr>)"
      unfolding k using that f(2) st0 by (intro malloc_loop_step) auto
    then show ?thesis using from0 [OF f(1)] by simp
  qed
  have c2: "cur s + unat n < 2 ^ 32" using p(5,6) by simp
  from isFree_cases [OF p(5) c2] consider
      (over) "isFree n s = Ok (False, s\<lparr>current_block := 0\<rparr>)"
    | (free) "isFree n s = Ok (True, s)"
    | (used) u where "cur s \<le> u" "u < nblk s"
        "isFree n s = Ok (False, s\<lparr>current_block := of_nat (Suc u mod nblk s)\<rparr>)"
    using p(3,4) by fastforce
  then show ?case
  proof cases
    case over
    then show ?thesis by (rule zero)
  next
    case free
    with k p(7) show ?thesis by (simp add: malloc_loop_hit)
  next
    case used
    show ?thesis
    proof (cases "Suc u = nblk s")
      case True
      with used(3) show ?thesis using zero by simp
    next
      case False
      let ?s1 = "s\<lparr>current_block := of_nat (Suc u)\<rparr>"
      have lt: "Suc u < nblk s" using False used(2) by simp
      have c1: "cur ?s1 = Suc u" using lt nblk_bound [of s] by (simp del: of_nat_Suc)
      have eq: "isFree n s = Ok (False, ?s1)" using used(3) lt by simp
      have ne: "of_nat (Suc u) \<noteq> st"
        using c1 used(1) p(4) by (metis Suc_n_not_le_n cur_simps(3) le_trans)
      have bc: "b < cur ?s1" using c1 used(1) p(3,4) by simp
      obtain f where f: "f < nblk s" "f \<le> b \<or> Suc u \<le> f"
        "nextFree (Suc (unat (n_blocks ?s1))) (current_block ?s1) ?s1 = Ok (?s1\<lparr>current_block := of_nat f\<rparr>)"
        using nextFree_around [of b ?s1] bn bc lt c1 by auto
      let ?s2 = "s\<lparr>current_block := of_nat f\<rparr>"
      have cf: "cur ?s2 = f" using f(1) nblk_bound [of s] by simp
      have "is_ok (malloc_loop k n am st ?s2)"
      proof (cases "f \<le> b")
        case True
        then show ?thesis by (rule from0)
      next
        case False
        then have "Suc u \<le> f" using f(2) by simp
        then show ?thesis using p k cf f(1) used(1) lt by (intro less.hyps) auto
      qed
      moreover have "malloc_loop fuel n am st s = malloc_loop k n am st ?s2"
        unfolding k using eq ne f(3) by (intro malloc_loop_step [where ?s1.0 = ?s1]) auto
      ultimately show ?thesis by simp
    qed
  qed
qed

lemma jxmalloc_internal_finds:
  assumes "free_run s b (unat n)" "0 < unat n" "cur s < nblk s" "nblk s + unat n \<le> 2 ^ 32"
    and "\<forall>c. GETADDR s c AND (align - 1) = 0" "2 * nblk s + 1 < fuel"
  shows "is_ok (jxmalloc_internal fuel n align s)"
proof (cases "cur s \<le> b")
  case True
  have "b < nblk s" using assms(1) by (simp add: free_run_def)
  then have "\<forall>j. cur s < j \<and> j \<le> b \<longrightarrow> of_nat j \<noteq> current_block s"
    using of_nat_ne_cur [of _ s] by auto
  then show ?thesis unfolding jxmalloc_internal_def
    using assms True \<open>b < nblk s\<close> by (intro malloc_loop_up [OF assms(1,2)]) auto
next
  case False
  then show ?thesis unfolding jxmalloc_internal_def
    using assms by (intro malloc_loop_down [OF assms(1,2)]) (auto simp: cur_def)
qed


subsection \<open>Contracts of allocation and release\<close>

definition free_count :: "malloc_state \<Rightarrow> nat" where
  "free_count s = length (filter (\<lambda>k. \<not> ublk s k) [0..<nblk s])"

text \<open>The invariant: the pointer is in range, the managed area is whole blocks
  below 4 GB, and \<^verbatim>\<open>n_free\<close> counts the blocks whose bit is clear.\<close>

definition malloc_inv :: "malloc_state \<Rightarrow> bool" where
  "malloc_inv s = (cur s < nblk s \<and> unat (jxmem_start s) + nblk s * 1024 < 2 ^ 32
     \<and> unat (n_free s) = free_count s)"

lemma filter_diff_length:
  "distinct xs \<Longrightarrow> (\<And>x. x \<in> set xs \<Longrightarrow> Q x = (P x \<and> x \<notin> A)) \<Longrightarrow> A \<subseteq> set xs \<Longrightarrow> (\<And>x. x \<in> A \<Longrightarrow> P x)
   \<Longrightarrow> length (filter P xs) = length (filter Q xs) + card A"
proof -
  assume d: "distinct xs" and q: "\<And>x. x \<in> set xs \<Longrightarrow> Q x = (P x \<and> x \<notin> A)"
    and a: "A \<subseteq> set xs" and p: "\<And>x. x \<in> A \<Longrightarrow> P x"
  have "card (set (filter P xs)) = card (set (filter Q xs) \<union> A)"
    using q a p by (intro arg_cong [where f = card]) auto
  also have "\<dots> = card (set (filter Q xs)) + card A"
    using q a by (intro card_Un_disjoint) (auto intro: finite_subset)
  finally show ?thesis by (metis d distinct_card distinct_filter)
qed

lemma free_count_mark:
  assumes "nblk s' = nblk s" "c + n \<le> nblk s" "\<forall>j<n. \<not> ublk s (c + j)"
    and "\<And>j. j < nblk s \<Longrightarrow> ublk s' j = (ublk s j \<or> c \<le> j \<and> j < c + n)"
  shows "free_count s = free_count s' + n"
proof -
  have "free_count s = free_count s' + card {c..<c + n}"
    unfolding free_count_def assms(1)
  proof (rule filter_diff_length)
    show "\<And>x. x \<in> {c..<c + n} \<Longrightarrow> \<not> ublk s x"
      using assms(3) by (metis atLeastLessThan_iff le_add_diff_inverse nat_add_left_cancel_less)
  qed (use assms in auto)
  then show ?thesis by simp
qed

text \<open>The contract of one allocation: the run was free, exactly it is in use now.\<close>

definition alloc_post :: "malloc_state \<Rightarrow> nat \<Rightarrow> nat \<Rightarrow> u4 \<Rightarrow> malloc_state \<Rightarrow> bool" where
  "alloc_post s n c addr s' = (free_run s c n \<and> unat addr = unat (jxmem_start s) + c * 1024
     \<and> (\<forall>j<nblk s. ublk s' j = (ublk s j \<or> c \<le> j \<and> j < c + n))
     \<and> nblk s' = nblk s \<and> jxmem_start s' = jxmem_start s \<and> bitmap s' = bitmap s
     \<and> free_count s = free_count s' + n)"

lemma GETADDR_unat:
  assumes "unat (jxmem_start s) + nblk s * 1024 < 2 ^ 32" "c < nblk s"
  shows "unat (GETADDR s (of_nat c)) = unat (jxmem_start s) + c * 1024"
proof -
  have c: "c * 1024 < 4294967296" using assms by simp
  have m: "unat (of_nat c * 1024 :: u4) = c * 1024"
    using unat_of_nat_u4 [OF c] by simp
  show ?thesis unfolding GETADDR_def BLOCKSIZE_def
    using assms m unat_add_u4 [of "jxmem_start s" "of_nat c * 1024"] by simp
qed

lemma jxmalloc_internal_post:
  assumes "malloc_inv s" "nblk s + unat n \<le> 2 ^ 32" "jxmalloc_internal fuel n align s = Ok (addr, s')"
  shows "\<exists>c. alloc_post s (unat n) c addr s'" "malloc_inv s'" "addr AND (align - 1) = 0"
proof -
  have inv: "cur s < nblk s" "unat (jxmem_start s) + nblk s * 1024 < 2 ^ 32"
    "unat (n_free s) = free_count s" using assms(1) by (simp_all add: malloc_inv_def)
  from malloc_loop_Ok [OF assms(3) [unfolded jxmalloc_internal_def] inv(1) assms(2)]
  obtain c where c: "free_run s c (unat n)" "addr = GETADDR s (of_nat c)" "addr AND (align - 1) = 0"
    "s' = markUsed_loop (unat n) (s\<lparr>current_block := of_nat c\<rparr>)" by blast
  let ?t = "s\<lparr>current_block := of_nat c\<rparr>"
  have cn: "c < nblk s" "c + unat n \<le> nblk s" using c(1) by (auto simp: free_run_def)
  have ct: "cur ?t = c" using cn(1) nblk_bound [of s] by simp
  have m: "ublk s' j = (ublk s j \<or> c \<le> j \<and> j < c + unat n) \<and> cur s' = (c + unat n) mod nblk s"
    if "j < nblk s" for j
    using markUsed_loop_ublk [of ?t "unat n" j] ct cn that nblk_bound [of s] c(4) by simp
  have fc: "free_count s = free_count s' + unat n"
    using c(1,4) cn m by (intro free_count_mark [of s' s c]) (auto simp: free_run_def)
  show "\<exists>c. alloc_post s (unat n) c addr s'"
    using c m fc GETADDR_unat [OF inv(2) cn(1)] by (intro exI [of _ c]) (simp add: alloc_post_def)
  have "unat (n_free s') = unat (n_free s) - unat n"
    using c(4) fc inv(3) by (simp add: unat_sub word_le_nat_alt)
  then show "malloc_inv s'" using c(4) inv m [OF cn(1)] fc by (simp add: malloc_inv_def)
  show "addr AND (align - 1) = 0" by (rule c(3))
qed


lemma and_blockmask: "(x::u4) AND BLOCKADDR_MASK = (x div 1024) * 1024"
proof -
  have "x AND NOT (mask 10) = push_bit 10 (drop_bit 10 x)"
    by (rule bit_eqI) (auto simp: bit_simps)
  then show ?thesis
    by (simp add: BLOCKADDR_MASK_def BLOCKSIZE_def mask_eq_exp_minus_1 push_bit_eq_mult drop_bit_eq_div)
qed

lemma unat_div_mult_1024: "unat ((x::u4) div 1024 * 1024) = unat x div 1024 * 1024"
proof -
  have "unat (x div 1024) * 1024 < 2 ^ 32"
    using unsigned_less [of x, where ?'a = nat] by (simp add: unat_div_distrib)
  then show ?thesis using unat_mult_lem [of "x div 1024" 1024]
    by (simp add: unat_div_distrib)
qed

lemma unat_ALIGN_PREV: "unat (ALIGN_PREV_BLOCK a) = unat a div 1024 * 1024"
  by (simp add: ALIGN_PREV_BLOCK_def and_blockmask unat_div_mult_1024)

lemma unat_ALIGN_NEXT:
  "unat a + 1023 < 2 ^ 32 \<Longrightarrow> unat (ALIGN_NEXT_BLOCK a) = (unat a + 1023) div 1024 * 1024"
  using unat_add_u4 [of a 1023]
  by (simp add: ALIGN_NEXT_BLOCK_def and_blockmask BLOCKSIZE_def unat_div_mult_1024)

lemma jxmalloc_blocks:
  "drop_bit BLOCKADDR_N_NULLBITS (ALIGN_NEXT_BLOCK a) = ALIGN_NEXT_BLOCK a div BLOCKSIZE"
  by (simp add: BLOCKADDR_N_NULLBITS_def BLOCKSIZE_def drop_bit_eq_div)

lemma size_blocks:
  "unat a + 1023 < 2 ^ 32 \<Longrightarrow> unat (ALIGN_NEXT_BLOCK a div BLOCKSIZE) = (unat a + 1023) div 1024"
  by (simp add: unat_div_distrib BLOCKSIZE_def unat_ALIGN_NEXT)

lemma markUnused_Ok:
  assumes "block_used s b"
  obtains s' where "markUnused b s = Ok s'" "n_free s' = n_free s + 1" "n_blocks s' = n_blocks s"
    "current_block s' = current_block s" "jxmem_start s' = jxmem_start s" "bitmap s' = bitmap s"
    "\<And>k. k < 2 ^ 32 \<Longrightarrow> ublk s' k = (ublk s k \<and> k \<noteq> unat b)"
proof -
  define s' where "s' = (bitmap_set s (drop_bit 3 b)
    (bitmap_at s (drop_bit 3 b) AND NOT (2 ^ unat (b AND 7))))\<lparr>n_free := n_free s + 1\<rparr>"
  have m: "markUnused b s = Ok s'" using assms by (simp add: markUnused_eq s'_def)
  have u: "ublk s' k = (ublk s k \<and> k \<noteq> unat b)" if "k < 2 ^ 32" for k
    unfolding ublk_def markUnused_used [OF m] using that by (auto simp: of_nat_unat_u4)
  show thesis by (rule that [OF m _ _ _ _ _ u]) (simp_all add: s'_def bitmap_set_def)
qed

lemma markUnused_loop_Ok:
  assumes "c + k < 2 ^ 32" "\<forall>j<k. ublk s (c + j)"
  shows "\<exists>s'. markUnused_loop k (of_nat c) s = Ok s' \<and> n_free s' = n_free s + of_nat k
     \<and> n_blocks s' = n_blocks s \<and> current_block s' = current_block s
     \<and> jxmem_start s' = jxmem_start s \<and> bitmap s' = bitmap s
     \<and> (\<forall>j<2^32. ublk s' j = (ublk s j \<and> \<not> (c \<le> j \<and> j < c + k)))"
  using assms
proof (induction k arbitrary: c s)
  case (Suc k)
  have "block_used s (of_nat c)" using Suc.prems(2) by (auto simp: ublk_def)
  then obtain s1 where s1: "markUnused (of_nat c) s = Ok s1" "n_free s1 = n_free s + 1"
    "n_blocks s1 = n_blocks s" "current_block s1 = current_block s" "jxmem_start s1 = jxmem_start s"
    "bitmap s1 = bitmap s" "\<And>j. j < 2 ^ 32 \<Longrightarrow> ublk s1 j = (ublk s j \<and> j \<noteq> c)"
    using Suc.prems(1) by (auto elim!: markUnused_Ok)
  have "\<forall>j<k. ublk s1 (Suc c + j)" using Suc.prems s1(7) by (auto simp: less_Suc_eq_0_disj)
  from Suc.IH [of "Suc c" s1] this Suc.prems(1) obtain s2 where
    s2: "markUnused_loop k (of_nat (Suc c)) s1 = Ok s2" "n_free s2 = n_free s1 + of_nat k"
     "n_blocks s2 = n_blocks s1" "current_block s2 = current_block s1"
     "jxmem_start s2 = jxmem_start s1" "bitmap s2 = bitmap s1"
     "\<forall>j<2^32. ublk s2 j = (ublk s1 j \<and> \<not> (Suc c \<le> j \<and> j < Suc c + k))" by auto
  have "markUnused_loop (Suc k) (of_nat c) s = Ok s2" using s1(1) s2(1) by (simp add: add.commute)
  moreover have "\<forall>j<2^32. ublk s2 j = (ublk s j \<and> \<not> (c \<le> j \<and> j < c + Suc k))"
    using s2(7) s1(7) by auto
  ultimately show ?case using s1 s2 by (intro exI [of _ s2]) (simp add: algebra_simps)
qed auto

lemma jxfree_block:
  assumes "unat (jxmem_start s) + nblk s * 1024 < 2 ^ 32" "c < nblk s"
    "unat addr = unat (jxmem_start s) + c * 1024"
  shows "(addr - jxmem_start s) div BLOCKSIZE = of_nat c"
proof -
  have "jxmem_start s \<le> addr" using assms(3) by (simp add: word_le_nat_alt)
  then have "unat (addr - jxmem_start s) = c * 1024" using assms(3) by (simp add: unat_sub)
  then have "unat ((addr - jxmem_start s) div BLOCKSIZE) = c" by (simp add: unat_div_distrib BLOCKSIZE_def)
  then show ?thesis by (metis of_nat_unat_u4)
qed

lemma free_count_unmark:
  assumes "nblk s' = nblk s" "c + n \<le> nblk s" "\<forall>j<n. ublk s (c + j)"
    and "\<And>j. j < nblk s \<Longrightarrow> ublk s' j = (ublk s j \<and> \<not> (c \<le> j \<and> j < c + n))"
  shows "free_count s' = free_count s + n"
proof (rule free_count_mark [of s s' c])
  show "\<forall>j<n. \<not> ublk s' (c + j)" using assms by auto
  show "ublk s j = (ublk s' j \<or> c \<le> j \<and> j < c + n)" if "j < nblk s'" for j
  proof -
    have "c \<le> j \<and> j < c + n \<Longrightarrow> ublk s j" using assms(3) by (metis le_add_diff_inverse nat_add_left_cancel_less)
    then show ?thesis using assms(1,4) that by auto
  qed
qed (use assms in auto)

text \<open>The contract of a release: all blocks in use, then exactly they become free.\<close>

lemma jxfree_post:
  assumes "malloc_inv s" "unat sz + 1023 < 2 ^ 32" "unat addr = unat (jxmem_start s) + c * 1024"
    and "c < nblk s" "c + (unat sz + 1023) div 1024 \<le> nblk s" "\<forall>j<(unat sz + 1023) div 1024. ublk s (c + j)"
  shows "\<exists>s'. jxfree addr sz s = Ok s' \<and> malloc_inv s'
    \<and> (\<forall>j<nblk s. ublk s' j = (ublk s j \<and> \<not> (c \<le> j \<and> j < c + (unat sz + 1023) div 1024)))
    \<and> nblk s' = nblk s \<and> jxmem_start s' = jxmem_start s \<and> bitmap s' = bitmap s
    \<and> free_count s' = free_count s + (unat sz + 1023) div 1024"
proof -
  let ?n = "(unat sz + 1023) div 1024"
  have inv: "cur s < nblk s" "unat (jxmem_start s) + nblk s * 1024 < 2 ^ 32"
    "unat (n_free s) = free_count s" using assms(1) by (simp_all add: malloc_inv_def)
  have "c + ?n < 2 ^ 32" using assms(5) nblk_bound [of s] by simp
  from markUnused_loop_Ok [OF this assms(6)] obtain s' where s':
    "markUnused_loop ?n (of_nat c) s = Ok s'" "n_free s' = n_free s + of_nat ?n"
    "n_blocks s' = n_blocks s" "current_block s' = current_block s"
    "jxmem_start s' = jxmem_start s" "bitmap s' = bitmap s"
    "\<forall>j<2^32. ublk s' j = (ublk s j \<and> \<not> (c \<le> j \<and> j < c + ?n))" by blast
  have nb: "nblk s' = nblk s" using s'(3) by (simp add: nblk_def)
  have u: "ublk s' j = (ublk s j \<and> \<not> (c \<le> j \<and> j < c + ?n))" if "j < nblk s" for j
    using s'(7) that nblk_bound [of s] by simp
  have fc: "free_count s' = free_count s + ?n"
    using assms(5,6) nb u by (intro free_count_unmark [of s' s c])
  have "free_count s' \<le> nblk s" unfolding free_count_def nb
    using length_filter_le [of "\<lambda>k. \<not> ublk s' k" "[0..<nblk s]"] by simp
  then have "unat (n_free s') = free_count s'"
    using unat_add_u4 [of "n_free s" "of_nat ?n"] fc inv(3) nblk_bound [of s] s'(2) by simp
  then have "malloc_inv s'" using inv s' nb by (simp add: malloc_inv_def cur_def)
  moreover have "jxfree addr sz s = Ok s'"
    using s'(1) jxfree_block [OF inv(2) assms(4,3)] size_blocks [OF assms(2)] by (simp add: jxfree_def Let_def)
  ultimately show ?thesis using s' u nb fc by blast
qed

lemma jxfree_unused_panics:
  assumes "malloc_inv s" "unat sz + 1023 < 2 ^ 32" "0 < unat sz" "unat addr = unat (jxmem_start s) + c * 1024"
    and "c < nblk s" "\<not> ublk s c"
  shows "jxfree addr sz s = Fault (SysPanic ''freed block was not marked as used!'')"
proof -
  have "0 < (unat sz + 1023) div 1024" using assms(3) by simp
  then obtain k where "(unat sz + 1023) div 1024 = Suc k" using gr0_implies_Suc by blast
  moreover have "unat (jxmem_start s) + nblk s * 1024 < 2 ^ 32" using assms(1) by (simp add: malloc_inv_def)
  ultimately show ?thesis
    using jxfree_block [of s c addr] size_blocks [OF assms(2)] assms(4-6)
    by (simp add: jxfree_def Let_def markUnused_eq ublk_def)
qed


lemma nblk_small: "malloc_inv s \<Longrightarrow> nblk s < 2 ^ 22"
  by (simp add: malloc_inv_def)

lemma jxmalloc_post:
  assumes "malloc_inv s" "unat sz + 1023 < 2 ^ 32" "jxmalloc fuel sz s = Ok (addr, s')"
  shows "\<exists>c. alloc_post s ((unat sz + 1023) div 1024) c addr s'" "malloc_inv s'"
proof -
  have "nblk s + unat (ALIGN_NEXT_BLOCK sz div BLOCKSIZE) \<le> 2 ^ 32"
    using nblk_small [OF assms(1)] assms(2) by (simp add: size_blocks)
  from jxmalloc_internal_post [OF assms(1) this, of fuel 1 addr s'] assms(2,3)
  show "\<exists>c. alloc_post s ((unat sz + 1023) div 1024) c addr s'" "malloc_inv s'"
    by (auto simp: jxmalloc_def jxmalloc_blocks size_blocks)
qed

lemma jxmalloc_returns:
  assumes "malloc_inv s" "unat sz + 1023 < 2 ^ 32" "0 < unat sz"
    and "free_run s b ((unat sz + 1023) div 1024)" "2 * nblk s + 1 < fuel"
  shows "is_ok (jxmalloc fuel sz s)"
proof -
  have "nblk s + unat (ALIGN_NEXT_BLOCK sz div BLOCKSIZE) \<le> 2 ^ 32"
    using nblk_small [OF assms(1)] assms(2) by (simp add: size_blocks)
  moreover have "0 < unat (ALIGN_NEXT_BLOCK sz div BLOCKSIZE)"
    using assms(2,3) by (simp add: size_blocks)
  ultimately show ?thesis unfolding jxmalloc_def jxmalloc_blocks
    using assms by (intro jxmalloc_internal_finds [of s b]) (auto simp: size_blocks malloc_inv_def)
qed

lemma alloc_then_free:
  assumes "malloc_inv s" "unat sz + 1023 < 2 ^ 32" "jxmalloc fuel sz s = Ok (addr, s')"
  shows "\<exists>s''. jxfree addr sz s' = Ok s'' \<and> malloc_inv s'' \<and> nblk s'' = nblk s \<and> jxmem_start s'' = jxmem_start s
    \<and> (\<forall>j<nblk s. ublk s'' j = ublk s j) \<and> free_count s'' = free_count s"
proof -
  let ?n = "(unat sz + 1023) div 1024"
  obtain c where c: "alloc_post s ?n c addr s'" and i: "malloc_inv s'" using jxmalloc_post [OF assms] by blast
  have f: "c < nblk s" "c + ?n \<le> nblk s" "\<forall>j<?n. \<not> ublk s (c + j)"
    using c by (auto simp: alloc_post_def free_run_def)
  have s': "nblk s' = nblk s" "jxmem_start s' = jxmem_start s"
    "unat addr = unat (jxmem_start s') + c * 1024"
    "\<forall>j<nblk s. ublk s' j = (ublk s j \<or> c \<le> j \<and> j < c + ?n)" "free_count s = free_count s' + ?n"
    using c by (simp_all add: alloc_post_def)
  have "\<forall>j<?n. ublk s' (c + j)" using s'(4) f(2) by auto
  from jxfree_post [OF i assms(2) s'(3) _ _ this] f s' obtain s'' where
    s'': "jxfree addr sz s' = Ok s''" "malloc_inv s''" "nblk s'' = nblk s" "jxmem_start s'' = jxmem_start s"
    "\<forall>j<nblk s. ublk s'' j = (ublk s' j \<and> \<not> (c \<le> j \<and> j < c + ?n))"
    "free_count s'' = free_count s' + ?n" by auto
  have "\<forall>j<nblk s. ublk s'' j = ublk s j"
  proof (intro allI impI)
    fix j assume j: "j < nblk s"
    have "\<not> ublk s j" if "c \<le> j" "j < c + ?n"
      using f(3) that by (metis le_add_diff_inverse nat_add_left_cancel_less)
    then show "ublk s'' j = ublk s j" using s''(5) s'(4) j by auto
  qed
  with s'' s'(5) show ?thesis by auto
qed

text \<open>A free but misaligned run at the pointer: \<^verbatim>\<open>isFree\<close> succeeds, \<^verbatim>\<open>nextFree\<close>
  does not move off a free block, so the state never changes again.\<close>

lemma malloc_loop_stuck:
  assumes "free_run s (cur s) (unat n)" "0 < unat n" "GETADDR s (current_block s) AND am \<noteq> 0"
  shows "malloc_loop fuel n am st s = Fault OutOfFuel"
proof -
  have f: "isFree n s = Ok (True, s)"
  proof -
    have c: "cur s < nblk s" "cur s + unat n < 2 ^ 32" "cur s + unat n \<le> nblk s"
      "\<And>j. j < unat n \<Longrightarrow> \<not> ublk s (cur s + j)"
      using assms(1) nblk_bound [of s] by (auto simp: free_run_def)
    from isFree_cases [OF c(1,2)] show ?thesis
    proof (elim disjE exE conjE)
      fix u assume u: "cur s \<le> u" "u < cur s + unat n" "ublk s u"
      then obtain j where "u = cur s + j" using le_Suc_ex by blast
      with u c(4) [of j] show ?thesis by simp
    qed (use c(3) in auto)
  qed
  have "\<not> block_used s (current_block s)"
    using assms(1,2) by (auto simp: free_run_def block_used_ublk cur_def)
  then have "nextFree (Suc (unat (n_blocks s))) (current_block s) s = Ok s" by (simp add: nextFree.simps)
  with f assms(3) show ?thesis by (induction fuel) (simp_all add: malloc_loop.simps)
qed

subsection \<open>Initialisation\<close>

lemma memset0_at: "memset0 a len m (a + p) = (if p < len then 0 else m (a + p))"
  by (simp add: memset0_def)

lemma jxmalloc_setup_inv:
  assumes "start \<le> stop" "8192 dvd unat (stop - start)" "start < stop"
    and "unat start + unat (stop - start) < 2 ^ 32"
  shows "malloc_inv (jxmalloc_setup start stop s)"
    and "nblk (jxmalloc_setup start stop s) = unat (stop - start) div 1024"
    and "j < unat (stop - start) div 1024 \<Longrightarrow> ublk (jxmalloc_setup start stop s) j
       = (j < (unat (stop - start) div 8192 + 1023) div 1024)"
proof -
  let ?N = "unat (stop - start) div 1024"
  let ?B = "(unat (stop - start) div 8192 + 1023) div 1024"
  define nb where "nb = (stop - start) div BLOCKSIZE"
  define s1 where "s1 = s\<lparr>jxmem_start := start, jxmem_end := stop, n_blocks := nb, n_free := nb,
     bitmap_size := drop_bit 3 nb, bitmap_size_blocks := ALIGN_NEXT_BLOCK (drop_bit 3 nb) div BLOCKSIZE,
     bitmap := start, current_block := 0, mem := memset0 start (drop_bit 3 nb) (mem s)\<rparr>"
  obtain q where q: "unat (stop - start) = 8192 * q" using assms(2) by (elim dvdE)
  have "0 < q" using assms(3) q by (metis diff_add_cancel gr0I mult_0_right add_0 unat_eq_zero less_irrefl)
  have unb: "unat nb = 8 * q" by (simp add: nb_def BLOCKSIZE_def unat_div_distrib q)
  have ubsz: "unat (drop_bit 3 nb) = q" by (simp add: drop_bit_eq_div unat_div_distrib unb)
  have q32: "q + 1023 < 2 ^ 32" using assms(4) q by simp
  have ubsb: "unat (ALIGN_NEXT_BLOCK (drop_bit 3 nb) div BLOCKSIZE) = ?B"
    using q32 by (simp add: size_blocks ubsz q)
  have n1: "nblk s1 = 8 * q" "cur s1 = 0" by (simp_all add: s1_def nblk_def cur_def unb)
  have free: "\<not> ublk s1 j" if "j < 8 * q" for j
  proof -
    have "j < 4294967296" using that q assms(4) by simp
    then have "drop_bit 3 (of_nat j) < drop_bit 3 nb"
      using that by (simp add: word_less_nat_alt ubsz) (simp add: drop_bit_eq_div unat_div_distrib)
    then show ?thesis
      by (simp add: ublk_def block_used_def bitmap_at_def s1_def memset0_at)
  qed
  define s2 where "s2 = markUsed_loop ?B s1"
  have res: "jxmalloc_setup start stop s = s2\<lparr>inited := True\<rparr>"
    by (simp add: jxmalloc_setup_def Let_def markUsed_def s2_def flip: nb_def s1_def ubsb)
  have B: "?B \<le> 8 * q" using \<open>0 < q\<close> q by simp
  have m: "ublk s2 j = (ublk s1 j \<or> j < ?B) \<and> cur s2 = ?B mod (8 * q)" if "j < 8 * q" for j
    using markUsed_loop_ublk [of s1 ?B j] n1 B \<open>0 < q\<close> that q assms(4) by (simp add: s2_def)
  have u: "ublk (jxmalloc_setup start stop s) j = ublk s2 j" for j
    unfolding res by (rule ublk_cong) simp_all
  have cc: "cur (jxmalloc_setup start stop s) = cur s2" and js: "jxmem_start (jxmalloc_setup start stop s) = start"
    unfolding res by (simp_all add: cur_def s2_def s1_def)
  have n: "nblk (jxmalloc_setup start stop s) = 8 * q"
    unfolding res by (simp add: nblk_def s2_def s1_def unb)
  have fc: "free_count s1 = free_count (jxmalloc_setup start stop s) + ?B"
    using n n1(1) B free m u by (intro free_count_mark [of _ _ 0]) auto
  have "free_count s1 = 8 * q" using free by (simp add: free_count_def n1(1))
  then have "unat (n_free (jxmalloc_setup start stop s)) = free_count (jxmalloc_setup start stop s)"
    using fc B unb unat_sub [of "of_nat ?B" nb] q assms(4)
    by (simp add: res s2_def s1_def word_le_nat_alt)
  then show "malloc_inv (jxmalloc_setup start stop s)"
    using n m [of 0] cc js \<open>0 < q\<close> assms(4) q by (simp add: malloc_inv_def)
  show "nblk (jxmalloc_setup start stop s) = ?N" using n q by simp
  show "j < ?N \<Longrightarrow> ublk (jxmalloc_setup start stop s) j = (j < ?B)"
    using u m free q by simp
qed


subsection \<open>The allocator as an interface\<close>

text \<open>What a client of the allocator may rely on.  \<open>owned s\<close> is the set of bytes in use.\<close>

fun alloc_seq :: "('z \<Rightarrow> 's \<Rightarrow> (nat \<times> 's) option) \<Rightarrow> 'z list \<Rightarrow> 's \<Rightarrow> ((nat \<times> 'z) list \<times> 's) option" where
  "alloc_seq alloc [] s = Some ([], s)"
| "alloc_seq alloc (z # zs) s = (case alloc z s of None \<Rightarrow> None
     | Some (a, s') \<Rightarrow> (case alloc_seq alloc zs s' of None \<Rightarrow> None
        | Some (rs, t) \<Rightarrow> Some ((a, z) # rs, t)))"

definition region :: "('z \<Rightarrow> nat) \<Rightarrow> nat \<times> 'z \<Rightarrow> nat set" where
  "region extent r = {fst r..<fst r + extent (snd r)}"

locale fresh_allocator =
  fixes alloc :: "'z \<Rightarrow> 's \<Rightarrow> (nat \<times> 's) option"
    and extent :: "'z \<Rightarrow> nat"
    and owned :: "'s \<Rightarrow> nat set"
    and good :: "'s \<Rightarrow> bool"
    and fits :: "'z \<Rightarrow> bool"
  assumes alloc_good: "good s \<Longrightarrow> fits z \<Longrightarrow> alloc z s = Some (a, s') \<Longrightarrow> good s'"
    and alloc_fresh: "good s \<Longrightarrow> fits z \<Longrightarrow> alloc z s = Some (a, s') \<Longrightarrow> {a..<a + extent z} \<inter> owned s = {}"
    and alloc_owned: "good s \<Longrightarrow> fits z \<Longrightarrow> alloc z s = Some (a, s') \<Longrightarrow> owned s' = owned s \<union> {a..<a + extent z}"
begin

lemma alloc_seq_spec:
  "good s \<Longrightarrow> list_all fits zs \<Longrightarrow> alloc_seq alloc zs s = Some (rs, t) \<Longrightarrow>
     good t \<and> owned t = owned s \<union> (\<Union>r\<in>set rs. region extent r) \<and> (\<forall>r\<in>set rs. region extent r \<inter> owned s = {})
     \<and> sorted_wrt (\<lambda>r r'. region extent r \<inter> region extent r' = {}) rs"
proof (induction zs arbitrary: s rs)
  case (Cons z zs)
  from Cons.prems(3) obtain a s' rs' where a: "alloc z s = Some (a, s')"
    and r: "alloc_seq alloc zs s' = Some (rs', t)" and rs: "rs = (a, z) # rs'"
    by (auto split: option.splits)
  have fz: "fits z" "list_all fits zs" using Cons.prems(2) by auto
  note laws = alloc_good [OF Cons.prems(1) fz(1) a] alloc_fresh [OF Cons.prems(1) fz(1) a]
    alloc_owned [OF Cons.prems(1) fz(1) a]
  have b: "region extent (a, z) = {a..<a + extent z}" by (simp add: region_def)
  from Cons.IH [OF laws(1) fz(2) r] laws(2,3) [folded b] show ?case
    unfolding rs by (simp add: Int_Un_distrib) blast
qed simp

end

text \<open>An allocator that takes regions back: releasing undoes the allocation.\<close>

locale region_allocator = fresh_allocator +
  fixes release :: "nat \<Rightarrow> 'z \<Rightarrow> 's \<Rightarrow> 's option"
  assumes release_inverse: "good s \<Longrightarrow> fits z \<Longrightarrow> alloc z s = Some (a, s') \<Longrightarrow>
       \<exists>s''. release a z s' = Some s'' \<and> good s'' \<and> owned s'' = owned s"
begin

lemma alloc_release_seq:
  assumes "good s" "fits z" "alloc z s = Some (a, s')" "list_all fits zs"
  shows "\<exists>s''. release a z s' = Some s'' \<and> good s'' \<and> (\<forall>rs t. alloc_seq alloc zs s'' = Some (rs, t) \<longrightarrow>
    (\<forall>r\<in>set rs. region extent r \<inter> owned s = {}))"
  using release_inverse [OF assms(1-3)] alloc_seq_spec [OF _ assms(4)] by metis

end

text \<open>Bytes in use: those of the blocks whose bit is set.\<close>

definition owned_bytes :: "malloc_state \<Rightarrow> nat set" where
  "owned_bytes s = {x. \<exists>j<nblk s. ublk s j \<and> x - unat (jxmem_start s) \<in> {j * 1024..<(j + 1) * 1024}
     \<and> unat (jxmem_start s) \<le> x}"

definition alloc_op :: "u4 \<Rightarrow> malloc_state \<Rightarrow> (nat \<times> malloc_state) option" where
  "alloc_op sz s = (case jxmalloc (2 * nblk s + 2) sz s of
     Ok (a, s') \<Rightarrow> Some (unat a, s') | Fault _ \<Rightarrow> None)"

definition release_op :: "nat \<Rightarrow> u4 \<Rightarrow> malloc_state \<Rightarrow> malloc_state option" where
  "release_op a sz s = (case jxfree (of_nat a) sz s of Ok s' \<Rightarrow> Some s' | Fault _ \<Rightarrow> None)"

definition block_extent :: "u4 \<Rightarrow> nat" where
  "block_extent sz = (unat sz + 1023) div 1024 * 1024"

lemma owned_bytes_iff:
  "x \<in> owned_bytes s \<longleftrightarrow> unat (jxmem_start s) \<le> x \<and> (x - unat (jxmem_start s)) div 1024 < nblk s
     \<and> ublk s ((x - unat (jxmem_start s)) div 1024)"
proof -
  have "y \<in> {j * 1024..<(j + 1) * 1024} \<longleftrightarrow> y div 1024 = j" for y j :: nat by auto
  then show ?thesis by (auto simp: owned_bytes_def)
qed

lemma run_bytes:
  "x \<in> {b + c * 1024..<b + c * 1024 + n * 1024} \<longleftrightarrow> b \<le> x \<and> c \<le> (x - b) div 1024 \<and> (x - b) div 1024 < c + n"
  for x b c n :: nat
proof -
  have "y \<in> {c * 1024..<c * 1024 + n * 1024} \<longleftrightarrow> c \<le> y div 1024 \<and> y div 1024 < c + n" for y
    by (auto simp: less_eq_div_iff_mult_less_eq div_less_iff_less_mult algebra_simps)
  from this [of "x - b"] show ?thesis by auto
qed

lemma alloc_post_bytes:
  assumes "alloc_post s n c addr s'"
  shows "{unat addr..<unat addr + n * 1024} \<inter> owned_bytes s = {}"
    and "owned_bytes s' = owned_bytes s \<union> {unat addr..<unat addr + n * 1024}"
proof -
  let ?b = "unat (jxmem_start s)"
  have p: "unat addr = ?b + c * 1024" "c + n \<le> nblk s" "\<And>j. j < n \<Longrightarrow> \<not> ublk s (c + j)"
    "nblk s' = nblk s" "jxmem_start s' = jxmem_start s"
    "\<And>j. j < nblk s \<Longrightarrow> ublk s' j = (ublk s j \<or> c \<le> j \<and> j < c + n)"
    using assms by (auto simp: alloc_post_def free_run_def)
  have r: "x \<in> {unat addr..<unat addr + n * 1024} \<longleftrightarrow> ?b \<le> x \<and> c \<le> (x - ?b) div 1024
      \<and> (x - ?b) div 1024 < c + n" for x
    unfolding p(1) by (rule run_bytes)
  have nu: "\<not> ublk s j" if "c \<le> j" "j < c + n" for j
    using p(3) [of "j - c"] that by simp
  show "{unat addr..<unat addr + n * 1024} \<inter> owned_bytes s = {}"
    using nu by (simp only: disjoint_iff r owned_bytes_iff) blast
  show "owned_bytes s' = owned_bytes s \<union> {unat addr..<unat addr + n * 1024}"
    using p(2,6) unfolding set_eq_iff Un_iff r owned_bytes_iff p(4,5) by (meson less_le_trans)
qed

lemma alloc_op_cases:
  assumes "malloc_inv s" "unat sz + 1023 < 2 ^ 32" "alloc_op sz s = Some (a, s')"
  obtains addr c where "jxmalloc (2 * nblk s + 2) sz s = Ok (addr, s')" "a = unat addr"
    "alloc_post s ((unat sz + 1023) div 1024) c addr s'" "malloc_inv s'"
proof -
  from assms(3) obtain addr where a: "jxmalloc (2 * nblk s + 2) sz s = Ok (addr, s')" "a = unat addr"
    unfolding alloc_op_def by (auto split: res.splits)
  obtain c where c: "alloc_post s ((unat sz + 1023) div 1024) c addr s'"
    using jxmalloc_post(1) [OF assms(1,2) a(1)] by (elim exE)
  show thesis by (rule that [OF a c jxmalloc_post(2) [OF assms(1,2) a(1)]])
qed

interpretation jx: region_allocator alloc_op block_extent owned_bytes malloc_inv
  "\<lambda>sz. unat sz + 1023 < 2 ^ 32" release_op
proof (unfold_locales, goal_cases)
  case (1 s z a s')
  show ?case by (rule alloc_op_cases [OF 1])
next
  case (2 s z a s')
  show ?case unfolding block_extent_def
    by (rule alloc_op_cases [OF 2]) (simp only: alloc_post_bytes(1))
next
  case (3 s z a s')
  show ?case unfolding block_extent_def
    by (rule alloc_op_cases [OF 3]) (simp only: alloc_post_bytes(2))
next
  case (4 s z a s')
  obtain addr where c: "a = unat addr" "jxmalloc (2 * nblk s + 2) z s = Ok (addr, s')"
    by (rule alloc_op_cases [OF 4])
  from alloc_then_free [OF 4(1,2) c(2)] obtain s'' where s'': "jxfree addr z s' = Ok s''" "malloc_inv s''"
    "nblk s'' = nblk s" "jxmem_start s'' = jxmem_start s" "\<forall>j<nblk s. ublk s'' j = ublk s j" by blast
  have "owned_bytes s'' = owned_bytes s"
    using s''(5) unfolding set_eq_iff owned_bytes_iff s''(3,4) by blast
  with s'' c(1) show ?case by (simp add: release_op_def)
qed

text \<open>Bitmap bytes and the blocks they describe.\<close>

lemma pred_div_8: "(m - 1) div 8 < m div 8 \<Longrightarrow> 8 dvd m" for m :: nat
  by (cases m) (simp_all add: div_Suc mod_eq_0_iff_dvd split: if_splits)

lemma div_8_less: "8 dvd m \<Longrightarrow> k < m \<Longrightarrow> k div 8 < m div 8" for m :: nat
  by (elim dvdE) (simp add: less_mult_imp_div_less mult.commute)

lemma bitmap_bytes:
  "(\<forall>b<n_blocks s. drop_bit 3 b < drop_bit 3 (n_blocks s)) \<longleftrightarrow> 8 dvd nblk s"
proof -
  have d: "drop_bit 3 x < drop_bit 3 y \<longleftrightarrow> unat x div 8 < unat y div 8" for x y :: u4
    by (simp add: word_less_nat_alt drop_bit_eq_div unat_div_distrib)
  show ?thesis unfolding d nblk_def
  proof
    assume a: "\<forall>b<n_blocks s. unat b div 8 < unat (n_blocks s) div 8"
    show "8 dvd unat (n_blocks s)"
    proof (cases "n_blocks s = 0")
      case False
      then have "unat (n_blocks s - 1) = unat (n_blocks s) - 1" "n_blocks s - 1 < n_blocks s"
        by (simp_all add: unat_minus_one word_less_nat_alt unat_gt_0)
      with a have "(unat (n_blocks s) - 1) div 8 < unat (n_blocks s) div 8" by metis
      then show ?thesis by (rule pred_div_8)
    qed simp
  next
    assume "8 dvd unat (n_blocks s)"
    then show "\<forall>b<n_blocks s. unat b div 8 < unat (n_blocks s) div 8"
      by (auto simp: word_less_nat_alt intro: div_8_less)
  qed
qed


subsection \<open>When the search never ends\<close>

lemma isFree_over:
  assumes "cur s < nblk s" "nblk s < cur s + unat n" "cur s + unat n < 2 ^ 32" "0 < cur s"
  shows "isFree n s = Ok (False, s\<lparr>current_block := 0\<rparr>)"
  using isFree_cases [OF assms(1,3)] assms(2,4) by auto

lemma isFree_hit:
  assumes "cur s < nblk s" "cur s + unat n \<le> nblk s" "cur s \<le> u" "u < cur s + unat n"
    and only: "\<forall>j<nblk s. ublk s j = (j = u)"
  shows "isFree n s = Ok (False, s\<lparr>current_block := of_nat (Suc u mod nblk s)\<rparr>)"
proof -
  have b: "cur s + unat n < 2 ^ 32" using assms(2) nblk_bound [of s] by simp
  show ?thesis using isFree_cases [OF assms(1) b]
  proof (elim disjE exE conjE)
    assume "\<forall>j<unat n. \<not> ublk s (cur s + j)"
    then have "\<not> ublk s u" using assms(3,4) by (metis le_add_diff_inverse nat_add_left_cancel_less)
    with assms(2,4) only show ?thesis by auto
  next
    fix v assume "ublk s v" "v < cur s + unat n"
      "isFree n s = Ok (False, s\<lparr>current_block := of_nat (Suc v mod nblk s)\<rparr>)"
    moreover have "v < nblk s" using calculation(2) assms(2) by simp
    ultimately show ?thesis using only by simp
  qed (use assms(2) in auto)
qed

lemma nextFree_stay: "\<not> ublk s (cur s) \<Longrightarrow> nextFree (Suc k) dc s = Ok s"
  by (simp add: nextFree.simps block_used_ublk cur_def)

text \<open>One block in use, more blocks wanted than either side of it holds: the pointer
  oscillates between block 0 and the block after the used one.\<close>

lemma malloc_loop_oscillates:
  assumes only: "\<forall>j<nblk s. ublk s j = (j = u)" and u: "Suc u < nblk s" "u < unat n" "0 < u"
    and n: "unat n \<le> nblk s" "nblk s < Suc u + unat n" and big: "nblk s + unat n \<le> 2 ^ 32"
    and st: "st \<noteq> 0" "unat st \<noteq> Suc u"
  shows "malloc_loop fuel n am st (s\<lparr>current_block := of_nat (Suc u)\<rparr>) = Fault OutOfFuel"
    and "malloc_loop fuel n am st (s\<lparr>current_block := 0\<rparr>) = Fault OutOfFuel"
proof -
  let ?a = "s\<lparr>current_block := of_nat (Suc u)\<rparr>" and ?z = "s\<lparr>current_block := 0\<rparr>"
  have c: "cur ?a = Suc u" "cur ?z = 0" using u(1) nblk_bound [of s] by (simp_all del: of_nat_Suc)
  have nst: "of_nat (Suc u) \<noteq> st"
    using st(2) u(1) nblk_bound [of s] by (metis c(1) cur_simps(3))
  have fa: "isFree n ?a = Ok (False, ?z)" using isFree_over [of ?a n] c u n big by simp
  have fz: "isFree n ?z = Ok (False, ?a)" using isFree_hit [of ?z n u] c u n only by simp
  have na: "nextFree (Suc k) dc ?a = Ok ?a" and nz: "nextFree (Suc k) dc ?z = Ok ?z" for k dc
    using c u only by (simp_all add: nextFree_stay)
  have "malloc_loop fuel n am st ?a = Fault OutOfFuel \<and> malloc_loop fuel n am st ?z = Fault OutOfFuel"
  proof (induction fuel)
    case (Suc fuel)
    have "malloc_loop (Suc fuel) n am st ?a = malloc_loop fuel n am st ?z"
      using fa nz st(1) by (intro malloc_loop_step) auto
    moreover have "malloc_loop (Suc fuel) n am st ?z = malloc_loop fuel n am st ?a"
      using fz na nst by (intro malloc_loop_step) (auto simp del: of_nat_Suc)
    ultimately show ?case using Suc by simp
  qed simp
  then show "malloc_loop fuel n am st ?a = Fault OutOfFuel" "malloc_loop fuel n am st ?z = Fault OutOfFuel" by simp_all
qed

lemma jxmalloc_internal_oscillates:
  assumes only: "\<forall>j<nblk s. ublk s j = (j = u)" and u: "Suc u < nblk s" "u < unat n"
    and start: "0 < cur s" "cur s \<le> u"
    and n: "unat n \<le> nblk s" "nblk s < Suc u + unat n" and big: "nblk s + unat n \<le> 2 ^ 32"
  shows "jxmalloc_internal fuel n align s = Fault OutOfFuel"
proof (cases fuel)
  case 0
  then show ?thesis by (simp add: jxmalloc_internal_def)
next
  case (Suc k)
  let ?a = "s\<lparr>current_block := of_nat (Suc u)\<rparr>" and ?st = "current_block s"
  have st: "?st \<noteq> 0" "unat ?st \<noteq> Suc u" using start by (auto simp: cur_def)
  have c: "cur s < nblk s" using start u by simp
  note osc = malloc_loop_oscillates [OF only u(1,2) _ n big st]
  have z: "malloc_loop k n (align - 1) ?st (s\<lparr>current_block := 0\<rparr>) = Fault OutOfFuel"
    and a: "malloc_loop k n (align - 1) ?st ?a = Fault OutOfFuel"
    using osc [of k "align - 1"] start by simp_all
  have ca: "cur ?a = Suc u" using u(1) nblk_bound [of s] by (simp del: of_nat_Suc)
  show ?thesis
  proof (cases "cur s + unat n \<le> nblk s")
    case True
    then have "isFree n s = Ok (False, ?a)" using isFree_hit [of s n u] c start u only by simp
    then have "malloc_loop (Suc k) n (align - 1) ?st s = malloc_loop k n (align - 1) ?st ?a"
      using ca u st(2) only by (intro malloc_loop_step [where ?s1.0 = ?a]) (auto simp: nextFree_stay simp del: of_nat_Suc)
    then show ?thesis using a Suc by (simp add: jxmalloc_internal_def)
  next
    case False
    then have "isFree n s = Ok (False, s\<lparr>current_block := 0\<rparr>)" using isFree_over [of s n] c start big by simp
    then have "malloc_loop (Suc k) n (align - 1) ?st s
        = malloc_loop k n (align - 1) ?st (s\<lparr>current_block := 0\<rparr>)"
      using u start st(1) only by (intro malloc_loop_step) (auto simp: nextFree_stay)
    then show ?thesis using z Suc by (simp add: jxmalloc_internal_def)
  qed
qed

subsection \<open>Properties\<close>

text \<open>C1: a successful \<^verbatim>\<open>jxmalloc\<close> returns the address of a run of blocks that were all
  free, marks exactly that run as used, leaves the state of every other block alone and
  lowers the free count by the length of the run.\<close>

theorem jxmalloc_correct:
  assumes "malloc_inv s" "unat sz + 1023 < 2 ^ 32" "jxmalloc fuel sz s = Ok (addr, s')"
  shows "malloc_inv s' \<and> (\<exists>c. free_run s c ((unat sz + 1023) div 1024)
    \<and> unat addr = unat (jxmem_start s) + c * 1024
    \<and> (\<forall>j<nblk s. ublk s' j = (ublk s j \<or> c \<le> j \<and> j < c + (unat sz + 1023) div 1024))
    \<and> free_count s = free_count s' + (unat sz + 1023) div 1024)"
  using jxmalloc_post [OF assms] by (auto simp: alloc_post_def)

definition blank_state :: malloc_state where
  "blank_state = \<lparr>jxmem_start = 0, jxmem_end = 0, n_blocks = 0, n_free = 0, current_block = 0,
     bitmap = 0, bitmap_size = 0, bitmap_size_blocks = 0, inited = False, mem = (\<lambda>_. 0)\<rparr>"

text \<open>Sixteen blocks at 1 MB, the first of which holds the bitmap.\<close>

definition small_pool :: malloc_state where
  "small_pool = jxmalloc_setup 0x100000 0x104000 blank_state"

lemma small_pool_facts:
  "malloc_inv small_pool" "nblk small_pool = 16" "j < 16 \<Longrightarrow> ublk small_pool j = (j < 1)"
  using jxmalloc_setup_inv [where start = "0x100000" and stop = "0x104000" and s = blank_state]
  by (simp_all add: small_pool_def)

lemma small_pool_run: "free_run small_pool 1 3"
  by (auto simp: free_run_def small_pool_facts)

lemma small_pool_alloc: "\<exists>addr s'. jxmalloc 40 3000 small_pool = Ok (addr, s')"
  using jxmalloc_returns [of small_pool 3000 1 40] small_pool_facts small_pool_run
  by (auto simp: is_ok_iff)

theorem jxmalloc_correct_witness:
  "\<exists>addr s' c. jxmalloc 40 3000 small_pool = Ok (addr, s') \<and> free_run small_pool c 3
     \<and> free_count small_pool = free_count s' + 3"
proof -
  obtain addr s' where a: "jxmalloc 40 3000 small_pool = Ok (addr, s')" using small_pool_alloc by blast
  from jxmalloc_correct [OF small_pool_facts(1) _ a] a show ?thesis by auto
qed

text \<open>C13: when the free blocks contain a run that is long enough, \<^verbatim>\<open>jxmalloc\<close> does
  return: the search finds a run, wherever the rotating pointer stands.\<close>

theorem jxmalloc_total:
  assumes "malloc_inv s" "unat sz + 1023 < 2 ^ 32" "0 < unat sz"
    and "free_run s b ((unat sz + 1023) div 1024)" "2 * nblk s + 1 < fuel"
  shows "\<exists>addr s'. jxmalloc fuel sz s = Ok (addr, s')"
  using jxmalloc_returns [OF assms] by (auto simp: is_ok_iff)

theorem jxmalloc_total_witness: "\<exists>addr s'. jxmalloc 40 3000 small_pool = Ok (addr, s')"
  using jxmalloc_total [of small_pool 3000 1 40] small_pool_facts small_pool_run by simp

text \<open>C19: releasing what \<^verbatim>\<open>jxmalloc\<close> returned succeeds and restores the state of
  every block and the free count.\<close>

theorem jxmalloc_jxfree_roundtrip:
  assumes "malloc_inv s" "unat sz + 1023 < 2 ^ 32" "jxmalloc fuel sz s = Ok (addr, s')"
  shows "\<exists>s''. jxfree addr sz s' = Ok s'' \<and> malloc_inv s''
    \<and> (\<forall>j<nblk s. ublk s'' j = ublk s j) \<and> free_count s'' = free_count s"
  using alloc_then_free [OF assms] by blast

theorem jxmalloc_jxfree_roundtrip_witness:
  "\<exists>addr s' s''. jxmalloc 40 3000 small_pool = Ok (addr, s') \<and> jxfree addr 3000 s' = Ok s''
     \<and> free_count s'' = free_count small_pool"
proof -
  obtain addr s' where a: "jxmalloc 40 3000 small_pool = Ok (addr, s')" using small_pool_alloc by blast
  from jxmalloc_jxfree_roundtrip [OF small_pool_facts(1) _ a] a show ?thesis by auto
qed

text \<open>C24: releasing a region whose first block is not in use stops the kernel, so a
  double free never goes unnoticed.\<close>

theorem jxfree_detects_double_free:
  assumes "malloc_inv s" "unat sz + 1023 < 2 ^ 32" "0 < unat sz"
    and "unat addr = unat (jxmem_start s) + c * 1024" "c < nblk s" "\<not> ublk s c"
  shows "jxfree addr sz s = Fault (SysPanic ''freed block was not marked as used!'')"
  by (rule jxfree_unused_panics [OF assms])

theorem jxfree_detects_double_free_witness:
  "jxfree 0x100800 1024 small_pool = Fault (SysPanic ''freed block was not marked as used!'')"
proof (rule jxfree_detects_double_free [OF small_pool_facts(1), of 1024 "0x100800" 2])
  show "unat (0x100800 :: u4) = unat (jxmem_start small_pool) + 2 * 1024"
    by (simp add: small_pool_def jxmalloc_setup_def Let_def markUsed_def)
qed (simp_all add: small_pool_facts)

text \<open>C20: any sequence of allocations yields regions that are disjoint from each other
  and from everything that was in use before.\<close>

theorem jxmalloc_sequence_disjoint:
  assumes "malloc_inv s" "list_all (\<lambda>sz. unat sz + 1023 < 2 ^ 32) zs"
    and "alloc_seq alloc_op zs s = Some (rs, t)"
  shows "sorted_wrt (\<lambda>r r'. region block_extent r \<inter> region block_extent r' = {}) rs
    \<and> (\<forall>r\<in>set rs. region block_extent r \<inter> owned_bytes s = {})
    \<and> owned_bytes t = owned_bytes s \<union> (\<Union>r\<in>set rs. region block_extent r) \<and> malloc_inv t"
  using jx.alloc_seq_spec [OF assms] by simp

theorem jxmalloc_sequence_disjoint_witness:
  "\<exists>rs t. alloc_seq alloc_op [3000] small_pool = Some (rs, t) \<and> malloc_inv t"
proof -
  obtain addr s' where a: "jxmalloc (2 * nblk small_pool + 2) 3000 small_pool = Ok (addr, s')"
    using jxmalloc_returns [of small_pool 3000 1 "2 * nblk small_pool + 2"] small_pool_facts small_pool_run
    by (auto simp: is_ok_iff)
  have "alloc_seq alloc_op [3000] small_pool = Some ([(unat addr, 3000)], s')"
    unfolding alloc_seq.simps alloc_op_def a by simp
  from jxmalloc_sequence_disjoint [OF small_pool_facts(1) _ this] this show ?thesis by simp
qed

text \<open>C25: initialisation over a whole number of bitmap bytes establishes the invariant;
  exactly the blocks that hold the bitmap are in use.\<close>

theorem jxmalloc_setup_establishes_inv:
  assumes "start < stop" "8192 dvd unat (stop - start)" "unat start + unat (stop - start) < 2 ^ 32"
  shows "malloc_inv (jxmalloc_setup start stop s)
    \<and> nblk (jxmalloc_setup start stop s) = unat (stop - start) div 1024
    \<and> (\<forall>j<unat (stop - start) div 1024. ublk (jxmalloc_setup start stop s) j
         = (j < (unat (stop - start) div 8192 + 1023) div 1024))"
  using jxmalloc_setup_inv [OF order.strict_implies_order [OF assms(1)] assms(2,1,3)] by blast

theorem jxmalloc_setup_establishes_inv_witness:
  "malloc_inv (jxmalloc_setup 0x100000 0x104000 blank_state)"
  using jxmalloc_setup_establishes_inv [of "0x100000" "0x104000" blank_state] by simp

text \<open>The bitmap byte of every block lies inside the \<^verbatim>\<open>bitmap_size\<close> bytes that
  initialisation cleared if and only if the number of blocks is a multiple of 8; the
  truncating \<^verbatim>\<open>n_blocks >> 3\<close> leaves the last blocks' bits outside otherwise.\<close>

theorem bitmap_covers_iff:
  "(\<forall>b<n_blocks (jxmalloc_setup start stop s).
      drop_bit 3 b < bitmap_size (jxmalloc_setup start stop s))
   \<longleftrightarrow> 8 dvd nblk (jxmalloc_setup start stop s)"
proof -
  have "bitmap_size (markUsed_loop k s1) = bitmap_size s1" for k s1
    by (induction k arbitrary: s1) (simp_all add: advance_def markCurrentUsed_def Let_def bitmap_set_def)
  then have "bitmap_size (jxmalloc_setup start stop s) = drop_bit 3 (n_blocks (jxmalloc_setup start stop s))"
    by (simp add: jxmalloc_setup_def Let_def markUsed_def)
  then show ?thesis using bitmap_bytes [of "jxmalloc_setup start stop s"] by simp
qed

theorem bitmap_covers_iff_witness:
  "8 dvd nblk small_pool \<and> drop_bit 3 (15 :: u4) < bitmap_size small_pool"
proof -
  have "15 < n_blocks small_pool" using small_pool_facts(2) by (simp add: nblk_def word_less_nat_alt)
  moreover have "8 dvd nblk small_pool" using small_pool_facts(2) by simp
  ultimately show ?thesis
    using bitmap_covers_iff [of "0x100000" "0x104000" blank_state, folded small_pool_def] by blast
qed

text \<open>C26: a request for n aligned blocks that is made while \<^verbatim>\<open>current_block\<close> stands at the start of a run of
  at least n free blocks whose address is misaligned never returns: \<^verbatim>\<open>nextFree\<close> does not leave a free
  block, so \<^verbatim>\<open>jxmalloc_align\<close> repeats the same test forever, even when an aligned run exists elsewhere or
  inside this one.\<close>

theorem jxmalloc_align_diverges:
  assumes "free_run s (cur s) (unat n)" "0 < unat n"
    and "GETADDR s (current_block s) AND (align - 1) \<noteq> 0"
  shows "\<forall>fuel. jxmalloc_align fuel n align s = Fault OutOfFuel"
  using malloc_loop_stuck [OF assms] by (simp add: jxmalloc_align_def jxmalloc_internal_def)

lemma small_pool_cur:
  "current_block small_pool = 1" "cur small_pool = 1" "jxmem_start small_pool = 0x100000"
proof -
  show "current_block small_pool = 1" by code_simp
  then show "cur small_pool = 1" by (simp add: cur_def)
  show "jxmem_start small_pool = 0x100000"
    by (simp add: small_pool_def jxmalloc_setup_def Let_def markUsed_def)
qed

theorem jxmalloc_align_diverges_witness:
  "\<forall>fuel. jxmalloc_align fuel 3 4096 small_pool = Fault OutOfFuel"
proof (rule jxmalloc_align_diverges)
  show "free_run small_pool (cur small_pool) (unat (3 :: u4))"
    using small_pool_run by (simp add: small_pool_cur)
  show "GETADDR small_pool (current_block small_pool) AND (4096 - 1) \<noteq> 0"
    by (simp add: GETADDR_def small_pool_cur BLOCKSIZE_def)
qed simp

text \<open>When no run is long enough the search may also loop forever instead of
  reporting that memory is exhausted: the end test only compares the pointer with
  its start value, and the jumps of \<^verbatim>\<open>isFree\<close> can step over it.\<close>

theorem jxmalloc_exhaustion_diverges:
  assumes "\<forall>j<nblk s. ublk s j = (j = u)" "Suc u < nblk s" "u < unat n"
    and "0 < cur s" "cur s \<le> u"
    and "unat n \<le> nblk s" "nblk s < Suc u + unat n" "nblk s + unat n \<le> 2 ^ 32"
  shows "\<forall>fuel. jxmalloc_internal fuel n align s = Fault OutOfFuel"
  using jxmalloc_internal_oscillates [OF assms] by blast

definition split_pool :: malloc_state where
  "split_pool = \<lparr>jxmem_start = 0x100000, jxmem_end = 0x102000, n_blocks = 8, n_free = 7,
     current_block = 1, bitmap = 0x100000, bitmap_size = 1, bitmap_size_blocks = 1, inited = True,
     mem = (\<lambda>_. 0)(0x100000 := 4)\<rparr>"

theorem jxmalloc_exhaustion_diverges_witness:
  "\<forall>fuel. jxmalloc_internal fuel 6 1 split_pool = Fault OutOfFuel"
proof (rule jxmalloc_exhaustion_diverges [of _ 2])
  have "list_all (\<lambda>j. ublk split_pool j = (j = 2)) [0..<8]" by code_simp
  then show "\<forall>j<nblk split_pool. ublk split_pool j = (j = 2)"
    by (simp add: list_all_iff split_pool_def nblk_def)
qed (simp_all add: split_pool_def nblk_def cur_def)

end
