(* ===== verification/Codemem.thy ===== *)
theory Codemem
  imports Jxmalloc
begin

section \<open>Code memory of a domain (core/malloc.c)\<close>

text \<open>
  Class descriptors, method tables, stack maps and native code of a domain are taken
  from its code memory: up to 128 fragments of \<^verbatim>\<open>code_bytes\<close> bytes each,
  requested from the block allocator when the current one is full, and used up front to
  back.  The sizes and field offsets of the C structures come from the compiler, so
  they are the fields of the parameter record \<open>abi\<close>.

  The lemmas show that what \<^verbatim>\<open>malloc_code\<close> hands out lies inside a fragment and is
  disjoint from everything handed out before: the code memory is another provider of
  the interface \<open>fresh_allocator\<close>, built on the block allocator's facts.
\<close>

unbundle bit_operations_syntax

subsection \<open>State\<close>

definition CODE_FRAGMENTS :: nat where "CODE_FRAGMENTS = 128"

record code_area =
  code_bytes :: u4
  cur_code :: int
  code :: "u4 list"
  codeBorder :: "u4 list"
  codeTop :: "u4 list"

type_synonym code_state = "code_area \<times> malloc_state"

text \<open>A fresh fragment becomes fragment \<open>c\<close>: the four assignments after \<^verbatim>\<open>jxmalloc\<close>.\<close>

definition new_fragment :: "nat \<Rightarrow> u4 \<Rightarrow> code_area \<Rightarrow> code_area" where
  "new_fragment c a d = d\<lparr>code := (code d)[c := a], codeBorder := (codeBorder d)[c := a + code_bytes d],
     codeTop := (codeTop d)[c := a], cur_code := int c\<rparr>"

definition grow_code :: "nat \<Rightarrow> nat \<Rightarrow> code_state \<Rightarrow> code_state res" where
  "grow_code fuel c ds =
     rbind (jxmalloc fuel (code_bytes (fst ds)) (snd ds)) (\<lambda>(a, s). Ok (new_fragment c a (fst ds), s))"

text \<open>\<^verbatim>\<open>data = codeTop[c]; codeTop[c] = nextObj;\<close>\<close>

definition take_code :: "nat \<Rightarrow> u4 \<Rightarrow> code_state \<Rightarrow> u4 \<times> code_state" where
  "take_code c sz ds = (codeTop (fst ds) ! c,
     ((fst ds)\<lparr>codeTop := (codeTop (fst ds))[c := codeTop (fst ds) ! c + sz]\<rparr>, snd ds))"

definition code_full :: "nat \<Rightarrow> u4 \<Rightarrow> code_state \<Rightarrow> bool" where
  "code_full c sz ds = (codeTop (fst ds) ! c + sz > codeBorder (fst ds) ! c)"

definition malloc_code :: "nat \<Rightarrow> u4 \<Rightarrow> code_state \<Rightarrow> (u4 \<times> code_state) res" where
  "malloc_code fuel sz ds =
     rbind (if cur_code (fst ds) = -1 then grow_code fuel 0 ds else Ok ds) (\<lambda>ds1.
       let c = nat (cur_code (fst ds1))
       in if code_full c sz ds1
          then if Suc c = CODE_FRAGMENTS then Fault (SysPanic ''NO MORE CODE'')
               else rbind (grow_code fuel (Suc c) ds1) (\<lambda>ds2.
                 if code_full (Suc c) sz ds2 then Fault (SysPanic ''can`t alloc %i byte'')
                 else Ok (take_code (Suc c) sz ds2))
          else Ok (take_code c sz ds1))"

subsection \<open>The typed allocation routines\<close>

record abi =
  sizeof_LibDesc :: u4
  sizeof_ClassDesc :: u4
  sizeof_PrimitiveClassDesc :: u4
  sizeof_ArrayClassDesc :: u4
  sizeof_Class :: u4
  sizeof_MethodDesc :: u4
  sizeof_ExceptionDesc :: u4
  sizeof_FieldDesc :: u4
  sizeof_SharedLibDesc :: u4
  sizeof_ByteCodeDesc :: u4
  sizeof_SourceLineDesc :: u4
  sizeof_meta :: u4
  sizeof_nameValue :: u4
  off_ClassDesc_name :: u4
  off_PrimitiveClassDesc_name :: u4
  off_ArrayClassDesc_name :: u4
  off_ArrayClassDesc_vtable :: u4
  off_SharedLibDesc_name :: u4
  off_SharedLibDesc_id :: u4
  off_nameValue_name :: u4

text \<open>\<^verbatim>\<open>memset(m, 0, len)\<close> and a pointer store through the freshly allocated address.\<close>

definition zero_mem :: "u4 \<Rightarrow> u4 \<Rightarrow> code_state \<Rightarrow> code_state" where
  "zero_mem a len ds = (fst ds, (snd ds)\<lparr>mem := memset0 a len (mem (snd ds))\<rparr>)"

definition store_ptr :: "u4 \<Rightarrow> u4 \<Rightarrow> code_state \<Rightarrow> code_state" where
  "store_ptr a v ds = (fst ds, (snd ds)\<lparr>mem := write32 (mem (snd ds)) a v\<rparr>)"

definition malloc_libdesc :: "abi \<Rightarrow> nat \<Rightarrow> code_state \<Rightarrow> (u4 \<times> code_state) res" where
  "malloc_libdesc A fuel ds = malloc_code fuel (sizeof_LibDesc A) ds"

definition malloc_classdesc :: "abi \<Rightarrow> nat \<Rightarrow> u4 \<Rightarrow> code_state \<Rightarrow> (u4 \<times> code_state) res" where
  "malloc_classdesc A fuel namelen ds =
     rbind (malloc_code fuel (sizeof_ClassDesc A + namelen) ds) (\<lambda>(m, ds1).
       Ok (m, store_ptr (m + off_ClassDesc_name A) (m + sizeof_ClassDesc A)
                (zero_mem m (sizeof_ClassDesc A + namelen) ds1)))"

definition malloc_primitiveclassdesc :: "abi \<Rightarrow> nat \<Rightarrow> u4 \<Rightarrow> code_state \<Rightarrow> (u4 \<times> code_state) res" where
  "malloc_primitiveclassdesc A fuel namelen ds =
     rbind (malloc_code fuel (sizeof_PrimitiveClassDesc A + namelen) ds) (\<lambda>(m, ds1).
       Ok (m, store_ptr (m + off_PrimitiveClassDesc_name A) (m + sizeof_PrimitiveClassDesc A)
                (zero_mem m (sizeof_PrimitiveClassDesc A + namelen) ds1)))"

definition malloc_arrayclassdesc :: "abi \<Rightarrow> nat \<Rightarrow> u4 \<Rightarrow> code_state \<Rightarrow> (u4 \<times> code_state) res" where
  "malloc_arrayclassdesc A fuel namelen ds =
     rbind (malloc_code fuel (sizeof_ArrayClassDesc A + namelen + (11 + 1) * 4) ds) (\<lambda>(m, ds1).
       Ok (m, store_ptr (m + off_ArrayClassDesc_vtable A) (m + sizeof_ArrayClassDesc A + namelen + 4)
                (store_ptr (m + off_ArrayClassDesc_name A) (m + sizeof_ArrayClassDesc A)
                  (zero_mem m (sizeof_ArrayClassDesc A + namelen) ds1))))"

definition malloc_class :: "abi \<Rightarrow> nat \<Rightarrow> code_state \<Rightarrow> (u4 \<times> code_state) res" where
  "malloc_class A fuel ds = malloc_code fuel (sizeof_Class A) ds"

definition malloc_classes :: "abi \<Rightarrow> nat \<Rightarrow> u4 \<Rightarrow> code_state \<Rightarrow> (u4 \<times> code_state) res" where
  "malloc_classes A fuel number ds = malloc_code fuel (sizeof_Class A * number) ds"

definition malloc_methoddesc :: "abi \<Rightarrow> nat \<Rightarrow> code_state \<Rightarrow> (u4 \<times> code_state) res" where
  "malloc_methoddesc A fuel ds = malloc_code fuel (sizeof_MethodDesc A) ds"

definition malloc_methoddescs :: "abi \<Rightarrow> nat \<Rightarrow> u4 \<Rightarrow> code_state \<Rightarrow> (u4 \<times> code_state) res" where
  "malloc_methoddescs A fuel number ds = malloc_code fuel (sizeof_MethodDesc A * number) ds"

definition malloc_exceptiondescs :: "abi \<Rightarrow> nat \<Rightarrow> u4 \<Rightarrow> code_state \<Rightarrow> (u4 \<times> code_state) res" where
  "malloc_exceptiondescs A fuel number ds = malloc_code fuel (sizeof_ExceptionDesc A * number) ds"

definition malloc_classdescs :: "abi \<Rightarrow> nat \<Rightarrow> u4 \<Rightarrow> code_state \<Rightarrow> (u4 \<times> code_state) res" where
  "malloc_classdescs A fuel number ds = malloc_code fuel (sizeof_ClassDesc A * number) ds"

definition malloc_vtableSym :: "nat \<Rightarrow> u4 \<Rightarrow> code_state \<Rightarrow> (u4 \<times> code_state) res" where
  "malloc_vtableSym fuel vtablelen ds = malloc_code fuel (vtablelen * 3 * 4) ds"

definition malloc_methods :: "abi \<Rightarrow> nat \<Rightarrow> u4 \<Rightarrow> code_state \<Rightarrow> (u4 \<times> code_state) res" where
  "malloc_methods A fuel number ds = malloc_code fuel (number * sizeof_MethodDesc A) ds"

definition malloc_methodVtable :: "nat \<Rightarrow> u4 \<Rightarrow> code_state \<Rightarrow> (u4 \<times> code_state) res" where
  "malloc_methodVtable fuel number ds = malloc_code fuel (number * 4) ds"

definition malloc_classdesctable :: "nat \<Rightarrow> u4 \<Rightarrow> code_state \<Rightarrow> (u4 \<times> code_state) res" where
  "malloc_classdesctable fuel number ds = malloc_code fuel (number * 4) ds"

definition malloc_sharedlibdesctable :: "nat \<Rightarrow> u4 \<Rightarrow> code_state \<Rightarrow> (u4 \<times> code_state) res" where
  "malloc_sharedlibdesctable fuel number ds = malloc_code fuel (number * 4) ds"

definition malloc_fielddescs :: "abi \<Rightarrow> nat \<Rightarrow> u4 \<Rightarrow> code_state \<Rightarrow> (u4 \<times> code_state) res" where
  "malloc_fielddescs A fuel number ds = malloc_code fuel (sizeof_FieldDesc A * number) ds"

definition malloc_vtable :: "nat \<Rightarrow> u4 \<Rightarrow> code_state \<Rightarrow> (u4 \<times> code_state) res" where
  "malloc_vtable fuel number ds = malloc_code fuel (number * 4) ds"

text \<open>\<^verbatim>\<open>sharedLibID\<close> is a counter of the file; the third component is its new value.\<close>

definition malloc_sharedlibdesc :: "abi \<Rightarrow> nat \<Rightarrow> u4 \<Rightarrow> u4 \<Rightarrow> code_state \<Rightarrow> (u4 \<times> u4 \<times> code_state) res" where
  "malloc_sharedlibdesc A fuel sharedLibID namelen ds =
     rbind (malloc_code fuel (sizeof_SharedLibDesc A + namelen) ds) (\<lambda>(m, ds1).
       Ok (m, sharedLibID + 1,
           store_ptr (m + off_SharedLibDesc_id A) sharedLibID
             (store_ptr (m + off_SharedLibDesc_name A) (m + sizeof_SharedLibDesc A)
               (zero_mem m (sizeof_SharedLibDesc A + namelen) ds1))))"

definition malloc_string :: "nat \<Rightarrow> u4 \<Rightarrow> code_state \<Rightarrow> (u4 \<times> code_state) res" where
  "malloc_string fuel len ds = malloc_code fuel (len + 1) ds"

definition malloc_staticsmap :: "nat \<Rightarrow> u4 \<Rightarrow> code_state \<Rightarrow> (u4 \<times> code_state) res" where
  "malloc_staticsmap fuel sz ds = malloc_code fuel sz ds"

definition malloc_objectmap :: "nat \<Rightarrow> u4 \<Rightarrow> code_state \<Rightarrow> (u4 \<times> code_state) res" where
  "malloc_objectmap fuel sz ds = malloc_code fuel sz ds"

definition malloc_argsmap :: "nat \<Rightarrow> u4 \<Rightarrow> code_state \<Rightarrow> (u4 \<times> code_state) res" where
  "malloc_argsmap fuel sz ds = malloc_code fuel sz ds"

definition malloc_symboltable :: "nat \<Rightarrow> u4 \<Rightarrow> code_state \<Rightarrow> (u4 \<times> code_state) res" where
  "malloc_symboltable fuel len ds = malloc_code fuel (4 * len) ds"

definition malloc_symbol :: "nat \<Rightarrow> u4 \<Rightarrow> code_state \<Rightarrow> (u4 \<times> code_state) res" where
  "malloc_symbol fuel sz ds = malloc_code fuel sz ds"

definition malloc_stackmap :: "nat \<Rightarrow> u4 \<Rightarrow> code_state \<Rightarrow> (u4 \<times> code_state) res" where
  "malloc_stackmap fuel sz ds = malloc_code fuel sz ds"

definition malloc_proxycode :: "nat \<Rightarrow> u4 \<Rightarrow> code_state \<Rightarrow> (u4 \<times> code_state) res" where
  "malloc_proxycode fuel sz ds = malloc_code fuel sz ds"

definition malloc_cpudesc :: "nat \<Rightarrow> u4 \<Rightarrow> code_state \<Rightarrow> (u4 \<times> code_state) res" where
  "malloc_cpudesc fuel sz ds = malloc_code fuel sz ds"

definition malloc_bytecodetable :: "abi \<Rightarrow> nat \<Rightarrow> u4 \<Rightarrow> code_state \<Rightarrow> (u4 \<times> code_state) res" where
  "malloc_bytecodetable A fuel len ds = malloc_code fuel (sizeof_ByteCodeDesc A * len) ds"

definition malloc_sourcelinetable :: "abi \<Rightarrow> nat \<Rightarrow> u4 \<Rightarrow> code_state \<Rightarrow> (u4 \<times> code_state) res" where
  "malloc_sourcelinetable A fuel len ds = malloc_code fuel (sizeof_SourceLineDesc A * len) ds"

definition malloc_staticfields :: "nat \<Rightarrow> u4 \<Rightarrow> code_state \<Rightarrow> (u4 \<times> code_state) res" where
  "malloc_staticfields fuel number ds = malloc_code fuel (number * 4) ds"

definition malloc_metatable :: "abi \<Rightarrow> nat \<Rightarrow> u4 \<Rightarrow> code_state \<Rightarrow> (u4 \<times> code_state) res" where
  "malloc_metatable A fuel number ds = malloc_code fuel (number * sizeof_meta A) ds"

text \<open>Native code is aligned to the 16 byte instruction buffer.\<close>

definition malloc_nativecode :: "nat \<Rightarrow> u4 \<Rightarrow> code_state \<Rightarrow> (u4 \<times> code_state) res" where
  "malloc_nativecode fuel sz ds =
     rbind (malloc_code fuel (sz + 16) ds) (\<lambda>(m, ds1). Ok ((m + 15) AND NOT 0xf, ds1))"

definition malloc_domainzero_namevalue :: "abi \<Rightarrow> nat \<Rightarrow> u4 \<Rightarrow> code_state \<Rightarrow> (u4 \<times> code_state) res" where
  "malloc_domainzero_namevalue A fuel namelen ds =
     rbind (malloc_code fuel (sizeof_nameValue A + namelen) ds) (\<lambda>(m, ds1).
       Ok (m, store_ptr (m + off_nameValue_name A) (m + sizeof_nameValue A) ds1))"

subsection \<open>Temporary memory and thread stacks\<close>

text \<open>\<^verbatim>\<open>TempMemory\<close>: \<^verbatim>\<open>size\<close>, \<^verbatim>\<open>free\<close>, \<^verbatim>\<open>start\<close>, \<^verbatim>\<open>border\<close>, four words at the
  start of the region they describe.\<close>

record TempMemory =
  tm_size :: u4
  tm_free :: u4
  tm_start :: u4
  tm_border :: u4

definition store_tmp :: "u4 \<Rightarrow> TempMemory \<Rightarrow> malloc_state \<Rightarrow> malloc_state" where
  "store_tmp a t s = s\<lparr>mem := write32 (write32 (write32 (write32 (mem s) a (tm_size t))
     (a + 4) (tm_free t)) (a + 8) (tm_start t)) (a + 12) (tm_border t)\<rparr>"

definition load_tmp :: "u4 \<Rightarrow> malloc_state \<Rightarrow> TempMemory" where
  "load_tmp a s = \<lparr>tm_size = read32 (mem s) a, tm_free = read32 (mem s) (a + 4),
     tm_start = read32 (mem s) (a + 8), tm_border = read32 (mem s) (a + 12)\<rparr>"

definition jxmalloc_tmp :: "nat \<Rightarrow> u4 \<Rightarrow> malloc_state \<Rightarrow> (u4 \<times> malloc_state) res" where
  "jxmalloc_tmp fuel sz s =
     (let sz' = ALIGN_NEXT_BLOCK (sz + 16)
      in rbind (jxmalloc fuel sz' s) (\<lambda>(m, s').
           Ok (m, store_tmp m \<lparr>tm_size = sz', tm_free = m + 16, tm_start = m, tm_border = m + sz'\<rparr> s')))"

definition jxfree_tmp :: "u4 \<Rightarrow> malloc_state \<Rightarrow> malloc_state res" where
  "jxfree_tmp m s = jxfree (tm_start (load_tmp m s)) (tm_size (load_tmp m s)) s"

definition malloc_tmp_stringtable :: "u4 \<Rightarrow> u4 \<Rightarrow> malloc_state \<Rightarrow> (u4 \<times> malloc_state) res" where
  "malloc_tmp_stringtable m number s =
     (let t = load_tmp m s; n = tm_free t + number * 4
      in if n > tm_border t then Fault (DomainPanic ''temp space not sufficient'')
         else Ok (tm_free t, s\<lparr>mem := write32 (mem s) (m + 4) n\<rparr>))"

definition malloc_threadstack :: "nat \<Rightarrow> u4 \<Rightarrow> u4 \<Rightarrow> malloc_state \<Rightarrow> (u4 \<times> malloc_state) res" where
  "malloc_threadstack fuel sz align s =
     (if sz mod BLOCKSIZE \<noteq> 0 then Fault (SysPanic ''stacksize must be multiple of blocksize'')
      else rbind (jxmalloc_align fuel (drop_bit BLOCKADDR_N_NULLBITS sz) align s) (\<lambda>(m, s').
             rassert (m AND (align - 1) = 0) ''((u4_t) m & (align - 1)) == 0'' (Ok (m, s'))))"

definition free_threadstack :: "u4 \<Rightarrow> u4 \<Rightarrow> malloc_state \<Rightarrow> malloc_state res" where
  "free_threadstack m sz s = jxfree m sz s"

subsection \<open>The code memory invariant\<close>

definition frag_used :: "code_area \<Rightarrow> nat \<Rightarrow> nat set" where
  "frag_used d i = {unat (code d ! i)..<unat (codeTop d ! i)}"

definition frag_full :: "code_area \<Rightarrow> nat \<Rightarrow> nat set" where
  "frag_full d i = {unat (code d ! i)..<unat (codeBorder d ! i)}"

text \<open>The end of the memory pool; it is an address.\<close>

definition pool_end :: "malloc_state \<Rightarrow> nat" where
  "pool_end s = unat (jxmem_start s) + nblk s * 1024"

definition frag_ok :: "code_area \<Rightarrow> malloc_state \<Rightarrow> nat \<Rightarrow> bool" where
  "frag_ok d s i = (unat (code d ! i) \<le> unat (codeTop d ! i)
     \<and> unat (codeTop d ! i) \<le> unat (codeBorder d ! i) \<and> unat (codeBorder d ! i) \<le> pool_end s
     \<and> frag_full d i \<subseteq> owned_bytes s)"

definition code_inv :: "code_state \<Rightarrow> bool" where
  "code_inv ds = (case ds of (d, s) \<Rightarrow>
     malloc_inv s \<and> unat (code_bytes d) + 1023 < 2 ^ 32 \<and> -1 \<le> cur_code d \<and> cur_code d < int CODE_FRAGMENTS
     \<and> length (code d) = CODE_FRAGMENTS \<and> length (codeTop d) = CODE_FRAGMENTS
     \<and> length (codeBorder d) = CODE_FRAGMENTS
     \<and> (\<forall>i. int i \<le> cur_code d \<longrightarrow> frag_ok d s i)
     \<and> (\<forall>i j. i < j \<longrightarrow> int j \<le> cur_code d \<longrightarrow> frag_full d i \<inter> frag_full d j = {}))"

definition code_owned :: "code_state \<Rightarrow> nat set" where
  "code_owned ds = (\<Union>i\<in>{i. int i \<le> cur_code (fst ds)}. frag_used (fst ds) i)"

lemma alloc_post_bound:
  assumes "alloc_post s n c addr s'"
  shows "unat addr + n * 1024 \<le> pool_end s" "pool_end s' = pool_end s"
proof -
  have "(c + n) * 1024 \<le> nblk s * 1024" using assms by (simp add: alloc_post_def free_run_def)
  then show "unat addr + n * 1024 \<le> pool_end s" "pool_end s' = pool_end s"
    using assms by (simp_all add: alloc_post_def pool_end_def algebra_simps)
qed

lemma pool_end_address: "malloc_inv s \<Longrightarrow> pool_end s < 2 ^ 32"
  by (simp add: malloc_inv_def pool_end_def)

lemma new_fragment_nth:
  assumes "length (code d) = 128" "length (codeTop d) = 128" "length (codeBorder d) = 128" "c < 128"
  shows "code (new_fragment c a d) ! i = (if i = c then a else code d ! i)"
    "codeTop (new_fragment c a d) ! i = (if i = c then a else codeTop d ! i)"
    "codeBorder (new_fragment c a d) ! i = (if i = c then a + code_bytes d else codeBorder d ! i)"
  using assms by (simp_all add: new_fragment_def nth_update_eq)

lemma grow_code_inv:
  assumes inv: "code_inv (d, s)" and c: "cur_code d + 1 = int c" "c < CODE_FRAGMENTS"
    and g: "grow_code fuel c (d, s) = Ok (d', s')"
  shows "code_inv (d', s')" "cur_code d' = int c" "code_owned (d', s') = code_owned (d, s)"
    "pool_end s' = pool_end s"
proof -
  have I: "malloc_inv s" "pool_end s < 2 ^ 32"
    "unat (code_bytes d) + 1023 < 2 ^ 32" "length (code d) = 128" "length (codeTop d) = 128"
    "length (codeBorder d) = 128" "\<And>i. int i \<le> cur_code d \<Longrightarrow> frag_ok d s i"
    "\<And>i j. i < j \<Longrightarrow> int j \<le> cur_code d \<Longrightarrow> frag_full d i \<inter> frag_full d j = {}"
    using inv pool_end_address by (auto simp: code_inv_def CODE_FRAGMENTS_def)
  obtain a where a: "jxmalloc fuel (code_bytes d) s = Ok (a, s')" "d' = new_fragment c a d"
    using g by (auto simp: grow_code_def)
  let ?n = "(unat (code_bytes d) + 1023) div 1024"
  obtain b where b: "alloc_post s ?n b a s'" using jxmalloc_post(1) [OF I(1,3) a(1)] by blast
  note byt = alloc_post_bytes [OF b] and bd = alloc_post_bound [OF b]
  have chunk: "unat (code_bytes d) \<le> ?n * 1024" by linarith
  have border: "unat (a + code_bytes d) = unat a + unat (code_bytes d)"
    using bd(1) I(2) chunk by (intro unat_add_u4) simp
  have c128: "c < 128" using c(2) by (simp add: CODE_FRAGMENTS_def)
  note nth = new_fragment_nth [OF I(4,5,6) c128]
  have new: "frag_full d' c \<subseteq> {unat a..<unat a + ?n * 1024}"
    using chunk by (auto simp: frag_full_def a(2) nth border)
  have old: "frag_full d' i = frag_full d i" "frag_used d' i = frag_used d i" if "int i \<le> cur_code d" for i
    using that c(1) by (simp_all add: frag_full_def frag_used_def a(2) nth)
  have lt: "int i \<le> cur_code d \<longleftrightarrow> i < c" for i using c(1) by linarith
  have cur: "cur_code d' = int c" by (simp add: a(2) new_fragment_def)
  have owned: "owned_bytes s \<subseteq> owned_bytes s'" and newsub: "frag_full d' c \<subseteq> owned_bytes s'"
    using byt(2) new by blast+
  have fullold: "frag_full d i \<subseteq> owned_bytes s" if "i < c" for i
    using I(7) lt that by (auto simp: frag_ok_def)
  have ok: "frag_ok d' s' i" if "i \<le> c" for i
  proof (cases "i = c")
    case True
    then show ?thesis using newsub bd chunk border by (simp add: frag_ok_def a(2) nth)
  next
    case False
    with that have "frag_ok d s i" "int i \<le> cur_code d" using I(7) lt by auto
    then show ?thesis using owned old False bd(2) by (auto simp: frag_ok_def a(2) nth)
  qed
  have dis: "frag_full d' i \<inter> frag_full d' j = {}" if "i < j" "j \<le> c" for i j
  proof (cases "j = c")
    case True
    then show ?thesis using byt(1) new fullold that old(1) lt by blast
  next
    case False
    then show ?thesis using I(8) that old(1) lt by simp
  qed
  show "pool_end s' = pool_end s" by (rule bd(2))
  have len: "length (code d') = 128" "length (codeTop d') = 128" "length (codeBorder d') = 128"
    "code_bytes d' = code_bytes d" using I by (simp_all add: a(2) new_fragment_def)
  show "code_inv (d', s')"
    using jxmalloc_post(2) [OF I(1,3) a(1)] I(3) len cur ok dis c128
    by (simp add: code_inv_def CODE_FRAGMENTS_def)
  show "cur_code d' = int c" by (rule cur)
  have "frag_used d' c = {}" by (simp add: frag_used_def a(2) nth)
  moreover have "{i. int i \<le> cur_code d'} = insert c {i. int i \<le> cur_code d}" using c(1) cur by auto
  ultimately show "code_owned (d', s') = code_owned (d, s)" using old(2) by (simp add: code_owned_def)
qed

text \<open>Taking \<open>sz\<close> bytes from the current fragment.\<close>

lemma bump_inv:
  assumes inv: "code_inv (d, s)" and c: "cur_code d = int c" and sz: "pool_end s + unat sz < 2 ^ 32"
    and fit: "\<not> codeTop d ! c + sz > codeBorder d ! c"
    and d': "d' = d\<lparr>codeTop := (codeTop d)[c := codeTop d ! c + sz]\<rparr>"
  shows "code_inv (d', s)"
    and "{unat (codeTop d ! c)..<unat (codeTop d ! c) + unat sz} \<subseteq> frag_full d c"
    and "{unat (codeTop d ! c)..<unat (codeTop d ! c) + unat sz} \<inter> code_owned (d, s) = {}"
    and "code_owned (d', s) = code_owned (d, s) \<union> {unat (codeTop d ! c)..<unat (codeTop d ! c) + unat sz}"
proof -
  let ?t = "unat (codeTop d ! c)"
  have ok: "frag_ok d s i" if "i \<le> c" for i using inv c that by (auto simp: code_inv_def)
  have c128: "c < length (codeTop d)" using inv c by (auto simp: code_inv_def)
  have dis: "frag_full d i \<inter> frag_full d c = {}" if "i < c" for i using inv c that by (auto simp: code_inv_def)
  have top: "unat (codeTop d ! c + sz) = ?t + unat sz"
    using ok [of c] sz by (intro unat_add_u4) (simp add: frag_ok_def)
  then have le: "?t + unat sz \<le> unat (codeBorder d ! c)" using fit by (simp add: word_less_nat_alt)
  have full: "frag_full d' i = frag_full d i" for i by (simp add: frag_full_def d')
  have used: "frag_used d' i = (if i = c then frag_used d c \<union> {?t..<?t + unat sz} else frag_used d i)" for i
    using ok [of c] c128 top by (auto simp: frag_used_def d' frag_ok_def nth_update_eq)
  have ok': "frag_ok d' s i" if "i \<le> c" for i
    using ok [OF that] c128 top le full by (auto simp: frag_ok_def d' nth_update_eq)
  show "code_inv (d', s)"
    using inv c ok' full by (auto simp: code_inv_def d')
  show sub: "{?t..<?t + unat sz} \<subseteq> frag_full d c"
    using ok [of c] le by (auto simp: frag_full_def frag_ok_def)
  have "{?t..<?t + unat sz} \<inter> frag_used d i = {}" if "i \<le> c" for i
  proof (cases "i = c")
    case True
    then show ?thesis by (auto simp: frag_used_def)
  next
    case False
    then have "frag_used d i \<subseteq> frag_full d i" using ok [OF that] by (auto simp: frag_used_def frag_full_def frag_ok_def)
    then show ?thesis using sub dis [of i] False that by fastforce
  qed
  then show "{?t..<?t + unat sz} \<inter> code_owned (d, s) = {}" using c by (auto simp: code_owned_def)
  have "cur_code d' = int c" using c by (simp add: d')
  then show "code_owned (d', s) = code_owned (d, s) \<union> {?t..<?t + unat sz}"
    using c by (auto simp: code_owned_def used split: if_splits)
qed

lemma malloc_code_spec:
  assumes inv: "code_inv ds" and sz: "pool_end (snd ds) + unat sz < 2 ^ 32" and m: "malloc_code fuel sz ds = Ok (a, ds')"
  shows "code_inv ds'" "{unat a..<unat a + unat sz} \<inter> code_owned ds = {}"
    "code_owned ds' = code_owned ds \<union> {unat a..<unat a + unat sz}"
    "{unat a..<unat a + unat sz} \<subseteq> frag_full (fst ds') (nat (cur_code (fst ds')))"
    "pool_end (snd ds') = pool_end (snd ds)"
proof -
  obtain ds1 where ds1: "(if cur_code (fst ds) = -1 then grow_code fuel 0 ds else Ok ds) = Ok ds1"
    using m by (auto simp: malloc_code_def)
  obtain d s where ds: "ds = (d, s)" by (cases ds)
  obtain d1 s1 where p1: "ds1 = (d1, s1)" by (cases ds1)
  have i1: "code_inv ds1" "code_owned ds1 = code_owned ds" "pool_end s1 = pool_end s" and nn: "0 \<le> cur_code d1"
  proof -
    show "code_inv ds1" "code_owned ds1 = code_owned ds" "pool_end s1 = pool_end s"
      using ds1 inv grow_code_inv(1,3,4) [of d s 0 fuel d1 s1]
      by (auto simp: ds p1 CODE_FRAGMENTS_def split: if_splits)
    show "0 \<le> cur_code d1"
      using ds1 inv grow_code_inv(2) [of d s 0 fuel d1 s1]
      by (auto simp: ds p1 CODE_FRAGMENTS_def code_inv_def split: if_splits)
  qed
  define c where "c = nat (cur_code d1)"
  have cc: "cur_code d1 = int c" using nn by (simp add: c_def)
  have rest: "(if code_full c sz ds1
          then if Suc c = CODE_FRAGMENTS then Fault (SysPanic ''NO MORE CODE'')
               else rbind (grow_code fuel (Suc c) ds1) (\<lambda>ds2.
                 if code_full (Suc c) sz ds2 then Fault (SysPanic ''can`t alloc %i byte'')
                 else Ok (take_code (Suc c) sz ds2))
          else Ok (take_code c sz ds1)) = Ok (a, ds')"
    using m unfolding malloc_code_def ds1 rbind.simps Let_def by (simp only: c_def p1 fst_conv)
  have "\<exists>d2 s2 k. code_inv (d2, s2) \<and> cur_code d2 = int k \<and> code_owned (d2, s2) = code_owned ds \<and> pool_end s2 = pool_end s
    \<and> \<not> code_full k sz (d2, s2) \<and> take_code k sz (d2, s2) = (a, ds')"
  proof (cases "code_full c sz ds1")
    case False
    then show ?thesis using rest i1 cc unfolding p1 by (intro exI [of _ d1] exI [of _ s1] exI [of _ c]) simp
  next
    case True
    then obtain d2 s2 where g: "grow_code fuel (Suc c) (d1, s1) = Ok (d2, s2)" "Suc c \<noteq> CODE_FRAGMENTS"
      "\<not> code_full (Suc c) sz (d2, s2)" "take_code (Suc c) sz (d2, s2) = (a, ds')"
      using rest by (auto simp: p1 split: if_splits)
    have "Suc c < CODE_FRAGMENTS" using i1(1) g(2) cc by (auto simp: p1 code_inv_def)
    from grow_code_inv [OF i1(1) [unfolded p1] _ this g(1)] cc i1(2,3) g(3,4)
    show ?thesis by (intro exI [of _ d2] exI [of _ s2] exI [of _ "Suc c"]) (simp add: p1)
  qed
  then obtain d2 s2 k where k: "code_inv (d2, s2)" "cur_code d2 = int k" "code_owned (d2, s2) = code_owned ds"
    "\<not> codeTop d2 ! k + sz > codeBorder d2 ! k" "a = codeTop d2 ! k"
    "ds' = (d2\<lparr>codeTop := (codeTop d2)[k := codeTop d2 ! k + sz]\<rparr>, s2)" "pool_end s2 = pool_end s"
    by (auto simp: take_code_def code_full_def)
  have "pool_end s2 + unat sz < 2 ^ 32" using sz k(7) by (simp add: ds)
  note b = bump_inv [OF k(1,2) this k(4) refl]
  show "code_inv ds'" "{unat a..<unat a + unat sz} \<inter> code_owned ds = {}"
    "code_owned ds' = code_owned ds \<union> {unat a..<unat a + unat sz}"
    "{unat a..<unat a + unat sz} \<subseteq> frag_full (fst ds') (nat (cur_code (fst ds')))" "pool_end (snd ds') = pool_end (snd ds)"
    using b k(2,3,7) by (simp_all add: k(5,6) ds frag_full_def)
qed

subsection \<open>Code memory as an allocator\<close>

definition code_alloc_op :: "u4 \<Rightarrow> code_state \<Rightarrow> (nat \<times> code_state) option" where
  "code_alloc_op sz ds = (case malloc_code (2 * nblk (snd ds) + 2) sz ds of
     Ok (a, ds') \<Rightarrow> Some (unat a, ds') | Fault _ \<Rightarrow> None)"

lemma code_alloc_opE:
  assumes "code_alloc_op sz ds = Some (a, ds')"
  obtains b where "malloc_code (2 * nblk (snd ds) + 2) sz ds = Ok (b, ds')" "a = unat b"
  using assms by (auto simp: code_alloc_op_def split: res.splits)

text \<open>\<open>e\<close> is the end of the pool; a request must not be larger than the addresses behind it.\<close>

interpretation codemem: fresh_allocator code_alloc_op unat code_owned "\<lambda>ds. code_inv ds \<and> pool_end (snd ds) = e" "\<lambda>sz. e + unat sz < 2 ^ 32"
  for e
proof (unfold_locales, goal_cases)
  case (1 s z a s')
  from code_alloc_opE [OF 1(3)] obtain b where "malloc_code (2 * nblk (snd s) + 2) z s = Ok (b, s')" .
  note sp = malloc_code_spec [OF conjunct1 [OF 1(1)] _ this]
  show ?case using sp(1,5) 1(1,2) by simp
next
  case (2 s z a s')
  from code_alloc_opE [OF 2(3)] obtain b where b: "malloc_code (2 * nblk (snd s) + 2) z s = Ok (b, s')" "a = unat b" .
  show ?case using malloc_code_spec(2) [OF conjunct1 [OF 2(1)] _ b(1)] b(2) 2(1,2) by simp
next
  case (3 s z a s')
  from code_alloc_opE [OF 3(3)] obtain b where b: "malloc_code (2 * nblk (snd s) + 2) z s = Ok (b, s')" "a = unat b" .
  show ?case using malloc_code_spec(3) [OF conjunct1 [OF 3(1)] _ b(1)] b(2) 3(1,2) by simp
qed

lemma and_not_15: "(x::u4) AND NOT 0xf = (x div 16) * 16"
proof -
  have "x AND NOT (mask 4) = push_bit 4 (drop_bit 4 x)"
    by (rule bit_eqI) (auto simp: bit_simps)
  then show ?thesis by (simp add: mask_eq_exp_minus_1 push_bit_eq_mult drop_bit_eq_div)
qed

lemma align16:
  assumes "unat (m::u4) + 15 < 2 ^ 32"
  shows "unat ((m + 15) AND NOT 0xf) = (unat m + 15) div 16 * 16"
proof -
  have u: "unat (m + 15) = unat m + 15" using unat_add_u4 [of m 15] assms by simp
  have "unat ((m + 15) div 16) * 16 < 2 ^ 32" using assms u by (simp add: unat_div_distrib)
  then show ?thesis unfolding and_not_15 using unat_mult_lem [of "(m + 15) div 16" 16] u
    by (simp add: unat_div_distrib)
qed

lemma frag_full_bound: "code_inv ds \<Longrightarrow> int i \<le> cur_code (fst ds) \<Longrightarrow> x \<in> frag_full (fst ds) i \<Longrightarrow> x < pool_end (snd ds)"
  by (cases ds) (auto simp: code_inv_def frag_ok_def frag_full_def)

subsection \<open>Properties\<close>

text \<open>C23: a request is taken from a code fragment, as long as the end of the memory pool plus its size is an address below
  4 GB (so that the top of no fragment plus the size can wrap around).  Then every region \<^verbatim>\<open>malloc_code\<close> returns lies
  inside a code fragment of the domain and is disjoint from everything returned before, and the code memory invariant
  (fragments disjoint, inside memory owned by the domain, tops below borders) is kept.\<close>

theorem malloc_code_fresh:
  assumes "code_inv ds" "pool_end (snd ds) + unat sz < 2 ^ 32" "malloc_code fuel sz ds = Ok (a, ds')"
  shows "code_inv ds' \<and> {unat a..<unat a + unat sz} \<inter> code_owned ds = {}
    \<and> code_owned ds' = code_owned ds \<union> {unat a..<unat a + unat sz}
    \<and> {unat a..<unat a + unat sz} \<subseteq> frag_full (fst ds') (nat (cur_code (fst ds')))"
  using malloc_code_spec [OF assms] by simp

text \<open>A larger request wraps around: when the top of the current fragment plus the size, less \<open>2 ^ 32\<close>, is still above the
  start of the fragment, the request is granted and the top moves back by the rest, so that memory that was handed out before is
  handed out again.\<close>

lemma malloc_code_wraps:
  assumes c: "cur_code d = int c" "c < length (codeTop d)" and k: "0 < unat k" "unat k \<le> unat (codeTop d ! c)"
    and b: "codeTop d ! c \<le> codeBorder d ! c"
  shows "malloc_code fuel (- k) (d, s) = Ok (codeTop d ! c, (d\<lparr>codeTop := (codeTop d)[c := codeTop d ! c - k]\<rparr>, s))"
proof -
  have "unat (codeTop d ! c - k) = unat (codeTop d ! c) - unat k" using k(2) unat_minus [of "unat k" "codeTop d ! c"]
      unsigned_less [where ?'a = nat and w = k] by simp
  then have "codeTop d ! c - k \<le> codeTop d ! c" by (simp add: word_le_nat_alt)
  then have "\<not> code_full c (- k) (d, s)" using b by (simp add: code_full_def not_less)
  then show ?thesis using c by (simp add: malloc_code_def Let_def take_code_def)
qed

definition small_code :: code_area where
  "small_code = \<lparr>code_bytes = 2048, cur_code = -1, code = replicate 128 0,
     codeBorder = replicate 128 0, codeTop = replicate 128 0\<rparr>"

lemma small_code_inv: "code_inv (small_code, small_pool)"
  using small_pool_facts small_pool_cur by (simp add: code_inv_def small_code_def CODE_FRAGMENTS_def)

lemma small_pool_end: "pool_end small_pool < 2 ^ 31"
  using small_pool_facts small_pool_cur by (simp add: pool_end_def)

lemma small_code_alloc: "\<exists>a ds'. malloc_code 40 100 (small_code, small_pool) = Ok (a, ds')"
proof -
  have "free_run small_pool 1 2" by (auto simp: free_run_def small_pool_facts)
  then obtain b s' where b: "jxmalloc 40 2048 small_pool = Ok (b, s')"
    using jxmalloc_returns [of small_pool 2048 1 40] small_pool_facts by (auto simp: is_ok_iff)
  then have bd: "unat b + 2048 < 2 ^ 31"
    using jxmalloc_post(1) [OF small_pool_facts(1) _ b] alloc_post_bound(1) [of small_pool 2 _ b s'] small_pool_end by fastforce
  have "unat (b + 100) = unat b + 100" "unat (b + 2048) = unat b + 2048"
    using bd unat_add_u4 [of b 100] unat_add_u4 [of b 2048] by simp_all
  then have "\<not> b + 100 > b + 2048" by (simp add: word_less_nat_alt)
  then show ?thesis
    using b by (simp add: malloc_code_def grow_code_def small_code_def new_fragment_def Let_def code_full_def take_code_def)
qed

theorem malloc_code_fresh_witness:
  "\<exists>a ds'. malloc_code 40 100 (small_code, small_pool) = Ok (a, ds') \<and> code_inv ds'"
proof -
  obtain a ds' where a: "malloc_code 40 100 (small_code, small_pool) = Ok (a, ds')"
    using small_code_alloc by blast
  from malloc_code_fresh [OF small_code_inv _ a] a small_pool_end show ?thesis by simp
qed

text \<open>\<^verbatim>\<open>malloc_nativecode\<close> returns a 16 byte aligned address such that the whole
  requested region lies in memory \<^verbatim>\<open>malloc_code\<close> newly handed out.\<close>

theorem malloc_nativecode_aligned:
  assumes "code_inv ds" "pool_end (snd ds) + unat sz + 16 < 2 ^ 32" "malloc_nativecode fuel sz ds = Ok (a, ds')"
  shows "16 dvd unat a \<and> {unat a..<unat a + unat sz} \<subseteq> code_owned ds'
    \<and> {unat a..<unat a + unat sz} \<inter> code_owned ds = {} \<and> code_inv ds'"
proof -
  obtain m where m: "malloc_code fuel (sz + 16) ds = Ok (m, ds')" "a = (m + 15) AND NOT 0xf"
    using assms(3) by (auto simp: malloc_nativecode_def)
  have u: "unat (sz + 16) = unat sz + 16" using unat_add_u4 [of sz 16] assms(2) by simp
  have small: "pool_end (snd ds) + unat (sz + 16) < 2 ^ 32" using u assms(2) by simp
  note sp = malloc_code_spec [OF assms(1) small m(1)]
  have "unat m \<in> frag_full (fst ds') (nat (cur_code (fst ds')))" using sp(4) u by auto
  then have "unat m < pool_end (snd ds)"
  proof (cases "0 \<le> cur_code (fst ds')")
    case True
    then show ?thesis
      using frag_full_bound [OF sp(1) _ \<open>unat m \<in> frag_full (fst ds') _\<close>] sp(5) by simp
  next
    case False
    then have "code_owned ds' = {}" by (auto simp: code_owned_def)
    with sp(3) u show ?thesis by auto
  qed
  then have a: "unat a = (unat m + 15) div 16 * 16" using align16 [of m] m(2) assms(2) by simp
  then have "unat m \<le> unat a" "unat a \<le> unat m + 15" by linarith+
  then have "{unat a..<unat a + unat sz} \<subseteq> {unat m..<unat m + unat (sz + 16)}" using u by auto
  moreover have "16 dvd unat a" by (simp add: a)
  ultimately show ?thesis using sp(1-3) by blast
qed

theorem malloc_nativecode_aligned_witness:
  "\<exists>a ds'. malloc_nativecode 40 84 (small_code, small_pool) = Ok (a, ds') \<and> 16 dvd unat a"
proof -
  obtain a ds' where "malloc_nativecode 40 84 (small_code, small_pool) = Ok (a, ds')"
    using small_code_alloc by (auto simp: malloc_nativecode_def)
  from malloc_nativecode_aligned [OF small_code_inv _ this] this small_pool_end show ?thesis by auto
qed

end
