(* ===== verification/Ptr_Queue.thy ===== *)
theory Ptr_Queue
  imports JX_Prelude
begin

section \<open>Linked queues\<close>

text \<open>
  The kernel keeps its queues as singly linked lists threaded through the descriptors,
  with a pointer to the first and one to the last element.  \<open>chain\<close> says which list a
  chain of \<open>next\<close> pointers spells, \<open>queue_of\<close> that first, last and chain agree.
  \<open>find_in\<close> is the loop that walks a chain until a test succeeds (fuel bounds the number
  of nodes visited; on a chain of \<open>k\<close> nodes any fuel above \<open>k\<close> is enough, and a cyclic
  chain exhausts every fuel).  The locale \<open>fifo_queue\<close> is the contract of a queue with
  an append and a remove-first operation.
\<close>

fun chain :: "('a \<Rightarrow> 'a option) \<Rightarrow> 'a option \<Rightarrow> 'a list \<Rightarrow> bool" where
  "chain nx p [] = (p = None)"
| "chain nx p (x # xs) = (p = Some x \<and> chain nx (nx x) xs)"

definition queue_of :: "('a \<Rightarrow> 'a option) \<Rightarrow> 'a option \<Rightarrow> 'a option \<Rightarrow> 'a list \<Rightarrow> bool" where
  "queue_of nx f l xs \<longleftrightarrow>
     chain nx f xs \<and> distinct xs \<and> l = (if xs = [] then None else Some (last xs))"

fun find_in :: "nat \<Rightarrow> ('a \<Rightarrow> 'a option) \<Rightarrow> ('a \<Rightarrow> bool) \<Rightarrow> 'a option \<Rightarrow> 'a option res" where
  "find_in 0 nx P p = Fault OutOfFuel"
| "find_in (Suc n) nx P None = Ok None"
| "find_in (Suc n) nx P (Some x) = (if P x then Ok (Some x) else find_in n nx P (nx x))"

subsection \<open>Chains\<close>

lemma chain_update [simp]: "x \<notin> set xs \<Longrightarrow> chain (nx(x := v)) p xs = chain nx p xs"
  by (induction xs arbitrary: p) auto

lemma chain_cong: "(\<And>x. x \<in> set xs \<Longrightarrow> nx x = ny x) \<Longrightarrow> chain nx p xs = chain ny p xs"
  by (induction xs arbitrary: p) auto

lemma chain_det: "chain nx p xs \<Longrightarrow> chain nx p ys \<Longrightarrow> xs = ys"
proof (induction xs arbitrary: p ys)
  case Nil
  then show ?case by (cases ys) auto
next
  case (Cons x xs)
  then show ?case by (cases ys) auto
qed

lemma chain_append:
  "chain nx p (xs @ ys) \<longleftrightarrow>
     (\<exists>q. chain nx q ys \<and> (if xs = [] then q = p else
        chain (nx(last xs := None)) p xs \<and> nx (last xs) = q))" if "distinct xs"
  using that
proof (induction xs arbitrary: p)
  case (Cons x xs)
  then show ?case by (cases "xs = []") (auto split: if_splits)
qed simp

lemma chain_snoc:
  assumes "chain nx p xs" and "distinct xs" and "xs \<noteq> []" and "y \<notin> set xs"
  shows "chain (nx(y := None, last xs := Some y)) p (xs @ [y])"
  using assms
proof (induction xs arbitrary: p)
  case (Cons x xs)
  show ?case
  proof (cases "xs = []")
    case False
    then have "last xs \<in> set xs" by simp
    with Cons.prems False have "x \<noteq> last xs" by auto
    with Cons False show ?thesis by (auto simp: fun_upd_twist)
  qed (use Cons.prems in auto)
qed simp

lemma chain_last_None:
  "chain nx p xs \<Longrightarrow> distinct xs \<Longrightarrow> xs \<noteq> [] \<Longrightarrow> nx (last xs) = None"
proof (induction xs arbitrary: p)
  case (Cons x xs)
  then show ?case by (cases xs) auto
qed simp

lemma chain_Some: "chain nx (Some x) xs \<Longrightarrow> \<exists>ys. xs = x # ys \<and> chain nx (nx x) ys"
  by (cases xs) auto

lemma chain_None [simp]: "chain nx None xs \<longleftrightarrow> xs = []"
  by (cases xs) auto

lemma chain_hd: "chain nx p xs \<Longrightarrow> p = (if xs = [] then None else Some (hd xs))"
  by (cases xs) auto

lemma chain_nth_next:
  "chain nx p (xs @ x # ys) \<Longrightarrow> nx x = (if ys = [] then None else Some (hd ys))"
  by (induction xs arbitrary: p) (auto dest: chain_hd)

text \<open>Unlinking the element after \<open>y\<close>, as the removal loops do it.\<close>

lemma chain_unlink:
  assumes "chain nx p (xs @ y # x # ys)" and "distinct (xs @ y # x # ys)"
  shows "chain (nx(y := nx x, x := None)) p (xs @ y # ys)"
  using assms
proof (induction xs arbitrary: p)
  case Nil
  then show ?case by (simp del: fun_upd_apply) simp
next
  case (Cons z xs)
  then show ?case by simp
qed

subsection \<open>Queues\<close>

lemma queue_of_Nil [simp]: "queue_of nx f l [] \<longleftrightarrow> f = None \<and> l = None"
  by (auto simp: queue_of_def)

lemma queue_of_first: "queue_of nx f l xs \<Longrightarrow> f = (if xs = [] then None else Some (hd xs))"
  by (auto simp: queue_of_def dest: chain_hd)

lemma queue_of_last: "queue_of nx f l xs \<Longrightarrow> l = (if xs = [] then None else Some (last xs))"
  by (simp add: queue_of_def)

lemma queue_of_distinct: "queue_of nx f l xs \<Longrightarrow> distinct xs"
  by (simp add: queue_of_def)

lemma queue_of_update [simp]:
  "x \<notin> set xs \<Longrightarrow> queue_of (nx(x := v)) f l xs = queue_of nx f l xs"
  by (simp add: queue_of_def)

lemma queue_of_cong:
  "(\<And>x. x \<in> set xs \<Longrightarrow> nx x = ny x) \<Longrightarrow> queue_of nx f l xs = queue_of ny f l xs"
  unfolding queue_of_def using chain_cong [of xs nx ny f] by blast

lemma queue_of_append_Nil: "queue_of (nx(y := None)) (Some y) (Some y) [y]"
  by (simp add: queue_of_def)

lemma queue_of_append:
  "queue_of nx f l xs \<Longrightarrow> xs \<noteq> [] \<Longrightarrow> y \<notin> set xs \<Longrightarrow>
   queue_of (nx(y := None, last xs := Some y)) f (Some y) (xs @ [y])"
  by (simp add: queue_of_def chain_snoc)

lemma queue_of_remove:
  "queue_of nx f l (x # xs) \<Longrightarrow>
   queue_of (nx(x := None)) (nx x) (if xs = [] then None else l) xs"
  by (auto simp: queue_of_def)

lemma queue_of_unlink:
  assumes "queue_of nx f l (xs @ y # x # ys)"
  shows "queue_of (nx(y := nx x, x := None)) f (if ys = [] then Some y else l) (xs @ y # ys)"
  using assms chain_unlink [of nx f xs y x ys] by (auto simp: queue_of_def)

subsection \<open>Walks\<close>

lemma find_in_chain:
  "chain nx p xs \<Longrightarrow> length xs < n \<Longrightarrow> find_in n nx P p = Ok (find P xs)"
proof (induction xs arbitrary: p n)
  case Nil
  then show ?case by (cases n) auto
next
  case (Cons x xs)
  then show ?case by (cases n) auto
qed

lemma find_in_queue:
  "queue_of nx f l xs \<Longrightarrow> length xs < n \<Longrightarrow> find_in n nx P f = Ok (find P xs)"
  by (simp add: queue_of_def find_in_chain)

lemma find_in_cycle: "nx x = Some x \<Longrightarrow> \<not> P x \<Longrightarrow> find_in n nx P (Some x) = Fault OutOfFuel"
  by (induction n) auto

lemma find_eq: "find (\<lambda>y. y = x) xs = (if x \<in> set xs then Some x else None)"
  by (induction xs) auto

subsection \<open>The contract of a FIFO queue\<close>

text \<open>
  \<open>rep s xs\<close>: in state \<open>s\<close> the queue holds \<open>xs\<close>, oldest first.  \<open>fit s x\<close>: what an
  element has to satisfy to be queued (the operations check it again when they remove
  it); the operations do not change it.
\<close>

locale fifo_queue =
  fixes rep :: "'s \<Rightarrow> 'a list \<Rightarrow> bool"
    and fit :: "'s \<Rightarrow> 'a \<Rightarrow> bool"
    and append :: "'a \<Rightarrow> 's \<Rightarrow> 's res"
    and remove :: "'s \<Rightarrow> ('a option \<times> 's) res"
  assumes append_ok: "rep s xs \<Longrightarrow> x \<notin> set xs \<Longrightarrow> fit s x \<Longrightarrow>
      \<exists>s'. append x s = Ok s' \<and> rep s' (xs @ [x]) \<and> fit s' = fit s"
    and remove_empty: "rep s [] \<Longrightarrow> remove s = Ok (None, s)"
    and remove_first: "rep s (x # xs) \<Longrightarrow> fit s x \<Longrightarrow>
      \<exists>s'. remove s = Ok (Some x, s') \<and> rep s' xs \<and> fit s' = fit s"
begin

fun fill :: "'a list \<Rightarrow> 's \<Rightarrow> 's res" where
  "fill [] s = Ok s"
| "fill (x # xs) s = rbind (append x s) (fill xs)"

fun drain :: "nat \<Rightarrow> 's \<Rightarrow> ('a list \<times> 's) res" where
  "drain 0 s = Ok ([], s)"
| "drain (Suc k) s = rbind (remove s) (\<lambda>(r, s'). case r of None \<Rightarrow> Ok ([], s')
     | Some x \<Rightarrow> rbind (drain k s') (\<lambda>(ys, s''). Ok (x # ys, s'')))"

lemma fill_ok:
  "rep s xs \<Longrightarrow> distinct (xs @ ys) \<Longrightarrow> \<forall>y\<in>set ys. fit s y \<Longrightarrow>
   \<exists>s'. fill ys s = Ok s' \<and> rep s' (xs @ ys) \<and> fit s' = fit s"
proof (induction ys arbitrary: s xs)
  case Nil
  then show ?case by simp
next
  case (Cons y ys)
  then obtain s1 where s1: "append y s = Ok s1" "rep s1 (xs @ [y])" "fit s1 = fit s"
    using append_ok [of s xs y] by auto
  with Cons.IH [of s1 "xs @ [y]"] Cons.prems show ?case by auto
qed

lemma drain_ok:
  "rep s xs \<Longrightarrow> \<forall>x\<in>set xs. fit s x \<Longrightarrow>
   \<exists>s'. drain k s = Ok (take k xs, s') \<and> rep s' (drop k xs)"
proof (induction k arbitrary: s xs)
  case 0
  then show ?case by simp
next
  case (Suc k)
  show ?case
  proof (cases xs)
    case Nil
    with Suc.prems remove_empty [of s] show ?thesis by simp
  next
    case (Cons x ys)
    with Suc.prems obtain s1 where s1: "remove s = Ok (Some x, s1)" "rep s1 ys" "fit s1 = fit s"
      using remove_first [of s x ys] by auto
    with Suc.IH [of s1 ys] Suc.prems Cons show ?thesis by auto
  qed
qed

text \<open>First in, first out: what is queued in an empty queue comes out in the same order.\<close>

lemma fifo:
  assumes "rep s []" and "distinct xs" and "\<forall>x\<in>set xs. fit s x"
  shows "\<exists>s' s''. fill xs s = Ok s' \<and> drain (length xs) s' = Ok (xs, s'') \<and> rep s'' []"
proof -
  obtain s' where s': "fill xs s = Ok s'" "rep s' xs" "fit s' = fit s"
    using fill_ok [of s "[]" xs] assms by auto
  with drain_ok [of s' xs "length xs"] assms show ?thesis by auto
qed

end

end
