(* ===== verification/Runq.thy ===== *)
theory Runq
  imports Ptr_Queue
begin

section \<open>The scheduler (core/runq.c, core/runq_inline.c, core/thread.c)\<close>

text \<open>
  The round-robin scheduler of the uniprocessor kernel.  Every domain has a queue of
  runnable threads, and the domains with a nonempty queue are themselves queued, except
  the domain of the running thread.  Both kinds of queue are linked through the
  descriptors.

  A thread and a domain descriptor are addressed by a number (\<open>tid\<close>, \<open>did\<close>), a NULL
  pointer is \<open>None\<close>.  The operations run with interrupts disabled, so each is one
  step of the machine; a routine that calls \<^verbatim>\<open>switch_to\<close> ends, in the model, in the state in
  which the next thread is current.  What a thread does when it is switched back to is a
  definition of its own (\<open>Sched_block_resume\<close>).  Loops that walk a queue take a fuel
  argument \<open>n\<close>; the theorems show that any \<open>n\<close> above the length of the queues
  is enough.
\<close>

subsection \<open>State\<close>

type_synonym tid = nat
type_synonym did = nat

definition STATE_INIT :: u4 where "STATE_INIT = 1"
definition STATE_RUNNABLE :: u4 where "STATE_RUNNABLE = 2"
definition STATE_ZOMBIE :: u4 where "STATE_ZOMBIE = 3"
definition STATE_PORTAL_WAIT_FOR_RCV :: u4 where "STATE_PORTAL_WAIT_FOR_RCV = 7"
definition STATE_PORTAL_WAIT_FOR_SND :: u4 where "STATE_PORTAL_WAIT_FOR_SND = 8"
definition STATE_PORTAL_WAIT_FOR_RET :: u4 where "STATE_PORTAL_WAIT_FOR_RET = 9"
definition STATE_BLOCKEDUSER :: u4 where "STATE_BLOCKEDUSER = 10"
definition STATE_AVAILABLE :: u4 where "STATE_AVAILABLE = 11"

lemmas thread_states = STATE_INIT_def STATE_RUNNABLE_def STATE_ZOMBIE_def
  STATE_PORTAL_WAIT_FOR_RCV_def STATE_PORTAL_WAIT_FOR_SND_def STATE_PORTAL_WAIT_FOR_RET_def
  STATE_BLOCKEDUSER_def STATE_AVAILABLE_def

definition DOMAIN_STATE_FREE :: u4 where "DOMAIN_STATE_FREE = 0"
definition DOMAIN_STATE_CREATING :: u4 where "DOMAIN_STATE_CREATING = 1"
definition DOMAIN_STATE_ACTIVE :: u4 where "DOMAIN_STATE_ACTIVE = 2"

definition SCHED_CREATETHREAD_DEFAULT :: int where "SCHED_CREATETHREAD_DEFAULT = 0"
definition SCHED_CREATETHREAD_NORUNQ :: int where "SCHED_CREATETHREAD_NORUNQ = 1"

record ThreadDesc =
  t_state :: u4
  t_domain :: did
  t_nextInRunQueue :: "tid option"
  t_id :: u4
  t_nextInDomain :: "tid option"
  t_prevInDomain :: "tid option"
  t_stack :: u4
  t_stackTop :: u4
  t_myparams :: u4
  t_eip :: u4
  t_esp :: u4

record DomainDesc =
  d_state :: u4
  d_firstThreadInRunQueue :: "tid option"
  d_lastThreadInRunQueue :: "tid option"
  d_nextInRunQueue :: "did option"
  d_threads :: "tid option"
  d_currentThreadID :: u4

text \<open>\<open>domainMem\<close> lists the slots of the domain table in address order.\<close>

record sched =
  thr :: "tid \<Rightarrow> ThreadDesc"
  dom :: "did \<Rightarrow> DomainDesc"
  runq_first :: "did option"
  runq_last :: "did option"
  curthr :: tid
  idle_thread :: tid
  domainsys_inited :: bool
  domainMem :: "did list"

abbreviation curdom :: "sched \<Rightarrow> did" where
  "curdom s \<equiv> t_domain (thr s (curthr s))"

definition t_next :: "sched \<Rightarrow> tid \<Rightarrow> tid option" where
  "t_next s t = t_nextInRunQueue (thr s t)"

definition d_next :: "sched \<Rightarrow> did \<Rightarrow> did option" where
  "d_next s d = d_nextInRunQueue (dom s d)"

text \<open>Assignments through a descriptor pointer.\<close>

definition upd_thr :: "tid \<Rightarrow> (ThreadDesc \<Rightarrow> ThreadDesc) \<Rightarrow> sched \<Rightarrow> sched" where
  "upd_thr t f s = s\<lparr>thr := (thr s)(t := f (thr s t))\<rparr>"

definition upd_dom :: "did \<Rightarrow> (DomainDesc \<Rightarrow> DomainDesc) \<Rightarrow> sched \<Rightarrow> sched" where
  "upd_dom d f s = s\<lparr>dom := (dom s)(d := f (dom s d))\<rparr>"

definition set_state :: "tid \<Rightarrow> u4 \<Rightarrow> sched \<Rightarrow> sched" where
  "set_state t v = upd_thr t (\<lambda>x. x\<lparr>t_state := v\<rparr>)"

definition set_next :: "tid \<Rightarrow> tid option \<Rightarrow> sched \<Rightarrow> sched" where
  "set_next t v = upd_thr t (\<lambda>x. x\<lparr>t_nextInRunQueue := v\<rparr>)"

definition set_dnext :: "did \<Rightarrow> did option \<Rightarrow> sched \<Rightarrow> sched" where
  "set_dnext d v = upd_dom d (\<lambda>x. x\<lparr>d_nextInRunQueue := v\<rparr>)"

definition set_first :: "did \<Rightarrow> tid option \<Rightarrow> sched \<Rightarrow> sched" where
  "set_first d v = upd_dom d (\<lambda>x. x\<lparr>d_firstThreadInRunQueue := v\<rparr>)"

definition set_last :: "did \<Rightarrow> tid option \<Rightarrow> sched \<Rightarrow> sched" where
  "set_last d v = upd_dom d (\<lambda>x. x\<lparr>d_lastThreadInRunQueue := v\<rparr>)"

subsection \<open>The queue operations\<close>

text \<open>\<^verbatim>\<open>threadrunq_append\<close> answers 1 when the queue was empty.\<close>

definition threadrunq_append :: "did \<Rightarrow> tid \<Rightarrow> sched \<Rightarrow> bool \<times> sched" where
  "threadrunq_append d t s0 = (let s = set_next t None s0 in
     case d_lastThreadInRunQueue (dom s d) of
       None \<Rightarrow> (True, set_last d (Some t) (set_first d (Some t) s))
     | Some l \<Rightarrow> (False, set_last d (Some t) (set_next l (Some t) s)))"

definition threadrunq_remove :: "did \<Rightarrow> sched \<Rightarrow> (tid option \<times> sched) res" where
  "threadrunq_remove d s = (case d_firstThreadInRunQueue (dom s d) of
       None \<Rightarrow> Ok (None, s)
     | Some t \<Rightarrow> rassert (t_state (thr s t) = STATE_RUNNABLE) ''threadrunq_remove'' (
         let s1 = set_first d (t_nextInRunQueue (thr s t)) s;
             s2 = (if d_lastThreadInRunQueue (dom s1 d) = Some t then set_last d None s1 else s1)
         in Ok (Some t, set_next t None s2)))"

definition domainrunq_append :: "nat \<Rightarrow> did \<Rightarrow> sched \<Rightarrow> sched res" where
  "domainrunq_append n d s = rbind (find_in n (d_next s) (\<lambda>x. x = d) (runq_first s)) (\<lambda>r.
     if r \<noteq> None then Fault (SysPanic ''domain already in runqueue'')
     else rassert (runq_last s = None \<longrightarrow> runq_first s = None) ''domainrunq_append'' (
       let s1 = set_dnext d None s in
       case runq_last s1 of
         None \<Rightarrow> Ok (s1\<lparr>runq_first := Some d, runq_last := Some d\<rparr>)
       | Some l \<Rightarrow> Ok ((set_dnext l (Some d) s1)\<lparr>runq_last := Some d\<rparr>)))"

definition domainrunq_remove :: "sched \<Rightarrow> (did option \<times> sched) res" where
  "domainrunq_remove s = (case runq_first s of
       None \<Rightarrow> Ok (None, s)
     | Some d \<Rightarrow>
         if d = curdom s then Fault (SysPanic ''running domain should not be in runq'')
         else let s1 = s\<lparr>runq_first := d_nextInRunQueue (dom s d)\<rparr>;
                  s2 = (if runq_last s1 = Some d then s1\<lparr>runq_last := None\<rparr> else s1)
              in rassert (runq_first s2 = None \<longrightarrow> runq_last s2 = None) ''domainrunq_remove''
                   (Ok (Some d, set_dnext d None s2)))"

text \<open>The loop that unlinks a domain, wherever it is in the queue
  (\<^verbatim>\<open>domainrunq_remove_domain\<close>, and the same code in \<^verbatim>\<open>runqueue_switchdomains\<close>).\<close>

fun unlink_domain :: "nat \<Rightarrow> did \<Rightarrow> did option \<Rightarrow> did option \<Rightarrow> sched \<Rightarrow> sched res" where
  "unlink_domain 0 x prev d s = Fault OutOfFuel"
| "unlink_domain (Suc n) x prev None s = Ok s"
| "unlink_domain (Suc n) x prev (Some d) s =
     (if d = x then
        let nxt = d_nextInRunQueue (dom s x);
            s1 = (case prev of Some p \<Rightarrow> set_dnext p nxt s | None \<Rightarrow> s\<lparr>runq_first := nxt\<rparr>)
        in if d_nextInRunQueue (dom s1 x) = None
           then rassert (runq_last s1 = Some x) ''unlink''
                  (Ok (set_dnext x None (s1\<lparr>runq_last := prev\<rparr>)))
           else Ok (set_dnext x None s1)
      else unlink_domain n x (Some d) (d_nextInRunQueue (dom s d)) s)"

definition domainrunq_remove_domain :: "nat \<Rightarrow> did \<Rightarrow> sched \<Rightarrow> sched res" where
  "domainrunq_remove_domain n d s = unlink_domain n d None (runq_first s) s"

definition runqueue_switchdomains :: "nat \<Rightarrow> did \<Rightarrow> did \<Rightarrow> sched \<Rightarrow> sched res" where
  "runqueue_switchdomains n cd to s = rassert (curdom s = cd) ''switchdomains'' (
     rbind (if d_firstThreadInRunQueue (dom s cd) \<noteq> None then domainrunq_append n cd s else Ok s) (\<lambda>s1.
     rbind (if d_firstThreadInRunQueue (dom s1 to) \<noteq> None
            then unlink_domain n to None (runq_first s1) s1 else Ok s1) (\<lambda>s2.
       rassert (runq_first s2 = None \<longrightarrow> runq_last s2 = None) ''switchdomains first'' (
       rassert (runq_last s2 = None \<longrightarrow> runq_first s2 = None) ''switchdomains last'' (Ok s2)))))"

definition runq_init :: "sched \<Rightarrow> sched" where
  "runq_init s = s\<lparr>runq_first := None, runq_last := None\<rparr>"

definition runqueue_isEmpty :: "sched \<Rightarrow> bool" where
  "runqueue_isEmpty s \<longleftrightarrow> runq_first s = None"

subsection \<open>The consistency checks\<close>

text \<open>\<^verbatim>\<open>while (t != NULL) { if (t->state = STATE_RUNNABLE) break; t = t->nextInRunQueue; }\<close>:
  the condition is an assignment, so the loop stores \<open>STATE_RUNNABLE\<close> in the first
  thread and leaves.\<close>

fun check_runnable_scan :: "nat \<Rightarrow> tid option \<Rightarrow> sched \<Rightarrow> (tid option \<times> sched) res" where
  "check_runnable_scan 0 p s = Fault OutOfFuel"
| "check_runnable_scan (Suc n) None s = Ok (None, s)"
| "check_runnable_scan (Suc n) (Some t) s = (let s1 = set_state t STATE_RUNNABLE s in
     if STATE_RUNNABLE \<noteq> 0 then Ok (Some t, s1)
     else check_runnable_scan n (t_nextInRunQueue (thr s1 t)) s1)"

definition check_runnable :: "nat \<Rightarrow> did \<Rightarrow> sched \<Rightarrow> sched res" where
  "check_runnable n d s =
     (if d = curdom s then Ok s
      else rbind (check_runnable_scan n (d_firstThreadInRunQueue (dom s d)) s) (\<lambda>(t, s1).
        if t = None then Ok s1
        else rbind (find_in n (d_next s1) (\<lambda>x. x = d) (runq_first s1)) (\<lambda>r.
          if r \<noteq> None then Ok s1
          else Fault (SysPanic ''domain contains runnable threads but is not in runq''))))"

fun foreach_slot :: "(did \<Rightarrow> sched \<Rightarrow> sched res) \<Rightarrow> did list \<Rightarrow> sched \<Rightarrow> sched res" where
  "foreach_slot f [] s = Ok s"
| "foreach_slot f (d # ds) s =
     (if d_state (dom s d) \<noteq> DOMAIN_STATE_ACTIVE then foreach_slot f ds s
      else rbind (f d s) (foreach_slot f ds))"

definition foreachDomain :: "(did \<Rightarrow> sched \<Rightarrow> sched res) \<Rightarrow> sched \<Rightarrow> sched res" where
  "foreachDomain f s = (if \<not> domainsys_inited s then Ok s else foreach_slot f (domainMem s) s)"

definition check_completerunnable :: "nat \<Rightarrow> sched \<Rightarrow> sched res" where
  "check_completerunnable n s = foreachDomain (check_runnable n) s"

text \<open>Walk the domain queue and apply a check to every domain in it.\<close>

fun walk_domains :: "nat \<Rightarrow> (did \<Rightarrow> unit res) \<Rightarrow> (did \<Rightarrow> did option) \<Rightarrow> did option \<Rightarrow> unit res" where
  "walk_domains 0 f nx p = Fault OutOfFuel"
| "walk_domains (Suc n) f nx None = Ok ()"
| "walk_domains (Suc n) f nx (Some d) = rbind (f d) (\<lambda>_. walk_domains n f nx (nx d))"

definition not_in_queue_of :: "nat \<Rightarrow> tid \<Rightarrow> sched \<Rightarrow> did \<Rightarrow> unit res" where
  "not_in_queue_of n t s d = rbind (find_in n (t_next s) (\<lambda>x. x = t) (d_firstThreadInRunQueue (dom s d)))
     (\<lambda>r. if r \<noteq> None then Fault (SysPanic ''Thread is in runq and should not be there'') else Ok ())"

definition check_not_in_runq :: "nat \<Rightarrow> tid \<Rightarrow> sched \<Rightarrow> unit res" where
  "check_not_in_runq n t s = rbind (not_in_queue_of n t s (curdom s)) (\<lambda>_.
     walk_domains n (not_in_queue_of n t s) (d_next s) (runq_first s))"

definition check_domain_not_in_runq :: "nat \<Rightarrow> did \<Rightarrow> sched \<Rightarrow> unit res" where
  "check_domain_not_in_runq n cd s = rbind (find_in n (d_next s) (\<lambda>x. x = cd) (runq_first s))
     (\<lambda>r. if r \<noteq> None then Fault (SysPanic ''current domain in runq'') else Ok ())"

subsection \<open>Choosing the next thread\<close>

definition runqueue_removeFirstOrNULL :: "nat \<Rightarrow> did \<Rightarrow> sched \<Rightarrow> (tid option \<times> sched) res" where
  "runqueue_removeFirstOrNULL n cd s =
     rbind (check_completerunnable n s) (\<lambda>s1.
     rbind (domainrunq_remove s1) (\<lambda>(nd, s2). case nd of
         None \<Rightarrow> threadrunq_remove cd s2
       | Some newdom \<Rightarrow>
           rassert (d_firstThreadInRunQueue (dom s2 newdom) \<noteq> None) ''newdom must contain runnable threads'' (
           rbind (if d_firstThreadInRunQueue (dom s2 cd) \<noteq> None then domainrunq_append n cd s2 else Ok s2) (\<lambda>s3.
           rbind (threadrunq_remove newdom s3) (\<lambda>(nxt, s4).
             case nxt of None \<Rightarrow> Fault (AssertFail ''next != NULL'')
             | Some t \<Rightarrow> rassert (t_state (thr s4 t) = STATE_RUNNABLE) ''next->state'' (Ok (Some t, s4)))))))"

definition runqueue_removeFirstOrIdle :: "nat \<Rightarrow> did \<Rightarrow> sched \<Rightarrow> (tid \<times> sched) res" where
  "runqueue_removeFirstOrIdle n cd s = rbind (runqueue_removeFirstOrNULL n cd s)
     (\<lambda>(r, s1). case r of None \<Rightarrow> Ok (idle_thread s1, s1) | Some t \<Rightarrow> Ok (t, s1))"

text \<open>\<^verbatim>\<open>switch_to\<close> and \<^verbatim>\<open>destroy_switch_to\<close> make another thread current.\<close>

definition switch_to :: "tid \<Rightarrow> sched \<Rightarrow> sched" where
  "switch_to t s = s\<lparr>curthr := t\<rparr>"

definition Sched_switch_to_nextThread :: "nat \<Rightarrow> sched \<Rightarrow> sched res" where
  "Sched_switch_to_nextThread n s = rbind (runqueue_removeFirstOrIdle n (curdom s) s) (\<lambda>(t, s1).
     rbind (check_not_in_runq n t s1) (\<lambda>_. Ok (switch_to t s1)))"

definition Sched_destroy_switch_to_nextThread :: "nat \<Rightarrow> did \<Rightarrow> sched \<Rightarrow> sched res" where
  "Sched_destroy_switch_to_nextThread n cd s = rbind (runqueue_removeFirstOrIdle n cd s) (\<lambda>(t, s1).
     rbind (check_not_in_runq n t s1) (\<lambda>_. Ok (switch_to t s1)))"

subsection \<open>The scheduler interface\<close>

text \<open>A thread becomes runnable: into its domain's queue, and the domain into the domain
  queue when it had no runnable thread and is not the running one.\<close>

definition Sched_unblocked :: "nat \<Rightarrow> tid \<Rightarrow> sched \<Rightarrow> sched res" where
  "Sched_unblocked n t s = (let (was_empty, s1) = threadrunq_append (t_domain (thr s t)) t s in
     if was_empty \<and> curdom s1 \<noteq> t_domain (thr s1 t) then domainrunq_append n (t_domain (thr s1 t)) s1
     else Ok s1)"

definition Sched_created :: "nat \<Rightarrow> tid \<Rightarrow> int \<Rightarrow> sched \<Rightarrow> sched res" where
  "Sched_created n t param s =
     (if param = SCHED_CREATETHREAD_DEFAULT then
        let (was_empty, s1) = threadrunq_append (t_domain (thr s t)) t s in
        if was_empty then
          if curdom s1 \<noteq> t_domain (thr s1 t) then domainrunq_append n (t_domain (thr s1 t)) s1 else Ok s1
        else Ok s1
      else Ok s)"

definition Sched_destroyed :: "tid \<Rightarrow> sched \<Rightarrow> sched res" where
  "Sched_destroyed t s = rassert (t_state (thr s t) \<noteq> STATE_RUNNABLE) ''Sched_destroyed'' (Ok s)"

definition Sched_blocked :: "tid \<Rightarrow> sched \<Rightarrow> sched res" where
  "Sched_blocked t s = rassert (t_state (thr s t) \<noteq> STATE_RUNNABLE) ''Sched_blocked'' (Ok s)"

definition Sched_yielded :: "tid \<Rightarrow> sched \<Rightarrow> sched" where
  "Sched_yielded t s = (if t = idle_thread s then s
     else snd (threadrunq_append (t_domain (thr s (curthr s))) (curthr s) s))"

definition Sched_threadsExist :: "did \<Rightarrow> sched \<Rightarrow> int" where
  "Sched_threadsExist d s = (if d_firstThreadInRunQueue (dom s d) = None then 0 else 1)"

definition Sched_activate_interrupt_thread :: "nat \<Rightarrow> tid \<Rightarrow> sched \<Rightarrow> sched res" where
  "Sched_activate_interrupt_thread n irqThread s =
     (if curdom s \<noteq> t_domain (thr s irqThread)
      then runqueue_switchdomains n (curdom s) (t_domain (thr s irqThread)) s else Ok s)"

definition Sched_deactivate_interrupt_thread :: "nat \<Rightarrow> tid \<Rightarrow> sched \<Rightarrow> sched res" where
  "Sched_deactivate_interrupt_thread n normalThread s =
     (if curdom s \<noteq> t_domain (thr s normalThread)
      then runqueue_switchdomains n (curdom s) (t_domain (thr s normalThread)) s else Ok s)"

text \<open>The preempted thread goes back into its queue, before \<open>t\<close> runs.\<close>

definition preempt_requeue :: "nat \<Rightarrow> tid \<Rightarrow> sched \<Rightarrow> sched res" where
  "preempt_requeue n t s = (if curthr s \<noteq> idle_thread s then
     let me = curthr s; (was_empty, s2) = threadrunq_append (t_domain (thr s me)) me s in
     if was_empty \<and> t_domain (thr s2 t) \<noteq> t_domain (thr s2 me)
     then domainrunq_append n (t_domain (thr s2 me)) s2 else Ok s2
   else Ok s)"

definition Sched_reschedule :: "nat \<Rightarrow> sched \<Rightarrow> sched res" where
  "Sched_reschedule n s = rbind (runqueue_removeFirstOrNULL n (curdom s) s) (\<lambda>(nxt, s1). case nxt of
       None \<Rightarrow> Ok s1
     | Some t \<Rightarrow> rbind (preempt_requeue n t s1) (\<lambda>s3.
         rassert (curthr s3 \<noteq> t) ''curthr() != next'' (
         rbind (check_not_in_runq n t s3) (\<lambda>_. Ok (switch_to t s3)))))"

definition Sched_domainLeave :: "nat \<Rightarrow> did \<Rightarrow> sched \<Rightarrow> sched res" where
  "Sched_domainLeave n d s = domainrunq_remove_domain n d s"

subsection \<open>Threads (core/thread.c)\<close>

definition threadunblock :: "nat \<Rightarrow> tid \<Rightarrow> sched \<Rightarrow> sched res" where
  "threadunblock n t s = Sched_unblocked n t (set_state t STATE_RUNNABLE s)"

definition threadyield :: "nat \<Rightarrow> sched \<Rightarrow> sched res" where
  "threadyield n s = rassert (t_state (thr s (curthr s)) = STATE_RUNNABLE) ''threadyield''
     (Sched_switch_to_nextThread n (Sched_yielded (curthr s) s))"

text \<open>\<open>Sched_block\<close> up to the point where another thread runs, and what the blocked
  thread does when it runs again.\<close>

definition Sched_block :: "nat \<Rightarrow> u4 \<Rightarrow> sched \<Rightarrow> sched res" where
  "Sched_block n st s = rbind (Sched_blocked (curthr s) (set_state (curthr s) st s))
     (Sched_switch_to_nextThread n)"

definition Sched_block_resume :: "sched \<Rightarrow> sched" where
  "Sched_block_resume s = set_state (curthr s) STATE_RUNNABLE s"

definition threadblock :: "nat \<Rightarrow> sched \<Rightarrow> sched res" where
  "threadblock n s = Sched_block n STATE_BLOCKEDUSER s"

text \<open>\<open>reschedule\<close> is entered from the timer interrupt; \<open>off\<close> is \<^verbatim>\<open>disable_threadswitching\<close>.
  When \<^verbatim>\<open>Sched_reschedule\<close> returns there was no other thread and the current one
  continues.\<close>

definition reschedule :: "nat \<Rightarrow> bool \<Rightarrow> sched \<Rightarrow> sched res" where
  "reschedule n off s = (if off then Ok (switch_to (curthr s) s) else Sched_reschedule n s)"

subsection \<open>Portal calls hand the processor over\<close>

definition Sched_portal_handoff_to_receiver :: "nat \<Rightarrow> tid \<Rightarrow> sched \<Rightarrow> sched res" where
  "Sched_portal_handoff_to_receiver n receiver s =
     (let s1 = set_state receiver STATE_RUNNABLE (set_state (curthr s) STATE_PORTAL_WAIT_FOR_RET s) in
      rbind (threadunblock n receiver s1) (Sched_switch_to_nextThread n))"

text \<open>What the sender checks when it runs again.\<close>

definition Sched_portal_handoff_resume :: "sched \<Rightarrow> sched res" where
  "Sched_portal_handoff_resume s =
     rassert (t_state (thr s (curthr s)) = STATE_RUNNABLE) ''handoff_to_receiver'' (Ok s)"

definition Sched_portal_handoff_to_sender :: "nat \<Rightarrow> tid \<Rightarrow> bool \<Rightarrow> sched \<Rightarrow> sched res" where
  "Sched_portal_handoff_to_sender n sender isRunnable s =
     (let s1 = (if isRunnable
                then let s' = set_state (curthr s) STATE_RUNNABLE s in
                     snd (threadrunq_append (t_domain (thr s' (curthr s))) (curthr s) s')
                else set_state (curthr s) STATE_PORTAL_WAIT_FOR_SND s) in
      rbind (threadunblock n sender s1) (Sched_switch_to_nextThread n))"

definition Sched_portal_destroy_handoff_to_sender :: "nat \<Rightarrow> tid \<Rightarrow> sched \<Rightarrow> sched res" where
  "Sched_portal_destroy_handoff_to_sender n sender s =
     (let s1 = snd (threadrunq_append (t_domain (thr s (curthr s))) (curthr s) s) in
      rbind (threadunblock n sender s1) (\<lambda>s2. Sched_destroy_switch_to_nextThread n (curdom s2) s2))"

definition Sched_portal_unblock_sender :: "nat \<Rightarrow> tid \<Rightarrow> sched \<Rightarrow> sched res" where
  "Sched_portal_unblock_sender n sender s = threadunblock n sender s"

subsection \<open>What the updates change\<close>

definition q_first :: "sched \<Rightarrow> did \<Rightarrow> tid option" where
  "q_first s d = d_firstThreadInRunQueue (dom s d)"

definition q_last :: "sched \<Rightarrow> did \<Rightarrow> tid option" where
  "q_last s d = d_lastThreadInRunQueue (dom s d)"

lemmas observe = t_next_def [symmetric] d_next_def [symmetric] q_first_def [symmetric] q_last_def [symmetric]

lemmas upd_defs = upd_thr_def upd_dom_def set_state_def set_next_def set_dnext_def set_first_def set_last_def

lemma t_next_upd [simp]:
  "t_next (set_next t v s) = (t_next s)(t := v)"
  "t_next (set_dnext d w s) = t_next s"
  "t_next (set_first d v s) = t_next s"
  "t_next (set_last d v s) = t_next s"
  "t_next (set_state t st s) = t_next s"
  "t_next (s\<lparr>runq_first := w\<rparr>) = t_next s"
  "t_next (s\<lparr>runq_last := w\<rparr>) = t_next s"
  "t_next (s\<lparr>curthr := t\<rparr>) = t_next s"
  by (auto simp: t_next_def upd_defs fun_eq_iff)

lemma d_next_upd [simp]:
  "d_next (set_next t v s) = d_next s"
  "d_next (set_dnext d w s) = (d_next s)(d := w)"
  "d_next (set_first d v s) = d_next s"
  "d_next (set_last d v s) = d_next s"
  "d_next (set_state t st s) = d_next s"
  "d_next (s\<lparr>runq_first := w\<rparr>) = d_next s"
  "d_next (s\<lparr>runq_last := w\<rparr>) = d_next s"
  "d_next (s\<lparr>curthr := t\<rparr>) = d_next s"
  by (auto simp: d_next_def upd_defs fun_eq_iff)

lemma q_first_upd [simp]:
  "q_first (set_next t v s) = q_first s"
  "q_first (set_dnext d w s) = q_first s"
  "q_first (set_first d v s) = (q_first s)(d := v)"
  "q_first (set_last d v s) = q_first s"
  "q_first (set_state t st s) = q_first s"
  "q_first (s\<lparr>runq_first := w\<rparr>) = q_first s"
  "q_first (s\<lparr>runq_last := w\<rparr>) = q_first s"
  "q_first (s\<lparr>curthr := t\<rparr>) = q_first s"
  by (auto simp: q_first_def upd_defs fun_eq_iff)

lemma q_last_upd [simp]:
  "q_last (set_next t v s) = q_last s"
  "q_last (set_dnext d w s) = q_last s"
  "q_last (set_first d v s) = q_last s"
  "q_last (set_last d v s) = (q_last s)(d := v)"
  "q_last (set_state t st s) = q_last s"
  "q_last (s\<lparr>runq_first := w\<rparr>) = q_last s"
  "q_last (s\<lparr>runq_last := w\<rparr>) = q_last s"
  "q_last (s\<lparr>curthr := t\<rparr>) = q_last s"
  by (auto simp: q_last_def upd_defs fun_eq_iff)

lemma runq_ends_upd [simp]:
  "runq_first (set_next t v s) = runq_first s" "runq_last (set_next t v s) = runq_last s"
  "runq_first (set_dnext d w s) = runq_first s" "runq_last (set_dnext d w s) = runq_last s"
  "runq_first (set_first d v s) = runq_first s" "runq_last (set_first d v s) = runq_last s"
  "runq_first (set_last d v s) = runq_first s" "runq_last (set_last d v s) = runq_last s"
  "runq_first (set_state t st s) = runq_first s" "runq_last (set_state t st s) = runq_last s"
  by (auto simp: upd_defs)

text \<open>Everything but the queue links: what the queue operations leave alone.\<close>

definition erase :: "sched \<Rightarrow> sched" where
  "erase s = s\<lparr>thr := \<lambda>t. (thr s t)\<lparr>t_nextInRunQueue := None\<rparr>,
     dom := \<lambda>d. (dom s d)\<lparr>d_firstThreadInRunQueue := None, d_lastThreadInRunQueue := None,
       d_nextInRunQueue := None\<rparr>, runq_first := None, runq_last := None\<rparr>"

lemma erase_upd [simp]:
  "erase (set_next t v s) = erase s"
  "erase (set_dnext d w s) = erase s"
  "erase (set_first d v s) = erase s"
  "erase (set_last d v s) = erase s"
  "erase (s\<lparr>runq_first := w\<rparr>) = erase s"
  "erase (s\<lparr>runq_last := w\<rparr>) = erase s"
  by (auto simp: erase_def upd_defs fun_eq_iff intro!: sched.equality)

lemma erase_same:
  assumes "erase s' = erase s"
  shows "t_state (thr s' t) = t_state (thr s t)" "t_domain (thr s' t) = t_domain (thr s t)"
    "curthr s' = curthr s" "idle_thread s' = idle_thread s" "domainMem s' = domainMem s"
    "domainsys_inited s' = domainsys_inited s" "d_state (dom s' d) = d_state (dom s d)"
proof -
  have "t_state (thr (erase s') t) = t_state (thr (erase s) t)"
    "t_domain (thr (erase s') t) = t_domain (thr (erase s) t)"
    "curthr (erase s') = curthr (erase s)" "idle_thread (erase s') = idle_thread (erase s)"
    "domainMem (erase s') = domainMem (erase s)"
    "domainsys_inited (erase s') = domainsys_inited (erase s)"
    "d_state (dom (erase s') d) = d_state (dom (erase s) d)"
    by (simp_all only: assms)
  then show "t_state (thr s' t) = t_state (thr s t)" "t_domain (thr s' t) = t_domain (thr s t)"
    "curthr s' = curthr s" "idle_thread s' = idle_thread s" "domainMem s' = domainMem s"
    "domainsys_inited s' = domainsys_inited s" "d_state (dom s' d) = d_state (dom s d)"
    by (simp_all add: erase_def)
qed

lemma attrs_upd [simp]:
  "t_state (thr (set_next t v s) x) = t_state (thr s x)"
  "t_domain (thr (set_next t v s) x) = t_domain (thr s x)"
  "thr (set_dnext d w s) = thr s" "thr (set_first d v s) = thr s" "thr (set_last d v s) = thr s"
  "curthr (set_next t v s) = curthr s" "curthr (set_dnext d w s) = curthr s"
  "curthr (set_first d v s) = curthr s" "curthr (set_last d v s) = curthr s"
  "idle_thread (set_next t v s) = idle_thread s"
  by (auto simp: upd_defs)

lemma set_state_attrs [simp]:
  "t_state (thr (set_state t st s) x) = (if x = t then st else t_state (thr s x))"
  "t_domain (thr (set_state t st s) x) = t_domain (thr s x)"
  "curthr (set_state t st s) = curthr s"
  "idle_thread (set_state t st s) = idle_thread s"
  "domainMem (set_state t st s) = domainMem s"
  "domainsys_inited (set_state t st s) = domainsys_inited s"
  "dom (set_state t st s) = dom s"
  by (auto simp: upd_defs)

lemma set_state_same [simp]: "t_state (thr s t) = st \<Longrightarrow> set_state t st s = s"
  by (auto simp: upd_defs fun_eq_iff intro!: sched.equality ThreadDesc.equality)

subsection \<open>The abstract run queues\<close>

text \<open>
  The specification: every domain has a list of ready threads, \<open>order\<close> lists the domains
  waiting for the processor.  \<open>rq_rel s a\<close>: the linked structure \<open>s\<close> represents \<open>a\<close>, and
  every queued thread is runnable and queued in its own domain.
\<close>

record ready_queues =
  ready :: "did \<Rightarrow> tid list"
  order :: "did list"

definition rq_rel :: "sched \<Rightarrow> ready_queues \<Rightarrow> bool" where
  "rq_rel s a \<longleftrightarrow>
     (\<forall>d. queue_of (t_next s) (q_first s d) (q_last s d) (ready a d)) \<and>
     queue_of (d_next s) (runq_first s) (runq_last s) (order a) \<and>
     (\<forall>d. \<forall>t\<in>set (ready a d). t_domain (thr s t) = d \<and> t_state (thr s t) = STATE_RUNNABLE)"

lemma rq_relD:
  assumes "rq_rel s a"
  shows "queue_of (t_next s) (q_first s d) (q_last s d) (ready a d)"
    "queue_of (d_next s) (runq_first s) (runq_last s) (order a)"
    "t \<in> set (ready a d) \<Longrightarrow> t_domain (thr s t) = d"
    "t \<in> set (ready a d) \<Longrightarrow> t_state (thr s t) = STATE_RUNNABLE"
    "distinct (ready a d)" "distinct (order a)"
  using assms by (auto simp: rq_rel_def queue_of_def)

lemma rq_rel_first:
  assumes "rq_rel s a"
  shows "q_first s d = (if ready a d = [] then None else Some (hd (ready a d)))"
    "q_last s d = (if ready a d = [] then None else Some (last (ready a d)))"
    "runq_first s = (if order a = [] then None else Some (hd (order a)))"
    "runq_last s = (if order a = [] then None else Some (last (order a)))"
  using assms queue_of_first queue_of_last unfolding rq_rel_def by blast+

lemma rq_relI:
  assumes "rq_rel s b" and "erase s' = erase s"
    and "\<And>d. queue_of (t_next s') (q_first s' d) (q_last s' d) (ready a d)"
    and "queue_of (d_next s') (runq_first s') (runq_last s') (order a)"
    and sub: "\<And>d. set (ready a d) \<subseteq> set (ready b d)"
  shows "rq_rel s' a"
proof -
  have "t_domain (thr s t) = d \<and> t_state (thr s t) = STATE_RUNNABLE" if "t \<in> set (ready a d)" for d t
    using rq_relD(3,4) [OF assms(1), of t d] that sub by blast
  then show ?thesis
    using assms(3-4) erase_same(1,2) [OF assms(2)] unfolding rq_rel_def by simp
qed

text \<open>The queue of another domain does not see a change of a thread's link.\<close>

lemma rq_rel_other:
  "rq_rel s a \<Longrightarrow> t_domain (thr s t) \<noteq> d \<Longrightarrow> t \<notin> set (ready a d)"
  by (auto simp: rq_rel_def)

lemma threadrunq_append_rel:
  assumes rel: "rq_rel s a" and dom: "t_domain (thr s t) = d"
    and st: "t_state (thr s t) = STATE_RUNNABLE" and new: "t \<notin> set (ready a d)"
  shows "\<exists>s'. threadrunq_append d t s = (ready a d = [], s') \<and> erase s' = erase s \<and>
    rq_rel s' (a\<lparr>ready := (ready a)(d := ready a d @ [t])\<rparr>)"
proof (cases "ready a d = []")
  case True
  let ?s = "set_last d (Some t) (set_first d (Some t) (set_next t None s))"
  have 1: "threadrunq_append d t s = (True, ?s)"
    using rq_rel_first(2) [OF rel, of d] True
    by (simp add: threadrunq_append_def observe)
  have "queue_of (t_next ?s) (q_first ?s e) (q_last ?s e) (((ready a)(d := [t])) e)" for e
    using rq_relD(1) [OF rel, of e] rq_rel_other [OF rel, of t e] dom
    by (cases "e = d") (simp_all add: queue_of_append_Nil)
  then have "rq_rel ?s (a\<lparr>ready := (ready a)(d := [t])\<rparr>)"
    using rel dom st unfolding rq_rel_def by simp
  with 1 True show ?thesis by simp
next
  case False
  let ?l = "last (ready a d)"
  let ?s = "set_last d (Some t) (set_next ?l (Some t) (set_next t None s))"
  have 1: "threadrunq_append d t s = (False, ?s)"
    using rq_rel_first(2) [OF rel, of d] False
    by (simp add: threadrunq_append_def observe)
  have l: "t_domain (thr s ?l) = d" using rq_relD(3) [OF rel] False by simp
  have "queue_of (t_next ?s) (q_first ?s e) (q_last ?s e) (((ready a)(d := ready a d @ [t])) e)" for e
  proof (cases "e = d")
    case True
    with queue_of_append [OF rq_relD(1) [OF rel, of d] False new] show ?thesis by simp
  next
    case neq: False
    then have "t \<notin> set (ready a e)" "?l \<notin> set (ready a e)"
      using rq_rel_other [OF rel, of _ e] dom l by auto
    with neq rq_relD(1) [OF rel, of e] show ?thesis by simp
  qed
  then have "rq_rel ?s (a\<lparr>ready := (ready a)(d := ready a d @ [t])\<rparr>)"
    using rel dom st unfolding rq_rel_def by simp
  with 1 False show ?thesis by simp
qed

lemma threadrunq_remove_empty:
  "rq_rel s a \<Longrightarrow> ready a d = [] \<Longrightarrow> threadrunq_remove d s = Ok (None, s)"
  using rq_rel_first(1) [of s a d] by (simp add: threadrunq_remove_def observe)

lemma threadrunq_remove_rel:
  assumes rel: "rq_rel s a" and q: "ready a d = t # ts"
  shows "\<exists>s'. threadrunq_remove d s = Ok (Some t, s') \<and> erase s' = erase s \<and>
    rq_rel s' (a\<lparr>ready := (ready a)(d := ts)\<rparr>)"
proof -
  have st: "t_state (thr s t) = STATE_RUNNABLE" and dom: "t_domain (thr s t) = d"
    and dist: "distinct (t # ts)"
    using rq_relD(3,4) [OF rel, of t d] rq_relD(5) [OF rel, of d] q by auto
  define s' where "s' = set_next t None (if q_last s d = Some t
    then set_last d None (set_first d (t_next s t) s) else set_first d (t_next s t) s)"
  have 1: "threadrunq_remove d s = Ok (Some t, s')"
    using rq_rel_first(1) [OF rel, of d] q st
    by (simp add: threadrunq_remove_def observe s'_def)
  have l: "q_last s d = Some t \<longleftrightarrow> ts = []"
    using rq_rel_first(2) [OF rel, of d] q dist last_in_set [of ts] by (auto split: if_splits)
  have er: "erase s' = erase s" by (simp add: s'_def)
  have "queue_of (t_next s') (q_first s' e) (q_last s' e) (((ready a)(d := ts)) e)" for e
  proof (cases "e = d")
    case True
    with queue_of_remove [of "t_next s" "q_first s d" "q_last s d" t ts] rq_relD(1) [OF rel, of d] q l
    show ?thesis by (auto simp: s'_def split: if_splits)
  next
    case neq: False
    then have "t \<notin> set (ready a e)" using rq_rel_other [OF rel, of t e] dom by auto
    with neq rq_relD(1) [OF rel, of e] show ?thesis by (simp add: s'_def)
  qed
  moreover have "queue_of (d_next s') (runq_first s') (runq_last s') (order a)"
    using rq_relD(2) [OF rel] by (simp add: s'_def)
  ultimately have "rq_rel s' (a\<lparr>ready := (ready a)(d := ts)\<rparr>)"
    using q by (intro rq_relI [OF rel er]) (auto split: if_splits)
  with 1 er show ?thesis by blast
qed

lemma domainrunq_append_rel:
  assumes rel: "rq_rel s a" and new: "d \<notin> set (order a)" and n: "length (order a) < n"
  shows "\<exists>s'. domainrunq_append n d s = Ok s' \<and> erase s' = erase s \<and>
    rq_rel s' (a\<lparr>order := order a @ [d]\<rparr>)"
proof -
  note q = rq_relD(2) [OF rel]
  have f: "find_in n (d_next s) (\<lambda>x. x = d) (runq_first s) = Ok None"
    using find_in_queue [OF q n] new by (simp add: find_eq)
  define s' where "s' = (case runq_last s of
      None \<Rightarrow> (set_dnext d None s)\<lparr>runq_first := Some d, runq_last := Some d\<rparr>
    | Some l \<Rightarrow> (set_dnext l (Some d) (set_dnext d None s))\<lparr>runq_last := Some d\<rparr>)"
  have 1: "domainrunq_append n d s = Ok s'"
    using f rq_rel_first(3,4) [OF rel]
    by (auto simp: domainrunq_append_def s'_def Let_def split: option.splits if_splits)
  have er: "erase s' = erase s" by (simp add: s'_def split: option.splits)
  have "queue_of (d_next s') (runq_first s') (runq_last s') (order a @ [d])"
  proof (cases "order a = []")
    case True
    then have "runq_last s = None" using rq_rel_first(4) [OF rel] by simp
    with True show ?thesis by (simp add: s'_def queue_of_append_Nil)
  next
    case False
    then have "runq_last s = Some (last (order a))" using rq_rel_first(4) [OF rel] by simp
    with queue_of_append [OF q False new] show ?thesis by (simp add: s'_def)
  qed
  moreover have "queue_of (t_next s') (q_first s' e) (q_last s' e) (ready a e)" for e
    using rq_relD(1) [OF rel, of e] by (simp add: s'_def split: option.splits)
  ultimately have "rq_rel s' (a\<lparr>order := order a @ [d]\<rparr>)"
    by (intro rq_relI [OF rel er]) auto
  with 1 er show ?thesis by blast
qed

lemma domainrunq_remove_empty:
  "rq_rel s a \<Longrightarrow> order a = [] \<Longrightarrow> domainrunq_remove s = Ok (None, s)"
  using rq_rel_first(3) [of s a] by (simp add: domainrunq_remove_def)

lemma domainrunq_remove_rel:
  assumes rel: "rq_rel s a" and q: "order a = d # ds" and cd: "d \<noteq> curdom s"
  shows "\<exists>s'. domainrunq_remove s = Ok (Some d, s') \<and> erase s' = erase s \<and>
    rq_rel s' (a\<lparr>order := ds\<rparr>)"
proof -
  define s1 where "s1 = s\<lparr>runq_first := d_next s d\<rparr>"
  define s2 where "s2 = (if runq_last s1 = Some d then s1\<lparr>runq_last := None\<rparr> else s1)"
  have dist: "distinct (d # ds)" using rq_relD(6) [OF rel] q by simp
  have qq: "queue_of (d_next s) (runq_first s) (runq_last s) (d # ds)"
    using rq_relD(2) [OF rel] q by simp
  have l: "runq_last s = Some d \<longleftrightarrow> ds = []"
    using queue_of_last [OF qq] dist last_in_set [of ds] by (auto split: if_splits)
  have q': "queue_of ((d_next s)(d := None)) (d_next s d) (if ds = [] then None else runq_last s) ds"
    by (rule queue_of_remove [OF qq])
  have ends: "runq_first s2 = d_next s d" "runq_last s2 = (if ds = [] then None else runq_last s)"
    "d_next s2 = d_next s"
    using l by (auto simp: s2_def s1_def)
  have "domainrunq_remove s = rassert (runq_first s2 = None \<longrightarrow> runq_last s2 = None) ''domainrunq_remove''
      (Ok (Some d, set_dnext d None s2))"
    using rq_rel_first(3) [OF rel] q cd
    by (simp add: domainrunq_remove_def s1_def s2_def Let_def observe)
  then have 1: "domainrunq_remove s = Ok (Some d, set_dnext d None s2)"
    using ends queue_of_first [OF q'] queue_of_last [OF q'] by (auto split: if_splits)
  have er: "erase (set_dnext d None s2) = erase s" by (simp add: s2_def s1_def)
  have "queue_of (d_next (set_dnext d None s2)) (runq_first (set_dnext d None s2))
      (runq_last (set_dnext d None s2)) ds"
    using q' ends by simp
  moreover have "queue_of (t_next (set_dnext d None s2)) (q_first (set_dnext d None s2) e)
      (q_last (set_dnext d None s2) e) (ready a e)" for e
    using rq_relD(1) [OF rel, of e] by (simp add: s2_def s1_def)
  ultimately have "rq_rel (set_dnext d None s2) (a\<lparr>order := ds\<rparr>)"
    by (intro rq_relI [OF rel er]) auto
  with 1 er show ?thesis by blast
qed

subsection \<open>Unlinking a domain\<close>

lemma unlink_here_first:
  assumes rel: "rq_rel s a" and q: "order a = x # ys" and n: "0 < n"
  shows "\<exists>s'. unlink_domain n x None (Some x) s = Ok s' \<and> erase s' = erase s \<and>
    rq_rel s' (a\<lparr>order := ys\<rparr>)"
proof -
  have qq: "queue_of (d_next s) (runq_first s) (runq_last s) (x # ys)"
    using rq_relD(2) [OF rel] q by simp
  have q': "queue_of ((d_next s)(x := None)) (d_next s x) (if ys = [] then None else runq_last s) ys"
    by (rule queue_of_remove [OF qq])
  have nx: "d_next s x = None \<longleftrightarrow> ys = []" using queue_of_first [OF q'] by auto
  define s' where "s' = (if ys = [] then set_dnext x None (s\<lparr>runq_first := None, runq_last := None\<rparr>)
    else set_dnext x None (s\<lparr>runq_first := d_next s x\<rparr>))"
  obtain k where k: "n = Suc k" using n by (cases n) auto
  have l: "ys = [] \<Longrightarrow> runq_last s = Some x" using queue_of_last [OF qq] by simp
  have 1: "unlink_domain n x None (Some x) s = Ok s'"
    using nx l by (auto simp: k s'_def observe Let_def)
  have er: "erase s' = erase s" by (simp add: s'_def)
  have "queue_of (d_next s') (runq_first s') (runq_last s') ys"
    using q' nx by (auto simp: s'_def)
  moreover have "queue_of (t_next s') (q_first s' e) (q_last s' e) (ready a e)" for e
    using rq_relD(1) [OF rel, of e] by (simp add: s'_def)
  ultimately have "rq_rel s' (a\<lparr>order := ys\<rparr>)" by (intro rq_relI [OF rel er]) auto
  with 1 er show ?thesis by blast
qed

lemma unlink_here_next:
  assumes rel: "rq_rel s a" and q: "order a = xs @ p # x # ys" and n: "0 < n"
  shows "\<exists>s'. unlink_domain n x (Some p) (Some x) s = Ok s' \<and> erase s' = erase s \<and>
    rq_rel s' (a\<lparr>order := xs @ p # ys\<rparr>)"
proof -
  have qq: "queue_of (d_next s) (runq_first s) (runq_last s) (xs @ p # x # ys)"
    using rq_relD(2) [OF rel] q by simp
  have px: "p \<noteq> x" using queue_of_distinct [OF qq] by auto
  have nx: "d_next s x = None \<longleftrightarrow> ys = []"
    using qq chain_nth_next [of "d_next s" "runq_first s" "xs @ [p]" x ys] by (auto simp: queue_of_def)
  define s' where "s' = (if ys = [] then set_dnext x None ((set_dnext p None s)\<lparr>runq_last := Some p\<rparr>)
    else set_dnext x None (set_dnext p (d_next s x) s))"
  obtain k where k: "n = Suc k" using n by (cases n) auto
  have l: "ys = [] \<Longrightarrow> runq_last s = Some x" using queue_of_last [OF qq] by simp
  have 1: "unlink_domain n x (Some p) (Some x) s = Ok s'"
    using nx l px by (auto simp: k s'_def observe Let_def)
  have er: "erase s' = erase s" by (simp add: s'_def)
  have "queue_of (d_next s') (runq_first s') (runq_last s') (xs @ p # ys)"
    using queue_of_unlink [OF qq] nx by (auto simp: s'_def)
  moreover have "queue_of (t_next s') (q_first s' e) (q_last s' e) (ready a e)" for e
    using rq_relD(1) [OF rel, of e] by (simp add: s'_def)
  ultimately have "rq_rel s' (a\<lparr>order := xs @ p # ys\<rparr>)" by (intro rq_relI [OF rel er]) auto
  with 1 er show ?thesis by blast
qed

lemma unlink_loop:
  assumes "rq_rel s a" and "order a = xs @ ys" and "x \<notin> set xs" and "length ys < n"
  shows "\<exists>s'. unlink_domain n x (if xs = [] then None else Some (last xs))
      (if ys = [] then None else Some (hd ys)) s = Ok s' \<and> erase s' = erase s \<and>
    rq_rel s' (a\<lparr>order := xs @ remove1 x ys\<rparr>)"
  using assms
proof (induction ys arbitrary: xs n)
  case Nil
  then obtain k where "n = Suc k" by (cases n) auto
  moreover have "a\<lparr>order := xs\<rparr> = a" using Nil.prems(2) by simp
  ultimately show ?case using Nil.prems(1) by simp
next
  case (Cons y ys)
  show ?case
  proof (cases "y = x")
    case True
    show ?thesis
    proof (cases xs rule: rev_cases)
      case Nil
      with Cons.prems True show ?thesis using unlink_here_first [of s a x ys n] by simp
    next
      case (snoc zs p)
      with Cons.prems True show ?thesis using unlink_here_next [of s a zs p x ys n] by simp
    qed
  next
    case False
    obtain k where k: "n = Suc k" using Cons.prems by (cases n) auto
    have "chain (d_next s) (runq_first s) (xs @ y # ys)"
      using rq_relD(2) [OF Cons.prems(1)] Cons.prems(2) by (simp add: queue_of_def)
    then have nx: "d_nextInRunQueue (dom s y) = (if ys = [] then None else Some (hd ys))"
      using chain_nth_next [of "d_next s" "runq_first s" xs y ys] by (simp add: observe)
    show ?thesis using Cons.IH [of "xs @ [y]" k] Cons.prems False by (simp add: k nx)
  qed
qed

lemma unlink_domain_rel:
  assumes "rq_rel s a" and "length (order a) < n"
  shows "\<exists>s'. unlink_domain n x None (runq_first s) s = Ok s' \<and> erase s' = erase s \<and>
    rq_rel s' (a\<lparr>order := remove1 x (order a)\<rparr>)"
  using unlink_loop [of s a "[]" "order a" x n] assms rq_rel_first(3) [OF assms(1)] by simp

subsection \<open>The consistency checks never fire\<close>

text \<open>
  The scheduler's invariant on the queues: the domain queue holds exactly the domains with
  ready threads, except the running one.
\<close>

definition order_ok :: "did \<Rightarrow> ready_queues \<Rightarrow> bool" where
  "order_ok cd a \<longleftrightarrow> (\<forall>d. d \<in> set (order a) \<longleftrightarrow> ready a d \<noteq> [] \<and> d \<noteq> cd)"

definition enough :: "nat \<Rightarrow> ready_queues \<Rightarrow> bool" where
  "enough n a \<longleftrightarrow> length (order a) < n \<and> (\<forall>d. length (ready a d) < n)"

lemma check_runnable_ok:
  assumes rel: "rq_rel s a" and ok: "order_ok (curdom s) a" and n: "enough n a"
  shows "check_runnable n d s = Ok s"
proof (cases "ready a d = []")
  case True
  then have "q_first s d = None" using rq_rel_first(1) [OF rel, of d] by simp
  moreover obtain k where "n = Suc k" using n by (cases n) (auto simp: enough_def)
  ultimately show ?thesis by (simp add: check_runnable_def observe)
next
  case False
  then obtain t ts where t: "ready a d = t # ts" by (cases "ready a d") auto
  then have "q_first s d = Some t" using rq_rel_first(1) [OF rel, of d] by simp
  moreover have "t_state (thr s t) = STATE_RUNNABLE" using rq_relD(4) [OF rel, of t d] t by simp
  moreover obtain k where "n = Suc k" using n by (cases n) (auto simp: enough_def)
  ultimately have scan: "check_runnable_scan n (q_first s d) s = Ok (Some t, s)"
    by (simp add: STATE_RUNNABLE_def Let_def)
  have "d \<in> set (order a)" if "d \<noteq> curdom s" using ok False that by (simp add: order_ok_def)
  moreover have "find_in n (d_next s) (\<lambda>x. x = d) (runq_first s) = Ok (find (\<lambda>x. x = d) (order a))"
    using n by (intro find_in_queue [OF rq_relD(2) [OF rel]]) (simp add: enough_def)
  ultimately show ?thesis using scan by (simp add: check_runnable_def observe find_eq)
qed

lemma foreach_slot_ok: "(\<And>d. f d s = Ok s) \<Longrightarrow> foreach_slot f ds s = Ok s"
  by (induction ds) auto

lemma check_completerunnable_ok:
  "rq_rel s a \<Longrightarrow> order_ok (curdom s) a \<Longrightarrow> enough n a \<Longrightarrow> check_completerunnable n s = Ok s"
  by (simp add: check_completerunnable_def foreachDomain_def foreach_slot_ok check_runnable_ok)

lemma walk_domains_ok:
  "chain nx p xs \<Longrightarrow> length xs < n \<Longrightarrow> (\<And>d. f d = Ok ()) \<Longrightarrow> walk_domains n f nx p = Ok ()"
proof (induction xs arbitrary: p n)
  case Nil
  then show ?case by (cases n) auto
next
  case (Cons x xs)
  then show ?case by (cases n) auto
qed

lemma not_in_queue_of_ok:
  assumes rel: "rq_rel s a" and n: "enough n a" and nin: "\<And>d. t \<notin> set (ready a d)"
  shows "not_in_queue_of n t s d = Ok ()"
proof -
  have "find_in n (t_next s) (\<lambda>x. x = t) (q_first s d) = Ok (find (\<lambda>x. x = t) (ready a d))"
    using n by (intro find_in_queue [OF rq_relD(1) [OF rel]]) (simp add: enough_def)
  with nin show ?thesis by (simp add: not_in_queue_of_def observe find_eq)
qed

lemma check_not_in_runq_ok:
  assumes rel: "rq_rel s a" and n: "enough n a" and nin: "\<And>d. t \<notin> set (ready a d)"
  shows "check_not_in_runq n t s = Ok ()"
proof -
  have "chain (d_next s) (runq_first s) (order a)" "length (order a) < n"
    using rq_relD(2) [OF rel] n by (auto simp: queue_of_def enough_def)
  then show ?thesis
    using walk_domains_ok not_in_queue_of_ok [OF rel n nin] by (simp add: check_not_in_runq_def)
qed

subsection \<open>Choosing the next thread, abstractly\<close>

text \<open>
  \<open>pick cd a\<close>: when another domain waits, the first such domain supplies the thread and
  the current domain \<open>cd\<close> goes to the back of the queue if it has ready threads; otherwise
  the current domain supplies it.
\<close>

definition pick :: "did \<Rightarrow> ready_queues \<Rightarrow> tid option \<times> ready_queues" where
  "pick cd a = (case order a of
       [] \<Rightarrow> (case ready a cd of [] \<Rightarrow> (None, a)
             | t # ts \<Rightarrow> (Some t, a\<lparr>ready := (ready a)(cd := ts)\<rparr>))
     | d # ds \<Rightarrow> (Some (hd (ready a d)), a\<lparr>ready := (ready a)(d := tl (ready a d)),
         order := ds @ (if ready a cd = [] then [] else [cd])\<rparr>))"

definition enqueue :: "did \<Rightarrow> did \<Rightarrow> tid \<Rightarrow> ready_queues \<Rightarrow> ready_queues" where
  "enqueue cd d t a = a\<lparr>ready := (ready a)(d := ready a d @ [t]),
     order := (if ready a d = [] \<and> d \<noteq> cd then order a @ [d] else order a)\<rparr>"

lemma pick_ready:
  "ready (snd (pick cd a)) d = (if d = (if order a = [] then cd else hd (order a))
     then tl (ready a d) else ready a d)"
  by (cases "order a"; cases "ready a cd") (simp_all add: pick_def)

lemma pick_order:
  "order (snd (pick cd a)) = (if order a = [] then []
     else tl (order a) @ (if ready a cd = [] then [] else [cd]))"
  by (cases "order a"; cases "ready a cd") (simp_all add: pick_def)

lemma order_okD:
  assumes "order_ok cd a"
  shows "cd \<notin> set (order a)" "d \<in> set (order a) \<Longrightarrow> ready a d \<noteq> []"
    "d \<in> set (order a) \<Longrightarrow> d \<noteq> cd" "order a = [] \<Longrightarrow> d \<noteq> cd \<Longrightarrow> ready a d = []"
  using assms by (auto simp: order_ok_def)

lemma pick_None:
  assumes "order_ok cd a" and "pick cd a = (None, a')"
  shows "a' = a" "order a = []" "ready a d = []"
  using assms order_okD(4) [OF assms(1), of d]
  by (auto simp: pick_def split: list.splits)

lemma pick_Some:
  assumes ok: "order_ok cd a" and pick: "pick cd a = (Some t, a')" and dist: "distinct (order a)"
  obtains d ts where "ready a d = t # ts" "ready a' = (ready a)(d := ts)" "order_ok d a'"
    "order a = [] \<Longrightarrow> d = cd" "order a \<noteq> [] \<Longrightarrow> d = hd (order a)"
proof (cases "order a")
  case Nil
  then have "order_ok cd a'" using ok pick by (auto simp: pick_def order_ok_def split: list.splits)
  with Nil pick that [of cd] show ?thesis by (auto simp: pick_def split: list.splits)
next
  case (Cons d ds)
  then have ne: "ready a d \<noteq> []" using order_okD(2) [OF ok, of d] by simp
  have a': "ready a' = (ready a)(d := tl (ready a d))"
    "order a' = ds @ (if ready a cd = [] then [] else [cd])"
    using pick Cons by (auto simp: pick_def)
  have all: "e = d \<or> e \<in> set ds \<longleftrightarrow> ready a e \<noteq> [] \<and> e \<noteq> cd" for e
    using ok Cons by (auto simp: order_ok_def)
  have o: "d \<notin> set ds" "d \<noteq> cd" "cd \<notin> set ds"
    using all [of d] all [of cd] dist Cons by auto
  have "e \<in> set (order a') \<longleftrightarrow> ready a' e \<noteq> [] \<and> e \<noteq> d" for e
    using o all [of e] by (cases "e = cd") (auto simp: a')
  then have "order_ok d a'" by (simp add: order_ok_def)
  moreover have "t = hd (ready a d)" using pick Cons by (simp add: pick_def)
  ultimately show ?thesis
    using Cons a' ne by (intro that [of d "tl (ready a d)"]) simp_all
qed

lemma pick_lengths:
  assumes "order_ok cd a" and "pick cd a = (r, a')"
  shows "length (ready a' d) \<le> length (ready a d)"
    "order a \<noteq> [] \<Longrightarrow> length (order a') \<le> length (order a)"
  using pick_ready [of cd a d] pick_order [of cd a] assms(2) by simp_all

lemma pick_subset:
  assumes "order_ok cd a" and "pick cd a = (r, a')"
  shows "set (ready a' d) \<subseteq> set (ready a d)"
  using pick_ready [of cd a d] assms(2) list.set_sel(2) [of "ready a d"]
  by (cases "ready a d") (auto split: if_splits)

lemma pick_not_queued:
  assumes rel: "rq_rel s a" and ok: "order_ok cd a" and pick: "pick cd a = (Some t, a')"
  shows "t \<notin> set (ready a' d)"
proof (rule pick_Some [OF ok pick rq_relD(6) [OF rel]])
  fix e ts assume e: "ready a e = t # ts" "ready a' = (ready a)(e := ts)"
  then have "t_domain (thr s t) = e" "t \<notin> set ts"
    using rq_relD(3) [OF rel, of t e] rq_relD(5) [OF rel, of e] by auto
  with e show ?thesis using rq_relD(3) [OF rel, of t d] by auto
qed

lemma pick_domain:
  assumes rel: "rq_rel s a" and ok: "order_ok cd a" and pick: "pick cd a = (Some t, a')"
  shows "order_ok (t_domain (thr s t)) a'" "t_state (thr s t) = STATE_RUNNABLE"
proof (rule_tac [1-2] pick_Some [OF ok pick rq_relD(6) [OF rel]])
  fix e ts assume e: "ready a e = t # ts" "order_ok e a'"
  then show "order_ok (t_domain (thr s t)) a'" "t_state (thr s t) = STATE_RUNNABLE"
    using rq_relD(3,4) [OF rel, of t e] by auto
qed

lemma enough_pick:
  assumes "order_ok cd a" "pick cd a = (r, a')" "enough n a"
  shows "enough n a'"
proof (cases "order a = []")
  case True
  then have "order a' = []" using assms(2) pick_order [of cd a] by simp
  with pick_lengths(1) [OF assms(1,2)] assms(3) show ?thesis
    by (auto simp: enough_def intro: le_less_trans)
next
  case False
  with pick_lengths [OF assms(1,2)] assms(3) show ?thesis
    by (auto simp: enough_def intro: le_less_trans)
qed

subsection \<open>Choosing the next thread, concretely\<close>

lemma removeFirst_other:
  assumes rel: "rq_rel s a" and ok: "order_ok (curdom s) a" and n: "enough n a"
    and q: "order a = d # ds"
  shows "\<exists>s'. runqueue_removeFirstOrNULL n (curdom s) s = Ok (fst (pick (curdom s) a), s') \<and>
    erase s' = erase s \<and> rq_rel s' (snd (pick (curdom s) a))"
proof -
  have dcd: "d \<noteq> curdom s" using order_okD(3) [OF ok, of d] q by simp
  obtain t ts where t: "ready a d = t # ts" using order_okD(2) [OF ok, of d] q by (cases "ready a d") auto
  obtain s2 where s2: "domainrunq_remove s = Ok (Some d, s2)" "erase s2 = erase s"
    "rq_rel s2 (a\<lparr>order := ds\<rparr>)"
    using domainrunq_remove_rel [OF rel q dcd] by blast
  define app where "app = (if ready a (curdom s) = [] then [] else [curdom s])"
  obtain s3 where s3: "(if q_first s2 (curdom s) \<noteq> None then domainrunq_append n (curdom s) s2 else Ok s2) = Ok s3"
    "erase s3 = erase s" "rq_rel s3 (a\<lparr>order := ds @ app\<rparr>)"
  proof (cases "ready a (curdom s) = []")
    case True
    then have "q_first s2 (curdom s) = None" using rq_rel_first(1) [OF s2(3)] by simp
    with True s2 that show ?thesis by (simp add: app_def)
  next
    case False
    then have "q_first s2 (curdom s) \<noteq> None" using rq_rel_first(1) [OF s2(3)] by simp
    moreover have "curdom s \<notin> set ds" "length ds < n"
      using order_okD(1) [OF ok] q n by (auto simp: enough_def)
    ultimately show ?thesis
      using domainrunq_append_rel [OF s2(3), of "curdom s" n] that s2(2) False by (auto simp: app_def)
  qed
  obtain s4 where s4: "threadrunq_remove d s3 = Ok (Some t, s4)" "erase s4 = erase s3"
    "rq_rel s4 (a\<lparr>order := ds @ app, ready := (ready a)(d := ts)\<rparr>)"
    using threadrunq_remove_rel [OF s3(3), of d t ts] t by auto
  have st: "t_state (thr s4 t) = STATE_RUNNABLE"
    using rq_relD(4) [OF rel, of t d] t erase_same(1) [OF s4(2)] erase_same(1) [OF s3(2)] by simp
  have "q_first s2 d \<noteq> None" using rq_rel_first(1) [OF s2(3), of d] t by simp
  then have "runqueue_removeFirstOrNULL n (curdom s) s = Ok (Some t, s4)"
    using check_completerunnable_ok [OF rel ok n] s2(1) s3(1) s4(1) st
    by (simp add: runqueue_removeFirstOrNULL_def observe)
  moreover have "pick (curdom s) a = (Some t, a\<lparr>order := ds @ app, ready := (ready a)(d := ts)\<rparr>)"
    using q t by (simp add: pick_def app_def)
  ultimately show ?thesis using s4(2,3) s3(2) by simp
qed

lemma removeFirst_rel:
  assumes rel: "rq_rel s a" and ok: "order_ok (curdom s) a" and n: "enough n a"
  shows "\<exists>s'. runqueue_removeFirstOrNULL n (curdom s) s = Ok (fst (pick (curdom s) a), s') \<and>
    erase s' = erase s \<and> rq_rel s' (snd (pick (curdom s) a))"
proof (cases "order a")
  case Nil
  then have eq: "runqueue_removeFirstOrNULL n (curdom s) s = threadrunq_remove (curdom s) s"
    using check_completerunnable_ok [OF rel ok n] domainrunq_remove_empty [OF rel]
    by (simp add: runqueue_removeFirstOrNULL_def)
  show ?thesis
  proof (cases "ready a (curdom s)")
    case Nil
    with \<open>order a = []\<close> eq threadrunq_remove_empty [OF rel Nil] rel show ?thesis by (simp add: pick_def)
  next
    case (Cons t ts)
    with \<open>order a = []\<close> eq threadrunq_remove_rel [OF rel Cons] show ?thesis by (auto simp: pick_def)
  qed
qed (rule removeFirst_other [OF assms])

subsection \<open>The invariant\<close>

text \<open>
  \<open>sched_inv s a\<close>: the linked run queues represent \<open>a\<close>; the domain queue holds exactly the
  domains with ready threads except the running one; neither the running nor the idle
  thread is queued; both are runnable.  \<open>room n a\<close>: fuel \<open>n\<close> is enough for the walks of one
  operation, which appends at most two threads.
\<close>

definition sched_inv :: "sched \<Rightarrow> ready_queues \<Rightarrow> bool" where
  "sched_inv s a \<longleftrightarrow> rq_rel s a \<and> order_ok (curdom s) a \<and>
     (\<forall>d. curthr s \<notin> set (ready a d)) \<and> (\<forall>d. idle_thread s \<notin> set (ready a d)) \<and>
     t_state (thr s (curthr s)) = STATE_RUNNABLE \<and>
     t_state (thr s (idle_thread s)) = STATE_RUNNABLE"

definition room :: "nat \<Rightarrow> ready_queues \<Rightarrow> bool" where
  "room n a \<longleftrightarrow> length (order a) + 2 < n \<and> (\<forall>d. length (ready a d) + 2 < n)"

definition next_thread :: "sched \<Rightarrow> ready_queues \<Rightarrow> tid" where
  "next_thread s a = (case fst (pick (curdom s) a) of None \<Rightarrow> idle_thread s | Some t \<Rightarrow> t)"

lemma sched_invD:
  assumes "sched_inv s a"
  shows "rq_rel s a" "order_ok (curdom s) a" "curthr s \<notin> set (ready a d)"
    "idle_thread s \<notin> set (ready a d)" "t_state (thr s (curthr s)) = STATE_RUNNABLE"
    "t_state (thr s (idle_thread s)) = STATE_RUNNABLE"
  using assms by (auto simp: sched_inv_def)

lemma room_enough: "room n a \<Longrightarrow> enough n a"
  unfolding room_def enough_def by (metis add_lessD1)

lemma length_enqueue:
  "length (ready (enqueue cd d t a) e) \<le> Suc (length (ready a e))"
  "length (order (enqueue cd d t a)) \<le> Suc (length (order a))"
  by (simp_all add: enqueue_def)

lemma enough_enqueue: "room n a \<Longrightarrow> enough n (enqueue cd d t a)"
  unfolding room_def enough_def
  by (metis length_enqueue add_2_eq_Suc' le_less_trans Suc_lessD)

lemma enough_enqueue2: "room n a \<Longrightarrow> enough n (enqueue cd d t (enqueue cd e u a))"
  unfolding room_def enough_def
  by (metis length_enqueue add_2_eq_Suc' le_less_trans Suc_le_mono order.trans)

lemma order_ok_enqueue: "order_ok cd a \<Longrightarrow> order_ok cd (enqueue cd d t a)"
  by (auto simp: order_ok_def enqueue_def)

text \<open>A state change of a thread that is not queued is invisible to the queues.\<close>

lemma rq_rel_set_state:
  assumes "rq_rel s a" and "st = STATE_RUNNABLE \<or> (\<forall>d. t \<notin> set (ready a d))"
  shows "rq_rel (set_state t st s) a"
  using assms by (auto simp: rq_rel_def)

subsection \<open>Making a thread runnable\<close>

lemma Sched_unblocked_rel:
  assumes rel: "rq_rel s a" and ok: "order_ok (curdom s) a"
    and new: "t \<notin> set (ready a (t_domain (thr s t)))"
    and st: "t_state (thr s t) = STATE_RUNNABLE" and n: "length (order a) < n"
  shows "\<exists>s'. Sched_unblocked n t s = Ok s' \<and> erase s' = erase s \<and>
    rq_rel s' (enqueue (curdom s) (t_domain (thr s t)) t a)"
proof -
  let ?d = "t_domain (thr s t)"
  obtain s1 where s1: "threadrunq_append ?d t s = (ready a ?d = [], s1)" "erase s1 = erase s"
    "rq_rel s1 (a\<lparr>ready := (ready a)(?d := ready a ?d @ [t])\<rparr>)"
    using threadrunq_append_rel [OF rel refl st new] by blast
  note same = erase_same [OF s1(2)]
  show ?thesis
  proof (cases "ready a ?d = [] \<and> ?d \<noteq> curdom s")
    case True
    then have "?d \<notin> set (order a)" using ok by (simp add: order_ok_def)
    with domainrunq_append_rel [OF s1(3), of ?d n] n s1 same True show ?thesis
      by (auto simp: Sched_unblocked_def enqueue_def)
  next
    case False
    with s1 same show ?thesis by (auto simp: Sched_unblocked_def enqueue_def)
  qed
qed

lemma Sched_created_eq:
  "Sched_created n t param s =
    (if param = SCHED_CREATETHREAD_DEFAULT then Sched_unblocked n t s else Ok s)"
  by (simp add: Sched_created_def Sched_unblocked_def split: prod.splits)

lemma threadunblock_rel:
  assumes rel: "rq_rel s a" and ok: "order_ok (curdom s) a"
    and new: "\<And>d. t \<notin> set (ready a d)" and n: "length (order a) < n"
  shows "\<exists>s'. threadunblock n t s = Ok s' \<and> erase s' = erase (set_state t STATE_RUNNABLE s) \<and>
    rq_rel s' (enqueue (curdom s) (t_domain (thr s t)) t a)"
  using Sched_unblocked_rel [of "set_state t STATE_RUNNABLE s" a t n]
    rq_rel_set_state [OF rel, of STATE_RUNNABLE t] ok new n
  by (simp add: threadunblock_def)

text \<open>The running thread puts itself into its queue.\<close>

lemma append_self_rel:
  assumes rel: "rq_rel s a" and "\<And>d. curthr s \<notin> set (ready a d)"
    and "t_state (thr s (curthr s)) = STATE_RUNNABLE"
  shows "\<exists>s' b. threadrunq_append (curdom s) (curthr s) s = (b, s') \<and> erase s' = erase s \<and>
    rq_rel s' (enqueue (curdom s) (curdom s) (curthr s) a)"
  using threadrunq_append_rel [OF rel refl assms(3)] assms(2) by (auto simp: enqueue_def)

lemma set_enqueue: "set (ready (enqueue cd d t a) e) = (if e = d then insert t (set (ready a e)) else set (ready a e))"
  by (simp add: enqueue_def)

subsection \<open>Switching\<close>

lemma switch_rel:
  assumes rel: "rq_rel s a" and ok: "order_ok (curdom s) a" and n: "enough n a"
    and idle: "\<And>d. idle_thread s \<notin> set (ready a d)"
    and st: "t_state (thr s (idle_thread s)) = STATE_RUNNABLE"
  shows "\<exists>s'. Sched_switch_to_nextThread n s = Ok s' \<and>
    erase s' = erase (switch_to (next_thread s a) s) \<and> sched_inv s' (snd (pick (curdom s) a))"
proof -
  let ?t = "next_thread s a"
  obtain r a' where p: "pick (curdom s) a = (r, a')" by (cases "pick (curdom s) a")
  obtain s1 where s1: "runqueue_removeFirstOrNULL n (curdom s) s = Ok (r, s1)"
    "erase s1 = erase s" "rq_rel s1 a'"
    using removeFirst_rel [OF rel ok n] p by auto
  note same = erase_same [OF s1(2)]
  have nin: "?t \<notin> set (ready a' d)" for d
  proof (cases r)
    case None
    with p pick_None(3) [OF ok, of a' d] pick_None(1) [OF ok, of a'] show ?thesis by simp
  next
    case (Some t)
    with p pick_not_queued [OF rel ok, of t a' d] show ?thesis by (simp add: next_thread_def)
  qed
  have dom: "order_ok (t_domain (thr s ?t)) a'" "t_state (thr s ?t) = STATE_RUNNABLE"
  proof (atomize (full), cases r)
    case None
    with p pick_None [OF ok, of a'] st
    show "order_ok (t_domain (thr s ?t)) a' \<and> t_state (thr s ?t) = STATE_RUNNABLE"
      by (simp add: next_thread_def order_ok_def)
  next
    case (Some t)
    with p pick_domain [OF rel ok, of t a']
    show "order_ok (t_domain (thr s ?t)) a' \<and> t_state (thr s ?t) = STATE_RUNNABLE"
      by (simp add: next_thread_def)
  qed
  have "check_not_in_runq n ?t s1 = Ok ()"
    by (rule check_not_in_runq_ok [OF s1(3) enough_pick [OF ok p n] nin])
  moreover have "runqueue_removeFirstOrIdle n (curdom s) s = Ok (?t, s1)"
    using s1(1) p same by (simp add: runqueue_removeFirstOrIdle_def next_thread_def split: option.splits)
  ultimately have "Sched_switch_to_nextThread n s = Ok (switch_to ?t s1)"
    by (simp add: Sched_switch_to_nextThread_def)
  moreover have "erase (switch_to ?t s1) = switch_to ?t (erase s1)"
    "erase (switch_to ?t s) = switch_to ?t (erase s)"
    by (simp_all add: switch_to_def erase_def)
  moreover have "rq_rel (switch_to ?t s1) a'"
    using s1(3) by (simp add: rq_rel_def switch_to_def)
  moreover have "idle_thread s \<notin> set (ready a' d)" for d
    using idle [of d] pick_subset [OF ok p, of d] by blast
  ultimately show ?thesis
    using s1(2) p nin dom st same by (auto simp: sched_inv_def switch_to_def)
qed

lemma destroy_switch_eq:
  "Sched_destroy_switch_to_nextThread n (curdom s) s = Sched_switch_to_nextThread n s"
  by (simp add: Sched_destroy_switch_to_nextThread_def Sched_switch_to_nextThread_def)

subsection \<open>Yielding, blocking, unblocking\<close>

definition requeue_self :: "sched \<Rightarrow> ready_queues \<Rightarrow> ready_queues" where
  "requeue_self s a = (if curthr s = idle_thread s then a else enqueue (curdom s) (curdom s) (curthr s) a)"

text \<open>A switch changes nothing but the links and the current thread.\<close>

lemma erase_switch:
  assumes "erase s' = erase (switch_to t s)"
  shows "t_state (thr s' x) = t_state (thr s x)" "t_domain (thr s' x) = t_domain (thr s x)"
    "curthr s' = t" "idle_thread s' = idle_thread s"
  using erase_same [OF assms] by (simp_all add: switch_to_def)

lemma Sched_yielded_rel:
  assumes inv: "sched_inv s a"
  shows "\<exists>s'. Sched_yielded (curthr s) s = s' \<and> erase s' = erase s \<and> rq_rel s' (requeue_self s a)"
  using append_self_rel [of s a] sched_invD [OF inv]
  by (cases "curthr s = idle_thread s") (auto simp: Sched_yielded_def requeue_self_def)

lemma pick_next_thread_cong:
  "erase s' = erase s \<Longrightarrow> next_thread s' a = next_thread s a"
  using erase_same [of s' s] by (simp add: next_thread_def split: option.split)

lemma erase_switch_to: "erase s' = erase s \<Longrightarrow> erase (switch_to t s') = erase (switch_to t s)"
proof -
  have "erase (switch_to t x) = switch_to t (erase x)" for x by (simp add: erase_def switch_to_def)
  then show "erase s' = erase s \<Longrightarrow> ?thesis" by simp
qed

lemma threadyield_step:
  assumes inv: "sched_inv s a" and n: "room n a"
  shows "\<exists>s'. threadyield n s = Ok s' \<and> sched_inv s' (snd (pick (curdom s) (requeue_self s a))) \<and>
    erase s' = erase (switch_to (next_thread s (requeue_self s a)) s)"
proof -
  let ?a = "requeue_self s a"
  obtain s1 where s1: "Sched_yielded (curthr s) s = s1" "erase s1 = erase s" "rq_rel s1 ?a"
    using Sched_yielded_rel [OF inv] by blast
  note same = erase_same [OF s1(2)]
  have ok: "order_ok (curdom s) ?a"
    using sched_invD(2) [OF inv] by (auto simp: requeue_self_def order_ok_enqueue)
  have en: "enough n ?a" using n by (simp add: requeue_self_def room_enough enough_enqueue)
  have idle: "idle_thread s1 \<notin> set (ready ?a d)" for d
    using sched_invD(4) [OF inv, of d] same by (auto simp: requeue_self_def set_enqueue)
  obtain s' where s': "Sched_switch_to_nextThread n s1 = Ok s'"
    "erase s' = erase (switch_to (next_thread s1 ?a) s1)" "sched_inv s' (snd (pick (curdom s1) ?a))"
    using switch_rel [OF s1(3) _ en idle] ok same sched_invD(6) [OF inv] by auto
  then show ?thesis
    using s1 same sched_invD(5) [OF inv] erase_switch_to [OF s1(2)] pick_next_thread_cong [OF s1(2)]
    by (auto simp: threadyield_def)
qed

lemma Sched_block_step:
  assumes inv: "sched_inv s a" and n: "room n a" and st: "st \<noteq> STATE_RUNNABLE"
    and idle: "curthr s \<noteq> idle_thread s"
  shows "\<exists>s'. Sched_block n st s = Ok s' \<and> sched_inv s' (snd (pick (curdom s) a)) \<and>
    erase s' = erase (switch_to (next_thread s a) (set_state (curthr s) st s))"
proof -
  let ?s = "set_state (curthr s) st s"
  have rel: "rq_rel ?s a" using sched_invD(1,3) [OF inv] by (simp add: rq_rel_set_state)
  have nx: "next_thread ?s a = next_thread s a" by (simp add: next_thread_def split: option.split)
  have "Sched_blocked (curthr s) ?s = Ok ?s" using st by (simp add: Sched_blocked_def)
  moreover have "order_ok (curdom ?s) a" "\<And>d. idle_thread ?s \<notin> set (ready a d)"
    "t_state (thr ?s (idle_thread ?s)) = STATE_RUNNABLE"
    using sched_invD [OF inv] idle by auto
  ultimately show ?thesis
    using switch_rel [OF rel _ room_enough [OF n]] nx by (auto simp: Sched_block_def)
qed

text \<open>The thread that runs after a switch is runnable already, so the assignment with which a
  blocked thread resumes stores what is there.\<close>

lemma Sched_block_resume_id: "sched_inv s a \<Longrightarrow> Sched_block_resume s = s"
  using sched_invD(5) by (simp add: Sched_block_resume_def)

lemma sched_inv_enqueue:
  assumes inv: "sched_inv s a" and er: "erase s' = erase (set_state t STATE_RUNNABLE s)"
    and rel: "rq_rel s' (enqueue (curdom s) d t a)" and t: "t \<noteq> curthr s" "t \<noteq> idle_thread s"
  shows "sched_inv s' (enqueue (curdom s) d t a)"
  using rel sched_invD [OF inv] order_ok_enqueue [OF sched_invD(2) [OF inv], of d t] t erase_same [OF er]
  by (auto simp: sched_inv_def set_enqueue)

lemma not_runnable_not_queued:
  "sched_inv s a \<Longrightarrow> t_state (thr s t) \<noteq> STATE_RUNNABLE \<Longrightarrow> t \<notin> set (ready a d)"
  using rq_relD(4) [OF sched_invD(1)] by blast

lemma threadunblock_step:
  assumes inv: "sched_inv s a" and n: "room n a" and st: "t_state (thr s t) \<noteq> STATE_RUNNABLE"
  shows "\<exists>s'. threadunblock n t s = Ok s' \<and>
    sched_inv s' (enqueue (curdom s) (t_domain (thr s t)) t a) \<and>
    erase s' = erase (set_state t STATE_RUNNABLE s)"
proof -
  have t: "t \<noteq> curthr s" "t \<noteq> idle_thread s" using st sched_invD(5,6) [OF inv] by auto
  have "length (order a) < n" using n by (simp add: room_def)
  then obtain s' where s': "threadunblock n t s = Ok s'" "erase s' = erase (set_state t STATE_RUNNABLE s)"
    "rq_rel s' (enqueue (curdom s) (t_domain (thr s t)) t a)"
    using threadunblock_rel [OF sched_invD(1,2) [OF inv]] not_runnable_not_queued [OF inv st] by blast
  with sched_inv_enqueue [OF inv s'(2,3) t] show ?thesis by blast
qed

lemma Sched_created_step:
  assumes inv: "sched_inv s a" and n: "room n a" and st: "t_state (thr s t) = STATE_RUNNABLE"
    and new: "\<And>d. t \<notin> set (ready a d)" and t: "t \<noteq> curthr s" "t \<noteq> idle_thread s"
  shows "\<exists>s'. Sched_created n t SCHED_CREATETHREAD_DEFAULT s = Ok s' \<and>
    sched_inv s' (enqueue (curdom s) (t_domain (thr s t)) t a) \<and> erase s' = erase s"
proof -
  have "length (order a) < n" using n by (simp add: room_def)
  then obtain s' where s': "Sched_unblocked n t s = Ok s'" "erase s' = erase s"
    "rq_rel s' (enqueue (curdom s) (t_domain (thr s t)) t a)"
    using Sched_unblocked_rel [OF sched_invD(1,2) [OF inv] new st] by blast
  moreover have "sched_inv s' (enqueue (curdom s) (t_domain (thr s t)) t a)"
    using sched_inv_enqueue [OF inv _ s'(3) t] s'(2) st by simp
  ultimately show ?thesis by (simp add: Sched_created_eq)
qed

subsection \<open>Preemption\<close>

definition preempt_queues :: "sched \<Rightarrow> ready_queues \<Rightarrow> ready_queues" where
  "preempt_queues s a = (case pick (curdom s) a of (None, a1) \<Rightarrow> a
     | (Some t, a1) \<Rightarrow> if curthr s = idle_thread s then a1
         else enqueue (t_domain (thr s t)) (curdom s) (curthr s) a1)"

definition preempt_thread :: "sched \<Rightarrow> ready_queues \<Rightarrow> tid" where
  "preempt_thread s a = (case fst (pick (curdom s) a) of None \<Rightarrow> curthr s | Some t \<Rightarrow> t)"

lemma preempt_requeue_rel:
  assumes inv: "sched_inv s a" and p: "pick (curdom s) a = (Some t, a1)"
    and s1: "erase s1 = erase s" "rq_rel s1 a1" and n: "length (order a1) < n"
  shows "\<exists>s3. preempt_requeue n t s1 = Ok s3 \<and> erase s3 = erase s \<and> rq_rel s3 (preempt_queues s a)"
proof (cases "curthr s = idle_thread s")
  case True
  with s1 erase_same(3,4) [OF s1(1)] p show ?thesis
    by (simp add: preempt_requeue_def preempt_queues_def)
next
  case ne: False
  note same = erase_same [OF s1(1)]
  let ?me = "curthr s" and ?cd = "curdom s"
  have ok1: "order_ok (t_domain (thr s t)) a1"
    using pick_domain(1) [OF sched_invD(1,2) [OF inv] p] .
  have new: "?me \<notin> set (ready a1 ?cd)"
    using pick_subset [OF sched_invD(2) [OF inv] p, of ?cd] sched_invD(3) [OF inv] by blast
  obtain s2 where s2: "threadrunq_append ?cd ?me s1 = (ready a1 ?cd = [], s2)" "erase s2 = erase s1"
    "rq_rel s2 (a1\<lparr>ready := (ready a1)(?cd := ready a1 ?cd @ [?me])\<rparr>)"
    using threadrunq_append_rel [OF s1(2) _ _ new] same sched_invD(5) [OF inv] by auto
  note same2 = erase_same [OF s2(2)]
  show ?thesis
  proof (cases "ready a1 ?cd = [] \<and> ?cd \<noteq> t_domain (thr s t)")
    case True
    then have "?cd \<notin> set (order a1)" using ok1 by (simp add: order_ok_def)
    with domainrunq_append_rel [OF s2(3), of ?cd n] n s2 s1(1) same same2 True ne p show ?thesis
      by (auto simp: preempt_requeue_def preempt_queues_def enqueue_def)
  next
    case False
    with s2 s1(1) same same2 ne p show ?thesis
      by (auto simp: preempt_requeue_def preempt_queues_def enqueue_def)
  qed
qed

lemma Sched_reschedule_step:
  assumes inv: "sched_inv s a" and n: "room n a"
  shows "\<exists>s'. Sched_reschedule n s = Ok s' \<and> sched_inv s' (preempt_queues s a) \<and>
    erase s' = erase (switch_to (preempt_thread s a) s)"
proof -
  note rel = sched_invD(1) [OF inv] and ok = sched_invD(2) [OF inv]
  obtain r a1 where p: "pick (curdom s) a = (r, a1)" by (cases "pick (curdom s) a")
  obtain s1 where s1: "runqueue_removeFirstOrNULL n (curdom s) s = Ok (r, s1)"
    "erase s1 = erase s" "rq_rel s1 a1"
    using removeFirst_rel [OF rel ok room_enough [OF n]] p by auto
  note same = erase_same [OF s1(2)]
  show ?thesis
  proof (cases r)
    case None
    with p pick_None(1) [OF ok, of a1] have "a1 = a" by simp
    then have "sched_inv s1 a" using s1(3) inv same by (simp add: sched_inv_def)
    moreover have "erase (switch_to (curthr s) s) = erase s" by (simp add: switch_to_def)
    ultimately show ?thesis
      using s1 p None by (simp add: Sched_reschedule_def preempt_queues_def preempt_thread_def)
  next
    case (Some t)
    let ?a = "preempt_queues s a"
    have l1: "length (order a1) \<le> length (order a)"
      using pick_lengths(2) [OF ok p] pick_order [of "curdom s" a] p by (cases "order a = []") auto
    have "length (order a1) < n" using l1 n by (simp add: room_def)
    then obtain s3 where s3: "preempt_requeue n t s1 = Ok s3" "erase s3 = erase s" "rq_rel s3 ?a"
      using preempt_requeue_rel [OF inv p [unfolded Some] s1(2,3)] by blast
    note same3 = erase_same [OF s3(2)]
    have tin: "t \<notin> set (ready a1 d)" for d using pick_not_queued [OF rel ok p [unfolded Some]] .
    have "\<exists>d. t \<in> set (ready a d)"
      by (rule pick_Some [OF ok p [unfolded Some] rq_relD(6) [OF rel]]) (metis list.set_intros(1))
    then have tc: "t \<noteq> curthr s" "t \<noteq> idle_thread s" using sched_invD(3,4) [OF inv] by blast+
    have tin': "t \<notin> set (ready ?a d)" for d
      using tin [of d] tc p Some by (auto simp: preempt_queues_def set_enqueue)
    have en: "enough n ?a"
    proof -
      have "room n a1" using n l1 pick_lengths(1) [OF ok p] unfolding room_def
        by (meson add_le_mono1 le_less_trans)
      then show ?thesis using p Some room_enough enough_enqueue by (simp add: preempt_queues_def)
    qed
    have "idle_thread s \<notin> set (ready ?a d)" for d
      using pick_subset [OF ok p, of d] sched_invD(4) [OF inv, of d] p Some
      by (auto simp: preempt_queues_def set_enqueue)
    moreover have "order_ok (t_domain (thr s t)) ?a"
      using pick_domain(1) [OF rel ok p [unfolded Some]] p Some
      by (simp add: preempt_queues_def order_ok_enqueue)
    moreover have "rq_rel (switch_to t s3) ?a" using s3(3) by (simp add: rq_rel_def switch_to_def)
    ultimately have "sched_inv (switch_to t s3) ?a"
      using tin' same3 pick_domain(2) [OF rel ok p [unfolded Some]] sched_invD(6) [OF inv]
      by (auto simp: sched_inv_def switch_to_def)
    moreover have "Sched_reschedule n s = Ok (switch_to t s3)"
      using s1(1) s3(1) Some check_not_in_runq_ok [OF s3(3) en tin'] tc same3
      by (simp add: Sched_reschedule_def)
    moreover have "preempt_thread s a = t" using p Some by (simp add: preempt_thread_def)
    ultimately show ?thesis using erase_switch_to [OF s3(2), of t] by simp
  qed
qed

end
