(* ===== verification/Sched_Steps.thy ===== *)
theory Sched_Steps
  imports Runq
begin

section \<open>Runs of the scheduler\<close>

text \<open>
  The operations of the scheduler as steps of the machine: portal calls handing the processor
  over, interrupt handler threads (\<^verbatim>\<open>Interface/zero_IRQ.c\<close>), the step relation with its
  reachable states, and the order in which threads get the processor.
\<close>

subsection \<open>Portal handoffs\<close>

lemma unblock_switch:
  assumes rel: "rq_rel s a" and ok: "order_ok (curdom s) a" and t: "\<And>d. t \<notin> set (ready a d)"
    and idle: "\<And>d. idle_thread s \<notin> set (ready a d)" "t \<noteq> idle_thread s"
    and st: "t_state (thr s (idle_thread s)) = STATE_RUNNABLE"
    and n: "length (order a) < n" "enough n (enqueue (curdom s) (t_domain (thr s t)) t a)"
  shows "\<exists>s'. rbind (threadunblock n t s) (Sched_switch_to_nextThread n) = Ok s' \<and>
    sched_inv s' (snd (pick (curdom s) (enqueue (curdom s) (t_domain (thr s t)) t a))) \<and>
    erase s' = erase (switch_to (next_thread s (enqueue (curdom s) (t_domain (thr s t)) t a))
      (set_state t STATE_RUNNABLE s))"
proof -
  let ?a = "enqueue (curdom s) (t_domain (thr s t)) t a"
  obtain s1 where s1: "threadunblock n t s = Ok s1" "erase s1 = erase (set_state t STATE_RUNNABLE s)"
    "rq_rel s1 ?a"
    using threadunblock_rel [OF rel ok t n(1)] by blast
  note same = erase_same [OF s1(2)]
  have "order_ok (curdom s1) ?a" using ok same by (simp add: order_ok_enqueue)
  moreover have "idle_thread s1 \<notin> set (ready ?a d)" for d
    using idle same by (auto simp: set_enqueue)
  moreover have "t_state (thr s1 (idle_thread s1)) = STATE_RUNNABLE" using st same by simp
  ultimately obtain s' where s': "Sched_switch_to_nextThread n s1 = Ok s'"
    "erase s' = erase (switch_to (next_thread s1 ?a) s1)" "sched_inv s' (snd (pick (curdom s1) ?a))"
    using switch_rel [OF s1(3) _ n(2)] by blast
  moreover have "next_thread s1 ?a = next_thread s ?a"
    using same by (simp add: next_thread_def split: option.split)
  ultimately show ?thesis using s1(1) same erase_switch_to [OF s1(2)] by simp
qed

lemma handoff_to_receiver_step:
  assumes inv: "sched_inv s a" and n: "room n a" and idle: "curthr s \<noteq> idle_thread s"
    and r: "t_state (thr s r) \<noteq> STATE_RUNNABLE"
  shows "\<exists>s'. Sched_portal_handoff_to_receiver n r s = Ok s' \<and>
    sched_inv s' (snd (pick (curdom s) (enqueue (curdom s) (t_domain (thr s r)) r a))) \<and>
    t_state (thr s' (curthr s)) = STATE_PORTAL_WAIT_FOR_RET \<and>
    curthr s' = next_thread s (enqueue (curdom s) (t_domain (thr s r)) r a) \<and>
    erase s' = erase (switch_to (curthr s') (set_state r STATE_RUNNABLE (set_state (curthr s) STATE_PORTAL_WAIT_FOR_RET s)))"
proof -
  let ?s1 = "set_state r STATE_RUNNABLE (set_state (curthr s) STATE_PORTAL_WAIT_FOR_RET s)"
  let ?a = "enqueue (curdom s) (t_domain (thr s r)) r a"
  have neq: "r \<noteq> curthr s" "r \<noteq> idle_thread s" using r sched_invD(5,6) [OF inv] by auto
  have rq: "r \<notin> set (ready a d)" for d using not_runnable_not_queued [OF inv r] .
  have rel: "rq_rel ?s1 a"
    using sched_invD(1,3) [OF inv] by (simp add: rq_rel_set_state)
  have "length (order a) < n" "enough n ?a" using n by (simp add: room_def, simp add: enough_enqueue)
  then obtain s' where s': "rbind (threadunblock n r ?s1) (Sched_switch_to_nextThread n) = Ok s'"
    "sched_inv s' (snd (pick (curdom s) ?a))"
    "erase s' = erase (switch_to (next_thread ?s1 ?a) (set_state r STATE_RUNNABLE ?s1))"
    using unblock_switch [OF rel _ rq, of n] sched_invD [OF inv] neq idle by auto
  have "next_thread ?s1 ?a = next_thread s ?a" by (simp add: next_thread_def split: option.split)
  then have "curthr s' = next_thread s ?a" by (simp add: erase_switch [OF s'(3)])
  moreover have "t_state (thr s' (curthr s)) = STATE_PORTAL_WAIT_FOR_RET"
    using neq by (simp add: erase_switch [OF s'(3)])
  moreover have "Sched_portal_handoff_to_receiver n r s = Ok s'"
    using s'(1) by (simp only: Sched_portal_handoff_to_receiver_def Let_def)
  moreover have "erase s' = erase (switch_to (curthr s') ?s1)" using s'(3) erase_switch(3) [OF s'(3)] by simp
  ultimately show ?thesis using s'(2) by blast
qed

text \<open>The queues after the receiver has put itself back (or waits for the next call).\<close>

definition sender_queues :: "sched \<Rightarrow> bool \<Rightarrow> ready_queues \<Rightarrow> ready_queues" where
  "sender_queues s isRunnable a = (if isRunnable then enqueue (curdom s) (curdom s) (curthr s) a else a)"

lemma handoff_to_sender_step:
  assumes inv: "sched_inv s a" and n: "room n a" and idle: "curthr s \<noteq> idle_thread s"
    and r: "t_state (thr s r) \<noteq> STATE_RUNNABLE"
  shows "\<exists>s'. Sched_portal_handoff_to_sender n r isRunnable s = Ok s' \<and>
    sched_inv s' (snd (pick (curdom s) (enqueue (curdom s) (t_domain (thr s r)) r (sender_queues s isRunnable a)))) \<and>
    t_state (thr s' (curthr s)) = (if isRunnable then STATE_RUNNABLE else STATE_PORTAL_WAIT_FOR_SND) \<and>
    (\<exists>x s1. erase s' = erase (switch_to x (set_state r STATE_RUNNABLE s1)) \<and>
      erase s1 = erase (set_state (curthr s) (if isRunnable then STATE_RUNNABLE else STATE_PORTAL_WAIT_FOR_SND) s))"
proof -
  let ?b = "sender_queues s isRunnable a"
  let ?a = "enqueue (curdom s) (t_domain (thr s r)) r ?b"
  let ?st = "if isRunnable then STATE_RUNNABLE else STATE_PORTAL_WAIT_FOR_SND"
  define s1 where "s1 = (if isRunnable
                then let s' = set_state (curthr s) STATE_RUNNABLE s in
                     snd (threadrunq_append (t_domain (thr s' (curthr s))) (curthr s) s')
                else set_state (curthr s) STATE_PORTAL_WAIT_FOR_SND s)"
  have neq: "r \<noteq> curthr s" "r \<noteq> idle_thread s" using r sched_invD(5,6) [OF inv] by auto
  have rq: "r \<notin> set (ready ?b d)" for d
    using not_runnable_not_queued [OF inv r] neq by (simp add: sender_queues_def set_enqueue)
  have "erase s1 = erase (set_state (curthr s) ?st s) \<and> rq_rel s1 ?b"
  proof (cases isRunnable)
    case True
    with append_self_rel [of s a] sched_invD [OF inv] show ?thesis
      by (auto simp: s1_def sender_queues_def)
  next
    case False
    with sched_invD(1,3) [OF inv] show ?thesis by (simp add: s1_def sender_queues_def rq_rel_set_state)
  qed
  then have s1: "erase s1 = erase (set_state (curthr s) ?st s)" "rq_rel s1 ?b" by auto
  note same = erase_same [OF s1(1)]
  have "order_ok (curdom s) ?b"
    using order_ok_enqueue [OF sched_invD(2) [OF inv]] sched_invD(2) [OF inv] by (simp add: sender_queues_def)
  moreover have "length (order ?b) < n" "enough n ?a"
    using n enough_enqueue [OF n] enough_enqueue2 [OF n]
    by (auto simp: sender_queues_def enough_def room_def)
  moreover have "idle_thread s \<notin> set (ready ?b d)" for d
    using sched_invD(4) [OF inv] idle by (simp add: sender_queues_def set_enqueue)
  ultimately obtain s' where s': "rbind (threadunblock n r s1) (Sched_switch_to_nextThread n) = Ok s'"
    "sched_inv s' (snd (pick (curdom s) ?a))"
    "erase s' = erase (switch_to (next_thread s1 ?a) (set_state r STATE_RUNNABLE s1))"
    using unblock_switch [OF s1(2) _ rq, of n] sched_invD(6) [OF inv] neq idle same by auto
  have "t_state (thr s' (curthr s)) = ?st"
    using neq same(1) [of "curthr s"] by (simp add: erase_switch [OF s'(3)])
  moreover have "Sched_portal_handoff_to_sender n r isRunnable s = Ok s'"
    using s'(1) by (simp only: Sched_portal_handoff_to_sender_def Let_def s1_def)
  ultimately show ?thesis using s'(2,3) s1(1) by blast
qed

subsection \<open>Interrupt handler threads (Interface/zero_IRQ.c)\<close>

text \<open>
  The tables of one processor: the handler thread, object and code of each interrupt line (0 is
  NULL), the interrupted thread and the line being served.  \<open>irq_first_level_handler\<close> ends when
  the handler thread is current; \<open>irq_exit\<close> runs when the handler returns.  The
  acknowledgement of the interrupt controller and the stack frame built for the handler
  are outside the model.
\<close>

record irq_state =
  ithreads :: "nat \<Rightarrow> tid"
  ifirstlevel_object :: "nat \<Rightarrow> u4"
  ifirstlevel_code :: "nat \<Rightarrow> u4"
  ifirstlevel_processed :: "nat \<Rightarrow> u4"
  icurrent :: tid
  inumber :: nat

definition irq_first_level_handler :: "nat \<Rightarrow> nat \<Rightarrow> irq_state \<times> sched \<Rightarrow> (irq_state \<times> sched) res" where
  "irq_first_level_handler n irq = (\<lambda>(i, s).
     if ifirstlevel_object i irq = 0 then Ok (i, s)
     else rbind (Sched_activate_interrupt_thread n (ithreads i irq) s) (\<lambda>s1.
       rassert (t_state (thr s1 (ithreads i irq)) = STATE_AVAILABLE) ''irq thread not available'' (
       let s2 = set_state (ithreads i irq) STATE_RUNNABLE s1 in
       if ifirstlevel_code i irq = 0 then Fault (SysPanic ''No code for firstlevel-handler.'')
       else Ok (i\<lparr>icurrent := curthr s2, inumber := irq\<rparr>, s2\<lparr>curthr := ithreads i irq\<rparr>))))"

definition irq_exit :: "nat \<Rightarrow> irq_state \<times> sched \<Rightarrow> (irq_state \<times> sched) res" where
  "irq_exit n = (\<lambda>(i, s).
     let i1 = i\<lparr>ifirstlevel_processed := (ifirstlevel_processed i)(inumber i := ifirstlevel_processed i (inumber i) + 1)\<rparr>;
         t = ithreads i1 (inumber i1) in
     rbind (Sched_deactivate_interrupt_thread n (icurrent i1) s) (\<lambda>s1.
       let s2 = s1\<lparr>curthr := icurrent i1\<rparr> in
       rassert (t_state (thr s2 t) = STATE_RUNNABLE) ''irq_exit'' (
         Ok (i1, set_state t STATE_AVAILABLE s2))))"

text \<open>The queues when the processor moves from domain \<open>cd\<close> to \<open>to\<close> without a queue
  operation on the threads.\<close>

definition move_domain :: "did \<Rightarrow> did \<Rightarrow> ready_queues \<Rightarrow> ready_queues" where
  "move_domain cd to a = (if cd = to then a
     else a\<lparr>order := remove1 to (order a @ (if ready a cd = [] then [] else [cd]))\<rparr>)"

lemma ready_move_domain [simp]: "ready (move_domain cd to a) = ready a"
  by (simp add: move_domain_def)

lemma order_ok_move_domain:
  assumes "order_ok cd a" and "distinct (order a)"
  shows "order_ok to (move_domain cd to a)"
  using assms by (auto simp: move_domain_def order_ok_def)

lemma length_move_domain: "length (order (move_domain cd to a)) \<le> Suc (length (order a))"
  by (auto simp: move_domain_def length_remove1)

lemma move_domain_back:
  assumes "order_ok cd a"
  shows "move_domain d cd (move_domain cd d a) = (if d = cd then a
    else a\<lparr>order := remove1 d (order a) @ (if ready a d = [] then [] else [d])\<rparr>)"
  using order_okD(1) [OF assms] order_okD(2) [OF assms, of d]
  by (auto simp: move_domain_def remove1_append remove1_idem)

lemma runqueue_switchdomains_rel:
  assumes rel: "rq_rel s a" and ok: "order_ok (curdom s) a" and n: "Suc (length (order a)) < n"
    and ne: "curdom s \<noteq> to"
  shows "\<exists>s'. runqueue_switchdomains n (curdom s) to s = Ok s' \<and> erase s' = erase s \<and>
    rq_rel s' (move_domain (curdom s) to a)"
proof -
  let ?cd = "curdom s"
  let ?o = "order a @ (if ready a ?cd = [] then [] else [?cd])"
  obtain s1 where s1: "(if q_first s ?cd \<noteq> None then domainrunq_append n ?cd s else Ok s) = Ok s1"
    "erase s1 = erase s" "rq_rel s1 (a\<lparr>order := ?o\<rparr>)"
  proof (cases "ready a ?cd = []")
    case True
    then show ?thesis using rq_rel_first(1) [OF rel, of ?cd] rel that [of s] by simp
  next
    case False
    then have "q_first s ?cd \<noteq> None" using rq_rel_first(1) [OF rel, of ?cd] by simp
    moreover have "?cd \<notin> set (order a)" using ok by (simp add: order_ok_def)
    ultimately show ?thesis
      using domainrunq_append_rel [OF rel, of ?cd n] n that False by auto
  qed
  obtain s2 where s2: "(if q_first s1 to \<noteq> None then unlink_domain n to None (runq_first s1) s1 else Ok s1) = Ok s2"
    "erase s2 = erase s1" "rq_rel s2 (a\<lparr>order := remove1 to ?o\<rparr>)"
  proof (cases "ready a to = []")
    case True
    then have "q_first s1 to = None" using rq_rel_first(1) [OF s1(3), of to] by simp
    moreover have "to \<notin> set ?o" using ok True ne by (auto simp: order_ok_def)
    then have "remove1 to ?o = ?o" by (rule remove1_idem)
    ultimately show ?thesis using s1(3) that [of s1] by simp
  next
    case False
    then have "q_first s1 to \<noteq> None" using rq_rel_first(1) [OF s1(3), of to] by simp
    moreover have "length (order (a\<lparr>order := ?o\<rparr>)) < n" using n by simp
    ultimately show ?thesis using unlink_domain_rel [OF s1(3), of n to] that by auto
  qed
  have "runq_first s2 = None \<longleftrightarrow> runq_last s2 = None" using rq_rel_first(3,4) [OF s2(3)] by simp
  then have "runqueue_switchdomains n ?cd to s = Ok s2"
    using s1(1) s2(1) by (simp add: runqueue_switchdomains_def observe)
  with s1(2) s2(2,3) ne show ?thesis by (auto simp: move_domain_def)
qed

lemma activate_rel:
  assumes rel: "rq_rel s a" and ok: "order_ok (curdom s) a" and n: "Suc (length (order a)) < n"
  shows "\<exists>s'. Sched_activate_interrupt_thread n t s = Ok s' \<and> erase s' = erase s \<and>
      rq_rel s' (move_domain (curdom s) (t_domain (thr s t)) a)"
  using runqueue_switchdomains_rel [OF rel ok n, of "t_domain (thr s t)"] rel
  by (auto simp: Sched_activate_interrupt_thread_def move_domain_def)

lemma deactivate_eq: "Sched_deactivate_interrupt_thread = Sched_activate_interrupt_thread"
  by (simp add: Sched_deactivate_interrupt_thread_def Sched_activate_interrupt_thread_def fun_eq_iff)

lemma irq_enter_step:
  assumes inv: "sched_inv s a" and n: "room n a"
    and irq: "ifirstlevel_object i irq \<noteq> 0" "ifirstlevel_code i irq \<noteq> 0"
    and st: "t_state (thr s (ithreads i irq)) = STATE_AVAILABLE"
  shows "\<exists>s'. irq_first_level_handler n irq (i, s) =
      Ok (i\<lparr>icurrent := curthr s, inumber := irq\<rparr>, s') \<and>
    sched_inv s' (move_domain (curdom s) (t_domain (thr s (ithreads i irq))) a) \<and>
    erase s' = erase (switch_to (ithreads i irq) (set_state (ithreads i irq) STATE_RUNNABLE s))"
proof -
  let ?t = "ithreads i irq"
  let ?a = "move_domain (curdom s) (t_domain (thr s ?t)) a"
  have nr: "t_state (thr s ?t) \<noteq> STATE_RUNNABLE" using st by (simp add: thread_states)
  have nq: "?t \<notin> set (ready a d)" for d using not_runnable_not_queued [OF inv nr] .
  obtain s1 where s1: "Sched_activate_interrupt_thread n ?t s = Ok s1" "erase s1 = erase s" "rq_rel s1 ?a"
    using activate_rel [OF sched_invD(1,2) [OF inv], of n ?t] n by (auto simp: room_def)
  note same = erase_same [OF s1(2)]
  let ?s = "(set_state ?t STATE_RUNNABLE s1)\<lparr>curthr := ?t\<rparr>"
  have ok: "order_ok (t_domain (thr s ?t)) ?a"
    by (rule order_ok_move_domain [OF sched_invD(2) [OF inv] rq_relD(6) [OF sched_invD(1) [OF inv]]])
  have "rq_rel ?s ?a"
    using rq_rel_set_state [OF s1(3), of STATE_RUNNABLE ?t] by (simp add: rq_rel_def)
  then have "sched_inv ?s ?a"
    using ok nq sched_invD(4,6) [OF inv] same nr by (auto simp: sched_inv_def)
  moreover have "erase ?s = erase (switch_to ?t (set_state ?t STATE_RUNNABLE s))"
  proof -
    have "erase (set_state ?t STATE_RUNNABLE x) = set_state ?t STATE_RUNNABLE (erase x)" for x
      by (auto simp: erase_def upd_defs fun_eq_iff intro!: sched.equality)
    with s1(2) have "erase (set_state ?t STATE_RUNNABLE s1) = erase (set_state ?t STATE_RUNNABLE s)" by simp
    from erase_switch_to [OF this, of ?t] show ?thesis by (simp add: switch_to_def)
  qed
  moreover have "irq_first_level_handler n irq (i, s) = Ok (i\<lparr>icurrent := curthr s, inumber := irq\<rparr>, ?s)"
    using s1(1) irq st same by (simp add: irq_first_level_handler_def Let_def)
  ultimately show ?thesis by blast
qed

lemma irq_exit_step:
  assumes inv: "sched_inv s a" and n: "Suc (length (order a)) < n"
    and cur: "curthr s = ithreads i (inumber i)" and idle: "ithreads i (inumber i) \<noteq> idle_thread s"
    and ic: "\<And>d. icurrent i \<notin> set (ready a d)" "icurrent i \<noteq> curthr s"
      "t_state (thr s (icurrent i)) = STATE_RUNNABLE"
  shows "\<exists>i' s'. irq_exit n (i, s) = Ok (i', s') \<and> curthr s' = icurrent i \<and>
    sched_inv s' (move_domain (curdom s) (t_domain (thr s (icurrent i))) a) \<and>
    ithreads i' = ithreads i \<and> ifirstlevel_object i' = ifirstlevel_object i \<and> ifirstlevel_code i' = ifirstlevel_code i \<and>
    (\<forall>x. t_state (thr s' x) = (if x = curthr s then STATE_AVAILABLE else t_state (thr s x)))"
proof -
  let ?t = "icurrent i" and ?h = "curthr s"
  let ?a = "move_domain (curdom s) (t_domain (thr s ?t)) a"
  obtain s1 where s1: "Sched_deactivate_interrupt_thread n ?t s = Ok s1" "erase s1 = erase s" "rq_rel s1 ?a"
    using activate_rel [OF sched_invD(1,2) [OF inv], of n ?t] n by (auto simp: deactivate_eq)
  note same = erase_same [OF s1(2)]
  let ?s = "set_state ?h STATE_AVAILABLE (s1\<lparr>curthr := ?t\<rparr>)"
  have ok: "order_ok (t_domain (thr s ?t)) ?a"
    by (rule order_ok_move_domain [OF sched_invD(2) [OF inv] rq_relD(6) [OF sched_invD(1) [OF inv]]])
  have "rq_rel (s1\<lparr>curthr := ?t\<rparr>) ?a" using s1(3) by (simp add: rq_rel_def)
  then have "rq_rel ?s ?a" using sched_invD(3) [OF inv] by (simp add: rq_rel_set_state)
  then have "sched_inv ?s ?a"
    using ok ic sched_invD(4,6) [OF inv] same idle cur by (auto simp: sched_inv_def)
  moreover have "\<exists>i'. irq_exit n (i, s) = Ok (i', ?s) \<and> ithreads i' = ithreads i \<and>
      ifirstlevel_object i' = ifirstlevel_object i \<and> ifirstlevel_code i' = ifirstlevel_code i"
    using s1(1) sched_invD(5) [OF inv] same cur by (simp add: irq_exit_def Let_def)
  moreover have "curthr ?s = icurrent i" by simp
  moreover have "\<forall>x. t_state (thr ?s x) = (if x = ?h then STATE_AVAILABLE else t_state (thr s x))"
    using same(1) by auto
  ultimately show ?thesis by blast
qed

subsection \<open>Both queues are FIFO queues\<close>

text \<open>The thread queue of a domain \<open>d\<close>, and the queue of domains (whose descriptors are the \<open>N\<close>
  slots of the domain table, which bounds the walk that looks for a duplicate), are
  interpretations of \<open>fifo_queue\<close>.\<close>

definition thread_queue :: "did \<Rightarrow> sched \<Rightarrow> tid list \<Rightarrow> bool" where
  "thread_queue d s xs \<longleftrightarrow> (\<exists>a. rq_rel s a \<and> ready a d = xs)"

definition queueable :: "did \<Rightarrow> sched \<Rightarrow> tid \<Rightarrow> bool" where
  "queueable d s t \<longleftrightarrow> t_domain (thr s t) = d \<and> t_state (thr s t) = STATE_RUNNABLE"

definition enq_thread :: "did \<Rightarrow> tid \<Rightarrow> sched \<Rightarrow> sched res" where
  "enq_thread d t s = Ok (snd (threadrunq_append d t s))"

definition domain_queue :: "nat \<Rightarrow> sched \<Rightarrow> did list \<Rightarrow> bool" where
  "domain_queue N s xs \<longleftrightarrow> (\<exists>a. rq_rel s a \<and> order a = xs) \<and> set xs \<subseteq> {..<N}"

definition domain_queueable :: "nat \<Rightarrow> sched \<Rightarrow> did \<Rightarrow> bool" where
  "domain_queueable N s d \<longleftrightarrow> d < N \<and> d \<noteq> curdom s"

interpretation tq: fifo_queue "thread_queue d" "queueable d" "enq_thread d" "threadrunq_remove d" for d
proof
  fix s xs t assume "thread_queue d s xs" "t \<notin> set xs" "queueable d s t"
  then obtain a where "rq_rel s a" "ready a d = xs" by (auto simp: thread_queue_def)
  with threadrunq_append_rel [of s a t d] \<open>t \<notin> set xs\<close> \<open>queueable d s t\<close>
  obtain s' where s': "threadrunq_append d t s = (ready a d = [], s')" "erase s' = erase s"
    "rq_rel s' (a\<lparr>ready := (ready a)(d := ready a d @ [t])\<rparr>)" by (auto simp: queueable_def)
  then have "thread_queue d s' (xs @ [t])" using \<open>ready a d = xs\<close> by (force simp: thread_queue_def)
  with s' show "\<exists>s'. enq_thread d t s = Ok s' \<and> thread_queue d s' (xs @ [t]) \<and> queueable d s' = queueable d s"
    using erase_same [OF s'(2)] by (auto simp: enq_thread_def queueable_def fun_eq_iff)
next
  fix s assume "thread_queue d s []"
  then show "threadrunq_remove d s = Ok (None, s)" using threadrunq_remove_empty by (auto simp: thread_queue_def)
next
  fix s t xs assume "thread_queue d s (t # xs)"
  then obtain a where "rq_rel s a" "ready a d = t # xs" by (auto simp: thread_queue_def)
  from threadrunq_remove_rel [OF this] obtain s' where s': "threadrunq_remove d s = Ok (Some t, s')"
    "erase s' = erase s" "rq_rel s' (a\<lparr>ready := (ready a)(d := xs)\<rparr>)" by blast
  then have "thread_queue d s' xs" by (force simp: thread_queue_def)
  with s' show "\<exists>s'. threadrunq_remove d s = Ok (Some t, s') \<and> thread_queue d s' xs \<and> queueable d s' = queueable d s"
    using erase_same [OF s'(2)] by (auto simp: queueable_def fun_eq_iff)
qed

interpretation dq: fifo_queue "domain_queue N" "domain_queueable N" "domainrunq_append (Suc N)" domainrunq_remove
  for N
proof
  fix s xs d assume q: "domain_queue N s xs" "d \<notin> set xs" "domain_queueable N s d"
  then obtain a where a: "rq_rel s a" "order a = xs" "set xs \<subseteq> {..<N}" by (auto simp: domain_queue_def)
  have "length xs \<le> N"
    using a rq_relD(6) [OF a(1)] card_mono [of "{..<N}" "set xs"] by (simp add: distinct_card)
  then obtain s' where s': "domainrunq_append (Suc N) d s = Ok s'" "erase s' = erase s"
    "rq_rel s' (a\<lparr>order := order a @ [d]\<rparr>)"
    using domainrunq_append_rel [OF a(1), of d "Suc N"] q(2) a(2) by auto
  then have "domain_queue N s' (xs @ [d])"
    using a(2,3) q(3) by (force simp: domain_queue_def domain_queueable_def)
  with s' show "\<exists>s'. domainrunq_append (Suc N) d s = Ok s' \<and> domain_queue N s' (xs @ [d]) \<and>
      domain_queueable N s' = domain_queueable N s"
    using erase_same [OF s'(2)] by (auto simp: domain_queueable_def fun_eq_iff)
next
  fix s assume "domain_queue N s []"
  then show "domainrunq_remove s = Ok (None, s)" using domainrunq_remove_empty by (auto simp: domain_queue_def)
next
  fix s d xs assume q: "domain_queue N s (d # xs)" "domain_queueable N s d"
  then obtain a where a: "rq_rel s a" "order a = d # xs" by (auto simp: domain_queue_def)
  have "d \<noteq> curdom s" using q(2) by (simp add: domain_queueable_def)
  from domainrunq_remove_rel [OF a this] obtain s' where s': "domainrunq_remove s = Ok (Some d, s')"
    "erase s' = erase s" "rq_rel s' (a\<lparr>order := xs\<rparr>)" by blast
  then have "domain_queue N s' xs" using q(1) by (force simp: domain_queue_def)
  with s' show "\<exists>s'. domainrunq_remove s = Ok (Some d, s') \<and> domain_queue N s' xs \<and>
      domain_queueable N s' = domain_queueable N s"
    using erase_same [OF s'(2)] by (auto simp: domain_queueable_def fun_eq_iff)
qed

subsection \<open>A small system\<close>

text \<open>Two domains; thread 0 idles, thread 1 runs, thread 2 is ready in domain 0 and
  thread 3 in domain 1; thread 4 of domain 1 is blocked, thread 5 serves an interrupt.\<close>

definition thread0 :: ThreadDesc where
  "thread0 = \<lparr>t_state = STATE_RUNNABLE, t_domain = 0, t_nextInRunQueue = None, t_id = 0, t_nextInDomain = None,
     t_prevInDomain = None, t_stack = 0, t_stackTop = 0, t_myparams = 0, t_eip = 0, t_esp = 0\<rparr>"

definition domain0 :: DomainDesc where
  "domain0 = \<lparr>d_state = DOMAIN_STATE_ACTIVE, d_firstThreadInRunQueue = None, d_lastThreadInRunQueue = None,
     d_nextInRunQueue = None, d_threads = None, d_currentThreadID = 0\<rparr>"

definition demo :: sched where
  "demo = \<lparr>thr = (\<lambda>_. thread0)(3 := thread0\<lparr>t_domain := 1\<rparr>,
       4 := thread0\<lparr>t_domain := 1, t_state := STATE_BLOCKEDUSER\<rparr>,
       5 := thread0\<lparr>t_domain := 1, t_state := STATE_AVAILABLE\<rparr>),
     dom = (\<lambda>_. domain0)(0 := domain0\<lparr>d_firstThreadInRunQueue := Some 2, d_lastThreadInRunQueue := Some 2, d_threads := Some 1\<rparr>,
       1 := domain0\<lparr>d_firstThreadInRunQueue := Some 3, d_lastThreadInRunQueue := Some 3\<rparr>),
     runq_first = Some 1, runq_last = Some 1, curthr = 1, idle_thread = 0,
     domainsys_inited = True, domainMem = [0, 1]\<rparr>"

definition demo_queues :: ready_queues where
  "demo_queues = \<lparr>ready = (\<lambda>_. [])(0 := [2], 1 := [3]), order = [1]\<rparr>"

lemma demo_inv: "sched_inv demo demo_queues"
  by (simp add: sched_inv_def rq_rel_def order_ok_def queue_of_def demo_def demo_queues_def
      t_next_def d_next_def q_first_def q_last_def thread0_def domain0_def)

lemma demo_room: "room 5 demo_queues"
  by (simp add: room_def demo_queues_def)

lemma demo_attrs:
  "curthr demo = 1" "idle_thread demo = 0" "curdom demo = 0" "t_domain (thr demo 4) = 1"
  "t_domain (thr demo 5) = 1" "t_domain (thr demo 3) = 1"
  "t_state (thr demo 4) = STATE_BLOCKEDUSER" "t_state (thr demo 5) = STATE_AVAILABLE"
  "curdom demo = 0"
  by (simp_all add: demo_def thread0_def)

subsection \<open>Every ready thread gets the processor\<close>

fun yields :: "nat \<Rightarrow> nat \<Rightarrow> sched \<Rightarrow> sched res" where
  "yields n 0 s = Ok s"
| "yields n (Suc k) s = rbind (threadyield n s) (yields n k)"

text \<open>The threads of a domain that compete for the processor, and the domains that have some;
  yielding does not change them, so a fuel chosen once is enough for every step.\<close>

definition pop :: "sched \<Rightarrow> ready_queues \<Rightarrow> did \<Rightarrow> nat" where
  "pop s a d = length (ready a d) + (if curthr s \<noteq> idle_thread s \<and> curdom s = d then 1 else 0)"

definition roomy :: "nat \<Rightarrow> sched \<Rightarrow> ready_queues \<Rightarrow> bool" where
  "roomy n s a \<longleftrightarrow> finite {d. 0 < pop s a d} \<and> card {d. 0 < pop s a d} + 2 < n \<and> (\<forall>d. pop s a d + 2 < n)"

lemma roomy_room:
  assumes inv: "sched_inv s a" and r: "roomy n s a"
  shows "room n a"
proof -
  have "set (order a) \<subseteq> {d. 0 < pop s a d}"
    using order_okD(2) [OF sched_invD(2) [OF inv]] by (auto simp: pop_def)
  then have "card (set (order a)) \<le> card {d. 0 < pop s a d}"
    using r by (intro card_mono) (simp_all add: roomy_def)
  then have "length (order a) \<le> card {d. 0 < pop s a d}"
    using rq_relD(6) [OF sched_invD(1) [OF inv]] by (simp add: distinct_card)
  moreover have "length (ready a d) + 2 < n" for d
  proof -
    have "pop s a d + 2 < n" using r by (simp add: roomy_def)
    then show ?thesis unfolding pop_def by linarith
  qed
  ultimately show ?thesis using r by (simp add: room_def roomy_def)
qed

definition wait_pos :: "sched \<Rightarrow> ready_queues \<Rightarrow> did \<Rightarrow> nat" where
  "wait_pos s a d = (if d = curdom s then Suc (length (order a))
     else length (takeWhile (\<lambda>e. e \<noteq> d) (order a)))"

lemma ready_requeue:
  "ready (requeue_self s a) d = ready a d @ (if curthr s \<noteq> idle_thread s \<and> curdom s = d then [curthr s] else [])"
  "order (requeue_self s a) = order a"
  by (simp_all add: requeue_self_def enqueue_def)

text \<open>The thread a yield selects: the first of the domain \<open>e\<close> whose turn it is.\<close>

lemma yield_pick:
  fixes s a
  defines "e \<equiv> (if order a = [] then curdom s else hd (order a))"
    and "q \<equiv> requeue_self s a"
  assumes inv: "sched_inv s a" and ne: "ready q e \<noteq> []"
  shows "next_thread s q = hd (ready q e)" "ready (snd (pick (curdom s) q)) = (ready q)(e := tl (ready q e))"
    "order (snd (pick (curdom s) q)) = (if order a = [] then []
       else tl (order a) @ (if ready q (curdom s) = [] then [] else [curdom s]))"
    "t_domain (thr s (hd (ready q e))) = e"
proof -
  show "ready (snd (pick (curdom s) q)) = (ready q)(e := tl (ready q e))"
    using pick_ready [of "curdom s" q] by (auto simp: fun_eq_iff q_def e_def ready_requeue(2))
  show "order (snd (pick (curdom s) q)) = (if order a = [] then []
       else tl (order a) @ (if ready q (curdom s) = [] then [] else [curdom s]))"
    using pick_order [of "curdom s" q] by (simp add: q_def ready_requeue(2))
  show "next_thread s q = hd (ready q e)"
    using ne by (cases "order a"; cases "ready q (curdom s)")
      (simp_all add: next_thread_def pick_def q_def e_def ready_requeue(2))
  have "hd (ready q e) \<in> set (ready q e)" using ne by simp
  then show "t_domain (thr s (hd (ready q e))) = e"
    using rq_relD(3) [OF sched_invD(1) [OF inv], of "hd (ready q e)" e]
    by (auto simp: q_def ready_requeue(1) split: if_splits)
qed

lemma yield_progress:
  assumes inv: "sched_inv s a" and r: "roomy n s a" and t: "ready a d = xs @ t # ys"
  obtains s' a' where "threadyield n s = Ok s'" "sched_inv s' a'" "roomy n s' a'"
    "curthr s' = t \<or> (\<exists>xs' ys'. ready a' d = xs' @ t # ys' \<and>
       (length xs' < length xs \<or> xs' = xs \<and> wait_pos s' a' d < wait_pos s a d))"
proof -
  let ?q = "requeue_self s a" and ?cd = "curdom s"
  define e where "e = (if order a = [] then ?cd else hd (order a))"
  let ?a = "snd (pick ?cd ?q)"
  have ok: "order_ok ?cd a" using sched_invD(2) [OF inv] .
  have dcd: "order a = [] \<Longrightarrow> d = ?cd" using order_okD(4) [OF ok, of d] t by auto
  have e_ne: "ready a e \<noteq> []"
    using order_okD(2) [OF ok, of e] dcd t by (cases "order a = []") (auto simp: e_def)
  then have ne: "ready ?q e \<noteq> []" by (simp add: ready_requeue)
  note yp = yield_pick [OF inv, folded e_def, OF ne]
  obtain s' where s': "threadyield n s = Ok s'" "sched_inv s' ?a"
    "erase s' = erase (switch_to (hd (ready ?q e)) s)"
    using threadyield_step [OF inv roomy_room [OF inv r]] yp(1) by auto
  note sw = erase_switch [OF s'(3)]
  have cd': "curdom s' = e" using sw yp(4) by simp
  have hq: "hd (ready ?q e) = hd (ready a e)" using e_ne by (simp add: ready_requeue)
  have nidle: "curthr s' \<noteq> idle_thread s'"
  proof
    assume "curthr s' = idle_thread s'"
    then have "idle_thread s \<in> set (ready a e)" using sw hq e_ne by (metis hd_in_set)
    then show False using sched_invD(4) [OF inv] by blast
  qed
  have "pop s' ?a x = pop s a x" for x
    using ne nidle cd' yp(2) by (auto simp: pop_def ready_requeue(1))
  then have rm: "roomy n s' ?a" using r by (simp add: roomy_def)
  have "hd (ready a e) = t \<or> (\<exists>xs' ys'. ready ?a d = xs' @ t # ys' \<and>
       (length xs' < length xs \<or> xs' = xs \<and> wait_pos s' ?a d < wait_pos s a d))"
  proof (cases "e = d")
    case True
    show ?thesis
    proof (cases xs)
      case Nil
      with True t show ?thesis by simp
    next
      case (Cons x zs)
      have "ready ?a d = zs @ t # (ys @ (if curthr s \<noteq> idle_thread s \<and> ?cd = d then [curthr s] else []))"
        using True Cons t yp(2) by (simp add: ready_requeue(1))
      moreover have "length zs < length xs" using Cons by simp
      ultimately show ?thesis by blast
    qed
  next
    case False
    then have o: "order a \<noteq> []" using dcd by (auto simp: e_def)
    then obtain es where es: "order a = e # es" by (cases "order a") (auto simp: e_def)
    have rd: "ready ?a d = xs @ t # (ys @ (if curthr s \<noteq> idle_thread s \<and> ?cd = d then [curthr s] else []))"
      using False t yp(2) by (simp add: ready_requeue(1))
    have "wait_pos s' ?a d < wait_pos s a d"
    proof (cases "d = ?cd")
      case True
      then have "ready ?q ?cd \<noteq> []" using t by (simp add: ready_requeue)
      then have o': "order ?a = es @ [?cd]" using yp(3) es by simp
      have nin: "d \<notin> set es" using order_okD(1) [OF ok] es True by simp
      have tw: "takeWhile (\<lambda>x. x \<noteq> d) (es @ [?cd]) = es"
        using nin True by (subst takeWhile_append2) auto
      have "wait_pos s' ?a d = length es" unfolding wait_pos_def cd' o' tw using False by simp
      moreover have "wait_pos s a d = Suc (Suc (length es))" unfolding wait_pos_def es using True by simp
      ultimately show ?thesis by simp
    next
      case ncd: False
      have "d \<in> set (order a) \<longleftrightarrow> ready a d \<noteq> [] \<and> d \<noteq> ?cd" using ok by (simp only: order_ok_def)
      then have "d \<in> set es" using t es False ncd by simp
      then have tw: "takeWhile (\<lambda>x. x \<noteq> d) (es @ zs) = takeWhile (\<lambda>x. x \<noteq> d) es" for zs
        using takeWhile_append1 [of d es "\<lambda>x. x \<noteq> d"] by simp
      have o': "\<exists>zs. order ?a = es @ zs" using yp(3) es by simp
      then have "wait_pos s' ?a d = length (takeWhile (\<lambda>x. x \<noteq> d) es)"
        unfolding wait_pos_def cd' using False tw by auto
      moreover have "wait_pos s a d = Suc (length (takeWhile (\<lambda>x. x \<noteq> d) es))"
        unfolding wait_pos_def es using False ncd by simp
      ultimately show ?thesis by simp
    qed
    with rd show ?thesis by blast
  qed
  then show ?thesis using that [OF s'(1,2) rm] sw(3) hq by simp
qed

lemma eventually_runs:
  assumes "sched_inv s a" "roomy n s a" "ready a d = xs @ t # ys"
  shows "\<exists>k s'. yields n k s = Ok s' \<and> curthr s' = t"
  using assms
proof (induction "length xs" arbitrary: s a xs ys rule: less_induct)
  case less
  note outer = less.hyps
  show ?case
    using less.prems outer
  proof (induction "wait_pos s a d" arbitrary: s a ys rule: less_induct)
    case inner: less
    obtain s' a' where s': "threadyield n s = Ok s'" "sched_inv s' a'" "roomy n s' a'"
      "curthr s' = t \<or> (\<exists>xs' ys'. ready a' d = xs' @ t # ys' \<and>
         (length xs' < length xs \<or> xs' = xs \<and> wait_pos s' a' d < wait_pos s a d))"
      using yield_progress [OF inner.prems(1,2,3)] by blast
    have "\<exists>k s''. yields n k s' = Ok s'' \<and> curthr s'' = t"
    proof (cases "curthr s' = t")
      case True
      then show ?thesis by (intro exI [of _ 0]) simp
    next
      case False
      with s'(4) obtain xs' ys' where x: "ready a' d = xs' @ t # ys'"
        "length xs' < length xs \<or> xs' = xs \<and> wait_pos s' a' d < wait_pos s a d" by blast
      from x(2) show ?thesis
      proof
        assume "length xs' < length xs"
        from inner.prems(4) [OF this s'(2,3) x(1)] show ?thesis .
      next
        assume "xs' = xs \<and> wait_pos s' a' d < wait_pos s a d"
        with inner.hyps [OF _ s'(2,3), of ys'] x(1) inner.prems(4) show ?thesis by simp
      qed
    qed
    then obtain k s'' where "yields n k s' = Ok s''" "curthr s'' = t" by blast
    with s'(1) show ?case by (intro exI [of _ "Suc k"]) simp
  qed
qed

subsection \<open>Properties\<close>

text \<open>C7: yielding is round robin.  In a consistent scheduler state \<^verbatim>\<open>threadyield\<close> returns, passes
  all its assertions and consistency checks, puts the running thread at the end of its
  domain's queue, gives the processor to the first thread of the domain whose turn it is
  (the idle thread when nothing is ready), and the state it leaves is consistent.\<close>

theorem threadyield_round_robin:
  assumes "sched_inv s a" "room n a"
  shows "\<exists>s'. threadyield n s = Ok s' \<and> sched_inv s' (snd (pick (curdom s) (requeue_self s a))) \<and>
    curthr s' = next_thread s (requeue_self s a) \<and>
    (\<forall>t. t_state (thr s' t) = t_state (thr s t) \<and> t_domain (thr s' t) = t_domain (thr s t))"
  using threadyield_step [OF assms] erase_switch by blast

theorem threadyield_round_robin_witness:
  "\<exists>s'. threadyield 5 demo = Ok s' \<and> curthr s' = 3"
proof -
  have "next_thread demo (requeue_self demo demo_queues) = 3"
    by (simp add: next_thread_def requeue_self_def enqueue_def demo_attrs demo_queues_def pick_def)
  with threadyield_round_robin [OF demo_inv demo_room] show ?thesis by auto
qed

text \<open>C16: blocking.  A running thread that blocks (with any state but RUNNABLE) leaves the
  processor to the next ready thread or the idle thread, is in no queue and has the given
  state; when a thread runs again, the assignment that resumes it changes nothing.\<close>

theorem Sched_block_correct:
  assumes "sched_inv s a" "room n a" "st \<noteq> STATE_RUNNABLE" "curthr s \<noteq> idle_thread s"
  shows "\<exists>s'. Sched_block n st s = Ok s' \<and> sched_inv s' (snd (pick (curdom s) a)) \<and>
    curthr s' = next_thread s a \<and> t_state (thr s' (curthr s)) = st \<and> Sched_block_resume s' = s'"
proof -
  obtain s' where s': "Sched_block n st s = Ok s'" "sched_inv s' (snd (pick (curdom s) a))"
    "erase s' = erase (switch_to (next_thread s a) (set_state (curthr s) st s))"
    using Sched_block_step [OF assms] by blast
  with erase_switch [OF s'(3)] Sched_block_resume_id [OF s'(2)] show ?thesis by simp
qed

theorem Sched_block_correct_witness:
  "\<exists>s'. threadblock 5 demo = Ok s' \<and> curthr s' = 3 \<and> t_state (thr s' 1) = STATE_BLOCKEDUSER"
proof -
  have "next_thread demo demo_queues = 3"
    by (simp add: next_thread_def demo_attrs demo_queues_def pick_def)
  with Sched_block_correct [OF demo_inv demo_room, of STATE_BLOCKEDUSER] show ?thesis
    by (auto simp: threadblock_def demo_attrs thread_states)
qed

text \<open>C18: unblocking a thread that is not runnable puts it at the end of its domain's queue
  and its domain into the domain queue exactly when it was not there and is not running; the
  running thread keeps the processor.\<close>

theorem threadunblock_correct:
  assumes "sched_inv s a" "room n a" "t_state (thr s t) \<noteq> STATE_RUNNABLE"
  shows "\<exists>s'. threadunblock n t s = Ok s' \<and>
    sched_inv s' (enqueue (curdom s) (t_domain (thr s t)) t a) \<and>
    curthr s' = curthr s \<and> t_state (thr s' t) = STATE_RUNNABLE"
proof -
  obtain s' where s': "threadunblock n t s = Ok s'"
    "sched_inv s' (enqueue (curdom s) (t_domain (thr s t)) t a)"
    "erase s' = erase (set_state t STATE_RUNNABLE s)"
    using threadunblock_step [OF assms] by blast
  with erase_same [OF s'(3)] show ?thesis by simp
qed

theorem threadunblock_correct_witness:
  "\<exists>s'. threadunblock 5 4 demo = Ok s' \<and>
    sched_inv s' (demo_queues\<lparr>ready := (ready demo_queues)(1 := [3, 4])\<rparr>)"
proof -
  have "enqueue (curdom demo) (t_domain (thr demo 4)) 4 demo_queues =
    demo_queues\<lparr>ready := (ready demo_queues)(1 := [3, 4])\<rparr>"
    by (simp add: enqueue_def demo_attrs demo_queues_def)
  with threadunblock_correct [OF demo_inv demo_room, of 4] show ?thesis
    by (auto simp: demo_attrs thread_states)
qed



text \<open>Portal calls.  Handing over to the receiver makes it ready at the end of its queue and the
  caller wait for the return; whoever runs next, the caller's closing assertion (it is
  runnable) holds when it runs again.\<close>

theorem portal_handoff_correct:
  assumes "sched_inv s a" "room n a" "curthr s \<noteq> idle_thread s" "t_state (thr s r) \<noteq> STATE_RUNNABLE"
  shows "\<exists>s'. Sched_portal_handoff_to_receiver n r s = Ok s' \<and>
    sched_inv s' (snd (pick (curdom s) (enqueue (curdom s) (t_domain (thr s r)) r a))) \<and>
    t_state (thr s' (curthr s)) = STATE_PORTAL_WAIT_FOR_RET \<and> Sched_portal_handoff_resume s' = Ok s'"
proof -
  obtain s' where s': "Sched_portal_handoff_to_receiver n r s = Ok s'"
    "sched_inv s' (snd (pick (curdom s) (enqueue (curdom s) (t_domain (thr s r)) r a)))"
    "t_state (thr s' (curthr s)) = STATE_PORTAL_WAIT_FOR_RET"
    using handoff_to_receiver_step [OF assms] by blast
  with sched_invD(5) [OF s'(2)] show ?thesis by (simp add: Sched_portal_handoff_resume_def)
qed

theorem portal_handoff_correct_witness:
  "\<exists>s'. Sched_portal_handoff_to_receiver 5 4 demo = Ok s' \<and> t_state (thr s' 1) = STATE_PORTAL_WAIT_FOR_RET"
  using portal_handoff_correct [OF demo_inv demo_room, of 4] by (auto simp: demo_attrs thread_states)

text \<open>C14: every ready thread gets the processor: if the running threads keep yielding, the
  thread \<open>t\<close>, at any position of the queue of any domain, becomes current after finitely many
  yields.\<close>

theorem ready_thread_runs:
  assumes "sched_inv s a" "roomy n s a" "t \<in> set (ready a d)"
  shows "\<exists>k s'. yields n k s = Ok s' \<and> curthr s' = t"
proof -
  obtain xs ys where "ready a d = xs @ t # ys" using split_list [OF assms(3)] by blast
  from eventually_runs [OF assms(1,2) this] show ?thesis .
qed

lemma demo_roomy: "roomy 6 demo demo_queues"
proof -
  have "{d. 0 < pop demo demo_queues d} = {0, 1}"
    by (auto simp: pop_def demo_def thread0_def demo_queues_def)
  moreover have "pop demo demo_queues d + 2 < 6" for d by (simp add: pop_def demo_queues_def)
  ultimately show ?thesis by (simp add: roomy_def)
qed

theorem ready_thread_runs_witness: "\<exists>k s'. yields 6 k demo = Ok s' \<and> curthr s' = 2"
  using ready_thread_runs [OF demo_inv demo_roomy, of 2 0] by (simp add: demo_queues_def)

text \<open>Both run queues are first-in first-out: threads appended to the empty queue of their
  domain are removed in the same order.\<close>

theorem thread_queue_fifo:
  assumes "thread_queue d s []" "distinct ts" "\<forall>t\<in>set ts. queueable d s t"
  shows "\<exists>s' s''. tq.fill d ts s = Ok s' \<and> tq.drain d (length ts) s' = Ok (ts, s'') \<and> thread_queue d s'' []"
  using assms by (rule tq.fifo)

theorem thread_queue_fifo_witness:
  "\<exists>s' s''. tq.fill 1 [4, 3] (demo\<lparr>thr := (\<lambda>_. thread0\<lparr>t_domain := 1\<rparr>), dom := (\<lambda>_. domain0), runq_first := None,
      runq_last := None\<rparr>) = Ok s' \<and> tq.drain 1 2 s' = Ok ([4, 3], s'')"
proof -
  let ?s = "demo\<lparr>thr := (\<lambda>_. thread0\<lparr>t_domain := 1\<rparr>), dom := (\<lambda>_. domain0), runq_first := None, runq_last := None\<rparr>"
  have "rq_rel ?s \<lparr>ready = \<lambda>_. [], order = []\<rparr>"
    by (simp add: rq_rel_def demo_def q_first_def q_last_def domain0_def)
  then have "thread_queue 1 ?s []" by (force simp: thread_queue_def)
  with thread_queue_fifo [of 1 ?s "[4, 3]"] show ?thesis
    by (auto simp: queueable_def thread0_def numeral_2_eq_2)
qed

text \<open>C22: interrupts.  The first-level handler of a line with an installed handler makes the handler
  thread current and \<^verbatim>\<open>irq_exit\<close> gives the processor back to the interrupted thread; both
  keep the invariant.  The pair leaves every thread queue as it was and moves the
  handler's domain, when it had ready threads and was not the interrupted domain, to
  the back of the domain queue.\<close>

theorem irq_enter_exit:
  assumes "sched_inv s a" "room n a" "ifirstlevel_object i irq \<noteq> 0" "ifirstlevel_code i irq \<noteq> 0"
    and "t_state (thr s (ithreads i irq)) = STATE_AVAILABLE"
  shows "\<exists>i1 s1 i2 s2. irq_first_level_handler n irq (i, s) = Ok (i1, s1) \<and> curthr s1 = ithreads i irq \<and>
    irq_exit n (i1, s1) = Ok (i2, s2) \<and> curthr s2 = curthr s \<and>
    sched_inv s2 (let d = t_domain (thr s (ithreads i irq)) in
      if d = curdom s then a
      else a\<lparr>order := remove1 d (order a) @ (if ready a d = [] then [] else [d])\<rparr>)"
proof -
  let ?h = "ithreads i irq" and ?d = "t_domain (thr s (ithreads i irq))" and ?cd = "curdom s"
  let ?i = "i\<lparr>icurrent := curthr s, inumber := irq\<rparr>" and ?a = "move_domain ?cd ?d a"
  obtain s1 where s1: "irq_first_level_handler n irq (i, s) = Ok (?i, s1)" "sched_inv s1 ?a"
    "erase s1 = erase (switch_to ?h (set_state ?h STATE_RUNNABLE s))"
    using irq_enter_step [OF assms] by blast
  note sw = erase_switch [OF s1(3)]
  have nh: "?h \<noteq> curthr s" "?h \<noteq> idle_thread s"
    using assms(5) sched_invD(5,6) [OF assms(1)] by (auto simp: thread_states)
  have n1: "Suc (length (order ?a)) < n"
    using length_move_domain [of ?cd ?d a] assms(2) by (simp add: room_def)
  obtain i2 s2 where s2: "irq_exit n (?i, s1) = Ok (i2, s2)" "curthr s2 = curthr s"
    "sched_inv s2 (move_domain ?d ?cd ?a)"
    using irq_exit_step [OF s1(2) n1, of ?i] sw nh sched_invD(3,5) [OF assms(1)] by auto
  have "move_domain ?d ?cd ?a = (if ?d = ?cd then a
      else a\<lparr>order := remove1 ?d (order a) @ (if ready a ?d = [] then [] else [?d])\<rparr>)"
    by (rule move_domain_back [OF sched_invD(2) [OF assms(1)]])
  with s1(1) s2 sw(3) show ?thesis by (auto simp: Let_def)
qed

theorem irq_enter_exit_witness:
  "\<exists>i1 s1 i2 s2. irq_first_level_handler 5 7 (\<lparr>ithreads = \<lambda>_. 5, ifirstlevel_object = \<lambda>_. 1,
      ifirstlevel_code = \<lambda>_. 1, ifirstlevel_processed = \<lambda>_. 0, icurrent = 0, inumber = 0\<rparr>, demo) = Ok (i1, s1) \<and>
    curthr s1 = 5 \<and> irq_exit 5 (i1, s1) = Ok (i2, s2) \<and> curthr s2 = 1"
  using irq_enter_exit [OF demo_inv demo_room, of "\<lparr>ithreads = \<lambda>_. 5, ifirstlevel_object = \<lambda>_. 1,
      ifirstlevel_code = \<lambda>_. 1, ifirstlevel_processed = \<lambda>_. 0, icurrent = 0, inumber = 0\<rparr>" 7]
  by (auto simp: demo_attrs)

end
