(* ===== verification/Thread.thy ===== *)
theory Thread
  imports Runq Codemem
begin

section \<open>Thread creation and termination (core/thread.c)\<close>

text \<open>
  The threads of a domain form a doubly linked list through their descriptors.  A new
  thread is pushed in front of it, gets the next identifier of its domain, a stack from the
  block allocator with an initial frame, and is announced to the scheduler.  The state is
  the scheduler's state together with the allocator's.

  The descriptor itself comes from the heap of the domain (\<^verbatim>\<open>allocThreadDescProxyInDomain\<close>), so
  its address is an argument.  \<open>exit_addr\<close> is the address of the routine \<^verbatim>\<open>thread_exit\<close>.
\<close>

type_synonym threads = "sched \<times> malloc_state"

definition STACK_CHUNK_SIZE :: u4 where "STACK_CHUNK_SIZE = push_bit 13 1"
definition STACK_ALIGN :: u4 where "STACK_ALIGN = 4"
definition MYPARAMS_SIZE :: u4 where "MYPARAMS_SIZE = 1024"

subsection \<open>Operations\<close>

text \<open>The part of \<^verbatim>\<open>createThreadInMem\<close> that fills the descriptor \<open>t\<close> and links it.\<close>

definition link_thread :: "tid \<Rightarrow> did \<Rightarrow> u4 \<Rightarrow> sched \<Rightarrow> sched" where
  "link_thread t d stk s =
     (let s1 = upd_thr t (\<lambda>x. x\<lparr>t_stack := stk, t_stackTop := stk + STACK_CHUNK_SIZE, t_domain := d,
                 t_myparams := 0\<rparr>) s;
          s2 = upd_dom d (\<lambda>x. x\<lparr>d_currentThreadID := d_currentThreadID x + 1\<rparr>) s1;
          s3 = upd_thr t (\<lambda>x. x\<lparr>t_id := d_currentThreadID (dom s2 d), t_nextInRunQueue := None,
                 t_nextInDomain := d_threads (dom s2 d)\<rparr>) s2;
          s4 = (case d_threads (dom s3 d) of None \<Rightarrow> s3
                | Some h \<Rightarrow> upd_thr h (\<lambda>x. x\<lparr>t_prevInDomain := Some t\<rparr>) s3);
          s5 = upd_thr t (\<lambda>x. x\<lparr>t_prevInDomain := None\<rparr>) s4
      in upd_dom d (\<lambda>x. x\<lparr>d_threads := Some t\<rparr>) s5)"

text \<open>The three words pushed on the new stack.\<close>

definition initial_frame :: "u4 \<Rightarrow> u4 \<Rightarrow> u4 \<Rightarrow> memory \<Rightarrow> memory" where
  "initial_frame exit_addr param tos m =
     write32 (write32 (write32 m (tos - 4) exit_addr) (tos - 8) param) (tos - 12) exit_addr"

definition createThreadInMem ::
  "nat \<Rightarrow> u4 \<Rightarrow> tid \<Rightarrow> did \<Rightarrow> u4 \<Rightarrow> u4 \<Rightarrow> u4 \<Rightarrow> int \<Rightarrow> threads \<Rightarrow> threads res" where
  "createThreadInMem n exit_addr t d thread_start param st schedParam = (\<lambda>(s, m).
     rbind (malloc_threadstack n STACK_CHUNK_SIZE STACK_ALIGN m) (\<lambda>(stk, m1).
     let s1 = link_thread t d stk s;
         tos = stk + STACK_CHUNK_SIZE;
         m2 = m1\<lparr>mem := initial_frame exit_addr param tos (mem m1)\<rparr>;
         s2 = upd_thr t (\<lambda>x. x\<lparr>t_eip := thread_start, t_esp := tos - 12, t_state := st\<rparr>) s1
     in rbind (Sched_created n t schedParam s2) (\<lambda>s3. Ok (s3, m2))))"

definition createThread ::
  "nat \<Rightarrow> u4 \<Rightarrow> tid \<Rightarrow> did \<Rightarrow> u4 \<Rightarrow> u4 \<Rightarrow> u4 \<Rightarrow> int \<Rightarrow> threads \<Rightarrow> threads res" where
  "createThread n exit_addr t d thread_start param st schedParam =
     createThreadInMem n exit_addr t d thread_start param st schedParam"

definition freeThreadMem :: "tid \<Rightarrow> threads \<Rightarrow> threads res" where
  "freeThreadMem t = (\<lambda>(s, m).
     rbind (if t_myparams (thr s t) \<noteq> 0 then jxfree (t_myparams (thr s t)) MYPARAMS_SIZE m else Ok m) (\<lambda>m1.
     rbind (free_threadstack (t_stack (thr s t)) STACK_CHUNK_SIZE m1) (\<lambda>m2. Ok (s, m2))))"

definition unlink_thread :: "tid \<Rightarrow> sched \<Rightarrow> sched" where
  "unlink_thread t s =
     (let s1 = (case t_prevInDomain (thr s t) of
                  Some p \<Rightarrow> upd_thr p (\<lambda>x. x\<lparr>t_nextInDomain := t_nextInDomain (thr s t)\<rparr>) s
                | None \<Rightarrow> upd_dom (t_domain (thr s t)) (\<lambda>x. x\<lparr>d_threads := t_nextInDomain (thr s t)\<rparr>) s)
      in case t_nextInDomain (thr s1 t) of
           Some q \<Rightarrow> upd_thr q (\<lambda>x. x\<lparr>t_prevInDomain := t_prevInDomain (thr s1 t)\<rparr>) s1
         | None \<Rightarrow> s1)"

definition terminateThread_internal :: "tid \<Rightarrow> threads \<Rightarrow> threads res" where
  "terminateThread_internal t = (\<lambda>(s, m).
     rbind (Sched_destroyed t (unlink_thread t s)) (\<lambda>s1. freeThreadMem t (s1, m)))"

definition terminateThread :: "tid \<Rightarrow> threads \<Rightarrow> threads res" where
  "terminateThread t = terminateThread_internal t"

definition destroyCurrentThread :: "nat \<Rightarrow> threads \<Rightarrow> threads res" where
  "destroyCurrentThread n = (\<lambda>(s, m).
     let domain = curdom s in
     rbind (terminateThread_internal (curthr s) (set_state (curthr s) STATE_ZOMBIE s, m)) (\<lambda>(s1, m1).
     rbind (Sched_destroy_switch_to_nextThread n domain s1) (\<lambda>s2. Ok (s2, m1))))"

definition findThreadByID :: "nat \<Rightarrow> did \<Rightarrow> u4 \<Rightarrow> sched \<Rightarrow> tid option res" where
  "findThreadByID n d ident s =
     find_in n (\<lambda>t. t_nextInDomain (thr s t)) (\<lambda>t. t_id (thr s t) = ident) (d_threads (dom s d))"

definition check_threadindomain :: "nat \<Rightarrow> did \<Rightarrow> sched \<Rightarrow> sched res" where
  "check_threadindomain n d s =
     rbind (find_in n (\<lambda>t. t_nextInDomain (thr s t)) (\<lambda>t. t_domain (thr s t) \<noteq> d) (d_threads (dom s d)))
       (\<lambda>r. if r \<noteq> None then Fault (SysPanic ''NOTINDOMAIN'') else Ok s)"

subsection \<open>Doubly linked lists\<close>

fun dchain :: "(tid \<Rightarrow> tid option) \<Rightarrow> (tid \<Rightarrow> tid option) \<Rightarrow> tid option \<Rightarrow> tid option \<Rightarrow> tid list \<Rightarrow> bool" where
  "dchain nx pv p q [] = (q = None)"
| "dchain nx pv p q (x # xs) = (q = Some x \<and> pv x = p \<and> dchain nx pv (Some x) (nx x) xs)"

lemma dchain_chain: "dchain nx pv p q xs \<Longrightarrow> chain nx q xs"
  by (induction xs arbitrary: p q) auto

lemma dchain_cong:
  "(\<And>x. x \<in> set xs \<Longrightarrow> nx x = nx' x \<and> pv x = pv' x) \<Longrightarrow> dchain nx pv p q xs = dchain nx' pv' p q xs"
  by (induction xs arbitrary: p q) auto

lemma dchain_update [simp]:
  "x \<notin> set xs \<Longrightarrow> dchain (nx(x := v)) pv p q xs = dchain nx pv p q xs"
  "x \<notin> set xs \<Longrightarrow> dchain nx (pv(x := v)) p q xs = dchain nx pv p q xs"
  by (induction xs arbitrary: p q) auto

lemma dchain_push_front:
  assumes "dchain nx pv None q xs" and "distinct (x # xs)"
  shows "dchain (nx(x := q)) ((case q of None \<Rightarrow> pv | Some h \<Rightarrow> pv(h := Some x))(x := None)) None (Some x) (x # xs)"
proof (cases xs)
  case (Cons h ys)
  with assms show ?thesis by auto
qed (use assms in auto)

lemma dchain_delete_first:
  assumes "dchain nx pv None q (x # ys)" and "distinct (x # ys)"
  shows "dchain nx (case nx x of None \<Rightarrow> pv | Some h \<Rightarrow> pv(h := None)) None (nx x) ys"
  using assms by (cases ys) auto

lemma dchain_delete_next:
  assumes "dchain nx pv p q (xs @ y # x # ys)" and "distinct (xs @ y # x # ys)"
  shows "dchain (nx(y := nx x)) (case nx x of None \<Rightarrow> pv | Some h \<Rightarrow> pv(h := Some y)) p q (xs @ y # ys)"
  using assms
proof (induction xs arbitrary: p q)
  case Nil
  then show ?case by (cases ys) (simp_all del: fun_upd_apply, auto)
next
  case (Cons z xs)
  from Cons.prems have "chain nx (nx x) ys"
    by (auto dest!: dchain_chain simp: chain_append split: if_splits)
  then have "nx x = None \<or> (\<exists>h. nx x = Some h \<and> h \<in> set ys)" by (cases ys) auto
  with Cons show ?case by (auto split: option.splits)
qed

lemma dchain_prev:
  "dchain nx pv p q (xs @ x # ys) \<Longrightarrow> pv x = (if xs = [] then p else Some (last xs))"
  by (induction xs arbitrary: p q) (auto split: if_splits)

subsection \<open>The thread lists of the domains\<close>

definition dn :: "sched \<Rightarrow> tid \<Rightarrow> tid option" where "dn s t = t_nextInDomain (thr s t)"
definition dp :: "sched \<Rightarrow> tid \<Rightarrow> tid option" where "dp s t = t_prevInDomain (thr s t)"

definition thread_list :: "sched \<Rightarrow> did \<Rightarrow> tid list \<Rightarrow> bool" where
  "thread_list s d ts \<longleftrightarrow> dchain (dn s) (dp s) None (d_threads (dom s d)) ts \<and> distinct ts \<and>
     (\<forall>t\<in>set ts. t_domain (thr s t) = d)"

definition thread_lists :: "sched \<Rightarrow> (did \<Rightarrow> tid list) \<Rightarrow> bool" where
  "thread_lists s L \<longleftrightarrow> (\<forall>d. thread_list s d (L d))"

lemma thread_listsD:
  assumes "thread_lists s L"
  shows "dchain (dn s) (dp s) None (d_threads (dom s d)) (L d)" "distinct (L d)"
    "t \<in> set (L d) \<Longrightarrow> t_domain (thr s t) = d"
  using assms by (auto simp: thread_lists_def thread_list_def)

lemma thread_lists_first:
  "thread_lists s L \<Longrightarrow> d_threads (dom s d) = (if L d = [] then None else Some (hd (L d)))"
  using dchain_chain [OF thread_listsD(1)] chain_hd by blast

text \<open>The scheduler's operations do not see the lists.\<close>

lemma thread_lists_erase: "erase s' = erase s \<Longrightarrow> thread_lists s' L = thread_lists s L"
proof -
  assume e: "erase s' = erase s"
  have "t_nextInDomain (thr (erase s') t) = t_nextInDomain (thr (erase s) t)"
    "t_prevInDomain (thr (erase s') t) = t_prevInDomain (thr (erase s) t)"
    "d_threads (dom (erase s') d) = d_threads (dom (erase s) d)" for t d
    by (simp_all only: e)
  then have "dn s' = dn s" "dp s' = dp s" "\<And>d. d_threads (dom s' d) = d_threads (dom s d)"
    by (simp_all add: erase_def dn_def dp_def fun_eq_iff)
  then show ?thesis using erase_same(2) [OF e] by (simp add: thread_lists_def thread_list_def)
qed

lemma thread_lists_set_state [simp]: "thread_lists (set_state t st s) L = thread_lists s L"
proof -
  have "dn (set_state t st s) = dn s" "dp (set_state t st s) = dp s"
    by (simp_all add: dn_def dp_def upd_defs fun_eq_iff)
  then show ?thesis by (simp add: thread_lists_def thread_list_def)
qed

lemma thread_lists_switch [simp]: "thread_lists (switch_to t s) L = thread_lists s L"
proof -
  have "dn (switch_to t s) = dn s" "dp (switch_to t s) = dp s"
    by (simp_all add: dn_def dp_def switch_to_def fun_eq_iff)
  then show ?thesis by (simp add: thread_lists_def thread_list_def switch_to_def)
qed

subsection \<open>Linking a new thread\<close>

lemma link_thread_facts:
  assumes nt: "d_threads (dom s d) \<noteq> Some t"
  shows "dn (link_thread t d stk s) = (dn s)(t := d_threads (dom s d))"
    "dp (link_thread t d stk s) = (case d_threads (dom s d) of None \<Rightarrow> dp s
       | Some h \<Rightarrow> (dp s)(h := Some t))(t := None)"
    "d_threads (dom (link_thread t d stk s) e) = (if e = d then Some t else d_threads (dom s e))"
    "t_domain (thr (link_thread t d stk s) x) = (if x = t then d else t_domain (thr s x))"
    "t_state (thr (link_thread t d stk s) x) = t_state (thr s x)"
    "t_next (link_thread t d stk s) = (t_next s)(t := None)"
    "q_first (link_thread t d stk s) = q_first s" "q_last (link_thread t d stk s) = q_last s"
    "d_next (link_thread t d stk s) = d_next s"
    "runq_first (link_thread t d stk s) = runq_first s" "runq_last (link_thread t d stk s) = runq_last s"
    "curthr (link_thread t d stk s) = curthr s" "idle_thread (link_thread t d stk s) = idle_thread s"
    "t_id (thr (link_thread t d stk s) x) = (if x = t then d_currentThreadID (dom s d) + 1 else t_id (thr s x))"
    "t_stack (thr (link_thread t d stk s) t) = stk"
    "d_currentThreadID (dom (link_thread t d stk s) e) =
       (if e = d then d_currentThreadID (dom s d) + 1 else d_currentThreadID (dom s e))"
  using nt
  by (auto simp: link_thread_def Let_def dn_def dp_def t_next_def q_first_def q_last_def d_next_def
      upd_thr_def upd_dom_def fun_eq_iff split: option.splits)

lemma link_thread_lists:
  assumes L: "thread_lists s L" and new: "\<And>e. t \<notin> set (L e)"
  shows "thread_lists (link_thread t d stk s) (L(d := t # L d))"
proof -
  have nt: "d_threads (dom s d) \<noteq> Some t"
    using thread_lists_first [OF L, of d] new [of d] by (auto split: if_splits)
  note f = link_thread_facts [OF nt]
  have h: "h \<notin> set (L e)" if "d_threads (dom s d) = Some h" "e \<noteq> d" for h e
  proof
    assume "h \<in> set (L e)"
    moreover have "h \<in> set (L d)" using thread_lists_first [OF L, of d] that(1) by (auto split: if_splits)
    ultimately show False using thread_listsD(3) [OF L, of h] that(2) by blast
  qed
  have "thread_list (link_thread t d stk s) e ((L(d := t # L d)) e)" for e
  proof (cases "e = d")
    case True
    with dchain_push_front [OF thread_listsD(1) [OF L, of d], of t] new thread_listsD(2,3) [OF L]
    show ?thesis by (auto simp: thread_list_def f)
  next
    case False
    with thread_listsD(1,2) [OF L, of e] thread_listsD(3) [OF L, of _ e] new [of e] h [OF _ False]
    show ?thesis by (auto simp: thread_list_def f split: option.splits)
  qed
  then show ?thesis by (simp add: thread_lists_def)
qed

subsection \<open>Unlinking a thread\<close>

lemma unlink_thread_facts:
  "dn (unlink_thread t s) = (case dp s t of None \<Rightarrow> dn s | Some p \<Rightarrow> (dn s)(p := dn s t))"
  "dp (unlink_thread t s) = (case dn (case dp s t of None \<Rightarrow> s | Some p \<Rightarrow>
      upd_thr p (\<lambda>x. x\<lparr>t_nextInDomain := dn s t\<rparr>) s) t of None \<Rightarrow> dp s | Some q \<Rightarrow> (dp s)(q := dp s t))"
  "d_threads (dom (unlink_thread t s) e) =
     (if dp s t = None \<and> e = t_domain (thr s t) then dn s t else d_threads (dom s e))"
  "t_domain (thr (unlink_thread t s) x) = t_domain (thr s x)"
  "t_state (thr (unlink_thread t s) x) = t_state (thr s x)"
  "t_stack (thr (unlink_thread t s) x) = t_stack (thr s x)"
  "t_myparams (thr (unlink_thread t s) x) = t_myparams (thr s x)"
  "t_next (unlink_thread t s) = t_next s"
  "q_first (unlink_thread t s) = q_first s" "q_last (unlink_thread t s) = q_last s"
  "d_next (unlink_thread t s) = d_next s"
  "runq_first (unlink_thread t s) = runq_first s" "runq_last (unlink_thread t s) = runq_last s"
  "curthr (unlink_thread t s) = curthr s" "idle_thread (unlink_thread t s) = idle_thread s"
  by (auto simp: unlink_thread_def Let_def dn_def dp_def t_next_def q_first_def q_last_def d_next_def
      upd_thr_def upd_dom_def fun_eq_iff split: option.splits)

lemma unlink_thread_lists:
  assumes L: "thread_lists s L" and t: "t \<in> set (L d)"
  shows "thread_lists (unlink_thread t s) (L(d := remove1 t (L d)))"
proof -
  have dom: "t_domain (thr s t) = d" using thread_listsD(3) [OF L t] .
  obtain xs ys where L': "L d = xs @ t # ys" and nin: "t \<notin> set xs"
    using split_list_first [OF t] by blast
  have dist: "distinct (xs @ t # ys)" using thread_listsD(2) [OF L, of d] L' by simp
  have dc: "dchain (dn s) (dp s) None (d_threads (dom s d)) (xs @ t # ys)"
    using thread_listsD(1) [OF L, of d] L' by simp
  have pt: "dp s t = (if xs = [] then None else Some (last xs))" using dchain_prev [OF dc] .
  have nt: "dn s t = (if ys = [] then None else Some (hd ys))"
    using chain_nth_next [OF dchain_chain [OF dc]] .
  have pne: "last xs \<noteq> t" if "xs \<noteq> []" using last_in_set [OF that] nin by auto
  have dp': "dp (unlink_thread t s) = (case dn s t of None \<Rightarrow> dp s | Some q \<Rightarrow> (dp s)(q := dp s t))"
    using pt pne by (auto simp: unlink_thread_facts upd_thr_def dn_def split: option.splits if_splits)
  note f = unlink_thread_facts(1) dp' unlink_thread_facts(3-)
  have rem: "remove1 t (L d) = xs @ ys" using L' nin by (simp add: remove1_append)
  have here: "dchain (dn (unlink_thread t s)) (dp (unlink_thread t s)) None
      (d_threads (dom (unlink_thread t s) d)) (xs @ ys)"
  proof (cases xs rule: rev_cases)
    case Nil
    with dchain_delete_first [of "dn s" "dp s" "d_threads (dom s d)" t ys] dc dist dom pt
    show ?thesis by (simp add: f split: option.splits)
  next
    case (snoc zs p)
    with dchain_delete_next [of "dn s" "dp s" None "d_threads (dom s d)" zs p t ys] dc dist pt
    show ?thesis by (simp add: f split: option.splits)
  qed
  have other: "x \<notin> set (L e)" if "x \<in> set (L d)" "e \<noteq> d" for x e
    using thread_listsD(3) [OF L, of x] that by blast
  have "thread_list (unlink_thread t s) e ((L(d := remove1 t (L d))) e)" for e
  proof (cases "e = d")
    case True
    with here dist thread_listsD(3) [OF L, of _ d] L' rem
    show ?thesis by (auto simp: thread_list_def f)
  next
    case False
    have "xs \<noteq> [] \<Longrightarrow> last xs \<notin> set (L e)" "ys \<noteq> [] \<Longrightarrow> hd ys \<notin> set (L e)"
      using other [OF _ False] L' by auto
    with thread_listsD(1,2) [OF L, of e] thread_listsD(3) [OF L, of _ e] False dom pt nt
    show ?thesis by (auto simp: thread_list_def f)
  qed
  then show ?thesis by (simp add: thread_lists_def)
qed

subsection \<open>Creation\<close>

text \<open>Eight blocks for the stack: the allocator returns them whenever eight adjacent blocks
  are free.\<close>

lemma stack_blocks: "drop_bit BLOCKADDR_N_NULLBITS STACK_CHUNK_SIZE = (8 :: u4)"
  "STACK_CHUNK_SIZE mod BLOCKSIZE = 0" "unat STACK_CHUNK_SIZE = 8192"
  by (simp_all add: STACK_CHUNK_SIZE_def BLOCKADDR_N_NULLBITS_def BLOCKSIZE_def drop_bit_eq_div)

lemma GETADDR_aligned4:
  assumes "jxmem_start m AND 3 = 0"
  shows "GETADDR m c AND (STACK_ALIGN - 1) = 0"
proof -
  have three: "(x::u4) AND 3 = take_bit 2 x" for x
    by (simp add: take_bit_eq_mask mask_eq_exp_minus_1)
  have "4 dvd c * 1024" by (rule dvdI [of _ _ "256 * c"]) simp
  moreover have "4 dvd jxmem_start m" using assms by (simp add: three take_bit_eq_0_iff)
  ultimately have "4 dvd jxmem_start m + c * 1024" by (rule dvd_add [rotated])
  then show ?thesis by (simp add: GETADDR_def BLOCKSIZE_def STACK_ALIGN_def three take_bit_eq_0_iff)
qed

lemma malloc_threadstack_ok:
  assumes inv: "malloc_inv m" and run: "free_run m b 8" and al: "jxmem_start m AND 3 = 0"
    and n: "2 * nblk m + 1 < n"
  shows "\<exists>stk m' c. malloc_threadstack n STACK_CHUNK_SIZE STACK_ALIGN m = Ok (stk, m') \<and>
    alloc_post m 8 c stk m' \<and> malloc_inv m'"
proof -
  have nb: "nblk m + unat (8::u4) \<le> 2 ^ 32" using nblk_small [OF inv] by simp
  have "is_ok (jxmalloc_internal n 8 STACK_ALIGN m)"
    using run nb n GETADDR_aligned4 [OF al] inv
    by (intro jxmalloc_internal_finds [of m b]) (auto simp: malloc_inv_def)
  then obtain stk m' where a: "jxmalloc_internal n 8 STACK_ALIGN m = Ok (stk, m')"
    by (auto simp: is_ok_iff)
  from jxmalloc_internal_post [OF inv nb a] obtain c where
    "alloc_post m 8 c stk m'" "malloc_inv m'" "stk AND (STACK_ALIGN - 1) = 0" by auto
  with a show ?thesis
    by (auto simp: malloc_threadstack_def stack_blocks jxmalloc_align_def)
qed

lemma ctx_facts:
  fixes s t eip esp st
  defines "s' \<equiv> upd_thr t (\<lambda>x. x\<lparr>t_eip := eip, t_esp := esp, t_state := st\<rparr>) s"
  shows "t_next s' = t_next s" "q_first s' = q_first s" "q_last s' = q_last s" "d_next s' = d_next s"
    "runq_first s' = runq_first s" "runq_last s' = runq_last s" "curthr s' = curthr s"
    "idle_thread s' = idle_thread s" "t_domain (thr s' x) = t_domain (thr s x)"
    "t_state (thr s' x) = (if x = t then st else t_state (thr s x))" "dn s' = dn s" "dp s' = dp s"
    "d_threads (dom s' d) = d_threads (dom s d)" "t_id (thr s' x) = t_id (thr s x)"
    "t_stack (thr s' x) = t_stack (thr s x)" "t_esp (thr s' t) = esp" "t_eip (thr s' t) = eip"
  by (auto simp: s'_def t_next_def q_first_def q_last_def d_next_def dn_def dp_def upd_thr_def fun_eq_iff)

text \<open>The descriptor of a new thread, before the scheduler hears of it.\<close>

definition new_thread :: "tid \<Rightarrow> did \<Rightarrow> u4 \<Rightarrow> u4 \<Rightarrow> u4 \<Rightarrow> sched \<Rightarrow> sched" where
  "new_thread t d stk start st s = upd_thr t (\<lambda>x. x\<lparr>t_eip := start,
     t_esp := stk + STACK_CHUNK_SIZE - 12, t_state := st\<rparr>) (link_thread t d stk s)"

lemma new_thread_inv:
  assumes inv: "sched_inv s a" and L: "thread_lists s L"
    and new: "\<And>e. t \<notin> set (L e)" "\<And>e. t \<notin> set (ready a e)" "t \<noteq> curthr s" "t \<noteq> idle_thread s"
  shows "sched_inv (new_thread t d stk start st s) a"
    "thread_lists (new_thread t d stk start st s) (L(d := t # L d))"
    "t_domain (thr (new_thread t d stk start st s) t) = d"
    "t_state (thr (new_thread t d stk start st s) t) = st"
    "t_id (thr (new_thread t d stk start st s) t) = d_currentThreadID (dom s d) + 1"
    "t_stack (thr (new_thread t d stk start st s) t) = stk"
    "t_esp (thr (new_thread t d stk start st s) t) = stk + STACK_CHUNK_SIZE - 12"
    "t_eip (thr (new_thread t d stk start st s) t) = start"
    "curdom (new_thread t d stk start st s) = curdom s"
    "curthr (new_thread t d stk start st s) = curthr s"
    "idle_thread (new_thread t d stk start st s) = idle_thread s"
proof -
  have nt: "d_threads (dom s d) \<noteq> Some t"
    using thread_lists_first [OF L, of d] new(1) [of d] by (auto split: if_splits)
  note f = ctx_facts link_thread_facts [OF nt]
  have q: "queue_of ((t_next s)(t := None)) (q_first s e) (q_last s e) (ready a e)" for e
    using rq_relD(1) [OF sched_invD(1) [OF inv], of e] new(2) by simp
  have "rq_rel (new_thread t d stk start st s) a"
    using q rq_relD(2-4) [OF sched_invD(1) [OF inv]] new(2) unfolding rq_rel_def new_thread_def
    by (auto simp: f)
  then show "sched_inv (new_thread t d stk start st s) a"
    using sched_invD [OF inv] new unfolding sched_inv_def new_thread_def by (simp add: f)
  show "thread_lists (new_thread t d stk start st s) (L(d := t # L d))"
    using link_thread_lists [OF L new(1), of d stk]
    unfolding thread_lists_def thread_list_def new_thread_def by (simp add: f(9,11-13))
  show "t_domain (thr (new_thread t d stk start st s) t) = d"
    "t_state (thr (new_thread t d stk start st s) t) = st"
    "t_id (thr (new_thread t d stk start st s) t) = d_currentThreadID (dom s d) + 1"
    "t_stack (thr (new_thread t d stk start st s) t) = stk"
    "t_esp (thr (new_thread t d stk start st s) t) = stk + STACK_CHUNK_SIZE - 12"
    "t_eip (thr (new_thread t d stk start st s) t) = start"
    "curdom (new_thread t d stk start st s) = curdom s"
    "curthr (new_thread t d stk start st s) = curthr s"
    "idle_thread (new_thread t d stk start st s) = idle_thread s"
    using new(3) by (simp_all add: new_thread_def f)
qed

text \<open>The frame a new thread starts with: returning from the start routine enters
  \<^verbatim>\<open>thread_exit\<close>.\<close>

lemma initial_frame_words:
  "read32 (initial_frame ex p tos m) (tos - 12) = ex"
  "read32 (initial_frame ex p tos m) (tos - 8) = p"
  "read32 (initial_frame ex p tos m) (tos - 4) = ex"
proof -
  define a where "a = tos - 12"
  then have t: "tos - 4 = a + of_nat 8" "tos - 8 = a + of_nat 4" "tos - 12 = a" by simp_all
  have t': "a + of_nat 8 = (a + of_nat 4) + of_nat 4" by simp
  show "read32 (initial_frame ex p tos m) (tos - 12) = ex" by (simp add: initial_frame_def)
  show "read32 (initial_frame ex p tos m) (tos - 8) = p"
    unfolding initial_frame_def t by (subst read32_write32_above) simp_all
  show "read32 (initial_frame ex p tos m) (tos - 4) = ex"
    unfolding initial_frame_def t
    by (subst read32_write32_above, simp, simp) (unfold t', subst read32_write32_above, simp_all)
qed

lemma initial_frame_outside:
  assumes "unat x < unat stk" and "unat stk + 8192 < 2 ^ 32"
  shows "initial_frame ex p (stk + STACK_CHUNK_SIZE) m x = m x"
proof -
  have "x \<noteq> stk + of_nat k" if "k < 8192" for k
  proof
    assume "x = stk + of_nat k"
    moreover have "unat (stk + of_nat k) = unat stk + k"
      using assms(2) that by (subst unat_add_u4) simp_all
    ultimately show False using assms(1) by simp
  qed
  from this [of 8180] this [of 8181] this [of 8182] this [of 8183] this [of 8184] this [of 8185]
    this [of 8186] this [of 8187] this [of 8188] this [of 8189] this [of 8190] this [of 8191]
  show ?thesis
    unfolding initial_frame_def STACK_CHUNK_SIZE_def
    by (subst write32_other; simp add: add.commute)+
qed

text \<open>The bitmap of the allocator lies in the first blocks of the pool, which are in use (so
  \<^verbatim>\<open>jxmalloc_init\<close> leaves it); the frame of a new stack is in blocks that were free.\<close>

definition bitmap_inside :: "malloc_state \<Rightarrow> bool" where
  "bitmap_inside m \<longleftrightarrow> bitmap m = jxmem_start m \<and> (\<forall>j \<le> nblk m div 8192. j < nblk m \<longrightarrow> ublk m j)"

lemma bitmap_below_run:
  assumes "bitmap_inside m" "free_run m c k" "0 < k" "unat stk = unat (jxmem_start m) + c * 1024"
  shows "unat (bitmap m) + nblk m div 8 < unat stk"
proof -
  have "\<not> ublk m c" "c < nblk m" using assms(2,3) by (auto simp: free_run_def dest!: spec [of _ 0])
  then have "nblk m div 8192 < c" using assms(1) by (auto simp: bitmap_inside_def not_le [symmetric])
  moreover have "nblk m div 8 div 1024 = nblk m div 8192" by (simp add: div_mult2_eq [symmetric])
  ultimately have "nblk m div 8 < c * 1024" by (simp add: div_less_iff_less_mult [symmetric])
  with assms(1,4) show ?thesis by (simp add: bitmap_inside_def)
qed

lemma frame_keeps_malloc_inv:
  assumes inv: "malloc_inv m"
    and stk: "unat (bitmap m) + nblk m div 8 < unat stk" "unat stk + 8192 < 2 ^ 32"
  shows "malloc_inv (m\<lparr>mem := initial_frame ex p (stk + STACK_CHUNK_SIZE) (mem m)\<rparr>)"
    "k < nblk m \<Longrightarrow> ublk (m\<lparr>mem := initial_frame ex p (stk + STACK_CHUNK_SIZE) (mem m)\<rparr>) k = ublk m k"
proof -
  let ?m = "m\<lparr>mem := initial_frame ex p (stk + STACK_CHUNK_SIZE) (mem m)\<rparr>"
  have u: "ublk ?m k = ublk m k" if k: "k < nblk m" for k
  proof -
    have k4: "k < 4294967296" using k nblk_bound [of m] by simp
    have pos: "unat (drop_bit 3 (of_nat k) :: u4) = k div 8"
      using k4 by (simp add: drop_bit_eq_div unat_div_distrib)
    have b: "unat (bitmap m) + k div 8 < unat stk"
      using stk(1) k div_le_mono [of k "nblk m" 8] by simp
    have "unat (bitmap m + drop_bit 3 (of_nat k)) = unat (bitmap m) + k div 8"
      using b pos unsigned_less [of stk, where ?'a = nat] by (subst unat_add_u4) simp_all
    then have "unat (bitmap m + drop_bit 3 (of_nat k)) < unat stk" using b by simp
    from initial_frame_outside [OF this stk(2)] show ?thesis
      by (simp add: ublk_def block_used_bit bitmap_at_def)
  qed
  then show "k < nblk m \<Longrightarrow> ublk ?m k = ublk m k" .
  have "filter (\<lambda>k. \<not> ublk ?m k) [0..<nblk m] = filter (\<lambda>k. \<not> ublk m k) [0..<nblk m]"
    using u by (intro filter_cong) auto
  then have "free_count ?m = free_count m" by (simp add: free_count_def nblk_def)
  then show "malloc_inv ?m" using inv by (simp add: malloc_inv_def cur_def nblk_def)
qed

lemma createThreadInMem_step:
  assumes inv: "sched_inv s a" and L: "thread_lists s L" and n: "room n a"
    and new: "\<And>e. t \<notin> set (L e)" "\<And>e. t \<notin> set (ready a e)" "t \<noteq> curthr s" "t \<noteq> idle_thread s"
    and m: "malloc_inv m" "bitmap_inside m" "free_run m b 8" "jxmem_start m AND 3 = 0" "2 * nblk m + 1 < n"
  shows "\<exists>s' m' stk c.
    createThreadInMem n ex t d start param STATE_RUNNABLE SCHED_CREATETHREAD_DEFAULT (s, m) = Ok (s', m') \<and>
    sched_inv s' (enqueue (curdom s) d t a) \<and> thread_lists s' (L(d := t # L d)) \<and>
    erase s' = erase (new_thread t d stk start STATE_RUNNABLE s) \<and>
    free_run m c 8 \<and> unat stk = unat (jxmem_start m) + c * 1024 \<and>
    (\<forall>j<nblk m. ublk m' j = (ublk m j \<or> c \<le> j \<and> j < c + 8)) \<and> malloc_inv m' \<and> bitmap_inside m' \<and>
    read32 (mem m') (stk + STACK_CHUNK_SIZE - 12) = ex \<and>
    read32 (mem m') (stk + STACK_CHUNK_SIZE - 8) = param \<and>
    read32 (mem m') (stk + STACK_CHUNK_SIZE - 4) = ex"
proof -
  obtain stk m1 c where stk: "malloc_threadstack n STACK_CHUNK_SIZE STACK_ALIGN m = Ok (stk, m1)"
    "alloc_post m 8 c stk m1" "malloc_inv m1"
    using malloc_threadstack_ok [OF m(1,3,4,5)] by blast
  let ?s = "new_thread t d stk start STATE_RUNNABLE s"
  let ?m = "m1\<lparr>mem := initial_frame ex param (stk + STACK_CHUNK_SIZE) (mem m1)\<rparr>"
  note nt = new_thread_inv [OF inv L new, where d = d and stk = stk and start = start and st = STATE_RUNNABLE]
  obtain s' where s': "Sched_created n t SCHED_CREATETHREAD_DEFAULT ?s = Ok s'"
    "sched_inv s' (enqueue (curdom s) d t a)" "erase s' = erase ?s"
    using Sched_created_step [OF nt(1) n nt(4) new(2)] new(3,4) nt(3,9,10,11) by auto
  have "createThreadInMem n ex t d start param STATE_RUNNABLE SCHED_CREATETHREAD_DEFAULT (s, m) = Ok (s', ?m)"
    using stk(1) s'(1) by (simp add: createThreadInMem_def new_thread_def Let_def)
  moreover have "thread_lists s' (L(d := t # L d))" using nt(2) thread_lists_erase [OF s'(3)] by simp
  moreover have bb: "unat (bitmap m1) + nblk m1 div 8 < unat stk" "unat stk + 8192 < 2 ^ 32"
    using bitmap_below_run [OF m(2), of c 8 stk] stk(2) m(1)
    by (auto simp: alloc_post_def malloc_inv_def free_run_def)
  moreover have u: "\<forall>j<nblk m. ublk ?m j = (ublk m j \<or> c \<le> j \<and> j < c + 8)"
    using frame_keeps_malloc_inv(2) [OF stk(3) bb] stk(2) by (simp add: alloc_post_def)
  moreover have "bitmap_inside ?m"
    using m(2) u stk(2) by (auto simp: bitmap_inside_def alloc_post_def nblk_def)
  ultimately show ?thesis
    using s'(2,3) stk(2) frame_keeps_malloc_inv(1) [OF stk(3) bb]
    by (intro exI [of _ s'] exI [of _ ?m] exI [of _ stk] exI [of _ c])
      (simp add: alloc_post_def initial_frame_words)
qed

subsection \<open>Termination\<close>

lemma unlink_rel: "rq_rel (unlink_thread t s) a = rq_rel s a"
  by (simp add: rq_rel_def unlink_thread_facts)

lemma destroyCurrentThread_step:
  assumes inv: "sched_inv s a" and L: "thread_lists s L" and n: "room n a"
    and cur: "curthr s \<in> set (L (curdom s))" "curthr s \<noteq> idle_thread s" "t_myparams (thr s (curthr s)) = 0"
    and m: "jxfree (t_stack (thr s (curthr s))) STACK_CHUNK_SIZE m = Ok m'"
  shows "\<exists>s'. destroyCurrentThread n (s, m) = Ok (s', m') \<and> sched_inv s' (snd (pick (curdom s) a)) \<and>
    thread_lists s' (L(curdom s := remove1 (curthr s) (L (curdom s)))) \<and>
    curthr s' = next_thread s a \<and> t_state (thr s' (curthr s)) = STATE_ZOMBIE"
proof -
  let ?t = "curthr s"
  let ?z = "set_state ?t STATE_ZOMBIE s"
  let ?u = "unlink_thread ?t ?z"
  have attr: "t_stack (thr ?z ?t) = t_stack (thr s ?t)" "t_myparams (thr ?z ?t) = t_myparams (thr s ?t)"
    by (simp_all add: upd_defs)
  have lists: "thread_lists ?u (L(curdom s := remove1 ?t (L (curdom s))))"
    using unlink_thread_lists [of ?z L ?t "curdom s"] L cur(1) by simp
  have rel: "rq_rel ?u a"
    using sched_invD(1,3) [OF inv] by (simp add: unlink_rel rq_rel_set_state)
  have 1: "terminateThread_internal ?t (?z, m) = Ok (?u, m')"
    using m cur(3) attr
    by (simp add: terminateThread_internal_def Sched_destroyed_def freeThreadMem_def free_threadstack_def
        unlink_thread_facts thread_states)
  have cd: "curdom ?u = curdom s" by (simp add: unlink_thread_facts)
  have "order_ok (curdom ?u) a" "\<And>d. idle_thread ?u \<notin> set (ready a d)"
    "t_state (thr ?u (idle_thread ?u)) = STATE_RUNNABLE"
    using sched_invD [OF inv] cur(2) by (auto simp: unlink_thread_facts)
  then obtain s' where s': "Sched_switch_to_nextThread n ?u = Ok s'"
    "erase s' = erase (switch_to (next_thread ?u a) ?u)" "sched_inv s' (snd (pick (curdom ?u) a))"
    using switch_rel [OF rel _ room_enough [OF n]] by blast
  have "destroyCurrentThread n (s, m) = Ok (s', m')"
    using 1 s'(1) destroy_switch_eq [of n ?u] cd by (simp add: destroyCurrentThread_def)
  moreover have "next_thread ?u a = next_thread s a"
    using cd by (simp add: next_thread_def unlink_thread_facts split: option.split)
  ultimately show ?thesis
    using s'(3) cd lists thread_lists_erase [OF s'(2)] erase_switch [OF s'(2)]
    by (auto simp: unlink_thread_facts)
qed

subsection \<open>Identifiers\<close>

text \<open>Identifiers of the threads of a domain are distinct and not above the domain's counter, as
  long as the counter does not wrap.\<close>

definition ids_ok :: "sched \<Rightarrow> (did \<Rightarrow> tid list) \<Rightarrow> bool" where
  "ids_ok s L \<longleftrightarrow> (\<forall>d. distinct (map (\<lambda>t. t_id (thr s t)) (L d)) \<and>
     (\<forall>t\<in>set (L d). t_id (thr s t) \<le> d_currentThreadID (dom s d)))"

lemma link_ids_ok:
  assumes L: "thread_lists s L" and ids: "ids_ok s L" and new: "\<And>e. t \<notin> set (L e)"
    and wrap: "d_currentThreadID (dom s d) < 0xFFFFFFFF"
  shows "ids_ok (link_thread t d stk s) (L(d := t # L d))"
proof -
  have nt: "d_threads (dom s d) \<noteq> Some t"
    using thread_lists_first [OF L, of d] new [of d] by (auto split: if_splits)
  note f = link_thread_facts [OF nt]
  let ?c = "d_currentThreadID (dom s d)"
  have "unat ?c + 1 < 2 ^ 32" using wrap by (simp add: word_less_nat_alt)
  then have lt: "?c < ?c + 1" using unat_add_u4 [of ?c 1] by (simp add: word_less_nat_alt)
  have m: "map (\<lambda>x. t_id (thr (link_thread t d stk s) x)) (L e) = map (\<lambda>x. t_id (thr s x)) (L e)" for e
    using new by (auto simp: f)
  have le: "t_id (thr s x) \<le> ?c" if "x \<in> set (L d)" for x using ids that by (simp add: ids_ok_def)
  have "t_id (thr s x) \<noteq> ?c + 1" if "x \<in> set (L d)" for x
    using le [OF that] lt by (metis leD)
  then have ni: "?c + 1 \<notin> set (map (\<lambda>x. t_id (thr s x)) (L d))" by (metis imageE list.set_map)
  have di: "distinct (map (\<lambda>x. t_id (thr s x)) (L e))" for e using ids by (simp add: ids_ok_def)
  have tt: "t_id (thr (link_thread t d stk s) t) = ?c + 1" by (simp add: f)
  have "distinct (map (\<lambda>x. t_id (thr (link_thread t d stk s) x)) ((L(d := t # L d)) e))" for e
    using di [of e] ni by (cases "e = d") (simp_all only: m tt fun_upd_apply list.map distinct.simps if_True if_False simp_thms)
  moreover have "t_id (thr (link_thread t d stk s) x) \<le> d_currentThreadID (dom (link_thread t d stk s) e)"
    if "x \<in> set ((L(d := t # L d)) e)" for x e
    using ids that le_less_trans [OF le lt, of x] new
    by (auto simp: ids_ok_def f split: if_splits)
  ultimately show ?thesis by (simp add: ids_ok_def)
qed

lemma findThreadByID_ok:
  assumes L: "thread_lists s L" and ids: "ids_ok s L" and n: "length (L d) < n"
  shows "findThreadByID n d i s = Ok (if \<exists>t\<in>set (L d). t_id (thr s t) = i
    then Some (THE t. t \<in> set (L d) \<and> t_id (thr s t) = i) else None)"
proof -
  have c: "chain (\<lambda>t. t_nextInDomain (thr s t)) (d_threads (dom s d)) (L d)"
    using dchain_chain [OF thread_listsD(1) [OF L, of d]] by (simp add: dn_def [abs_def])
  have "find (\<lambda>t. t_id (thr s t) = i) (L d) = (if \<exists>t\<in>set (L d). t_id (thr s t) = i
    then Some (THE t. t \<in> set (L d) \<and> t_id (thr s t) = i) else None)"
  proof (cases "\<exists>t\<in>set (L d). t_id (thr s t) = i")
    case True
    then obtain t where t: "t \<in> set (L d)" "t_id (thr s t) = i" by blast
    have inj: "inj_on (\<lambda>t. t_id (thr s t)) (set (L d))" using ids by (simp add: ids_ok_def distinct_map)
    then have the: "(THE x. x \<in> set (L d) \<and> t_id (thr s x) = i) = t"
      using t by (auto simp: inj_on_def intro!: the_equality)
    obtain x where x: "find (\<lambda>t. t_id (thr s t) = i) (L d) = Some x"
      using True by (cases "find (\<lambda>t. t_id (thr s t) = i) (L d)") (auto simp: find_None_iff)
    then have "x \<in> set (L d)" "t_id (thr s x) = i" by (auto simp: find_Some_iff)
    then have "x = t" using inj t by (auto simp: inj_on_def)
    with x the True show ?thesis by simp
  qed (simp add: find_None_iff)
  with find_in_chain [OF c n] show ?thesis by (simp add: findThreadByID_def)
qed

end
