(* ===== verification/Kernel_Runs.thy ===== *)
theory Kernel_Runs
  imports Sched_Steps Thread
begin

section \<open>Runs of the kernel\<close>

text \<open>
  The operations of the scheduler as a step relation on the state of the machine, its
  reachable states, and that no reachable state leads into a failed assertion, a panic or
  an endless loop.  An operation that walks a queue is a step when some fuel makes it
  return; \<open>mono_fuel\<close> (more fuel does not change a result) makes the choice irrelevant.
\<close>

subsection \<open>Fuel\<close>

definition mono_fuel :: "(nat \<Rightarrow> 'a res) \<Rightarrow> bool" where
  "mono_fuel f \<longleftrightarrow> (\<forall>n m x. n \<le> m \<longrightarrow> f n = Ok x \<longrightarrow> f m = Ok x)"

named_theorems fuel_intros \<open>operations whose result does not depend on the fuel\<close>

lemma mono_fuelD: "mono_fuel f \<Longrightarrow> f n = Ok x \<Longrightarrow> n \<le> m \<Longrightarrow> f m = Ok x"
  by (auto simp: mono_fuel_def)

lemma mono_fuel_const [fuel_intros]: "mono_fuel (\<lambda>n. c)"
  by (simp add: mono_fuel_def)

lemma mono_fuel_rbind [fuel_intros]:
  "mono_fuel f \<Longrightarrow> (\<And>x. mono_fuel (\<lambda>n. g n x)) \<Longrightarrow> mono_fuel (\<lambda>n. rbind (f n) (g n))"
  unfolding mono_fuel_def by (simp, blast)

lemma mono_fuel_if [fuel_intros]:
  "mono_fuel f \<Longrightarrow> mono_fuel g \<Longrightarrow> mono_fuel (\<lambda>n. if b then f n else g n)"
  by (simp add: mono_fuel_def)

lemma mono_fuel_rassert [fuel_intros]: "mono_fuel f \<Longrightarrow> mono_fuel (\<lambda>n. rassert b msg (f n))"
  by (simp add: mono_fuel_def)

lemma mono_fuel_option [fuel_intros]:
  "mono_fuel f \<Longrightarrow> (\<And>x. mono_fuel (\<lambda>n. g n x)) \<Longrightarrow> mono_fuel (\<lambda>n. case p of None \<Rightarrow> f n | Some x \<Rightarrow> g n x)"
  by (cases p) auto

lemma mono_fuel_prod [fuel_intros]:
  "(\<And>x y. mono_fuel (\<lambda>n. g n x y)) \<Longrightarrow> mono_fuel (\<lambda>n. case p of (x, y) \<Rightarrow> g n x y)"
  by (cases p) auto

lemma mono_fuel_let [fuel_intros]:
  "(\<And>x. mono_fuel (\<lambda>n. g n x)) \<Longrightarrow> mono_fuel (\<lambda>n. let x = v in g n x)"
  by (simp add: Let_def)

lemma mono_fuel_find_in [fuel_intros]: "mono_fuel (\<lambda>n. find_in n nx P p)"
  unfolding mono_fuel_def
proof (intro allI impI)
  fix n m x assume "n \<le> m" "find_in n nx P p = Ok x"
  then show "find_in m nx P p = Ok x"
  proof (induction n nx P p arbitrary: m rule: find_in.induct)
    case (2 n nx P)
    then show ?case by (cases m) auto
  next
    case (3 n nx P y)
    then show ?case by (cases m) (auto split: if_splits)
  qed simp
qed

lemma mono_fuel_walk_domains [fuel_intros]:
  assumes "\<And>d. mono_fuel (\<lambda>n. f n d)"
  shows "mono_fuel (\<lambda>n. walk_domains n (f n) nx p)"
proof -
  have step: "walk_domains m (f k) nx p = Ok u" if "n \<le> m" "n' \<le> k" "walk_domains n (f n') nx p = Ok u" for n m n' k u p
    using that
  proof (induction n "f n'" nx p arbitrary: m rule: walk_domains.induct)
    case (2 n nx)
    then show ?case by (cases m) auto
  next
    case (3 n nx d)
    then show ?case by (cases m) (auto intro: mono_fuelD [OF assms])
  qed simp
  show ?thesis unfolding mono_fuel_def using step by blast
qed

lemma mono_fuel_unlink_domain [fuel_intros]: "mono_fuel (\<lambda>n. unlink_domain n x prev p s)"
  unfolding mono_fuel_def
proof (intro allI impI)
  fix n m u assume "n \<le> m" "unlink_domain n x prev p s = Ok u"
  then show "unlink_domain m x prev p s = Ok u"
  proof (induction n x prev p s arbitrary: m rule: unlink_domain.induct)
    case (2 n x prev s)
    then show ?case by (cases m) auto
  next
    case (3 n x prev d s)
    then show ?case by (cases m) (auto split: if_splits)
  qed simp
qed

lemma mono_fuel_check_runnable_scan [fuel_intros]: "mono_fuel (\<lambda>n. check_runnable_scan n p s)"
  unfolding mono_fuel_def
proof (intro allI impI)
  fix n m u assume "n \<le> m" "check_runnable_scan n p s = Ok u"
  then show "check_runnable_scan m p s = Ok u"
  proof (induction n p s arbitrary: m rule: check_runnable_scan.induct)
    case (2 n s)
    then show ?case by (cases m) auto
  next
    case (3 n t s)
    then show ?case by (cases m) (auto simp: Let_def split: if_splits)
  qed simp
qed

lemma mono_fuel_foreach [fuel_intros]:
  assumes "\<And>d s. mono_fuel (\<lambda>n. f n d s)"
  shows "mono_fuel (\<lambda>n. foreach_slot (f n) ds s)"
proof (induction ds arbitrary: s)
  case (Cons d ds)
  show ?case unfolding foreach_slot.simps by (intro fuel_intros assms Cons)
qed (simp add: fuel_intros)

lemma mono_fuel_domainrunq_append [fuel_intros]: "mono_fuel (\<lambda>n. domainrunq_append n d s)"
  unfolding domainrunq_append_def by (intro fuel_intros)

lemma mono_fuel_check_not_in_runq [fuel_intros]: "mono_fuel (\<lambda>n. check_not_in_runq n t s)"
  unfolding check_not_in_runq_def not_in_queue_of_def by (intro fuel_intros)

lemma mono_fuel_removeFirst [fuel_intros]: "mono_fuel (\<lambda>n. runqueue_removeFirstOrNULL n cd s)"
  unfolding runqueue_removeFirstOrNULL_def check_completerunnable_def foreachDomain_def check_runnable_def
  by (intro fuel_intros)

lemma mono_fuel_switch [fuel_intros]: "mono_fuel (\<lambda>n. Sched_switch_to_nextThread n s)"
  unfolding Sched_switch_to_nextThread_def runqueue_removeFirstOrIdle_def by (intro fuel_intros)

lemma mono_fuel_unblock [fuel_intros]: "mono_fuel (\<lambda>n. threadunblock n t s)"
  unfolding threadunblock_def Sched_unblocked_def by (intro fuel_intros)

lemma mono_fuel_ops [fuel_intros]:
  "mono_fuel (\<lambda>n. threadyield n s)" "mono_fuel (\<lambda>n. Sched_block n st s)"
  "mono_fuel (\<lambda>n. reschedule n off s)"
  "mono_fuel (\<lambda>n. Sched_portal_handoff_to_receiver n r s)"
  "mono_fuel (\<lambda>n. Sched_portal_handoff_to_sender n r b s)"
  "mono_fuel (\<lambda>n. Sched_portal_destroy_handoff_to_sender n r s)"
  unfolding threadyield_def Sched_block_def reschedule_def Sched_reschedule_def preempt_requeue_def
    Sched_portal_handoff_to_receiver_def Sched_portal_handoff_to_sender_def
    Sched_portal_destroy_handoff_to_sender_def destroy_switch_eq
  by (intro fuel_intros)+

lemma mono_fuel_irq [fuel_intros]:
  "mono_fuel (\<lambda>n. irq_first_level_handler n irq i_s)" "mono_fuel (\<lambda>n. irq_exit n i_s)"
  unfolding irq_first_level_handler_def irq_exit_def Sched_activate_interrupt_thread_def
    Sched_deactivate_interrupt_thread_def runqueue_switchdomains_def
  by (intro fuel_intros)+

text \<open>Only finitely many queues are nonempty, so some fuel is enough.\<close>

lemma room_exists:
  assumes "sched_inv s a"
  shows "\<exists>n. room n a"
proof -
  let ?D = "insert (curdom s) (set (order a))"
  have "ready a d = []" if "d \<notin> ?D" for d
    using sched_invD(2) [OF assms] that by (auto simp: order_ok_def)
  moreover define k where "k = Max ((\<lambda>d. length (ready a d)) ` ?D)"
  ultimately have le: "length (ready a d) \<le> k" for d
    by (cases "d \<in> ?D") (auto simp: k_def simp del: Max_insert image_insert intro!: Max_ge)
  have "length (ready a d) + 2 < k + length (order a) + 3" for d using le [of d] by linarith
  then have "room (k + length (order a) + 3) a" by (simp add: room_def)
  then show ?thesis by blast
qed

lemma room_mono: "room n a \<Longrightarrow> n \<le> m \<Longrightarrow> room m a"
  unfolding room_def by (meson order_less_le_trans)

subsection \<open>Steps\<close>

text \<open>
  The flag says whether an interrupt is being served; while it is, interrupts are off and the
  handler may only make other threads runnable.  A thread neither blocks as AVAILABLE nor is an AVAILABLE thread
  unblocked: that state is reserved for the handler threads of interrupt lines.  Nothing is assumed of the
  handler thread when an interrupt arrives: that it is AVAILABLE then follows from the invariant.
\<close>

inductive kstep :: "bool \<times> irq_state \<times> sched \<Rightarrow> bool \<times> irq_state \<times> sched \<Rightarrow> bool" where
  k_yield: "threadyield n s = Ok s' \<Longrightarrow> kstep (False, i, s) (False, i, s')"
| k_preempt: "reschedule n off s = Ok s' \<Longrightarrow> kstep (False, i, s) (False, i, s')"
| k_block: "st \<noteq> STATE_RUNNABLE \<Longrightarrow> st \<noteq> STATE_AVAILABLE \<Longrightarrow> curthr s \<noteq> idle_thread s \<Longrightarrow>
    Sched_block n st s = Ok s' \<Longrightarrow> kstep (False, i, s) (False, i, s')"
| k_unblock: "t_state (thr s t) \<noteq> STATE_RUNNABLE \<Longrightarrow> t_state (thr s t) \<noteq> STATE_AVAILABLE \<Longrightarrow>
    threadunblock n t s = Ok s' \<Longrightarrow> kstep (b, i, s) (b, i, s')"
| k_call: "curthr s \<noteq> idle_thread s \<Longrightarrow> t_state (thr s r) = STATE_PORTAL_WAIT_FOR_SND \<Longrightarrow>
    Sched_portal_handoff_to_receiver n r s = Ok s' \<Longrightarrow> kstep (False, i, s) (False, i, s')"
| k_return: "curthr s \<noteq> idle_thread s \<Longrightarrow> t_state (thr s r) = STATE_PORTAL_WAIT_FOR_RET \<Longrightarrow>
    Sched_portal_handoff_to_sender n r isRunnable s = Ok s' \<Longrightarrow> kstep (False, i, s) (False, i, s')"
| k_irq: "irq_first_level_handler n irq (i, s) = Ok (i', s') \<Longrightarrow>
    kstep (False, i, s) (ifirstlevel_object i irq \<noteq> 0, i', s')"
| k_irq_exit: "irq_exit n (i, s) = Ok (i', s') \<Longrightarrow> kstep (True, i, s) (False, i', s')"

inductive kreach :: "bool \<times> irq_state \<times> sched \<Rightarrow> bool \<times> irq_state \<times> sched \<Rightarrow> bool" for k0 where
  kreach_refl: "kreach k0 k0"
| kreach_step: "kreach k0 k \<Longrightarrow> kstep k k' \<Longrightarrow> kreach k0 k'"

inductive_cases kstepE: "kstep (b, i, s) k'"

text \<open>The invariant of a run.\<close>

definition serving_ok :: "irq_state \<Rightarrow> sched \<Rightarrow> ready_queues \<Rightarrow> bool" where
  "serving_ok i s a \<longleftrightarrow> curthr s = ithreads i (inumber i) \<and> curthr s \<noteq> idle_thread s \<and>
     icurrent i \<noteq> curthr s \<and> t_state (thr s (icurrent i)) = STATE_RUNNABLE \<and>
     (\<forall>d. icurrent i \<notin> set (ready a d))"

text \<open>Every line with a handler object has code, and its handler thread is AVAILABLE, except for the thread
  that serves the interrupt.\<close>

definition handlers_ok :: "bool \<Rightarrow> irq_state \<Rightarrow> sched \<Rightarrow> bool" where
  "handlers_ok b i s \<longleftrightarrow> (\<forall>irq. ifirstlevel_object i irq \<noteq> 0 \<longrightarrow> ifirstlevel_code i irq \<noteq> 0 \<and>
     (t_state (thr s (ithreads i irq)) = STATE_AVAILABLE \<or> b \<and> ithreads i irq = curthr s))"

fun kinv :: "bool \<times> irq_state \<times> sched \<Rightarrow> bool" where
  "kinv (b, i, s) = (\<exists>a. sched_inv s a \<and> handlers_ok b i s \<and> (b \<longrightarrow> serving_ok i s a))"

definition keeps_available :: "sched \<Rightarrow> sched \<Rightarrow> bool" where
  "keeps_available s s' \<longleftrightarrow> (\<forall>t. t_state (thr s t) = STATE_AVAILABLE \<longrightarrow> t_state (thr s' t) = STATE_AVAILABLE)"

lemma handlers_ok_keep: "handlers_ok False i s \<Longrightarrow> keeps_available s s' \<Longrightarrow> handlers_ok False i s'"
  by (auto simp: handlers_ok_def keeps_available_def)

lemma keeps_switch: "keeps_available s s1 \<Longrightarrow> erase s' = erase (switch_to t s1) \<Longrightarrow> keeps_available s s'"
  using erase_switch(1) [of s' t s1] by (simp add: keeps_available_def)

lemma keeps_refl: "keeps_available s s"
  by (simp add: keeps_available_def)

lemma keeps_set_state: "keeps_available s s1 \<Longrightarrow> t_state (thr s t) \<noteq> STATE_AVAILABLE \<Longrightarrow> keeps_available s (set_state t st s1)"
  by (auto simp: keeps_available_def)

lemma keeps_erase: "keeps_available s s1 \<Longrightarrow> erase s' = erase s1 \<Longrightarrow> keeps_available s s'"
  using erase_same(1) [of s' s1] by (simp add: keeps_available_def)

lemma current_not_available: "sched_inv s a \<Longrightarrow> t_state (thr s (curthr s)) \<noteq> STATE_AVAILABLE"
  using sched_invD(5) by (simp add: thread_states)

text \<open>With fuel above what some fuel returned and above what is enough, the step lemmas apply.\<close>

lemma more_fuel:
  assumes "mono_fuel f" and "f n = Ok x" and "sched_inv s a"
  obtains m where "f m = Ok x" "room m a"
proof -
  obtain k where "room k a" using room_exists [OF assms(3)] by blast
  then have "room (max n k) a" by (rule room_mono) simp
  moreover have "f (max n k) = Ok x" by (rule mono_fuelD [OF assms(1,2)]) simp
  ultimately show ?thesis using that by blast
qed

lemma kinv_normal:
  assumes "mono_fuel f" and "f n = Ok s'" and "sched_inv s a" and "handlers_ok False i s"
    and "\<And>m. room m a \<Longrightarrow> \<exists>x. f m = Ok x \<and> (\<exists>b. sched_inv x b) \<and> keeps_available s x"
  shows "kinv (False, i, s')"
proof -
  obtain m where "f m = Ok s'" "room m a" using more_fuel [OF assms(1-3)] by blast
  with assms(5) [of m] handlers_ok_keep [OF assms(4)] show ?thesis by auto
qed

lemma kinv_unblock:
  assumes inv: "kinv (b, i, s)" and st: "t_state (thr s t) \<noteq> STATE_RUNNABLE" "t_state (thr s t) \<noteq> STATE_AVAILABLE"
    and call: "threadunblock n t s = Ok s'"
  shows "kinv (b, i, s')"
proof -
  obtain a where a: "sched_inv s a" "b \<longrightarrow> serving_ok i s a" "handlers_ok b i s" using inv by auto
  obtain m where m: "threadunblock m t s = Ok s'" "room m a"
    by (rule more_fuel [OF mono_fuel_unblock call a(1)])
  obtain s1 where s1: "threadunblock m t s = Ok s1"
    "sched_inv s1 (enqueue (curdom s) (t_domain (thr s t)) t a)"
    "erase s1 = erase (set_state t STATE_RUNNABLE s)"
    using threadunblock_step [OF a(1) m(2) st(1)] by blast
  then have "s1 = s'" using m(1) by simp
  moreover have "serving_ok i s1 (enqueue (curdom s) (t_domain (thr s t)) t a)" if "b"
    using a(2) that st erase_same [OF s1(3)] by (auto simp: serving_ok_def set_enqueue)
  moreover have "handlers_ok b i s1" using a(3) st erase_same [OF s1(3)] by (auto simp: handlers_ok_def)
  ultimately show ?thesis using s1(2) by auto
qed

lemma kinv_irq:
  assumes inv: "sched_inv s a" "handlers_ok False i s" and call: "irq_first_level_handler n irq (i, s) = Ok (i', s')"
  shows "kinv (ifirstlevel_object i irq \<noteq> 0, i', s')"
proof (cases "ifirstlevel_object i irq = 0")
  case True
  then show ?thesis using assms by (auto simp: irq_first_level_handler_def)
next
  case ob: False
  let ?h = "ithreads i irq"
  obtain m where m: "irq_first_level_handler m irq (i, s) = Ok (i', s')" "room m a"
    by (rule more_fuel [OF mono_fuel_irq(1) call inv(1)])
  have st: "t_state (thr s ?h) = STATE_AVAILABLE" "ifirstlevel_code i irq \<noteq> 0" using inv(2) ob by (auto simp: handlers_ok_def)
  obtain s1 where s1: "irq_first_level_handler m irq (i, s) = Ok (i\<lparr>icurrent := curthr s, inumber := irq\<rparr>, s1)"
    "sched_inv s1 (move_domain (curdom s) (t_domain (thr s ?h)) a)"
    "erase s1 = erase (switch_to ?h (set_state ?h STATE_RUNNABLE s))"
    using irq_enter_step [OF inv(1) m(2) ob st(2,1)] by blast
  have "?h \<noteq> curthr s" "?h \<noteq> idle_thread s" using st sched_invD(5,6) [OF inv(1)] by (auto simp: thread_states)
  then have "serving_ok i' s1 (move_domain (curdom s) (t_domain (thr s ?h)) a)"
    using s1(1) m(1) erase_switch [OF s1(3)] sched_invD(3,5) [OF inv(1)] by (auto simp: serving_ok_def)
  moreover have "handlers_ok True i' s1"
    using s1(1) m(1) erase_switch [OF s1(3)] inv(2) by (auto simp: handlers_ok_def)
  ultimately show ?thesis using s1(1,2) m(1) ob by auto
qed

lemma kinv_irq_exit:
  assumes inv: "kinv (True, i, s)" and call: "irq_exit n (i, s) = Ok (i', s')"
  shows "kinv (False, i', s')"
proof -
  obtain a where a: "sched_inv s a" "serving_ok i s a" "handlers_ok True i s" using inv by auto
  obtain m where m: "irq_exit m (i, s) = Ok (i', s')" "room m a"
    by (rule more_fuel [OF mono_fuel_irq(2) call a(1)])
  have "Suc (length (order a)) < m" using m(2) by (simp add: room_def)
  from irq_exit_step [OF a(1) this, of i] a(2,3) m(1) show ?thesis
    by (auto simp: serving_ok_def handlers_ok_def)
qed

lemma kstep_kinv: "kstep k k' \<Longrightarrow> kinv k \<Longrightarrow> kinv k'"
proof (induction rule: kstep.induct)
  case (k_yield n s s' i)
  then obtain a where a: "sched_inv s a" "handlers_ok False i s" by auto
  have "\<exists>x. threadyield m s = Ok x \<and> (\<exists>b. sched_inv x b) \<and> keeps_available s x" if "room m a" for m
    using threadyield_step [OF a(1) that] keeps_switch [OF keeps_refl] by blast
  with kinv_normal [OF mono_fuel_ops(1) k_yield(1) a] show ?case by blast
next
  case (k_preempt n off s s' i)
  then obtain a where a: "sched_inv s a" "handlers_ok False i s" by auto
  have "\<exists>x. reschedule m off s = Ok x \<and> (\<exists>b. sched_inv x b) \<and> keeps_available s x" if "room m a" for m
    using Sched_reschedule_step [OF a(1) that] a keeps_switch [OF keeps_refl] keeps_refl
    by (cases off) (auto simp: reschedule_def switch_to_def)
  with kinv_normal [OF mono_fuel_ops(3) k_preempt(1) a] show ?case by blast
next
  case (k_block st s n s' i)
  then obtain a where a: "sched_inv s a" "handlers_ok False i s" by auto
  have "\<exists>x. Sched_block m st s = Ok x \<and> (\<exists>b. sched_inv x b) \<and> keeps_available s x" if "room m a" for m
    using Sched_block_step [OF a(1) that k_block(1,3)] keeps_switch [OF keeps_set_state [OF keeps_refl]]
      current_not_available [OF a(1)] by blast
  with kinv_normal [OF mono_fuel_ops(2) k_block(4) a] show ?case by blast
next
  case (k_unblock s t n s' b i)
  then show ?case using kinv_unblock by blast
next
  case (k_call s r n s' i)
  then obtain a where a: "sched_inv s a" "handlers_ok False i s" by auto
  have r: "t_state (thr s r) \<noteq> STATE_RUNNABLE" "t_state (thr s r) \<noteq> STATE_AVAILABLE"
    using k_call(2) by (simp_all add: thread_states)
  have "\<exists>x. Sched_portal_handoff_to_receiver m r s = Ok x \<and> (\<exists>b. sched_inv x b) \<and> keeps_available s x" if "room m a" for m
    using handoff_to_receiver_step [OF a(1) that k_call(1) r(1)]
      keeps_switch [OF keeps_set_state [OF keeps_set_state [OF keeps_refl current_not_available [OF a(1)]] r(2)]] by blast
  with kinv_normal [OF mono_fuel_ops(4) k_call(3) a] show ?case by blast
next
  case (k_return s r n isRunnable s' i)
  then obtain a where a: "sched_inv s a" "handlers_ok False i s" by auto
  have r: "t_state (thr s r) \<noteq> STATE_RUNNABLE" "t_state (thr s r) \<noteq> STATE_AVAILABLE"
    using k_return(2) by (simp_all add: thread_states)
  have "\<exists>x. Sched_portal_handoff_to_sender m r isRunnable s = Ok x \<and> (\<exists>b. sched_inv x b) \<and> keeps_available s x"
    if "room m a" for m
    using handoff_to_sender_step [OF a(1) that k_return(1) r(1), of isRunnable]
      keeps_switch [OF keeps_set_state [OF keeps_erase [OF keeps_set_state [OF keeps_refl current_not_available [OF a(1)]]] r(2)]]
    by blast
  with kinv_normal [OF mono_fuel_ops(5) k_return(3) a] show ?case by blast
next
  case (k_irq n irq i s i' s')
  then show ?case using kinv_irq by auto
next
  case (k_irq_exit n i s i' s')
  then show ?case using kinv_irq_exit by blast
qed

lemma kreach_kinv: "kreach k0 k \<Longrightarrow> kinv k0 \<Longrightarrow> kinv k"
  by (induction rule: kreach.induct) (auto dest: kstep_kinv simp del: kinv.simps)

subsection \<open>Properties\<close>

text \<open>C2: in every state the scheduler can reach from a consistent one, through any interleaving of
  yields, preemptions, blocking, unblocking, portal calls and returns, the entry of interrupts and their
  end, every operation returns: no assertion fails, no consistency check panics, no walk loops.  While no
  interrupt is served, that is so for a yield, a preemption, an interrupt on any line (the assertion
  that its handler thread is AVAILABLE and the test for its code included), and, when the running thread is not
  the idle thread, for blocking and the two portal handoffs; unblocking a thread that is not runnable
  returns at any time, and the end of an interrupt while one is served.\<close>

theorem reachable_states_safe:
  assumes "kinv k0" "kreach k0 (b, i, s)"
  shows "\<exists>N. \<forall>n\<ge>N.
    (\<not> b \<longrightarrow> is_ok (threadyield n s) \<and> is_ok (reschedule n off s) \<and>
      (curthr s \<noteq> idle_thread s \<and> st \<noteq> STATE_RUNNABLE \<longrightarrow> is_ok (Sched_block n st s)) \<and>
      (curthr s \<noteq> idle_thread s \<and> t_state (thr s t) \<noteq> STATE_RUNNABLE \<longrightarrow>
         is_ok (Sched_portal_handoff_to_receiver n t s) \<and>
         is_ok (Sched_portal_handoff_to_sender n t isRunnable s)) \<and>
      is_ok (irq_first_level_handler n irq (i, s))) \<and>
    (t_state (thr s t) \<noteq> STATE_RUNNABLE \<longrightarrow> is_ok (threadunblock n t s)) \<and>
    (b \<longrightarrow> is_ok (irq_exit n (i, s)))"
proof -
  obtain a where a: "sched_inv s a" "b \<longrightarrow> serving_ok i s a" "handlers_ok b i s"
    using kreach_kinv [OF assms(2,1)] by auto
  obtain N where N: "room N a" using room_exists [OF a(1)] by blast
  show ?thesis
  proof (intro exI [of _ N] allI impI conjI)
    fix n assume "N \<le> n"
    then have r: "room n a" by (rule room_mono [OF N])
    show "is_ok (threadyield n s)" using threadyield_step [OF a(1) r] by auto
    show "is_ok (reschedule n off s)"
      using Sched_reschedule_step [OF a(1) r] by (cases off) (auto simp: reschedule_def)
    show "is_ok (Sched_block n st s)" if "curthr s \<noteq> idle_thread s \<and> st \<noteq> STATE_RUNNABLE"
      using Sched_block_step [OF a(1) r, of st] that by auto
    show "is_ok (Sched_portal_handoff_to_receiver n t s)"
      if "curthr s \<noteq> idle_thread s \<and> t_state (thr s t) \<noteq> STATE_RUNNABLE"
      using handoff_to_receiver_step [OF a(1) r, of t] that unfolding is_ok_iff by blast
    show "is_ok (Sched_portal_handoff_to_sender n t isRunnable s)"
      if "curthr s \<noteq> idle_thread s \<and> t_state (thr s t) \<noteq> STATE_RUNNABLE"
      using handoff_to_sender_step [OF a(1) r, of t isRunnable] that unfolding is_ok_iff by blast
    show "is_ok (threadunblock n t s)" if "t_state (thr s t) \<noteq> STATE_RUNNABLE"
      using threadunblock_step [OF a(1) r that] unfolding is_ok_iff by blast
    show "is_ok (irq_first_level_handler n irq (i, s))" if "\<not> b"
    proof (cases "ifirstlevel_object i irq = 0")
      case False
      then have "ifirstlevel_code i irq \<noteq> 0" "t_state (thr s (ithreads i irq)) = STATE_AVAILABLE"
        using a(3) that by (auto simp: handlers_ok_def)
      from irq_enter_step [OF a(1) r False this] show ?thesis unfolding is_ok_iff by blast
    qed (simp add: irq_first_level_handler_def)
    show "is_ok (irq_exit n (i, s))" if b
    proof -
      have "Suc (length (order a)) < n" using r by (simp add: room_def)
      from irq_exit_step [OF a(1) this, of i] a(2) that show ?thesis
        unfolding serving_ok_def is_ok_iff by auto
    qed
  qed
qed

definition demo_irq :: irq_state where
  "demo_irq = \<lparr>ithreads = \<lambda>_. 5, ifirstlevel_object = \<lambda>_. 1, ifirstlevel_code = \<lambda>_. 1,
     ifirstlevel_processed = \<lambda>_. 0, icurrent = 0, inumber = 0\<rparr>"

theorem reachable_states_safe_witness:
  "\<exists>s i1 s1. kreach (False, demo_irq, demo) (False, demo_irq, s) \<and> kreach (False, demo_irq, demo) (True, i1, s1) \<and>
     (\<exists>N. \<forall>n\<ge>N. is_ok (threadyield n s) \<and> is_ok (irq_first_level_handler n 7 (demo_irq, s))) \<and>
     (\<exists>N. \<forall>n\<ge>N. is_ok (irq_exit n (i1, s1)))"
proof -
  obtain s where "threadyield 5 demo = Ok s" using threadyield_step [OF demo_inv demo_room] by blast
  then have r: "kreach (False, demo_irq, demo) (False, demo_irq, s)" by (rule kreach_step [OF kreach_refl k_yield])
  have k: "kinv (False, demo_irq, demo)" using demo_inv by (auto simp: handlers_ok_def demo_irq_def demo_attrs)
  from reachable_states_safe [OF k r, where irq = 7] obtain N where
    N: "\<forall>n\<ge>N. is_ok (threadyield n s) \<and> is_ok (irq_first_level_handler n 7 (demo_irq, s))" by blast
  then have "is_ok (irq_first_level_handler N 7 (demo_irq, s))" by simp
  then obtain i1 s1 where "irq_first_level_handler N 7 (demo_irq, s) = Ok (i1, s1)" unfolding is_ok_iff by auto
  from kreach_step [OF r k_irq [OF this]] have r1: "kreach (False, demo_irq, demo) (True, i1, s1)" by (simp add: demo_irq_def)
  from reachable_states_safe [OF k r1] have "\<exists>N. \<forall>n\<ge>N. is_ok (irq_exit n (i1, s1))" by blast
  with r r1 N show ?thesis by blast
qed

lemma ids_ok_erase: "erase s' = erase s \<Longrightarrow> ids_ok s' L = ids_ok s L"
proof -
  assume e: "erase s' = erase s"
  have "t_id (thr (erase s') t) = t_id (thr (erase s) t)"
    "d_currentThreadID (dom (erase s') d) = d_currentThreadID (dom (erase s) d)" for t d
    by (simp_all only: e)
  then have "t_id (thr s' t) = t_id (thr s t)" "d_currentThreadID (dom s' d) = d_currentThreadID (dom s d)" for t d
    by (simp_all add: erase_def)
  then show ?thesis by (simp add: ids_ok_def)
qed

lemma erase_t_id: "erase s' = erase s \<Longrightarrow> t_id (thr s' t) = t_id (thr s t)"
  "erase s' = erase s \<Longrightarrow> t_esp (thr s' t) = t_esp (thr s t)"
  "erase s' = erase s \<Longrightarrow> t_eip (thr s' t) = t_eip (thr s t)"
proof -
  assume e: "erase s' = erase s"
  have "t_id (thr (erase s') t) = t_id (thr (erase s) t)" "t_esp (thr (erase s') t) = t_esp (thr (erase s) t)"
    "t_eip (thr (erase s') t) = t_eip (thr (erase s) t)"
    by (simp_all only: e)
  then show "t_id (thr s' t) = t_id (thr s t)" "t_esp (thr s' t) = t_esp (thr s t)"
    "t_eip (thr s' t) = t_eip (thr s t)" by (simp_all add: erase_def)
qed

lemma erase_stack:
  assumes "erase s' = erase s"
  shows "t_stack (thr s' t) = t_stack (thr s t)" "t_stackTop (thr s' t) = t_stackTop (thr s t)"
    "t_myparams (thr s' t) = t_myparams (thr s t)"
proof -
  have "t_stack (thr (erase s') t) = t_stack (thr (erase s) t)" "t_stackTop (thr (erase s') t) = t_stackTop (thr (erase s) t)"
    "t_myparams (thr (erase s') t) = t_myparams (thr (erase s) t)"
    by (simp_all only: assms)
  then show "t_stack (thr s' t) = t_stack (thr s t)" "t_stackTop (thr s' t) = t_stackTop (thr s t)"
    "t_myparams (thr s' t) = t_myparams (thr s t)" by (simp_all add: erase_def)
qed

lemma new_thread_stack:
  "t_stack (thr (new_thread t d stk start st s) t) = stk"
  "t_stackTop (thr (new_thread t d stk start st s) t) = stk + STACK_CHUNK_SIZE"
  "t_myparams (thr (new_thread t d stk start st s) t) = 0"
  by (simp_all add: new_thread_def link_thread_def upd_thr_def upd_dom_def Let_def split: option.split)

lemma new_thread_ids:
  assumes "thread_lists s L" "ids_ok s L" "\<And>e. t \<notin> set (L e)" "d_currentThreadID (dom s d) < 0xFFFFFFFF"
  shows "ids_ok (new_thread t d stk start st s) (L(d := t # L d))"
proof -
  have "ids_ok (link_thread t d stk s) (L(d := t # L d))" by (rule link_ids_ok [OF assms])
  then show ?thesis unfolding ids_ok_def new_thread_def
    by (simp add: ctx_facts(14)) (simp add: upd_thr_def)
qed

text \<open>C15: creating a thread.  With eight adjacent free blocks for the stack, \<^verbatim>\<open>createThread\<close> returns; the
  new thread is last in the run queue of its domain and first in its thread list, its
  identifier is new and \<^verbatim>\<open>findThreadByID\<close> finds it.  Its stack is a run of eight blocks that were free and are
  the only ones that become used; the descriptor holds its lower and its upper end (so that it can be
  released) and no parameter block, the stack pointer is three words below the upper end, and
  the frame there starts the routine with its parameter and ends in \<^verbatim>\<open>thread_exit\<close>; the
  invariants of the scheduler, the thread lists and the allocator are kept.\<close>

theorem createThread_correct:
  assumes inv: "sched_inv s a" "thread_lists s L" "ids_ok s L" "room n a"
    and new: "\<forall>e. t \<notin> set (L e) \<and> t \<notin> set (ready a e)" "t \<noteq> curthr s" "t \<noteq> idle_thread s"
    and wrap: "d_currentThreadID (dom s d) < 0xFFFFFFFF" and k: "length (L d) + 1 < k"
    and m: "malloc_inv m" "bitmap_inside m" "free_run m b 8" "jxmem_start m AND 3 = 0" "2 * nblk m + 1 < n"
  shows "\<exists>s' m' c. createThread n ex t d start param STATE_RUNNABLE SCHED_CREATETHREAD_DEFAULT (s, m) = Ok (s', m') \<and>
    sched_inv s' (enqueue (curdom s) d t a) \<and> thread_lists s' (L(d := t # L d)) \<and>
    ids_ok s' (L(d := t # L d)) \<and> findThreadByID k d (t_id (thr s' t)) s' = Ok (Some t) \<and>
    free_run m c 8 \<and> (\<forall>j<nblk m. ublk m' j = (ublk m j \<or> c \<le> j \<and> j < c + 8)) \<and>
    malloc_inv m' \<and> bitmap_inside m' \<and> t_state (thr s' t) = STATE_RUNNABLE \<and> t_domain (thr s' t) = d \<and>
    unat (t_stack (thr s' t)) = unat (jxmem_start m) + c * 1024 \<and> t_stackTop (thr s' t) = t_stack (thr s' t) + 8192 \<and>
    t_myparams (thr s' t) = 0 \<and> t_esp (thr s' t) = t_stackTop (thr s' t) - 12 \<and> t_eip (thr s' t) = start \<and>
    read32 (mem m') (t_esp (thr s' t)) = ex \<and> read32 (mem m') (t_esp (thr s' t) + 4) = param \<and>
    read32 (mem m') (t_esp (thr s' t) + 8) = ex"
proof -
  have new': "\<And>e. t \<notin> set (L e)" "\<And>e. t \<notin> set (ready a e)" using new(1) by auto
  obtain s' m' stk c where c:
    "createThreadInMem n ex t d start param STATE_RUNNABLE SCHED_CREATETHREAD_DEFAULT (s, m) = Ok (s', m')"
    "sched_inv s' (enqueue (curdom s) d t a)" "thread_lists s' (L(d := t # L d))"
    "erase s' = erase (new_thread t d stk start STATE_RUNNABLE s)" "free_run m c 8"
    "unat stk = unat (jxmem_start m) + c * 1024" "\<forall>j<nblk m. ublk m' j = (ublk m j \<or> c \<le> j \<and> j < c + 8)" "malloc_inv m'" "bitmap_inside m'"
    "read32 (mem m') (stk + STACK_CHUNK_SIZE - 12) = ex" "read32 (mem m') (stk + STACK_CHUNK_SIZE - 8) = param"
    "read32 (mem m') (stk + STACK_CHUNK_SIZE - 4) = ex"
    using createThreadInMem_step [OF inv(1,2,4) new' new(2,3) m] by metis
  note nt = new_thread_inv [OF inv(1,2) new' new(2,3)]
  have ids: "ids_ok s' (L(d := t # L d))"
    using ids_ok_erase [OF c(4)] new_thread_ids [OF inv(2,3) new'(1) wrap] by simp
  have "inj_on (\<lambda>x. t_id (thr s' x)) (set (t # L d))"
    using ids by (auto simp: ids_ok_def distinct_map dest: spec [of _ d])
  then have "(THE x. x \<in> set (t # L d) \<and> t_id (thr s' x) = t_id (thr s' t)) = t"
    by (intro the_equality) (auto simp: inj_on_def)
  moreover have "length ((L(d := t # L d)) d) < k" using k by simp
  ultimately have "findThreadByID k d (t_id (thr s' t)) s' = Ok (Some t)"
    using findThreadByID_ok [OF c(3) ids] by simp
  moreover have esp: "t_esp (thr s' t) = stk + STACK_CHUNK_SIZE - 12" "t_eip (thr s' t) = start"
    using erase_t_id(2,3) [OF c(4), of t] nt(7,8) by simp_all
  moreover have "t_stack (thr s' t) = stk" "t_stackTop (thr s' t) = stk + STACK_CHUNK_SIZE" "t_myparams (thr s' t) = 0"
    using erase_stack [OF c(4), of t] new_thread_stack by simp_all
  moreover have "t_state (thr s' t) = STATE_RUNNABLE" "t_domain (thr s' t) = d"
    using erase_same(1,2) [OF c(4), of t] nt(3,4) by simp_all
  moreover have "STACK_CHUNK_SIZE = 8192" by (simp add: STACK_CHUNK_SIZE_def)
  moreover have "stk + STACK_CHUNK_SIZE - 12 + 4 = stk + STACK_CHUNK_SIZE - 8"
    "stk + STACK_CHUNK_SIZE - 12 + 8 = stk + STACK_CHUNK_SIZE - 4" by simp_all
  ultimately show ?thesis using c ids unfolding createThread_def
    by (intro exI [of _ s'] exI [of _ m'] exI [of _ c]) simp
qed

lemma small_pool_addr: "jxmem_start small_pool = 0x100000" "bitmap small_pool = 0x100000"
proof -
  have "jxmem_start (markUsed_loop k x) = jxmem_start x \<and> bitmap (markUsed_loop k x) = bitmap x" for k x
    by simp
  then show "jxmem_start small_pool = 0x100000" "bitmap small_pool = 0x100000"
    by (simp_all add: small_pool_def jxmalloc_setup_def Let_def markUsed_def)
qed

lemma small_pool_inside: "bitmap_inside small_pool"
  using small_pool_facts(3) [of 0] by (simp add: bitmap_inside_def small_pool_addr small_pool_facts(2))

lemma small_pool_run8: "free_run small_pool 1 8"
  by (auto simp: free_run_def small_pool_facts)

lemma demo_lists: "thread_lists demo ((\<lambda>_. [])(0 := [1]))" "ids_ok demo ((\<lambda>_. [])(0 := [1]))"
  by (simp_all add: thread_lists_def thread_list_def ids_ok_def demo_def thread0_def domain0_def dn_def dp_def)

lemma demo_room40: "room 40 demo_queues"
  by (simp add: room_def demo_queues_def)

theorem createThread_correct_witness:
  "\<exists>s' m'. createThread 40 0x1234 6 1 0x5678 42 STATE_RUNNABLE SCHED_CREATETHREAD_DEFAULT (demo, small_pool) = Ok (s', m')
     \<and> findThreadByID 2 1 (t_id (thr s' 6)) s' = Ok (Some 6) \<and> read32 (mem m') (t_esp (thr s' 6) + 4) = 42
     \<and> t_esp (thr s' 6) = t_stack (thr s' 6) + 8180"
proof -
  have 1: "\<forall>e. 6 \<notin> set (((\<lambda>_. [])(0 := [1 :: nat])) e) \<and> 6 \<notin> set (ready demo_queues e)"
    by (simp add: demo_queues_def)
  have 2: "6 \<noteq> curthr demo" "6 \<noteq> idle_thread demo" by (simp_all add: demo_attrs)
  have 3: "d_currentThreadID (dom demo 1) < 0xFFFFFFFF" by (simp add: demo_def domain0_def)
  have 4: "jxmem_start small_pool AND 3 = 0" "2 * nblk small_pool + 1 < 40"
    by (simp_all add: small_pool_addr small_pool_facts)
  from createThread_correct [OF demo_inv demo_lists demo_room40 1 2 3 _ small_pool_facts(1)
      small_pool_inside small_pool_run8 4, of 2 "0x1234" "0x5678" 42]
  show ?thesis by auto
qed

text \<open>C21: a thread that ends.  When the running thread (not the idle thread) returns, \<^verbatim>\<open>thread_exit\<close>
  takes it out of its domain's thread list, releases its stack, and gives the processor to
  the next ready thread; it is a zombie in no queue, and the invariants are kept.\<close>

theorem destroyCurrentThread_correct:
  assumes inv: "sched_inv s a" "thread_lists s L" "room n a"
    and cur: "curthr s \<in> set (L (curdom s))" "curthr s \<noteq> idle_thread s" "t_myparams (thr s (curthr s)) = 0"
    and m: "malloc_inv m" "unat (t_stack (thr s (curthr s))) = unat (jxmem_start m) + c * 1024"
      "c + 8 \<le> nblk m" "\<forall>j<8. ublk m (c + j)"
  shows "\<exists>s' m'. destroyCurrentThread n (s, m) = Ok (s', m') \<and> sched_inv s' (snd (pick (curdom s) a)) \<and>
    thread_lists s' (L(curdom s := remove1 (curthr s) (L (curdom s)))) \<and> curthr s' = next_thread s a \<and>
    t_state (thr s' (curthr s)) = STATE_ZOMBIE \<and> malloc_inv m' \<and>
    (\<forall>j<nblk m. ublk m' j = (ublk m j \<and> \<not> (c \<le> j \<and> j < c + 8)))"
proof -
  have sz: "unat STACK_CHUNK_SIZE + 1023 < 2 ^ 32" "(unat STACK_CHUNK_SIZE + 1023) div 1024 = 8"
    by (simp_all add: stack_blocks)
  obtain m' where m': "jxfree (t_stack (thr s (curthr s))) STACK_CHUNK_SIZE m = Ok m'" "malloc_inv m'"
    "\<forall>j<nblk m. ublk m' j = (ublk m j \<and> \<not> (c \<le> j \<and> j < c + 8))"
    using jxfree_post [OF m(1) sz(1) m(2)] m(3,4) unfolding sz(2) by auto
  from destroyCurrentThread_step [OF inv cur m'(1)] m'(2,3) show ?thesis by blast
qed

theorem destroyCurrentThread_correct_witness:
  "\<exists>stk m s' m'. destroyCurrentThread 40 (demo\<lparr>thr := (thr demo)(1 := thread0\<lparr>t_stack := stk\<rparr>)\<rparr>, m) = Ok (s', m') \<and>
     curthr s' = 3"
proof -
  obtain stk m c where st: "alloc_post small_pool 8 c stk m" "malloc_inv m"
    using malloc_threadstack_ok [OF small_pool_facts(1) small_pool_run8, of 40]
    by (auto simp: small_pool_addr small_pool_facts)
  let ?s = "demo\<lparr>thr := (thr demo)(1 := thread0\<lparr>t_stack := stk\<rparr>)\<rparr>"
  have inv: "sched_inv ?s demo_queues"
    by (simp add: sched_inv_def rq_rel_def order_ok_def queue_of_def demo_def demo_queues_def
        t_next_def d_next_def q_first_def q_last_def thread0_def domain0_def)
  have l: "thread_lists ?s ((\<lambda>_. [])(0 := [1]))"
    by (simp add: thread_lists_def thread_list_def demo_def thread0_def domain0_def dn_def dp_def)
  have at: "curthr ?s = 1" "idle_thread ?s = 0" "curdom ?s = 0" "t_myparams (thr ?s (curthr ?s)) = 0"
    "t_stack (thr ?s (curthr ?s)) = stk"
    by (simp_all add: demo_def thread0_def)
  have p: "unat stk = unat (jxmem_start m) + c * 1024" "c + 8 \<le> nblk m" "\<forall>j<8. ublk m (c + j)"
    using st(1) by (auto simp: alloc_post_def free_run_def)
  have "next_thread ?s demo_queues = 3" by (simp add: next_thread_def at demo_queues_def pick_def)
  with destroyCurrentThread_correct [OF inv l demo_room40 _ _ at(4) st(2) _ p(2,3)] at p(1)
  show ?thesis by auto
qed

end
