(* ===== verification/Memory_Obj.thy ===== *)
theory Memory_Obj
  imports Jxmalloc Ptr_Queue
begin

section \<open>Memory objects (Interface/zero\_Memory\_org.c): the proxy pool\<close>

text \<open>
  A memory object is a range of physical memory that a domain may hold, split, join, hand
  to another domain and revoke.  Every object refers to a \<^verbatim>\<open>DZMemoryProxy\<close> of a fixed
  pool of \<^verbatim>\<open>NUMBER_DZMEM\<close> entries: the entry carries the reference count, the
  validity (0 revoked or replaced, 1 valid, 2 on the free list), the range, and the links to
  the pieces before and after it in the chunk it was split from.

  Pool entries are numbered; a null pointer is \<open>None\<close>.  \<open>memst\<close> holds the pool, the free
  list, the block allocator with the physical memory, and the per-domain count of allocated bytes
  (\<^verbatim>\<open>domain->memoryObjectBytes\<close>, by domain identifier).  The garbage collector is a parameter
  (\<open>memenv\<close>): \<open>gc_run\<close> is the effect of starting the collector threads of all domains,
  \<open>gc_alloc\<close> that of allocating one object on a domain's heap, with \<open>None\<close> when the
  heap stays exhausted.  The routines run with interrupts disabled, so each is one step; the
  compare-and-swap loops therefore succeed at the first attempt.  The configuration is the shipped
  one: no \<^verbatim>\<open>DEBUG_MEMORY_CREATION\<close>, \<^verbatim>\<open>DEBUG_MEMORY_REFCOUNT\<close> or \<^verbatim>\<open>REDIRECT_INVALID_DZ\<close>, with
  \<^verbatim>\<open>REDUCE_SPLITS\<close>.
\<close>

unbundle bit_operations_syntax

subsection \<open>Data\<close>

text \<open>The number of pool entries: \<^verbatim>\<open>settings.makefile\<close> sets 20000; the file's own default, for a build without
  these settings, is 2048.\<close>

definition NUMBER_DZMEM :: nat where "NUMBER_DZMEM = 20000"

record DZMemoryProxy =
  refcount :: u4
  dz_valid :: u4
  dz_mem :: u4
  dz_size :: u4
  deviceMem :: bool
  dz_prev :: "nat option"
  dz_next :: "nat option"
  prevOwner :: u4
  nextOwner :: u4

record MemoryProxy =
  mp_size :: u4
  mp_mem :: u4
  mp_dz :: nat

record memst =
  dzm :: "nat \<Rightarrow> DZMemoryProxy"
  dzMemoryFreeList :: "nat option"
  dzInvalid :: "nat option"
  blocks :: malloc_state
  memoryObjectBytes :: "u4 \<Rightarrow> u4"

record memenv =
  gc_run :: "memst \<Rightarrow> memst"
  gc_alloc :: "memst \<Rightarrow> memst option"

definition upd_dz :: "nat \<Rightarrow> (DZMemoryProxy \<Rightarrow> DZMemoryProxy) \<Rightarrow> memst \<Rightarrow> memst" where
  "upd_dz d g s = s\<lparr>dzm := (dzm s)(d := g (dzm s d))\<rparr>"

subsection \<open>The pool\<close>

text \<open>\<^verbatim>\<open>dzmemory_collector\<close>: run the collectors, then take the head of the free list if there is one.\<close>

definition dzmemory_collector :: "memenv \<Rightarrow> memst \<Rightarrow> (nat option \<times> memst) res" where
  "dzmemory_collector E s0 =
     (let s = gc_run E s0
      in case dzMemoryFreeList s of
           None \<Rightarrow> Ok (None, s)
         | Some d \<Rightarrow>
             let s' = s\<lparr>dzMemoryFreeList := dz_next (dzm s d)\<rparr>
             in rassert (Some d \<noteq> dzMemoryFreeList s') ''dzm != dzMemoryFreeList''
               (rassert (refcount (dzm s' d) = 0) ''dzm->refcount == 0''
                 (rassert (dz_mem (dzm s' d) = 0) ''dzm->mem == 0'' (Ok (Some d, s')))))"

fun dzmemory_take :: "nat \<Rightarrow> memenv \<Rightarrow> memst \<Rightarrow> (nat \<times> memst) res" where
  "dzmemory_take 0 E s = Fault OutOfFuel"
| "dzmemory_take (Suc n) E s =
     (case dzMemoryFreeList s of
        Some d \<Rightarrow> Ok (d, s\<lparr>dzMemoryFreeList := dz_next (dzm s d)\<rparr>)
      | None \<Rightarrow> rbind (dzmemory_collector E s)
          (\<lambda>(r, s'). case r of Some d \<Rightarrow> Ok (d, s') | None \<Rightarrow> dzmemory_take n E s'))"

definition dzmemory_alloc :: "nat \<Rightarrow> memenv \<Rightarrow> memst \<Rightarrow> (nat \<times> memst) res" where
  "dzmemory_alloc n E s =
     rbind (dzmemory_take n E s) (\<lambda>(d, s').
       Ok (d, upd_dz d (\<lambda>x. x\<lparr>dz_valid := 0, dz_next := None, refcount := 1\<rparr>) s'))"

definition dzmemory_free :: "nat \<Rightarrow> memst \<Rightarrow> memst res" where
  "dzmemory_free d s =
     rassert (refcount (dzm s d) = 0) ''dzm->refcount == 0''
       (Ok ((upd_dz d (\<lambda>x. x\<lparr>dz_valid := 2, dz_next := dzMemoryFreeList s\<rparr>) s)
              \<lparr>dzMemoryFreeList := Some d\<rparr>))"

text \<open>\<^verbatim>\<open>dzmemory_init\<close>: every entry is put on the free list in turn, then one entry is taken for
  \<^verbatim>\<open>dzInvalid\<close>.  The pool itself comes from \<^verbatim>\<open>jxmalloc\<close>.\<close>

definition dz_reset :: "nat \<Rightarrow> memst \<Rightarrow> memst" where
  "dz_reset d s =
     (upd_dz d (\<lambda>x. x\<lparr>refcount := 0, dz_valid := 2, dz_mem := 0, dz_prev := None,
                       dz_next := dzMemoryFreeList s\<rparr>) s)\<lparr>dzMemoryFreeList := Some d\<rparr>"

definition dzmemory_init :: "nat \<Rightarrow> memenv \<Rightarrow> memst \<Rightarrow> memst res" where
  "dzmemory_init n E s0 =
     rbind (jxmalloc n (of_nat (NUMBER_DZMEM * 36)) (blocks s0)) (\<lambda>(_, b).
       let s = foldl (\<lambda>s d. dz_reset d s) (s0\<lparr>blocks := b, dzMemoryFreeList := None\<rparr>)
                 [0..<NUMBER_DZMEM]
       in rbind (dzmemory_alloc n E s) (\<lambda>(d, s').
            Ok ((upd_dz d (\<lambda>x. x\<lparr>dz_valid := 0\<rparr>) s')\<lparr>dzInvalid := Some d\<rparr>)))"

definition createDZMemory :: "nat \<Rightarrow> memenv \<Rightarrow> u4 \<Rightarrow> u4 \<Rightarrow> memst \<Rightarrow> (nat \<times> memst) res" where
  "createDZMemory n E sz m s =
     rbind (dzmemory_alloc n E s) (\<lambda>(d, s').
       Ok (d, upd_dz d (\<lambda>x. x\<lparr>dz_size := sz, dz_mem := m, dz_valid := 1, deviceMem := False,
                 dz_prev := None, dz_next := None, prevOwner := 0, nextOwner := 0\<rparr>) s'))"

subsection \<open>Reference counts and the release of chunks\<close>

text \<open>The walk to the first piece of a chunk; \<open>None\<close> stands for the early return at a piece that is
  still referenced.\<close>

fun chunk_top :: "nat \<Rightarrow> memst \<Rightarrow> nat \<Rightarrow> nat option res" where
  "chunk_top 0 s d = Fault OutOfFuel"
| "chunk_top (Suc n) s d =
     (case dz_prev (dzm s d) of
        None \<Rightarrow> Ok (Some d)
      | Some p \<Rightarrow>
          rassert (dz_next (dzm s p) = Some d) ''dzm->prev->next == dzm''
            (rassert (dz_mem (dzm s p) = 0 \<or> dz_mem (dzm s d) = 0 \<or>
                      dz_mem (dzm s p) + dz_size (dzm s p) = dz_mem (dzm s d)) ''contiguous chunk''
              (if refcount (dzm s p) \<noteq> 0 then Ok None else chunk_top n s p)))"

text \<open>\<^verbatim>\<open>/* free elements */\<close>: the pieces after the first go to the free list, their sizes are added
  to the first.\<close>

fun free_tail :: "nat \<Rightarrow> nat \<Rightarrow> nat option \<Rightarrow> memst \<Rightarrow> memst res" where
  "free_tail 0 d nx s = Fault OutOfFuel"
| "free_tail (Suc n) d None s = Ok (upd_dz d (\<lambda>x. x\<lparr>dz_next := None\<rparr>) s)"
| "free_tail (Suc n) d (Some x) s =
     rassert (refcount (dzm s x) = 0) ''nextObj->refcount == 0''
       (rassert (dz_mem (dzm s d) = 0 \<or> dz_mem (dzm s x) = 0 \<or>
                 dz_mem (dzm s x) = dz_mem (dzm s d) + dz_size (dzm s d)) ''contiguous chunk''
         (let s1 = upd_dz d (\<lambda>y. y\<lparr>dz_size := dz_size y + dz_size (dzm s x)\<rparr>) s;
              s2 = upd_dz x (\<lambda>y. y\<lparr>dz_prev := None, dz_mem := 0, dz_size := 0, dz_next := None\<rparr>) s1
          in rbind (dzmemory_free x s2) (free_tail n d (dz_next (dzm s x)))))"

definition release_top :: "nat \<Rightarrow> memst \<Rightarrow> memst res" where
  "release_top d s =
     rassert (dz_prev (dzm s d) = None) ''dzm->prev == NULL''
       (rassert (dz_next (dzm s d) = None) ''dzm->next == NULL''
         (rassert (refcount (dzm s d) = 0) ''dzm->refcount == 0''
           (if dz_mem (dzm s d) \<noteq> 0
            then rassert (dz_size (dzm s d) > 4) ''dzm->size > 4''
                   (rbind (jxfree (dz_mem (dzm s d)) (dz_size (dzm s d)) (blocks s))
                     (\<lambda>b. dzmemory_free d (upd_dz d (\<lambda>x. x\<lparr>dz_mem := 0\<rparr>) (s\<lparr>blocks := b\<rparr>))))
            else dzmemory_free d s)))"

definition dzmemory_free_chunk :: "nat \<Rightarrow> nat \<Rightarrow> memst \<Rightarrow> memst res" where
  "dzmemory_free_chunk n d s =
     rbind (find_in n (\<lambda>x. dz_next (dzm s x)) (\<lambda>x. refcount (dzm s x) \<noteq> 0) (Some d)) (\<lambda>r.
       case r of
         Some _ \<Rightarrow> Ok s
       | None \<Rightarrow>
           if dz_prev (dzm s d) \<noteq> None \<or> dz_next (dzm s d) \<noteq> None
           then rbind (chunk_top n s d) (\<lambda>t.
                  case t of
                    None \<Rightarrow> Ok s
                  | Some t \<Rightarrow> rbind (free_tail n t (dz_next (dzm s t)) s) (release_top t))
           else release_top d s)"

definition dzmemory_decRefcount :: "nat \<Rightarrow> MemoryProxy \<Rightarrow> memst \<Rightarrow> memst res" where
  "dzmemory_decRefcount n mp s =
     (let d = mp_dz mp;
          s' = upd_dz d (\<lambda>x. x\<lparr>refcount := refcount x - 1\<rparr>) s
      in if refcount (dzm s' d) = 0 then dzmemory_free_chunk n d s' else Ok s')"

definition dzmemory_incRefcount :: "MemoryProxy \<Rightarrow> memst \<Rightarrow> memst" where
  "dzmemory_incRefcount mp s = upd_dz (mp_dz mp) (\<lambda>x. x\<lparr>refcount := refcount x + 1\<rparr>) s"

definition memory_deleted :: "nat \<Rightarrow> MemoryProxy \<Rightarrow> memst \<Rightarrow> memst res" where
  "memory_deleted n obj s = dzmemory_decRefcount n obj s"

subsection \<open>Marking\<close>

definition dzmemory_alive :: "MemoryProxy \<Rightarrow> memst \<Rightarrow> memst" where
  "dzmemory_alive mp s = upd_dz (mp_dz mp) (\<lambda>x. x\<lparr>dz_valid := dz_valid x AND 3\<rparr>) s"

definition dzmemory_mark :: "memst \<Rightarrow> memst" where
  "dzmemory_mark s = foldl (\<lambda>s d. upd_dz d (\<lambda>x. x\<lparr>dz_valid := dz_valid x OR 16\<rparr>) s) s [0..<NUMBER_DZMEM]"

definition dz_check1 :: "nat \<Rightarrow> nat \<Rightarrow> memst \<Rightarrow> memst res" where
  "dz_check1 n d s =
     (let s1 = (if dz_valid (dzm s d) AND 16 \<noteq> 0
                then upd_dz d (\<lambda>x. x\<lparr>dz_valid := dz_valid x AND 3\<rparr>) s else s)
      in if refcount (dzm s1 d) = 0 \<and> dz_valid (dzm s1 d) \<noteq> 2
         then dzmemory_free_chunk n d s1 else Ok s1)"

fun dz_check_from :: "nat \<Rightarrow> nat list \<Rightarrow> memst \<Rightarrow> memst res" where
  "dz_check_from n [] s = Ok s"
| "dz_check_from n (d # ds) s = rbind (dz_check1 n d s) (dz_check_from n ds)"

definition dzmemory_check :: "nat \<Rightarrow> memst \<Rightarrow> memst res" where
  "dzmemory_check n s = dz_check_from n [0..<NUMBER_DZMEM] s"

subsection \<open>Splitting and joining\<close>

definition link_prev :: "nat option \<Rightarrow> nat \<Rightarrow> memst \<Rightarrow> memst" where
  "link_prev p d s = (case p of None \<Rightarrow> s | Some p \<Rightarrow> upd_dz p (\<lambda>x. x\<lparr>dz_next := Some d\<rparr>) s)"

definition link_next :: "nat option \<Rightarrow> nat \<Rightarrow> memst \<Rightarrow> memst" where
  "link_next q d s = (case q of None \<Rightarrow> s | Some q \<Rightarrow> upd_dz q (\<lambda>x. x\<lparr>dz_prev := Some d\<rparr>) s)"

text \<open>\<open>cd\<close> is the identifier of the current domain.  The result \<open>None\<close> is the return value -1.\<close>

definition dzmemory_split2 ::
  "nat \<Rightarrow> memenv \<Rightarrow> u4 \<Rightarrow> nat \<Rightarrow> jint \<Rightarrow> memst \<Rightarrow> ((nat \<times> nat) option \<times> memst) res" where
  "dzmemory_split2 n E cd d offset s =
     rassert (dz_valid (dzm s d) = 1) ''dzm->valid == 1''
      (rassert (dz_mem (dzm s d) \<noteq> 0) ''dzm->mem != NULL''
        (if sint offset < 0 \<or> offset > dz_size (dzm s d) then Ok (None, s)
         else rbind (createDZMemory n E offset (dz_mem (dzm s d)) s) (\<lambda>(d0, s1).
              rbind (createDZMemory n E (dz_size (dzm s1 d) - offset) (dz_mem (dzm s1 d) + offset) s1) (\<lambda>(d1, s2).
                let s3 = link_prev (dz_prev (dzm s2 d)) d0 s2;
                    s4 = upd_dz d0 (\<lambda>x. x\<lparr>dz_prev := dz_prev (dzm s3 d), prevOwner := prevOwner (dzm s3 d),
                                           dz_next := Some d1, nextOwner := cd\<rparr>) s3;
                    s5 = upd_dz d1 (\<lambda>x. x\<lparr>dz_prev := Some d0, prevOwner := cd,
                                           dz_next := dz_next (dzm s4 d), nextOwner := nextOwner (dzm s4 d)\<rparr>) s4;
                    s6 = link_next (dz_next (dzm s5 d)) d1 s5;
                    s7 = upd_dz d (\<lambda>x. x\<lparr>dz_prev := None, dz_next := None, dz_mem := 0, dz_valid := 0\<rparr>) s6
                in Ok (Some (d0, d1), s7)))))"

definition dzmemory_split3 ::
  "nat \<Rightarrow> memenv \<Rightarrow> u4 \<Rightarrow> nat \<Rightarrow> jint \<Rightarrow> jint \<Rightarrow> memst \<Rightarrow> ((nat \<times> nat \<times> nat) option \<times> memst) res" where
  "dzmemory_split3 n E cd d offset len s =
     rassert (dz_valid (dzm s d) = 1) ''dzm->valid == 1''
      (rassert (dz_mem (dzm s d) \<noteq> 0) ''dzm->mem != NULL''
        (if sint offset < 0 \<or> sint len < 0 \<or> offset + len > dz_size (dzm s d) then Ok (None, s)
         else rbind (createDZMemory n E offset (dz_mem (dzm s d)) s) (\<lambda>(d0, s1).
              rbind (createDZMemory n E len (dz_mem (dzm s1 d) + offset) s1) (\<lambda>(d1, s2).
              rbind (createDZMemory n E (dz_size (dzm s2 d) - len - offset)
                       (dz_mem (dzm s2 d) + len + offset) s2) (\<lambda>(d2, s3).
                let s4 = link_prev (dz_prev (dzm s3 d)) d0 s3;
                    s5 = upd_dz d0 (\<lambda>x. x\<lparr>dz_prev := dz_prev (dzm s4 d), dz_next := Some d1,
                                           nextOwner := cd, prevOwner := prevOwner (dzm s4 d)\<rparr>) s4;
                    s6 = upd_dz d1 (\<lambda>x. x\<lparr>dz_prev := Some d0, dz_next := Some d2,
                                           nextOwner := cd, prevOwner := cd\<rparr>) s5;
                    s7 = upd_dz d2 (\<lambda>x. x\<lparr>dz_prev := Some d1, dz_next := dz_next (dzm s6 d),
                                           nextOwner := nextOwner (dzm s6 d), prevOwner := cd\<rparr>) s6;
                    s8 = link_next (dz_next (dzm s7 d)) d2 s7;
                    s9 = upd_dz d (\<lambda>x. x\<lparr>dz_prev := None, dz_next := None, dz_valid := 0, dz_mem := 0\<rparr>) s8
                in Ok (Some (d0, d1, d2), s9))))))"

definition dzmemory_join :: "nat \<Rightarrow> memenv \<Rightarrow> nat \<Rightarrow> nat \<Rightarrow> memst \<Rightarrow> (nat \<times> memst) res" where
  "dzmemory_join n E d1 d2 s =
     rassert (dz_valid (dzm s d1) = 1) ''dzm1->valid == 1''
      (rassert (dz_valid (dzm s d2) = 1) ''dzm2->valid == 1''
       (rassert (dz_mem (dzm s d1) \<noteq> 0) ''dzm1->mem''
        (rassert (dz_mem (dzm s d2) \<noteq> 0) ''dzm2->mem''
         (rassert (dz_mem (dzm s d1) \<le> dz_mem (dzm s d2)) ''dzm1->mem <= dzm2->mem''
          (rassert (dz_next (dzm s d1) = Some d2) ''dzm1->next == dzm2''
           (rassert (dz_prev (dzm s d2) = Some d1) ''dzm2->prev == dzm1''
     (rbind (createDZMemory n E (dz_size (dzm s d1) + dz_size (dzm s d2)) (dz_mem (dzm s d1)) s) (\<lambda>(d, s1).
        let s2 = link_prev (dz_prev (dzm s1 d1)) d s1;
            s3 = upd_dz d (\<lambda>x. x\<lparr>dz_prev := dz_prev (dzm s2 d1), prevOwner := prevOwner (dzm s2 d1),
                                  dz_next := dz_next (dzm s2 d2), nextOwner := nextOwner (dzm s2 d2)\<rparr>) s2;
            s4 = link_next (dz_next (dzm s3 d2)) d s3;
            s5 = upd_dz d1 (\<lambda>x. x\<lparr>dz_prev := None, dz_valid := 0, dz_mem := 0\<rparr>) s4;
            s6 = upd_dz d2 (\<lambda>x. x\<lparr>dz_next := None, dz_valid := 0, dz_mem := 0\<rparr>) s5
        in Ok (d, s6)))))))))"

text \<open>The macros \<^verbatim>\<open>FREE_DZ\<close> and \<^verbatim>\<open>FREE_DZMEM\<close>.\<close>

definition FREE_DZ :: "nat \<Rightarrow> memst \<Rightarrow> memst" where
  "FREE_DZ d s = upd_dz d (\<lambda>x. x\<lparr>dz_valid := 0, dz_mem := 0\<rparr>) s"

subsection \<open>Memory objects\<close>

text \<open>A null \<^verbatim>\<open>self\<close> throws; a revoked object throws \<^verbatim>\<open>InvalidMemory\<close>.\<close>

definition CHECK_NULL_PTR :: "'a option \<Rightarrow> ('a \<Rightarrow> 'b res) \<Rightarrow> 'b res" where
  "CHECK_NULL_PTR p k = (case p of None \<Rightarrow> Fault (JavaThrow ''NullPointerException'') | Some x \<Rightarrow> k x)"

definition CHECKVALID :: "MemoryProxy \<Rightarrow> memst \<Rightarrow> 'b res \<Rightarrow> 'b res" where
  "CHECKVALID self s k =
     (if dz_valid (dzm s (mp_dz self)) = 0 then Fault (JavaThrow ''InvalidMemory'') else k)"

definition internalallocMemoryProxyInDomain :: "memenv \<Rightarrow> nat \<Rightarrow> memst \<Rightarrow> (MemoryProxy \<times> memst) res" where
  "internalallocMemoryProxyInDomain E d s =
     (case gc_alloc E s of
        None \<Rightarrow> Fault (JavaThrow ''RuntimeException'')
      | Some s' \<Rightarrow> Ok (\<lparr>mp_size = dz_size (dzm s' d), mp_mem = dz_mem (dzm s' d), mp_dz = d\<rparr>, s'))"

definition allocMemoryProxyInDomainDZM :: "memenv \<Rightarrow> nat \<Rightarrow> memst \<Rightarrow> (MemoryProxy \<times> memst) res" where
  "allocMemoryProxyInDomainDZM E d s = internalallocMemoryProxyInDomain E d s"

definition allocMemoryProxyInDomain ::
  "nat \<Rightarrow> memenv \<Rightarrow> jint \<Rightarrow> jint \<Rightarrow> memst \<Rightarrow> (MemoryProxy \<times> memst) res" where
  "allocMemoryProxyInDomain n E start sz s =
     rbind (createDZMemory n E sz start s) (\<lambda>(d, s'). internalallocMemoryProxyInDomain E d s')"

definition allocReadOnlyMemory ::
  "nat \<Rightarrow> memenv \<Rightarrow> jint \<Rightarrow> jint \<Rightarrow> memst \<Rightarrow> (MemoryProxy \<times> memst) res" where
  "allocReadOnlyMemory n E start sz s = allocMemoryProxyInDomain n E start sz s"

text \<open>\<^verbatim>\<open>createMemoryInstance\<close>: the block allocator is asked for the alignment slack too; the address is
  rounded up and the object cleared.  \<open>bytes\<close> is a positive \<^verbatim>\<open>jint\<close>.\<close>

definition align_up :: "u4 \<Rightarrow> jint \<Rightarrow> u4" where
  "align_up d bytes =
     (if sint bytes > 1 \<and> d mod bytes > 0 then d + bytes - d mod bytes else d)"

definition createMemoryInstance ::
  "nat \<Rightarrow> memenv \<Rightarrow> u4 \<Rightarrow> jint \<Rightarrow> jint \<Rightarrow> memst \<Rightarrow> (MemoryProxy \<times> memst) res" where
  "createMemoryInstance n E domain sz bytes s =
     rbind (jxmalloc n (sz + bytes - 1) (blocks s)) (\<lambda>(d0, b).
       let d = align_up d0 bytes;
           count = (memoryObjectBytes s)(domain := memoryObjectBytes s domain + (sz + bytes - 1))
       in allocMemoryProxyInDomain n E d sz
            (s\<lparr>blocks := b\<lparr>mem := memset0 d sz (mem b)\<rparr>, memoryObjectBytes := count\<rparr>))"

definition memoryManager_alloc :: "nat \<Rightarrow> memenv \<Rightarrow> u4 \<Rightarrow> jint \<Rightarrow> memst \<Rightarrow> (MemoryProxy \<times> memst) res" where
  "memoryManager_alloc n E cd sz s =
     rassert (cd \<noteq> 0) ''domain != domainZero'' (createMemoryInstance n E cd sz 1 s)"

definition memoryManager_allocAligned ::
  "nat \<Rightarrow> memenv \<Rightarrow> u4 \<Rightarrow> jint \<Rightarrow> jint \<Rightarrow> memst \<Rightarrow> (MemoryProxy option \<times> memst) res" where
  "memoryManager_allocAligned n E cd sz bytes s =
     rassert (cd \<noteq> 0) ''domain != domainZero''
       (if sint bytes \<le> 0 then Ok (None, s)
        else rbind (createMemoryInstance n E cd sz bytes s) (\<lambda>(p, s'). Ok (Some p, s')))"

definition memoryManager_allocDeviceMemory ::
  "nat \<Rightarrow> memenv \<Rightarrow> jint \<Rightarrow> jint \<Rightarrow> memst \<Rightarrow> (MemoryProxy \<times> memst) res" where
  "memoryManager_allocDeviceMemory n E start sz s = allocMemoryProxyInDomain n E start sz s"

definition memoryManager_getTotalMemory :: "memst \<Rightarrow> u4" where
  "memoryManager_getTotalMemory s = jxmalloc_getTotalMemory (blocks s)"

definition memoryManager_getTotalFreeMemory :: "memst \<Rightarrow> u4" where
  "memoryManager_getTotalFreeMemory s = jxmalloc_getTotalFreeMemory (blocks s)"

text \<open>\<^verbatim>\<open>memory_split2\<close> and \<^verbatim>\<open>memory_split3\<close> store the parts in the first elements of the array
  argument; \<open>arr_size\<close> is its length, \<open>None\<close> a null array.\<close>

definition memory_split2 ::
  "nat \<Rightarrow> memenv \<Rightarrow> u4 \<Rightarrow> MemoryProxy option \<Rightarrow> jint \<Rightarrow> u4 option \<Rightarrow> memst
     \<Rightarrow> (MemoryProxy list \<times> memst) res" where
  "memory_split2 n E cd self offset arr_size s =
     CHECK_NULL_PTR self (\<lambda>self. CHECKVALID self s
       (if arr_size = None \<or> sint (the arr_size) < 2 then Fault (JavaThrow ''ArrayIndexOutOfBounds'')
        else rbind (dzmemory_split2 n E cd (mp_dz self) offset s) (\<lambda>(r, s1). case r of
               None \<Rightarrow> Fault (JavaThrow ''MemoryIndexOutOfBounds'')
             | Some (d0, d1) \<Rightarrow>
                 rbind (allocMemoryProxyInDomainDZM E d0 s1) (\<lambda>(p0, s2).
                 rbind (allocMemoryProxyInDomainDZM E d1 s2) (\<lambda>(p1, s3).
                   Ok ([p0, p1], FREE_DZ (mp_dz self) s3))))))"

definition memory_split3 ::
  "nat \<Rightarrow> memenv \<Rightarrow> u4 \<Rightarrow> MemoryProxy option \<Rightarrow> jint \<Rightarrow> jint \<Rightarrow> u4 option \<Rightarrow> memst
     \<Rightarrow> (MemoryProxy list \<times> memst) res" where
  "memory_split3 n E cd self offset len arr_size s =
     CHECK_NULL_PTR self (\<lambda>self. CHECKVALID self s
       (if arr_size = None \<or> sint (the arr_size) < 3 then Fault (JavaThrow ''ArrayIndexOutOfBounds'')
        else rassert (mp_size self = dz_size (dzm s (mp_dz self))) ''self->size == self->dz->size''
          (rassert (mp_mem self = dz_mem (dzm s (mp_dz self))) ''self->mem == self->dz->mem''
            (rbind (dzmemory_split3 n E cd (mp_dz self) offset len s) (\<lambda>(r, s1). case r of
               None \<Rightarrow> Fault (JavaThrow ''MemoryIndexOutOfBounds'')
             | Some (d0, d1, d2) \<Rightarrow>
                 rbind (allocMemoryProxyInDomainDZM E d0 s1) (\<lambda>(p0, s2).
                 rbind (allocMemoryProxyInDomainDZM E d1 s2) (\<lambda>(p1, s3).
                 rbind (allocMemoryProxyInDomainDZM E d2 s3) (\<lambda>(p2, s4).
                   Ok ([p0, p1, p2], FREE_DZ (mp_dz self) s4)))))))))"

definition memory_joinPrevious ::
  "nat \<Rightarrow> memenv \<Rightarrow> u4 \<Rightarrow> MemoryProxy option \<Rightarrow> memst \<Rightarrow> (MemoryProxy \<times> memst) res" where
  "memory_joinPrevious n E cd self s =
     CHECK_NULL_PTR self (\<lambda>self. CHECKVALID self s
       (let t = mp_dz self
        in if prevOwner (dzm s t) \<noteq> cd then Fault (SysPanic ''join not allowed'')
           else case dz_prev (dzm s t) of
                  None \<Rightarrow> Fault (SysPanic ''join: NO prev'')
                | Some p \<Rightarrow>
                    rbind (dzmemory_join n E p t s) (\<lambda>(d, s1).
                      allocMemoryProxyInDomainDZM E d (FREE_DZ t (FREE_DZ p s1)))))"

text \<open>\<^verbatim>\<open>memory_joinNext\<close> returns null, without restoring the interrupt flag, when the next piece is
  not owned by the caller.\<close>

definition memory_joinNext ::
  "nat \<Rightarrow> memenv \<Rightarrow> u4 \<Rightarrow> MemoryProxy option \<Rightarrow> memst \<Rightarrow> (MemoryProxy option \<times> memst) res" where
  "memory_joinNext n E cd self s =
     CHECK_NULL_PTR self (\<lambda>self. CHECKVALID self s
       (let t = mp_dz self
        in if nextOwner (dzm s t) \<noteq> cd then Ok (None, s)
           else case dz_next (dzm s t) of
                  None \<Rightarrow> Fault (SysPanic ''join: NO next'')
                | Some q \<Rightarrow>
                    rbind (dzmemory_join n E t q s) (\<lambda>(d, s1).
                      rbind (allocMemoryProxyInDomainDZM E d (FREE_DZ t (FREE_DZ q s1)))
                        (\<lambda>(p, s2). Ok (Some p, s2)))))"

text \<open>\<^verbatim>\<open>memory_joinAll\<close>: the walk to the first piece the caller owns, then the walk that
  adds up the sizes and invalidates the pieces; its first result is the final \<^verbatim>\<open>dzmLast\<close>.\<close>

fun join_top :: "nat \<Rightarrow> u4 \<Rightarrow> memst \<Rightarrow> nat \<Rightarrow> nat res" where
  "join_top 0 cd s d = Fault OutOfFuel"
| "join_top (Suc n) cd s d =
     (case dz_prev (dzm s d) of
        None \<Rightarrow> Ok d
      | Some p \<Rightarrow>
          if prevOwner (dzm s d) = cd
          then rassert (dz_valid (dzm s p) = 1) ''dzmTop->prev->valid == 1''
                 (rassert (dz_mem (dzm s p) = dz_mem (dzm s d) - dz_size (dzm s p)) ''dzmTop->prev->mem''
                   (join_top n cd s p))
          else Ok d)"

fun join_collect :: "nat \<Rightarrow> u4 \<Rightarrow> nat \<Rightarrow> u4 \<Rightarrow> memst \<Rightarrow> (nat option \<times> u4 \<times> memst) res" where
  "join_collect 0 cd d sz s = Fault OutOfFuel"
| "join_collect (Suc n) cd d sz s =
     rassert (dz_valid (dzm s d) = 1) ''dzmLast->valid == 1''
       (rassert (case dz_next (dzm s d) of None \<Rightarrow> True
                 | Some q \<Rightarrow> dz_prev (dzm s q) = Some d \<and>
                             dz_mem (dzm s d) + dz_size (dzm s d) = dz_mem (dzm s q)) ''dzmLast->next''
         (let sz' = sz + dz_size (dzm s d);
              s' = FREE_DZ d s
          in if nextOwner (dzm s d) = cd
             then case dz_next (dzm s d) of
                    None \<Rightarrow> Ok (None, sz', s')
                  | Some q \<Rightarrow> join_collect n cd q sz' s'
             else Ok (Some d, sz', s')))"

definition memory_joinAll ::
  "nat \<Rightarrow> memenv \<Rightarrow> u4 \<Rightarrow> MemoryProxy option \<Rightarrow> memst \<Rightarrow> (MemoryProxy \<times> memst) res" where
  "memory_joinAll n E cd self s =
     CHECK_NULL_PTR self (\<lambda>self. CHECKVALID self s
       (rbind (join_top n cd s (mp_dz self)) (\<lambda>t.
          rbind (join_collect n cd t 0 s) (\<lambda>(l, sz, s1).
          rbind (createDZMemory n E sz (dz_mem (dzm s t)) s1) (\<lambda>(d, s2).
            rassert (dz_mem (dzm s2 d) \<noteq> 0) ''dzmNew->mem''
             (let s3 = link_prev (dz_prev (dzm s2 t)) d s2;
                  s4 = upd_dz d (\<lambda>x. x\<lparr>dz_prev := dz_prev (dzm s3 t), prevOwner := prevOwner (dzm s3 t)\<rparr>) s3;
                  s5 = upd_dz t (\<lambda>x. x\<lparr>dz_prev := None\<rparr>) s4;
                  s8 = (case l of
                          Some l \<Rightarrow>
                            let s6 = upd_dz d (\<lambda>x. x\<lparr>dz_next := dz_next (dzm s5 l),
                                                      nextOwner := nextOwner (dzm s5 l)\<rparr>) s5;
                                s7 = link_next (dz_next (dzm s6 l)) d s6
                            in upd_dz l (\<lambda>x. x\<lparr>dz_next := None\<rparr>) s7
                        | None \<Rightarrow> upd_dz d (\<lambda>x. x\<lparr>dz_next := None, nextOwner := cd\<rparr>) s5)
              in allocMemoryProxyInDomainDZM E d s8))))))"

text \<open>\<^verbatim>\<open>memory_getSubRange\<close> passes the proxies of the parts it drops to \<^verbatim>\<open>dzmemory_decRefcount\<close>, which
  expects a memory object: the field it reads as the proxy pointer is the size of the part.
  \<open>stray_dec\<close> is the decrement of the word at that address; when the word becomes 0 the code releases
  a chunk at that address, which the model leaves open as \<open>stray\<close>.\<close>

definition stray_dec :: "(u4 \<Rightarrow> memst \<Rightarrow> memst res) \<Rightarrow> nat \<Rightarrow> memst \<Rightarrow> memst res" where
  "stray_dec stray d s =
     (let a = dz_size (dzm s d);
          v = read32 (mem (blocks s)) a - 1;
          s' = s\<lparr>blocks := (blocks s)\<lparr>mem := write32 (mem (blocks s)) a v\<rparr>\<rparr>
      in if v = 0 then stray a s' else Ok s')"

definition memory_getSubRange ::
  "(u4 \<Rightarrow> memst \<Rightarrow> memst res) \<Rightarrow> nat \<Rightarrow> memenv \<Rightarrow> u4 \<Rightarrow> MemoryProxy option \<Rightarrow> jint \<Rightarrow> jint \<Rightarrow> memst
     \<Rightarrow> (MemoryProxy \<times> memst) res" where
  "memory_getSubRange stray n E cd self offset len s =
     CHECK_NULL_PTR self (\<lambda>self. CHECKVALID self s
       (rassert (mp_size self = dz_size (dzm s (mp_dz self))) ''self->size == self->dz->size''
         (rassert (mp_mem self = dz_mem (dzm s (mp_dz self))) ''self->mem == self->dz->mem''
           (rbind (if offset + len = dz_size (dzm s (mp_dz self))
                   then rbind (dzmemory_split2 n E cd (mp_dz self) offset s) (\<lambda>(r, s1). case r of
                          None \<Rightarrow> Fault (JavaThrow ''MemoryIndexOutOfBounds'')
                        | Some (d0, d1) \<Rightarrow> rbind (stray_dec stray d0 s1) (\<lambda>s2. Ok (d1, s2)))
                   else rbind (dzmemory_split3 n E cd (mp_dz self) offset len s) (\<lambda>(r, s1). case r of
                          None \<Rightarrow> Fault (JavaThrow ''MemoryIndexOutOfBounds'')
                        | Some (d0, d1, d2) \<Rightarrow> rbind (stray_dec stray d0 s1) (\<lambda>s2.
                            rbind (stray_dec stray d2 s2) (\<lambda>s3. Ok (d1, s3)))))
             (\<lambda>(d1, s4). allocMemoryProxyInDomainDZM E d1 (FREE_DZ (mp_dz self) s4))))))"

subsection \<open>Revocation\<close>

text \<open>\<^verbatim>\<open>memory_revoke\<close> copies the proxies of the caller's part of the chunk and invalidates the old
  ones.  The two loops return the final \<^verbatim>\<open>dzmCurOld\<close> and \<^verbatim>\<open>dzmCurNew\<close>.  The latter is not
  initialised before the first loop; its value then is the argument \<open>junk\<close>.\<close>

fun revoke_prev ::
  "nat \<Rightarrow> memenv \<Rightarrow> u4 \<Rightarrow> nat \<Rightarrow> nat \<Rightarrow> nat \<Rightarrow> memst \<Rightarrow> (nat option \<times> nat \<times> memst) res" where
  "revoke_prev 0 E cd old lst new s = Fault OutOfFuel"
| "revoke_prev (Suc n) E cd old lst new s =
     (if prevOwner (dzm s old) \<noteq> cd then Ok (Some old, new, s)
      else case dz_prev (dzm s old) of
        None \<Rightarrow> Ok (None, new, s)
      | Some p \<Rightarrow>
          rbind (createDZMemory n E (dz_size (dzm s p)) (dz_mem (dzm s p)) s) (\<lambda>(c, s1).
            let s2 = upd_dz c (\<lambda>x. x\<lparr>dz_next := Some lst, nextOwner := cd\<rparr>) s1;
                s3 = upd_dz lst (\<lambda>x. x\<lparr>dz_prev := Some c, prevOwner := cd\<rparr>) s2;
                s4 = upd_dz p (\<lambda>x. x\<lparr>dz_valid := 0, dz_mem := 0\<rparr>) s3
            in revoke_prev n E cd p c c s4))"

fun revoke_next ::
  "nat \<Rightarrow> memenv \<Rightarrow> u4 \<Rightarrow> nat \<Rightarrow> nat \<Rightarrow> nat \<Rightarrow> memst \<Rightarrow> (nat option \<times> nat \<times> memst) res" where
  "revoke_next 0 E cd old lst new s = Fault OutOfFuel"
| "revoke_next (Suc n) E cd old lst new s =
     (if nextOwner (dzm s old) \<noteq> cd then Ok (Some old, new, s)
      else case dz_next (dzm s old) of
        None \<Rightarrow> Ok (None, new, s)
      | Some q \<Rightarrow>
          rbind (createDZMemory n E (dz_size (dzm s q)) (dz_mem (dzm s q)) s) (\<lambda>(c, s1).
            rassert (c \<noteq> lst) ''dzmCurNew != dzmLastNew''
             (let s2 = upd_dz c (\<lambda>x. x\<lparr>dz_prev := Some lst, prevOwner := cd\<rparr>) s1;
                  s3 = upd_dz lst (\<lambda>x. x\<lparr>dz_next := Some c, nextOwner := cd\<rparr>) s2;
                  s4 = upd_dz q (\<lambda>x. x\<lparr>dz_valid := 0, dz_mem := 0\<rparr>) s3
              in revoke_next n E cd q c c s4)))"

definition memory_revoke ::
  "nat \<Rightarrow> nat \<Rightarrow> memenv \<Rightarrow> u4 \<Rightarrow> MemoryProxy \<Rightarrow> memst \<Rightarrow> (MemoryProxy \<times> memst) res" where
  "memory_revoke junk n E cd self s =
     CHECKVALID self s
       (rbind (createDZMemory n E (mp_size self) (mp_mem self) s) (\<lambda>(t, s1).
        rbind (revoke_prev n E cd (mp_dz self) t junk s1) (\<lambda>(old, new, s2).
        let s3 = (case old of
                    None \<Rightarrow> s2
                  | Some old \<Rightarrow> (case dz_prev (dzm s2 old) of
                        None \<Rightarrow> s2
                      | Some p \<Rightarrow> upd_dz new (\<lambda>x. x\<lparr>dz_prev := Some p, prevOwner := prevOwner (dzm s2 old)\<rparr>)
                                    (upd_dz p (\<lambda>x. x\<lparr>dz_next := Some new\<rparr>) s2)))
        in rbind (revoke_next n E cd (mp_dz self) t new s3) (\<lambda>(old, new, s4).
             let s5 = (case old of
                         None \<Rightarrow> s4
                       | Some old \<Rightarrow> (case dz_next (dzm s4 old) of
                             None \<Rightarrow> s4
                           | Some q \<Rightarrow> upd_dz new (\<lambda>x. x\<lparr>dz_next := Some q, nextOwner := nextOwner (dzm s4 old)\<rparr>)
                                         (upd_dz q (\<lambda>x. x\<lparr>dz_prev := Some new\<rparr>) s4)))
             in rbind (allocMemoryProxyInDomainDZM E t s5) (\<lambda>(p, s6).
                  let s7 = FREE_DZ (mp_dz self) s6
                  in rassert (dz_valid (dzm s7 (mp_dz self)) \<noteq> 1) ''!ISVALID(selfHandle)'' (Ok (p, s7)))))))"

definition memory_isValid :: "MemoryProxy \<Rightarrow> memst \<Rightarrow> bool" where
  "memory_isValid self s = (dz_valid (dzm s (mp_dz self)) = 1)"

text \<open>\<^verbatim>\<open>nonatomic_memorySetValid\<close>: invalidating an object invalidates the pieces of its chunk on both
  sides as far as the domain owns them.\<close>

fun invalidate_prevs :: "nat \<Rightarrow> u4 \<Rightarrow> nat \<Rightarrow> memst \<Rightarrow> memst res" where
  "invalidate_prevs 0 cd d s = Fault OutOfFuel"
| "invalidate_prevs (Suc n) cd d s =
     (if prevOwner (dzm s d) \<noteq> cd then Ok s
      else case dz_prev (dzm s d) of
             None \<Rightarrow> Ok s
           | Some p \<Rightarrow> invalidate_prevs n cd p (upd_dz p (\<lambda>x. x\<lparr>dz_valid := 0\<rparr>) s))"

fun invalidate_nexts :: "nat \<Rightarrow> u4 \<Rightarrow> nat \<Rightarrow> memst \<Rightarrow> memst res" where
  "invalidate_nexts 0 cd d s = Fault OutOfFuel"
| "invalidate_nexts (Suc n) cd d s =
     (if nextOwner (dzm s d) \<noteq> cd then Ok s
      else case dz_next (dzm s d) of
             None \<Rightarrow> Ok s
           | Some q \<Rightarrow> invalidate_nexts n cd q (upd_dz q (\<lambda>x. x\<lparr>dz_valid := 0\<rparr>) s))"

definition nonatomic_memorySetValid :: "nat \<Rightarrow> u4 \<Rightarrow> MemoryProxy \<Rightarrow> jint \<Rightarrow> memst \<Rightarrow> memst res" where
  "nonatomic_memorySetValid n cd h v s =
     (let d = mp_dz h
      in if v = 0
         then rbind (invalidate_prevs n cd d s) (\<lambda>s1.
              rbind (invalidate_nexts n cd d s1) (\<lambda>s2. Ok (upd_dz d (\<lambda>x. x\<lparr>dz_valid := 0\<rparr>) s2)))
         else Ok (upd_dz d (\<lambda>x. x\<lparr>dz_valid := v\<rparr>) s))"

definition nonatomic_memoryGetValid :: "MemoryProxy \<Rightarrow> memst \<Rightarrow> jint" where
  "nonatomic_memoryGetValid h s = dz_valid (dzm s (mp_dz h))"

subsection \<open>Copies of memory objects\<close>

text \<open>\<^verbatim>\<open>copy_memory\<close>: a memory object sent to another domain shares the proxy.  \<open>objsize\<close> is
  \<^verbatim>\<open>OBJSIZE_MEMORY\<close>; the reference table of the copying process is not part of this component.\<close>

definition copy_memory ::
  "memenv \<Rightarrow> u4 \<Rightarrow> bool \<Rightarrow> MemoryProxy option \<Rightarrow> u4 \<Rightarrow> memst \<Rightarrow> (MemoryProxy option \<times> u4 \<times> memst) res" where
  "copy_memory E objsize same obj quota s =
     (case obj of
        None \<Rightarrow> Ok (None, quota, s)
      | Some ob \<Rightarrow>
          if same then Ok (Some ob, quota, s)
          else if quota < objsize then Fault (SysPanic '''')
          else rbind (allocMemoryProxyInDomainDZM E (mp_dz ob) s) (\<lambda>(p, s1).
                 Ok (Some (p\<lparr>mp_dz := mp_dz ob\<rparr>), quota - objsize,
                     upd_dz (mp_dz ob) (\<lambda>x. x\<lparr>refcount := refcount x + 1\<rparr>) s1)))"

definition memory_copy_intradomain :: "MemoryProxy \<Rightarrow> memst \<Rightarrow> MemoryProxy res" where
  "memory_copy_intradomain src s =
     rassert (refcount (dzm s (mp_dz src)) > 0) ''dstObj->dz->refcount > 0''
       (Ok \<lparr>mp_size = mp_size src, mp_mem = mp_mem src, mp_dz = mp_dz src\<rparr>)"

subsection \<open>Chunks\<close>

text \<open>A chunk is the list of pieces that one allocation has been split into.  \<open>dseg f p xs q\<close>: the entries
  \<open>xs\<close> are doubly linked, with \<open>p\<close> before the first and \<open>q\<close> after the last.  A live chunk is
  valid and covers one contiguous range of memory; a dead chunk consists of entries that were
  replaced or revoked and own no memory.\<close>

fun dseg :: "(nat \<Rightarrow> DZMemoryProxy) \<Rightarrow> nat option \<Rightarrow> nat list \<Rightarrow> nat option \<Rightarrow> bool" where
  "dseg f p [] q = True"
| "dseg f p (x # xs) q =
     (dz_prev (f x) = p \<and> dz_next (f x) = (case xs of [] \<Rightarrow> q | y # _ \<Rightarrow> Some y) \<and> dseg f (Some x) xs q)"

fun contig :: "(nat \<Rightarrow> DZMemoryProxy) \<Rightarrow> nat \<Rightarrow> nat list \<Rightarrow> bool" where
  "contig f a [] = True"
| "contig f a (x # xs) =
     (unat (dz_mem (f x)) = a \<and> contig f (a + unat (dz_size (f x))) xs)"

definition total_size :: "(nat \<Rightarrow> DZMemoryProxy) \<Rightarrow> nat list \<Rightarrow> nat" where
  "total_size f xs = sum_list (map (\<lambda>x. unat (dz_size (f x))) xs)"

definition live_chunk :: "(nat \<Rightarrow> DZMemoryProxy) \<Rightarrow> nat list \<Rightarrow> bool" where
  "live_chunk f c \<longleftrightarrow> (\<exists>a. 0 < a \<and> a + total_size f c < 4294967296 \<and> contig f a c) \<and>
     (\<forall>x \<in> set c. dz_valid (f x) = 1)"

definition dead_chunk :: "(nat \<Rightarrow> DZMemoryProxy) \<Rightarrow> nat list \<Rightarrow> bool" where
  "dead_chunk f c \<longleftrightarrow> (\<forall>x \<in> set c. dz_valid (f x) = 0 \<and> dz_mem (f x) = 0)"

definition chunk_ok :: "(nat \<Rightarrow> DZMemoryProxy) \<Rightarrow> nat list \<Rightarrow> bool" where
  "chunk_ok f c \<longleftrightarrow> c \<noteq> [] \<and> distinct c \<and> dseg f None c None \<and> (live_chunk f c \<or> dead_chunk f c)"

definition free_ok :: "memst \<Rightarrow> nat list \<Rightarrow> bool" where
  "free_ok s fs \<longleftrightarrow> chain (\<lambda>x. dz_next (dzm s x)) (dzMemoryFreeList s) fs \<and> distinct fs \<and>
     (\<forall>x \<in> set fs. dz_valid (dzm s x) = 2 \<and> refcount (dzm s x) = 0 \<and> dz_mem (dzm s x) = 0 \<and>
        dz_prev (dzm s x) = None)"

definition dz_inv :: "memst \<Rightarrow> nat list \<Rightarrow> nat list set \<Rightarrow> bool" where
  "dz_inv s fs C \<longleftrightarrow> free_ok s fs \<and> (\<forall>c \<in> C. chunk_ok (dzm s) c \<and> set c \<inter> set fs = {}) \<and>
     (\<forall>c \<in> C. \<forall>c' \<in> C. c \<noteq> c' \<longrightarrow> set c \<inter> set c' = {}) \<and>
     set fs \<union> \<Union> (set ` C) = {..<NUMBER_DZMEM}"

lemma dseg_cong: "(\<And>x. x \<in> set xs \<Longrightarrow> f x = g x) \<Longrightarrow> dseg f p xs q = dseg g p xs q"
  by (induction xs arbitrary: p) auto

lemma contig_cong: "(\<And>x. x \<in> set xs \<Longrightarrow> f x = g x) \<Longrightarrow> contig f a xs = contig g a xs"
  by (induction xs arbitrary: a) auto

lemma total_size_cong: "(\<And>x. x \<in> set xs \<Longrightarrow> f x = g x) \<Longrightarrow> total_size f xs = total_size g xs"
  unfolding total_size_def by (metis (no_types, lifting) map_cong)

lemma total_size_simps [simp]:
  "total_size f [] = 0" "total_size f (x # xs) = unat (dz_size (f x)) + total_size f xs"
  "total_size f (xs @ ys) = total_size f xs + total_size f ys"
  by (simp_all add: total_size_def)

lemma contig_append [simp]: "contig f a (xs @ ys) \<longleftrightarrow> contig f a xs \<and> contig f (a + total_size f xs) ys"
  by (induction xs arbitrary: a) (auto simp: add.assoc)

lemma chunk_ok_cong:
  assumes "\<And>x. x \<in> set c \<Longrightarrow> f x = g x" shows "chunk_ok f c = chunk_ok g c"
  using dseg_cong [OF assms] contig_cong [OF assms] total_size_cong [OF assms] assms
  by (simp add: chunk_ok_def live_chunk_def dead_chunk_def)

lemma dseg_append:
  "dseg f p (xs @ ys) q \<longleftrightarrow>
     dseg f p xs (if ys = [] then q else Some (hd ys)) \<and> dseg f (if xs = [] then p else Some (last xs)) ys q"
proof (induction xs arbitrary: p)
  case (Cons x xs)
  then show ?case by (cases xs) (auto split: list.splits)
qed simp

text \<open>Every operation replaces some chunks and part of the free list by others over the same
  entries and leaves all other entries alone; this is the one argument all of them share.\<close>

lemma dz_inv_replace:
  assumes inv: "dz_inv s fs C" and old: "OLD \<subseteq> C"
    and frame: "\<And>x. x \<notin> set fs \<Longrightarrow> x \<notin> \<Union> (set ` OLD) \<Longrightarrow> dzm s' x = dzm s x"
    and free: "free_ok s' fs'" and new: "\<And>c. c \<in> NEW \<Longrightarrow> chunk_ok (dzm s') c"
    and dis: "\<And>c c'. c \<in> NEW \<Longrightarrow> c' \<in> NEW \<Longrightarrow> c \<noteq> c' \<Longrightarrow> set c \<inter> set c' = {}"
    and disf: "set fs' \<inter> \<Union> (set ` NEW) = {}"
    and cover: "set fs' \<union> \<Union> (set ` NEW) = set fs \<union> \<Union> (set ` OLD)"
  shows "dz_inv s' fs' (C - OLD \<union> NEW)"
proof -
  have I: "free_ok s fs" "\<And>c. c \<in> C \<Longrightarrow> chunk_ok (dzm s) c" "\<And>c. c \<in> C \<Longrightarrow> set c \<inter> set fs = {}"
    "\<And>c c'. c \<in> C \<Longrightarrow> c' \<in> C \<Longrightarrow> c \<noteq> c' \<Longrightarrow> set c \<inter> set c' = {}"
    "set fs \<union> \<Union> (set ` C) = {..<NUMBER_DZMEM}"
    using inv by (auto simp: dz_inv_def)
  have kept: "set c \<inter> (set fs \<union> \<Union> (set ` OLD)) = {}" if "c \<in> C" "c \<notin> OLD" for c
    using that I(3) [of c] I(4) [of c] old by blast
  have ok: "chunk_ok (dzm s') c" if "c \<in> C" "c \<notin> OLD" for c
  proof -
    have "dzm s' x = dzm s x" if "x \<in> set c" for x
      using frame [of x] kept [of c] that \<open>c \<in> C\<close> \<open>c \<notin> OLD\<close> by blast
    then show ?thesis using chunk_ok_cong [of c "dzm s'" "dzm s"] I(2) that by blast
  qed
  have keptf: "set c \<inter> (set fs' \<union> \<Union> (set ` NEW)) = {}" if "c \<in> C" "c \<notin> OLD" for c
    using kept [OF that] cover by simp
  have "\<forall>c \<in> C - OLD \<union> NEW. chunk_ok (dzm s') c \<and> set c \<inter> set fs' = {}"
    using ok new keptf disf by blast
  moreover have "\<forall>c \<in> C - OLD \<union> NEW. \<forall>c' \<in> C - OLD \<union> NEW. c \<noteq> c' \<longrightarrow> set c \<inter> set c' = {}"
  proof (intro ballI impI)
    fix c c' assume c: "c \<in> C - OLD \<union> NEW" and c': "c' \<in> C - OLD \<union> NEW" and ne: "c \<noteq> c'"
    consider "c \<in> NEW" "c' \<in> NEW" | "c \<in> NEW" "c' \<in> C - OLD" | "c \<in> C - OLD" "c' \<in> NEW"
      | "c \<in> C - OLD" "c' \<in> C - OLD" using c c' by blast
    then show "set c \<inter> set c' = {}"
    proof cases
      case 1 then show ?thesis using dis ne by blast
    next
      case 2 then show ?thesis using keptf [of c'] by blast
    next
      case 3 then show ?thesis using keptf [of c] by blast
    next
      case 4 then show ?thesis using I(4) ne by blast
    qed
  qed
  moreover have "set fs' \<union> \<Union> (set ` (C - OLD \<union> NEW)) = {..<NUMBER_DZMEM}"
  proof -
    have "set fs' \<union> \<Union> (set ` (C - OLD \<union> NEW)) = (set fs' \<union> \<Union> (set ` NEW)) \<union> \<Union> (set ` (C - OLD))"
      by blast
    also have "\<dots> = set fs \<union> \<Union> (set ` OLD) \<union> \<Union> (set ` (C - OLD))" using cover by simp
    also have "\<dots> = set fs \<union> \<Union> (set ` C)" using old by blast
    finally show ?thesis using I(5) by simp
  qed
  ultimately show ?thesis using free by (simp add: dz_inv_def)
qed

subsection \<open>Replacing pieces of a chunk\<close>

lemma dseg_set_last:
  "dseg f p xs q \<Longrightarrow> distinct xs \<Longrightarrow> (\<And>x. x \<in> set xs \<Longrightarrow> x \<noteq> last xs \<Longrightarrow> f' x = f x) \<Longrightarrow>
   (xs \<noteq> [] \<Longrightarrow> f' (last xs) = (f (last xs))\<lparr>dz_next := q'\<rparr>) \<Longrightarrow> dseg f' p xs q'"
proof (induction xs arbitrary: p)
  case (Cons x xs)
  show ?case
  proof (cases xs)
    case Nil
    then show ?thesis using Cons.prems by simp
  next
    case (Cons y ys)
    then have "x \<noteq> last xs" using Cons.prems(2) by (metis distinct.simps(2) last_in_set list.distinct(1))
    then have "f' x = f x" using Cons.prems(3) [of x] Cons by simp
    moreover have "dseg f' (Some x) xs q'"
      using Cons.prems Cons by (intro Cons.IH) auto
    ultimately show ?thesis using Cons.prems(1) Cons by simp
  qed
qed simp

text \<open>\<open>relinked f f' xs ys a b\<close>: \<open>f'\<close> differs from \<open>f\<close> on the neighbours only in the two links that
  point at the replaced pieces.\<close>

definition relinked :: "(nat \<Rightarrow> DZMemoryProxy) \<Rightarrow> (nat \<Rightarrow> DZMemoryProxy) \<Rightarrow> nat list \<Rightarrow> nat list \<Rightarrow> nat \<Rightarrow> nat \<Rightarrow> bool" where
  "relinked f f' xs ys a b \<longleftrightarrow>
     (\<forall>x \<in> set xs. f' x = (if x = last xs then (f x)\<lparr>dz_next := Some a\<rparr> else f x)) \<and>
     (\<forall>y \<in> set ys. f' y = (if y = hd ys then (f y)\<lparr>dz_prev := Some b\<rparr> else f y))"

abbreviation before :: "nat list \<Rightarrow> nat option" where
  "before xs \<equiv> (if xs = [] then None else Some (last xs))"

abbreviation after :: "nat list \<Rightarrow> nat option" where
  "after ys \<equiv> (if ys = [] then None else Some (hd ys))"

lemma dseg_splice:
  assumes seg: "dseg f None (xs @ ms @ ys) None" and dist: "distinct (xs @ ms @ ys)"
    and rel: "relinked f f' xs ys (hd ns) (last ns)" and ns: "ns \<noteq> []"
    and new: "dseg f' (before xs) ns (after ys)" and ms: "ms \<noteq> []"
  shows "dseg f' None (xs @ ns @ ys) None"
proof -
  have s: "dseg f None xs (Some (hd ms))" "dseg f (Some (last ms)) ys None"
    using seg ms by (auto simp: dseg_append split: if_splits)
  have "dseg f' None xs (Some (hd ns))"
    using rel dist by (intro dseg_set_last [OF s(1)]) (auto simp: relinked_def)
  moreover have "dseg f' (Some (last ns)) ys None"
  proof (cases ys)
    case (Cons z zs)
    then have "dseg f (Some z) zs None" using s(2) by simp
    then have "dseg f' (Some z) zs None"
      using rel dist Cons by (subst dseg_cong [of zs f' f]) (auto simp: relinked_def)
    then show ?thesis using rel Cons s(2) by (auto simp: relinked_def split: list.splits)
  qed simp
  ultimately show ?thesis using new ns by (simp add: dseg_append)
qed

lemma relinked_fields:
  assumes "relinked f f' xs ys a b" "x \<in> set xs \<union> set ys"
  shows "dz_mem (f' x) = dz_mem (f x)" "dz_size (f' x) = dz_size (f x)" "dz_valid (f' x) = dz_valid (f x)"
    "refcount (f' x) = refcount (f x)"
  using assms by (auto simp: relinked_def)

lemma contig_fields:
  "(\<And>x. x \<in> set xs \<Longrightarrow> dz_mem (f' x) = dz_mem (f x) \<and> dz_size (f' x) = dz_size (f x)) \<Longrightarrow>
   contig f' a xs = contig f a xs"
  by (induction xs arbitrary: a) auto

lemma total_size_fields:
  "(\<And>x. x \<in> set xs \<Longrightarrow> dz_size (f' x) = dz_size (f x)) \<Longrightarrow> total_size f' xs = total_size f xs"
  by (induction xs) auto

lemma live_splice:
  assumes live: "live_chunk f (xs @ ms @ ys)" and rel: "relinked f f' xs ys u v"
    and tot: "total_size f' ns = total_size f ms" and valid: "\<And>x. x \<in> set ns \<Longrightarrow> dz_valid (f' x) = 1"
    and con: "\<And>a. contig f a ms \<Longrightarrow> a + total_size f ms < 4294967296 \<Longrightarrow> contig f' a ns"
  shows "live_chunk f' (xs @ ns @ ys)"
proof -
  obtain a where a: "0 < a" "a + total_size f (xs @ ms @ ys) < 4294967296" "contig f a (xs @ ms @ ys)"
    and val: "\<forall>x \<in> set (xs @ ms @ ys). dz_valid (f x) = 1"
    using live by (auto simp: live_chunk_def)
  have fx: "dz_mem (f' x) = dz_mem (f x) \<and> dz_size (f' x) = dz_size (f x) \<and> dz_valid (f' x) = dz_valid (f x)"
    if "x \<in> set xs \<union> set ys" for x using relinked_fields [OF rel that] by simp
  have t: "total_size f' xs = total_size f xs" "total_size f' ys = total_size f ys"
    using fx by (auto intro!: total_size_fields)
  have c: "contig f' b xs = contig f b xs" "contig f' b ys = contig f b ys" for b
    using fx by (auto intro!: contig_fields)
  have "contig f' a (xs @ ns @ ys)"
    using a con [of "a + total_size f xs"] by (simp add: c t tot)
  moreover have "a + total_size f' (xs @ ns @ ys) < 4294967296" using a t tot by simp
  moreover have "\<forall>x \<in> set (xs @ ns @ ys). dz_valid (f' x) = 1"
    using val fx valid by (metis Un_iff set_append)
  ultimately show ?thesis using a(1) unfolding live_chunk_def by blast
qed

lemma chunk_splice:
  assumes "chunk_ok f (xs @ ms @ ys)" "live_chunk f (xs @ ms @ ys)" "ms \<noteq> []" "ns \<noteq> []"
    and "relinked f f' xs ys (hd ns) (last ns)" "dseg f' (before xs) ns (after ys)"
    and "distinct ns" "set ns \<inter> (set xs \<union> set ys) = {}"
    and "total_size f' ns = total_size f ms" "\<forall>x \<in> set ns. dz_valid (f' x) = 1"
    and "\<forall>a. contig f a ms \<longrightarrow> a + total_size f ms < 4294967296 \<longrightarrow> contig f' a ns"
  shows "chunk_ok f' (xs @ ns @ ys)" "live_chunk f' (xs @ ns @ ys)"
proof -
  show live: "live_chunk f' (xs @ ns @ ys)" using assms(10,11) by (intro live_splice [OF assms(2,5,9)]) auto
  have "dseg f' None (xs @ ns @ ys) None"
    using assms(1) by (intro dseg_splice [OF _ _ assms(5,4,6,3)]) (simp_all add: chunk_ok_def)
  moreover have "distinct (xs @ ns @ ys)" using assms(1,7,8) by (auto simp: chunk_ok_def)
  ultimately show "chunk_ok f' (xs @ ns @ ys)" using assms(4) live by (simp add: chunk_ok_def)
qed

lemma chunk_links:
  assumes "chunk_ok f (xs @ d # ys)"
  shows "dz_prev (f d) = before xs" "dz_next (f d) = after ys"
  using assms by (auto simp: chunk_ok_def dseg_append split: list.splits)

subsection \<open>Taking entries from the free list\<close>

definition fresh_dz :: "u4 \<Rightarrow> u4 \<Rightarrow> DZMemoryProxy" where
  "fresh_dz sz m = \<lparr>refcount = 1, dz_valid = 1, dz_mem = m, dz_size = sz, deviceMem = False,
     dz_prev = None, dz_next = None, prevOwner = 0, nextOwner = 0\<rparr>"

lemma fresh_dz_simps [simp]:
  "refcount (fresh_dz sz m) = 1" "dz_valid (fresh_dz sz m) = 1" "dz_mem (fresh_dz sz m) = m"
  "dz_size (fresh_dz sz m) = sz" "dz_prev (fresh_dz sz m) = None" "dz_next (fresh_dz sz m) = None"
  by (simp_all add: fresh_dz_def)

lemma createDZMemory_eq:
  assumes "free_ok s (d # fs)"
  shows "createDZMemory (Suc n) E sz m s =
     Ok (d, s\<lparr>dzm := (dzm s)(d := fresh_dz sz m), dzMemoryFreeList := dz_next (dzm s d)\<rparr>)"
  using assms
  by (cases "dzm s d") (simp add: free_ok_def createDZMemory_def dzmemory_alloc_def upd_dz_def fresh_dz_def)

lemma free_ok_frame:
  assumes "free_ok s fs" and "\<And>x. x \<in> set fs \<Longrightarrow> dzm s' x = dzm s x" and "dzMemoryFreeList s' = dzMemoryFreeList s"
  shows "free_ok s' fs"
  using assms chain_cong [of fs "\<lambda>x. dz_next (dzm s x)" "\<lambda>x. dz_next (dzm s' x)"]
  by (simp add: free_ok_def)

lemma free_ok_tl:
  assumes "free_ok s (d # fs)" and "\<And>x. x \<in> set fs \<Longrightarrow> dzm s' x = dzm s x"
    and "dzMemoryFreeList s' = dz_next (dzm s d)"
  shows "free_ok s' fs"
  using assms chain_cong [of fs "\<lambda>x. dz_next (dzm s x)" "\<lambda>x. dz_next (dzm s' x)"]
  by (simp add: free_ok_def)

lemma free_ok_take:
  assumes "free_ok s (d # fs)"
  shows "free_ok (s\<lparr>dzm := (dzm s)(d := v), dzMemoryFreeList := dz_next (dzm s d)\<rparr>) fs"
  by (rule free_ok_tl [OF assms]) (use assms in \<open>auto simp: free_ok_def\<close>)

subsection \<open>Splitting\<close>

lemma dz_upd_simps [simp]:
  "dzm (upd_dz d g s) = (dzm s)(d := g (dzm s d))"
  "dzMemoryFreeList (upd_dz d g s) = dzMemoryFreeList s"
  "blocks (upd_dz d g s) = blocks s" "dzInvalid (upd_dz d g s) = dzInvalid s"
  by (simp_all add: upd_dz_def)

lemma link_simps [simp]:
  "dzm (link_prev p d s) x = (if p = Some x then (dzm s x)\<lparr>dz_next := Some d\<rparr> else dzm s x)"
  "dzm (link_next p d s) x = (if p = Some x then (dzm s x)\<lparr>dz_prev := Some d\<rparr> else dzm s x)"
  "dzMemoryFreeList (link_prev p d s) = dzMemoryFreeList s" "dzMemoryFreeList (link_next p d s) = dzMemoryFreeList s"
  "blocks (link_prev p d s) = blocks s" "blocks (link_next p d s) = blocks s"
  "dzInvalid (link_prev p d s) = dzInvalid s" "dzInvalid (link_next p d s) = dzInvalid s"
  by (simp_all add: link_prev_def link_next_def split: option.splits)

text \<open>\<open>only_pool s s'\<close>: nothing but entries and the free list changed.\<close>

definition only_pool :: "memst \<Rightarrow> memst \<Rightarrow> bool" where
  "only_pool s s' \<longleftrightarrow> blocks s' = blocks s \<and> dzInvalid s' = dzInvalid s"

lemma free_ok_hd: "free_ok s fs \<Longrightarrow> dzMemoryFreeList s = after fs"
  unfolding free_ok_def by (blast dest: chain_hd)

lemma chain_suffix: "chain nx p (gs @ fs) \<Longrightarrow> chain nx (if fs = [] then None else Some (hd fs)) fs"
proof (induction gs arbitrary: p)
  case Nil
  then show ?case using chain_hd [of nx p fs] by simp
qed simp

lemma free_ok_suffix:
  assumes "free_ok s (gs @ fs)" and eq: "\<And>x. x \<in> set fs \<Longrightarrow> dzm s' x = dzm s x" and "dzMemoryFreeList s' = after fs"
  shows "free_ok s' fs"
proof -
  have "chain (\<lambda>x. dz_next (dzm s x)) (after fs) fs"
    using assms(1) unfolding free_ok_def by (blast dest: chain_suffix)
  then have "chain (\<lambda>x. dz_next (dzm s' x)) (after fs) fs"
    using chain_cong [of fs "\<lambda>x. dz_next (dzm s x)" "\<lambda>x. dz_next (dzm s' x)"] eq by simp
  then show ?thesis using assms by (simp add: free_ok_def)
qed

lemma neighbours: "before xs = Some x \<Longrightarrow> x \<in> set xs" "after ys = Some x \<Longrightarrow> x \<in> set ys"
  by (cases xs rule: rev_cases, simp_all) (cases ys, simp_all)

lemma relinkedI:
  assumes "distinct (xs @ ms @ ys)"
    and R: "\<And>x. x \<in> set xs \<union> set ys \<Longrightarrow> f' x = (if xs \<noteq> [] \<and> x = last xs then (f x)\<lparr>dz_next := Some a\<rparr>
       else if ys \<noteq> [] \<and> x = hd ys then (f x)\<lparr>dz_prev := Some b\<rparr> else f x)"
  shows "relinked f f' xs ys a b"
  unfolding relinked_def
proof (intro conjI ballI)
  fix x assume x: "x \<in> set xs"
  then have "x \<notin> set ys" using assms(1) by auto
  then have "\<not> (ys \<noteq> [] \<and> x = hd ys)" by auto
  then show "f' x = (if x = last xs then (f x)\<lparr>dz_next := Some a\<rparr> else f x)" using R [of x] x by auto
next
  fix y assume y: "y \<in> set ys"
  then have "y \<notin> set xs" using assms(1) by auto
  then have "\<not> (xs \<noteq> [] \<and> y = last xs)" by auto
  then show "f' y = (if y = hd ys then (f y)\<lparr>dz_prev := Some b\<rparr> else f y)" using R [of y] y by auto
qed

definition retired :: "DZMemoryProxy \<Rightarrow> DZMemoryProxy" where
  "retired x = x\<lparr>dz_prev := None, dz_next := None, dz_mem := 0, dz_valid := 0\<rparr>"

lemma split2_pointwise:
  assumes free: "free_ok s (d0 # d1 # fs)" and chunk: "chunk_ok (dzm s) (xs @ d # ys)"
    and sep: "set (xs @ d # ys) \<inter> set (d0 # d1 # fs) = {}"
    and "dz_valid (dzm s d) = 1" "dz_mem (dzm s d) \<noteq> 0"
    and off: "0 \<le> sint offset" "offset \<le> dz_size (dzm s d)"
  shows "\<exists>s'. dzmemory_split2 (Suc n) E cd d offset s = Ok (Some (d0, d1), s') \<and> only_pool s s' \<and>
     dzMemoryFreeList s' = after fs \<and>
     dzm s' d = retired (dzm s d) \<and>
     dzm s' d0 = (fresh_dz offset (dz_mem (dzm s d)))\<lparr>dz_prev := before xs, dz_next := Some d1,
        prevOwner := prevOwner (dzm s d), nextOwner := cd\<rparr> \<and>
     dzm s' d1 = (fresh_dz (dz_size (dzm s d) - offset) (dz_mem (dzm s d) + offset))
        \<lparr>dz_prev := Some d0, dz_next := after ys, prevOwner := cd, nextOwner := nextOwner (dzm s d)\<rparr> \<and>
     relinked (dzm s) (dzm s') xs ys d0 d1 \<and>
     (\<forall>x. x \<notin> set (xs @ d # ys) \<longrightarrow> x \<notin> {d0, d1} \<longrightarrow> dzm s' x = dzm s x)"
proof -
  have ne: "d0 \<noteq> d" "d1 \<noteq> d" "d0 \<noteq> d1" and dist: "distinct (xs @ d # ys)"
    using sep free chunk by (auto simp: free_ok_def chunk_ok_def)
  note L = chunk_links [OF chunk]
  define s1 where "s1 = s\<lparr>dzm := (dzm s)(d0 := fresh_dz offset (dz_mem (dzm s d))), dzMemoryFreeList := dz_next (dzm s d0)\<rparr>"
  have c1: "createDZMemory (Suc n) E offset (dz_mem (dzm s d)) s = Ok (d0, s1)"
    unfolding s1_def by (rule createDZMemory_eq [OF free])
  have f1: "free_ok s1 (d1 # fs)" unfolding s1_def by (rule free_ok_take [OF free])
  have d1: "dzm s1 d = dzm s d" using ne by (simp add: s1_def)
  define s2 where "s2 = s1\<lparr>dzm := (dzm s1)(d1 := fresh_dz (dz_size (dzm s d) - offset) (dz_mem (dzm s d) + offset)),
     dzMemoryFreeList := dz_next (dzm s1 d1)\<rparr>"
  have c2: "createDZMemory (Suc n) E (dz_size (dzm s1 d) - offset) (dz_mem (dzm s1 d) + offset) s1 = Ok (d1, s2)"
    unfolding s2_def d1 by (rule createDZMemory_eq [OF f1])
  have f2: "free_ok s2 fs" unfolding s2_def by (rule free_ok_take [OF f1])
  have D2: "dzm s2 = (dzm s)(d0 := fresh_dz offset (dz_mem (dzm s d)),
      d1 := fresh_dz (dz_size (dzm s d) - offset) (dz_mem (dzm s d) + offset))"
    by (simp add: s2_def s1_def)
  have P2: "only_pool s s2" by (simp add: s2_def s1_def only_pool_def)
  have F2: "dzMemoryFreeList s2 = after fs" by (rule free_ok_hd [OF f2])
  define p where "p = before xs"
  define q where "q = after ys"
  have pin: "p = Some x \<Longrightarrow> x \<in> set xs" and qin: "q = Some x \<Longrightarrow> x \<in> set ys" for x
    using neighbours unfolding p_def q_def by blast+
  have xin: "x \<notin> set ys \<and> x \<noteq> d \<and> x \<noteq> d0 \<and> x \<noteq> d1" if "x \<in> set xs" for x using that dist sep by auto
  have yin: "x \<noteq> d \<and> x \<noteq> d0 \<and> x \<noteq> d1" if "x \<in> set ys" for x using that dist sep by auto
  have pq: "p \<noteq> Some d" "p \<noteq> Some d0" "p \<noteq> Some d1" "q \<noteq> Some d" "q \<noteq> Some d0" "q \<noteq> Some d1"
    "p = Some x \<Longrightarrow> q \<noteq> Some x" for x
    using pin qin xin yin by blast+
  note L = L [folded p_def q_def]
  define s3 where "s3 = link_prev (dz_prev (dzm s2 d)) d0 s2"
  define s4 where "s4 = upd_dz d0 (\<lambda>x. x\<lparr>dz_prev := dz_prev (dzm s3 d), prevOwner := prevOwner (dzm s3 d),
     dz_next := Some d1, nextOwner := cd\<rparr>) s3"
  define s5 where "s5 = upd_dz d1 (\<lambda>x. x\<lparr>dz_prev := Some d0, prevOwner := cd,
     dz_next := dz_next (dzm s4 d), nextOwner := nextOwner (dzm s4 d)\<rparr>) s4"
  define s6 where "s6 = link_next (dz_next (dzm s5 d)) d1 s5"
  define s7 where "s7 = upd_dz d (\<lambda>x. x\<lparr>dz_prev := None, dz_next := None, dz_mem := 0, dz_valid := 0\<rparr>) s6"
  note S = s3_def s4_def s5_def s6_def s7_def
  have E: "dzmemory_split2 (Suc n) E cd d offset s = Ok (Some (d0, d1), s7)"
    unfolding dzmemory_split2_def using assms(4,5) off c1 c2 by (simp add: not_less Let_def S)
  have D7: "dzm s7 d = retired (dzm s d)"
     "dzm s7 d0 = (fresh_dz offset (dz_mem (dzm s d)))\<lparr>dz_prev := p, dz_next := Some d1,
        prevOwner := prevOwner (dzm s d), nextOwner := cd\<rparr>"
     "dzm s7 d1 = (fresh_dz (dz_size (dzm s d) - offset) (dz_mem (dzm s d) + offset))
        \<lparr>dz_prev := Some d0, dz_next := q, prevOwner := cd, nextOwner := nextOwner (dzm s d)\<rparr>"
    using pq ne L by (simp_all add: S D2 retired_def fresh_dz_def)
  have R7: "dzm s7 x = (if p = Some x then (dzm s x)\<lparr>dz_next := Some d0\<rparr>
       else if q = Some x then (dzm s x)\<lparr>dz_prev := Some d1\<rparr> else dzm s x)"
    if "x \<noteq> d" "x \<noteq> d0" "x \<noteq> d1" for x
    using that pq ne L by (auto simp: S D2)
  have "relinked (dzm s) (dzm s7) xs ys d0 d1"
    by (rule relinkedI [where ms = "[d]"]) (use dist in simp, subst R7, use xin yin p_def q_def in auto)
  moreover have "only_pool s s7" "dzMemoryFreeList s7 = after fs"
    using P2 F2 by (simp_all add: S only_pool_def)
  moreover have "dzm s7 x = dzm s x" if "x \<notin> set (xs @ d # ys)" "x \<notin> {d0, d1}" for x
    using R7 [of x] that pin qin by auto
  ultimately show ?thesis using E D7 unfolding p_def q_def by blast
qed

lemma split_bounds:
  fixes offset sz m :: u4
  assumes "offset \<le> sz" "unat m + unat sz < 4294967296"
  shows "unat (sz - offset) = unat sz - unat offset" "unat (m + offset) = unat m + unat offset"
    "unat offset \<le> unat sz"
  using assms by (simp_all add: unat_sub unat_add_lem [symmetric] unat_word_ariths word_le_nat_alt)

lemma retired_simps [simp]:
  "dz_prev (retired x) = None" "dz_next (retired x) = None" "dz_mem (retired x) = 0" "dz_valid (retired x) = 0"
  "refcount (retired x) = refcount x"
  by (simp_all add: retired_def)

lemma dead_chunkI:
  "c \<noteq> [] \<Longrightarrow> distinct c \<Longrightarrow> dseg f None c None \<Longrightarrow> (\<And>x. x \<in> set c \<Longrightarrow> dz_valid (f x) = 0 \<and> dz_mem (f x) = 0) \<Longrightarrow>
   chunk_ok f c"
  by (simp add: chunk_ok_def dead_chunk_def)

lemma dz_inv_chunk:
  assumes "dz_inv s fs C" "c \<in> C"
  shows "chunk_ok (dzm s) c" "set c \<inter> set fs = {}" "free_ok s fs"
  using assms by (auto simp: dz_inv_def)

lemma live_piece:
  assumes "live_chunk f (xs @ d # ys)"
  shows "dz_valid (f d) = 1" "dz_mem (f d) \<noteq> 0" "unat (dz_mem (f d)) + unat (dz_size (f d)) < 4294967296"
  using assms by (auto simp: live_chunk_def)

lemma split2_inv:
  assumes inv: "dz_inv s (d0 # d1 # fs) C" and c: "xs @ d # ys \<in> C" and live: "live_chunk (dzm s) (xs @ d # ys)"
    and off: "0 \<le> sint offset" "offset \<le> dz_size (dzm s d)"
  shows "\<exists>s'. dzmemory_split2 (Suc n) E cd d offset s = Ok (Some (d0, d1), s') \<and> only_pool s s' \<and>
     dz_inv s' fs (C - {xs @ d # ys} \<union> {xs @ [d0, d1] @ ys, [d]}) \<and> live_chunk (dzm s') (xs @ [d0, d1] @ ys) \<and>
     dz_size (dzm s' d0) = offset \<and> dz_mem (dzm s' d0) = dz_mem (dzm s d) \<and>
     dz_size (dzm s' d1) = dz_size (dzm s d) - offset \<and> dz_mem (dzm s' d1) = dz_mem (dzm s d) + offset \<and>
     nextOwner (dzm s' d0) = cd \<and> prevOwner (dzm s' d1) = cd \<and> dzm s' d = retired (dzm s d)"
proof -
  note ch = dz_inv_chunk [OF inv c]
  note lp = live_piece [OF live]
  note b = split_bounds [OF off(2) lp(3)]
  obtain s' where s': "dzmemory_split2 (Suc n) E cd d offset s = Ok (Some (d0, d1), s')" "only_pool s s'"
    and fl: "dzMemoryFreeList s' = after fs" and D: "dzm s' d = retired (dzm s d)"
    and D0: "dzm s' d0 = (fresh_dz offset (dz_mem (dzm s d)))\<lparr>dz_prev := before xs, dz_next := Some d1,
        prevOwner := prevOwner (dzm s d), nextOwner := cd\<rparr>"
    and D1: "dzm s' d1 = (fresh_dz (dz_size (dzm s d) - offset) (dz_mem (dzm s d) + offset))
        \<lparr>dz_prev := Some d0, dz_next := after ys, prevOwner := cd, nextOwner := nextOwner (dzm s d)\<rparr>"
    and R: "relinked (dzm s) (dzm s') xs ys d0 d1"
    and fr: "\<And>x. x \<notin> set (xs @ d # ys) \<Longrightarrow> x \<notin> {d0, d1} \<Longrightarrow> dzm s' x = dzm s x"
    using split2_pointwise [OF ch(3,1,2) lp(1,2) off, of n E cd] by blast
  have dist: "d0 \<noteq> d1" "d0 \<notin> set fs" "d1 \<notin> set fs" using ch(3) by (auto simp: free_ok_def)
  have sep: "d0 \<notin> set (xs @ d # ys)" "d1 \<notin> set (xs @ d # ys)" "set fs \<inter> set (xs @ d # ys) = {}"
    using ch(2) by auto
  have frf: "dzm s' x = dzm s x" if "x \<in> set fs" for x using that dist sep(3) by (intro fr) auto
  have free': "free_ok s' fs"
    by (rule free_ok_suffix [of s "[d0, d1]"]) (use frf fl ch(3) in simp_all)
  have sp: "chunk_ok (dzm s') (xs @ [d0, d1] @ ys)" "live_chunk (dzm s') (xs @ [d0, d1] @ ys)"
    using chunk_splice [of "dzm s" xs "[d]" ys "[d0, d1]" "dzm s'"] ch(1) live R D0 D1 dist sep b by auto
  have dead: "chunk_ok (dzm s') [d]" by (rule dead_chunkI) (use D in auto)
  have dc: "distinct (xs @ d # ys)" using ch(1) by (simp add: chunk_ok_def)
  have "dz_inv s' fs (C - {xs @ d # ys} \<union> {xs @ [d0, d1] @ ys, [d]})"
    by (rule dz_inv_replace [OF inv _ _ free'])
      (use c fr sp dead dist sep dc in auto)
  then show ?thesis using s' sp D0 D1 D by auto
qed

lemma neighbour_facts:
  assumes "distinct (xs @ ms @ ys)" "set (xs @ ms @ ys) \<inter> N = {}" "p = before xs" "q = after ys"
  shows "p = Some x \<Longrightarrow> x \<in> set xs \<and> x \<notin> set ys \<and> x \<notin> set ms \<and> x \<notin> N"
    "q = Some x \<Longrightarrow> x \<in> set ys \<and> x \<notin> set xs \<and> x \<notin> set ms \<and> x \<notin> N"
proof -
  assume "p = Some x"
  then have "x \<in> set xs" using neighbours(1) [of xs x] assms(3) by argo
  then show "x \<in> set xs \<and> x \<notin> set ys \<and> x \<notin> set ms \<and> x \<notin> N" using assms(1,2) by auto
next
  assume "q = Some x"
  then have "x \<in> set ys" using neighbours(2) [of ys x] assms(4) by argo
  then show "x \<in> set ys \<and> x \<notin> set xs \<and> x \<notin> set ms \<and> x \<notin> N" using assms(1,2) by auto
qed

lemma split3_pointwise:
  assumes free: "free_ok s (d0 # d1 # d2 # fs)" and chunk: "chunk_ok (dzm s) (xs @ d # ys)"
    and sep: "set (xs @ d # ys) \<inter> set (d0 # d1 # d2 # fs) = {}"
    and "dz_valid (dzm s d) = 1" "dz_mem (dzm s d) \<noteq> 0"
    and off: "0 \<le> sint offset" "0 \<le> sint len" "offset + len \<le> dz_size (dzm s d)"
  shows "\<exists>s'. dzmemory_split3 (Suc n) E cd d offset len s = Ok (Some (d0, d1, d2), s') \<and> only_pool s s' \<and>
     dzMemoryFreeList s' = after fs \<and>
     dzm s' d = retired (dzm s d) \<and>
     dzm s' d0 = (fresh_dz offset (dz_mem (dzm s d)))\<lparr>dz_prev := before xs, dz_next := Some d1,
        prevOwner := prevOwner (dzm s d), nextOwner := cd\<rparr> \<and>
     dzm s' d1 = (fresh_dz len (dz_mem (dzm s d) + offset))\<lparr>dz_prev := Some d0, dz_next := Some d2,
        prevOwner := cd, nextOwner := cd\<rparr> \<and>
     dzm s' d2 = (fresh_dz (dz_size (dzm s d) - len - offset) (dz_mem (dzm s d) + len + offset))
        \<lparr>dz_prev := Some d1, dz_next := after ys, prevOwner := cd, nextOwner := nextOwner (dzm s d)\<rparr> \<and>
     relinked (dzm s) (dzm s') xs ys d0 d2 \<and>
     (\<forall>x. x \<notin> set (xs @ d # ys) \<longrightarrow> x \<notin> {d0, d1, d2} \<longrightarrow> dzm s' x = dzm s x)"
proof -
  have ne: "d0 \<noteq> d" "d1 \<noteq> d" "d2 \<noteq> d" "d0 \<noteq> d1" "d0 \<noteq> d2" "d1 \<noteq> d2" and dist: "distinct (xs @ [d] @ ys)"
    using sep free chunk by (auto simp: free_ok_def chunk_ok_def)
  define p where "p = before xs"
  define q where "q = after ys"
  note L = chunk_links [OF chunk, folded p_def q_def]
  have sep': "set (xs @ [d] @ ys) \<inter> {d0, d1, d2} = {}" using sep by auto
  note nbr = neighbour_facts [OF dist sep' p_def q_def]
  have pq: "p \<noteq> Some d" "p \<noteq> Some d0" "p \<noteq> Some d1" "p \<noteq> Some d2" "q \<noteq> Some d" "q \<noteq> Some d0" "q \<noteq> Some d1"
    "q \<noteq> Some d2" "p = Some x \<Longrightarrow> q \<noteq> Some x" for x
    using nbr by auto
  define s1 where "s1 = s\<lparr>dzm := (dzm s)(d0 := fresh_dz offset (dz_mem (dzm s d))), dzMemoryFreeList := dz_next (dzm s d0)\<rparr>"
  have c1: "createDZMemory (Suc n) E offset (dz_mem (dzm s d)) s = Ok (d0, s1)"
    unfolding s1_def by (rule createDZMemory_eq [OF free])
  have f1: "free_ok s1 (d1 # d2 # fs)" unfolding s1_def by (rule free_ok_take [OF free])
  have e1: "dzm s1 d = dzm s d" using ne by (simp add: s1_def)
  define s2 where "s2 = s1\<lparr>dzm := (dzm s1)(d1 := fresh_dz len (dz_mem (dzm s d) + offset)),
     dzMemoryFreeList := dz_next (dzm s1 d1)\<rparr>"
  have c2: "createDZMemory (Suc n) E len (dz_mem (dzm s1 d) + offset) s1 = Ok (d1, s2)"
    unfolding s2_def e1 by (rule createDZMemory_eq [OF f1])
  have f2: "free_ok s2 (d2 # fs)" unfolding s2_def by (rule free_ok_take [OF f1])
  have e2: "dzm s2 d = dzm s d" using ne by (simp add: s2_def s1_def)
  define s3 where "s3 = s2\<lparr>dzm := (dzm s2)(d2 := fresh_dz (dz_size (dzm s d) - len - offset) (dz_mem (dzm s d) + len + offset)),
     dzMemoryFreeList := dz_next (dzm s2 d2)\<rparr>"
  have c3: "createDZMemory (Suc n) E (dz_size (dzm s2 d) - len - offset) (dz_mem (dzm s2 d) + len + offset) s2 = Ok (d2, s3)"
    unfolding s3_def e2 by (rule createDZMemory_eq [OF f2])
  have f3: "free_ok s3 fs" unfolding s3_def by (rule free_ok_take [OF f2])
  have D3: "dzm s3 = (dzm s)(d0 := fresh_dz offset (dz_mem (dzm s d)), d1 := fresh_dz len (dz_mem (dzm s d) + offset),
      d2 := fresh_dz (dz_size (dzm s d) - len - offset) (dz_mem (dzm s d) + len + offset))"
    by (simp add: s3_def s2_def s1_def)
  have P3: "only_pool s s3" by (simp add: s3_def s2_def s1_def only_pool_def)
  define s4 where "s4 = link_prev (dz_prev (dzm s3 d)) d0 s3"
  define s5 where "s5 = upd_dz d0 (\<lambda>x. x\<lparr>dz_prev := dz_prev (dzm s4 d), dz_next := Some d1,
     nextOwner := cd, prevOwner := prevOwner (dzm s4 d)\<rparr>) s4"
  define s6 where "s6 = upd_dz d1 (\<lambda>x. x\<lparr>dz_prev := Some d0, dz_next := Some d2, nextOwner := cd, prevOwner := cd\<rparr>) s5"
  define s7 where "s7 = upd_dz d2 (\<lambda>x. x\<lparr>dz_prev := Some d1, dz_next := dz_next (dzm s6 d),
     nextOwner := nextOwner (dzm s6 d), prevOwner := cd\<rparr>) s6"
  define s8 where "s8 = link_next (dz_next (dzm s7 d)) d2 s7"
  define s9 where "s9 = upd_dz d (\<lambda>x. x\<lparr>dz_prev := None, dz_next := None, dz_valid := 0, dz_mem := 0\<rparr>) s8"
  note S = s4_def s5_def s6_def s7_def s8_def s9_def
  have E: "dzmemory_split3 (Suc n) E cd d offset len s = Ok (Some (d0, d1, d2), s9)"
    unfolding dzmemory_split3_def using assms(4,5) off c1 c2 c3 by (simp add: not_less Let_def S)
  have D9: "dzm s9 d = retired (dzm s d)"
     "dzm s9 d0 = (fresh_dz offset (dz_mem (dzm s d)))\<lparr>dz_prev := p, dz_next := Some d1,
        prevOwner := prevOwner (dzm s d), nextOwner := cd\<rparr>"
     "dzm s9 d1 = (fresh_dz len (dz_mem (dzm s d) + offset))\<lparr>dz_prev := Some d0, dz_next := Some d2,
        prevOwner := cd, nextOwner := cd\<rparr>"
     "dzm s9 d2 = (fresh_dz (dz_size (dzm s d) - len - offset) (dz_mem (dzm s d) + len + offset))
        \<lparr>dz_prev := Some d1, dz_next := q, prevOwner := cd, nextOwner := nextOwner (dzm s d)\<rparr>"
    using pq ne L by (simp_all add: S D3 retired_def fresh_dz_def)
  have R9: "dzm s9 x = (if p = Some x then (dzm s x)\<lparr>dz_next := Some d0\<rparr>
       else if q = Some x then (dzm s x)\<lparr>dz_prev := Some d2\<rparr> else dzm s x)"
    if "x \<noteq> d" "x \<noteq> d0" "x \<noteq> d1" "x \<noteq> d2" for x
    using that pq ne L by (auto simp: S D3)
  have out: "x \<noteq> d \<and> x \<noteq> d0 \<and> x \<noteq> d1 \<and> x \<noteq> d2" if "x \<in> set xs \<union> set ys" for x using that dist sep by auto
  have "relinked (dzm s) (dzm s9) xs ys d0 d2"
    by (rule relinkedI [OF dist], subst R9) (use out p_def q_def in auto)
  moreover have "only_pool s s9" "dzMemoryFreeList s9 = after fs"
    using P3 free_ok_hd [OF f3] by (simp_all add: S only_pool_def)
  moreover have "dzm s9 x = dzm s x" if "x \<notin> set (xs @ d # ys)" "x \<notin> {d0, d1, d2}" for x
    using R9 [of x] that nbr by auto
  ultimately show ?thesis using E D9 unfolding p_def q_def by blast
qed

lemma split3_bounds:
  fixes offset len sz m :: u4
  assumes "0 \<le> sint offset" "0 \<le> sint len" "offset + len \<le> sz" "unat m + unat sz < 4294967296"
  shows "unat (sz - len - offset) = unat sz - unat len - unat offset" "unat (m + offset) = unat m + unat offset"
    "unat (m + len + offset) = unat m + unat len + unat offset" "unat offset + unat len \<le> unat sz"
proof -
  have nn: "unat offset < 2147483648" "unat len < 2147483648" using assms(1,2) by (simp_all add: sint_nonneg)
  then have "unat (offset + len) = unat offset + unat len" by (simp add: unat_word_ariths)
  then show le: "unat offset + unat len \<le> unat sz" using assms(3) by (simp add: word_le_nat_alt)
  show "unat (m + offset) = unat m + unat offset" "unat (m + len + offset) = unat m + unat len + unat offset"
    using le assms(4) by (simp_all add: unat_word_ariths)
  have l: "len \<le> sz" using le by (simp add: word_le_nat_alt)
  then have "unat (sz - len) = unat sz - unat len" by (simp add: unat_sub)
  moreover from this le have "offset \<le> sz - len" by (simp add: word_le_nat_alt)
  ultimately show "unat (sz - len - offset) = unat sz - unat len - unat offset" by (simp add: unat_sub)
qed

lemma split3_inv:
  assumes inv: "dz_inv s (d0 # d1 # d2 # fs) C" and c: "xs @ d # ys \<in> C" and live: "live_chunk (dzm s) (xs @ d # ys)"
    and off: "0 \<le> sint offset" "0 \<le> sint len" "offset + len \<le> dz_size (dzm s d)"
  shows "\<exists>s'. dzmemory_split3 (Suc n) E cd d offset len s = Ok (Some (d0, d1, d2), s') \<and> only_pool s s' \<and>
     dz_inv s' fs (C - {xs @ d # ys} \<union> {xs @ [d0, d1, d2] @ ys, [d]}) \<and>
     live_chunk (dzm s') (xs @ [d0, d1, d2] @ ys) \<and>
     dz_size (dzm s' d1) = len \<and> dz_mem (dzm s' d1) = dz_mem (dzm s d) + offset"
proof -
  note ch = dz_inv_chunk [OF inv c]
  note lp = live_piece [OF live]
  note b = split3_bounds [OF off lp(3)]
  obtain s' where s': "dzmemory_split3 (Suc n) E cd d offset len s = Ok (Some (d0, d1, d2), s')" "only_pool s s'"
    and fl: "dzMemoryFreeList s' = after fs" and D: "dzm s' d = retired (dzm s d)"
    and D0: "dzm s' d0 = (fresh_dz offset (dz_mem (dzm s d)))\<lparr>dz_prev := before xs, dz_next := Some d1,
        prevOwner := prevOwner (dzm s d), nextOwner := cd\<rparr>"
    and D1: "dzm s' d1 = (fresh_dz len (dz_mem (dzm s d) + offset))\<lparr>dz_prev := Some d0, dz_next := Some d2,
        prevOwner := cd, nextOwner := cd\<rparr>"
    and D2: "dzm s' d2 = (fresh_dz (dz_size (dzm s d) - len - offset) (dz_mem (dzm s d) + len + offset))
        \<lparr>dz_prev := Some d1, dz_next := after ys, prevOwner := cd, nextOwner := nextOwner (dzm s d)\<rparr>"
    and R: "relinked (dzm s) (dzm s') xs ys d0 d2"
    and fr: "\<And>x. x \<notin> set (xs @ d # ys) \<Longrightarrow> x \<notin> {d0, d1, d2} \<Longrightarrow> dzm s' x = dzm s x"
    using split3_pointwise [OF ch(3,1,2) lp(1,2) off, of n E cd] by blast
  have dist: "d0 \<noteq> d1" "d0 \<noteq> d2" "d1 \<noteq> d2" "d0 \<notin> set fs" "d1 \<notin> set fs" "d2 \<notin> set fs"
    using ch(3) by (auto simp: free_ok_def)
  have sep: "d0 \<notin> set (xs @ d # ys)" "d1 \<notin> set (xs @ d # ys)" "d2 \<notin> set (xs @ d # ys)"
    "set fs \<inter> set (xs @ d # ys) = {}"
    using ch(2) by auto
  have frf: "dzm s' x = dzm s x" if "x \<in> set fs" for x using that dist sep(4) by (intro fr) auto
  have free': "free_ok s' fs"
    by (rule free_ok_suffix [of s "[d0, d1, d2]"]) (use frf fl ch(3) in simp_all)
  have sp: "chunk_ok (dzm s') (xs @ [d0, d1, d2] @ ys)" "live_chunk (dzm s') (xs @ [d0, d1, d2] @ ys)"
    using chunk_splice [of "dzm s" xs "[d]" ys "[d0, d1, d2]" "dzm s'"] ch(1) live R D0 D1 D2 dist sep b by auto
  have dead: "chunk_ok (dzm s') [d]" by (rule dead_chunkI) (use D in auto)
  have dc: "distinct (xs @ d # ys)" using ch(1) by (simp add: chunk_ok_def)
  have "dz_inv s' fs (C - {xs @ d # ys} \<union> {xs @ [d0, d1, d2] @ ys, [d]})"
    by (rule dz_inv_replace [OF inv _ _ free'])
      (use c fr sp dead dist sep dc in auto)
  then show ?thesis using s' sp D1 by auto
qed

subsection \<open>Joining\<close>

lemma join_pointwise:
  assumes free: "free_ok s (d # fs)" and chunk: "chunk_ok (dzm s) (xs @ d1 # d2 # ys)"
    and sep: "set (xs @ d1 # d2 # ys) \<inter> set (d # fs) = {}"
    and v: "dz_valid (dzm s d1) = 1" "dz_valid (dzm s d2) = 1" "dz_mem (dzm s d1) \<noteq> 0" "dz_mem (dzm s d2) \<noteq> 0"
    and le: "dz_mem (dzm s d1) \<le> dz_mem (dzm s d2)"
  shows "\<exists>s'. dzmemory_join (Suc n) E d1 d2 s = Ok (d, s') \<and> only_pool s s' \<and> dzMemoryFreeList s' = after fs \<and>
     dzm s' d1 = (dzm s d1)\<lparr>dz_prev := None, dz_valid := 0, dz_mem := 0\<rparr> \<and>
     dzm s' d2 = (dzm s d2)\<lparr>dz_next := None, dz_valid := 0, dz_mem := 0\<rparr> \<and>
     dzm s' d = (fresh_dz (dz_size (dzm s d1) + dz_size (dzm s d2)) (dz_mem (dzm s d1)))
        \<lparr>dz_prev := before xs, dz_next := after ys, prevOwner := prevOwner (dzm s d1),
         nextOwner := nextOwner (dzm s d2)\<rparr> \<and>
     relinked (dzm s) (dzm s') xs ys d d \<and>
     (\<forall>x. x \<notin> set (xs @ d1 # d2 # ys) \<longrightarrow> x \<noteq> d \<longrightarrow> dzm s' x = dzm s x)"
proof -
  have ne: "d1 \<noteq> d" "d2 \<noteq> d" "d1 \<noteq> d2" and dist: "distinct (xs @ [d1, d2] @ ys)"
    using sep chunk by (auto simp: chunk_ok_def)
  define p where "p = before xs"
  define q where "q = after ys"
  have L: "dz_prev (dzm s d1) = p" "dz_next (dzm s d2) = q" "dz_next (dzm s d1) = Some d2" "dz_prev (dzm s d2) = Some d1"
    using chunk_links [of "dzm s" xs d1 "d2 # ys"] chunk_links [of "dzm s" "xs @ [d1]" d2 ys] chunk
    by (simp_all add: p_def q_def)
  have sep': "set (xs @ [d1, d2] @ ys) \<inter> {d} = {}" using sep by auto
  note nbr = neighbour_facts [OF dist sep' p_def q_def]
  have pq: "p \<noteq> Some d" "p \<noteq> Some d1" "p \<noteq> Some d2" "q \<noteq> Some d" "q \<noteq> Some d1" "q \<noteq> Some d2"
    "p = Some x \<Longrightarrow> q \<noteq> Some x" for x
    using nbr by auto
  define s1 where "s1 = s\<lparr>dzm := (dzm s)(d := fresh_dz (dz_size (dzm s d1) + dz_size (dzm s d2)) (dz_mem (dzm s d1))),
     dzMemoryFreeList := dz_next (dzm s d)\<rparr>"
  have c1: "createDZMemory (Suc n) E (dz_size (dzm s d1) + dz_size (dzm s d2)) (dz_mem (dzm s d1)) s = Ok (d, s1)"
    unfolding s1_def by (rule createDZMemory_eq [OF free])
  have f1: "free_ok s1 fs" unfolding s1_def by (rule free_ok_take [OF free])
  have D1: "dzm s1 = (dzm s)(d := fresh_dz (dz_size (dzm s d1) + dz_size (dzm s d2)) (dz_mem (dzm s d1)))"
    and P1: "only_pool s s1" by (simp_all add: s1_def only_pool_def)
  define s2 where "s2 = link_prev (dz_prev (dzm s1 d1)) d s1"
  define s3 where "s3 = upd_dz d (\<lambda>x. x\<lparr>dz_prev := dz_prev (dzm s2 d1), prevOwner := prevOwner (dzm s2 d1),
     dz_next := dz_next (dzm s2 d2), nextOwner := nextOwner (dzm s2 d2)\<rparr>) s2"
  define s4 where "s4 = link_next (dz_next (dzm s3 d2)) d s3"
  define s5 where "s5 = upd_dz d1 (\<lambda>x. x\<lparr>dz_prev := None, dz_valid := 0, dz_mem := 0\<rparr>) s4"
  define s6 where "s6 = upd_dz d2 (\<lambda>x. x\<lparr>dz_next := None, dz_valid := 0, dz_mem := 0\<rparr>) s5"
  note S = s2_def s3_def s4_def s5_def s6_def
  have E: "dzmemory_join (Suc n) E d1 d2 s = Ok (d, s6)"
    unfolding dzmemory_join_def using v le L c1 by (simp add: Let_def S)
  have D6: "dzm s6 d1 = (dzm s d1)\<lparr>dz_prev := None, dz_valid := 0, dz_mem := 0\<rparr>"
     "dzm s6 d2 = (dzm s d2)\<lparr>dz_next := None, dz_valid := 0, dz_mem := 0\<rparr>"
     "dzm s6 d = (fresh_dz (dz_size (dzm s d1) + dz_size (dzm s d2)) (dz_mem (dzm s d1)))
        \<lparr>dz_prev := p, dz_next := q, prevOwner := prevOwner (dzm s d1), nextOwner := nextOwner (dzm s d2)\<rparr>"
    using pq ne L by (simp_all add: S D1 fresh_dz_def)
  have R6: "dzm s6 x = (if p = Some x then (dzm s x)\<lparr>dz_next := Some d\<rparr>
       else if q = Some x then (dzm s x)\<lparr>dz_prev := Some d\<rparr> else dzm s x)"
    if "x \<noteq> d" "x \<noteq> d1" "x \<noteq> d2" for x
    using that pq ne L by (auto simp: S D1)
  have out: "x \<noteq> d \<and> x \<noteq> d1 \<and> x \<noteq> d2" if "x \<in> set xs \<union> set ys" for x using that dist sep by auto
  have "relinked (dzm s) (dzm s6) xs ys d d"
    by (rule relinkedI [OF dist], subst R6) (use out p_def q_def in auto)
  moreover have "only_pool s s6" "dzMemoryFreeList s6 = after fs"
    using P1 free_ok_hd [OF f1] by (simp_all add: S only_pool_def)
  moreover have "dzm s6 x = dzm s x" if "x \<notin> set (xs @ d1 # d2 # ys)" "x \<noteq> d" for x
    using R6 [of x] that nbr by auto
  ultimately show ?thesis using E D6 unfolding p_def q_def by blast
qed

lemma live_pair:
  assumes "live_chunk f (xs @ d1 # d2 # ys)"
  shows "unat (dz_mem (f d2)) = unat (dz_mem (f d1)) + unat (dz_size (f d1))"
    "unat (dz_mem (f d1)) + unat (dz_size (f d1)) + unat (dz_size (f d2)) < 4294967296"
    "dz_mem (f d1) \<le> dz_mem (f d2)" "unat (dz_size (f d1) + dz_size (f d2)) = unat (dz_size (f d1)) + unat (dz_size (f d2))"
proof -
  show 1: "unat (dz_mem (f d2)) = unat (dz_mem (f d1)) + unat (dz_size (f d1))"
    and 2: "unat (dz_mem (f d1)) + unat (dz_size (f d1)) + unat (dz_size (f d2)) < 4294967296"
    using assms by (auto simp: live_chunk_def)
  show "dz_mem (f d1) \<le> dz_mem (f d2)" using 1 by (simp add: word_le_nat_alt)
  show "unat (dz_size (f d1) + dz_size (f d2)) = unat (dz_size (f d1)) + unat (dz_size (f d2))"
    using 2 by (simp add: unat_word_ariths)
qed

lemma join_inv:
  assumes inv: "dz_inv s (d # fs) C" and c: "xs @ d1 # d2 # ys \<in> C" and live: "live_chunk (dzm s) (xs @ d1 # d2 # ys)"
  shows "\<exists>s'. dzmemory_join (Suc n) E d1 d2 s = Ok (d, s') \<and> only_pool s s' \<and>
     dz_inv s' fs (C - {xs @ d1 # d2 # ys} \<union> {xs @ [d] @ ys, [d1, d2]}) \<and> live_chunk (dzm s') (xs @ [d] @ ys) \<and>
     dz_size (dzm s' d) = dz_size (dzm s d1) + dz_size (dzm s d2) \<and> dz_mem (dzm s' d) = dz_mem (dzm s d1) \<and>
     dz_valid (dzm s' d1) = 0 \<and> dz_mem (dzm s' d1) = 0 \<and> dz_valid (dzm s' d2) = 0 \<and> dz_mem (dzm s' d2) = 0"
proof -
  note ch = dz_inv_chunk [OF inv c]
  note lp = live_piece [OF live]
  have lp2: "dz_valid (dzm s d2) = 1" "dz_mem (dzm s d2) \<noteq> 0"
    using live_piece [of "dzm s" "xs @ [d1]" d2 ys] live by simp_all
  note b = live_pair [OF live]
  obtain s' where s': "dzmemory_join (Suc n) E d1 d2 s = Ok (d, s')" "only_pool s s'"
    and fl: "dzMemoryFreeList s' = after fs"
    and D1: "dzm s' d1 = (dzm s d1)\<lparr>dz_prev := None, dz_valid := 0, dz_mem := 0\<rparr>"
    and D2: "dzm s' d2 = (dzm s d2)\<lparr>dz_next := None, dz_valid := 0, dz_mem := 0\<rparr>"
    and D: "dzm s' d = (fresh_dz (dz_size (dzm s d1) + dz_size (dzm s d2)) (dz_mem (dzm s d1)))
        \<lparr>dz_prev := before xs, dz_next := after ys, prevOwner := prevOwner (dzm s d1),
         nextOwner := nextOwner (dzm s d2)\<rparr>"
    and R: "relinked (dzm s) (dzm s') xs ys d d"
    and fr: "\<And>x. x \<notin> set (xs @ d1 # d2 # ys) \<Longrightarrow> x \<noteq> d \<Longrightarrow> dzm s' x = dzm s x"
    using join_pointwise [OF ch(3,1,2) lp(1) lp2(1) lp(2) lp2(2) b(3), of n E] by blast
  have dist: "d \<notin> set fs" using ch(3) by (auto simp: free_ok_def)
  have sep: "d \<notin> set (xs @ d1 # d2 # ys)" "set fs \<inter> set (xs @ d1 # d2 # ys) = {}" using ch(2) by auto
  have frf: "dzm s' x = dzm s x" if "x \<in> set fs" for x using that dist sep(2) by (intro fr) auto
  have free': "free_ok s' fs" by (rule free_ok_suffix [of s "[d]"]) (use frf fl ch(3) in simp_all)
  have sp: "chunk_ok (dzm s') (xs @ [d] @ ys)" "live_chunk (dzm s') (xs @ [d] @ ys)"
    using chunk_splice [of "dzm s" xs "[d1, d2]" ys "[d]" "dzm s'"] ch(1) live R D sep b by auto
  have dc: "distinct (xs @ d1 # d2 # ys)" using ch(1) by (simp add: chunk_ok_def)
  have "dz_next (dzm s d1) = Some d2" "dz_prev (dzm s d2) = Some d1"
    using chunk_links [of "dzm s" xs d1 "d2 # ys"] chunk_links [of "dzm s" "xs @ [d1]" d2 ys] ch(1) by simp_all
  then have dead: "chunk_ok (dzm s') [d1, d2]" by (intro dead_chunkI) (use D1 D2 dc in auto)
  have "dz_inv s' fs (C - {xs @ d1 # d2 # ys} \<union> {xs @ [d] @ ys, [d1, d2]})"
    by (rule dz_inv_replace [OF inv _ _ free'])
      (use c fr sp dead dist sep dc in auto)
  then show ?thesis using s' sp D D1 D2 by auto
qed

subsection \<open>Releasing a chunk\<close>

fun wcontig :: "(nat \<Rightarrow> DZMemoryProxy) \<Rightarrow> u4 \<Rightarrow> nat list \<Rightarrow> bool" where
  "wcontig f a [] = True"
| "wcontig f a (x # xs) = (dz_mem (f x) = a \<and> wcontig f (a + dz_size (f x)) xs)"

definition word_size_sum :: "(nat \<Rightarrow> DZMemoryProxy) \<Rightarrow> nat list \<Rightarrow> u4" where
  "word_size_sum f xs = sum_list (map (\<lambda>x. dz_size (f x)) xs)"

lemma contig_wcontig: "contig f a xs \<Longrightarrow> a < 4294967296 \<Longrightarrow> wcontig f (of_nat a) xs"
proof (induction xs arbitrary: a)
  case (Cons x xs)
  have "dz_mem (f x) = of_nat a" using Cons.prems(1) by (simp add: word_unat_eq_iff) (use Cons.prems in \<open>simp add: unat_of_nat\<close>)
  moreover have "of_nat (a + unat (dz_size (f x))) = (of_nat a + dz_size (f x) :: u4)" by simp
  moreover have "wcontig f (of_nat (a + unat (dz_size (f x)))) xs"
  proof (cases xs)
    case (Cons y ys)
    then have "a + unat (dz_size (f x)) = unat (dz_mem (f y))" using Cons.prems by simp
    then have "a + unat (dz_size (f x)) < 4294967296"
      using unsigned_less [where ?'a = nat and w = "dz_mem (f y)"] by simp
    then show ?thesis using Cons.prems(1) by (intro Cons.IH) simp_all
  qed simp
  ultimately show ?case by simp
qed simp

lemma wcontig_append: "wcontig f a (xs @ ys) \<longleftrightarrow> wcontig f a xs \<and> wcontig f (a + word_size_sum f xs) ys"
  by (induction xs arbitrary: a) (auto simp: word_size_sum_def add.assoc)

lemma word_size_sum_total: "word_size_sum f xs = of_nat (total_size f xs)"
  by (induction xs) (simp_all add: word_size_sum_def)

text \<open>What the asserts of the release ask for: the pieces lie side by side, or own no memory.\<close>

definition side_by_side :: "(nat \<Rightarrow> DZMemoryProxy) \<Rightarrow> nat list \<Rightarrow> bool" where
  "side_by_side f c \<longleftrightarrow> (\<exists>a. wcontig f a c) \<or> (\<forall>x \<in> set c. dz_mem (f x) = 0)"

lemma chunk_side_by_side: "chunk_ok f c \<Longrightarrow> side_by_side f c"
  unfolding chunk_ok_def side_by_side_def live_chunk_def dead_chunk_def
  by (meson add_lessD1 contig_wcontig)

lemma side_by_side_pair:
  assumes "side_by_side f (xs @ p # d # ys)"
  shows "dz_mem (f p) = 0 \<or> dz_mem (f d) = 0 \<or> dz_mem (f p) + dz_size (f p) = dz_mem (f d)"
  using assms by (auto simp: side_by_side_def wcontig_append)

lemma chunk_top_eq:
  assumes "dseg (dzm s) None (xs @ d # ys) None" "side_by_side (dzm s) (xs @ d # ys)" "length xs < n"
  shows "chunk_top n s d =
     Ok (if \<forall>x \<in> set xs. refcount (dzm s x) = 0 then Some (hd (xs @ [d])) else None)"
  using assms
proof (induction xs arbitrary: d ys n rule: rev_induct)
  case Nil
  then show ?case by (cases n) auto
next
  case (snoc p xs)
  obtain m where n: "n = Suc m" using snoc.prems(3) by (cases n) auto
  have seg: "dseg (dzm s) None (xs @ p # d # ys) None" and side: "side_by_side (dzm s) (xs @ p # d # ys)"
    using snoc.prems by simp_all
  have links: "dz_prev (dzm s d) = Some p" "dz_next (dzm s p) = Some d"
    using seg by (simp_all add: dseg_append)
  have IH: "chunk_top m s p = Ok (if \<forall>x \<in> set xs. refcount (dzm s x) = 0 then Some (hd (xs @ [p])) else None)"
    by (rule snoc.IH [OF seg side]) (use snoc.prems n in simp)
  show ?case
    unfolding n using links side_by_side_pair [OF side] IH by (auto simp: rassert_def hd_append)
qed

lemma dzmemory_free_eq:
  assumes "free_ok s fs" "x \<notin> set fs" "refcount (dzm s x) = 0" "dz_mem (dzm s x) = 0" "dz_prev (dzm s x) = None"
  shows "\<exists>s'. dzmemory_free x s = Ok s' \<and> free_ok s' (x # fs) \<and> only_pool s s' \<and>
     (\<forall>y. y \<noteq> x \<longrightarrow> dzm s' y = dzm s y)"
proof -
  define s' where "s' = (upd_dz x (\<lambda>y. y\<lparr>dz_valid := 2, dz_next := dzMemoryFreeList s\<rparr>) s)\<lparr>dzMemoryFreeList := Some x\<rparr>"
  have "chain (\<lambda>y. dz_next (dzm s' y)) (dzMemoryFreeList s) fs"
    by (subst chain_cong [of fs _ "\<lambda>y. dz_next (dzm s y)"]) (use assms(1,2) in \<open>auto simp: free_ok_def s'_def\<close>)
  then have "free_ok s' (x # fs)" using assms by (auto simp: free_ok_def s'_def)
  then show ?thesis using assms(3) by (auto simp: dzmemory_free_def s'_def only_pool_def)
qed

lemma free_tail_ok:
  assumes "t \<notin> set ys" "distinct ys" "dseg (dzm s) p ys None" "\<forall>x \<in> set ys. refcount (dzm s x) = 0"
    and "dz_mem (dzm s t) = 0 \<and> (\<forall>x \<in> set ys. dz_mem (dzm s x) = 0) \<or>
         wcontig (dzm s) (dz_mem (dzm s t) + dz_size (dzm s t)) ys"
    and "length ys < n" "free_ok s fs" "set ys \<inter> set fs = {}" "t \<notin> set fs"
  shows "\<exists>s'. free_tail n t (after ys) s = Ok s' \<and> free_ok s' (rev ys @ fs) \<and> only_pool s s' \<and>
     dzm s' t = (dzm s t)\<lparr>dz_size := dz_size (dzm s t) + word_size_sum (dzm s) ys, dz_next := None\<rparr> \<and>
     (\<forall>x. x \<notin> set ys \<longrightarrow> x \<noteq> t \<longrightarrow> dzm s' x = dzm s x)"
  using assms
proof (induction ys arbitrary: s p n fs)
  case Nil
  then obtain m where n: "n = Suc m" by (cases n) auto
  define s' where "s' = upd_dz t (\<lambda>x. x\<lparr>dz_next := None\<rparr>) s"
  have "free_ok s' fs" by (rule free_ok_frame [OF Nil.prems(7)]) (use Nil.prems(9) in \<open>auto simp: s'_def\<close>)
  moreover have "free_tail n t (after []) s = Ok s'" by (simp add: n s'_def)
  moreover have "dzm s' t = (dzm s t)\<lparr>dz_size := dz_size (dzm s t) + word_size_sum (dzm s) [], dz_next := None\<rparr>"
    by (simp add: s'_def word_size_sum_def)
  ultimately show ?case by (simp add: s'_def only_pool_def)
next
  case (Cons x ys)
  then obtain m where n: "n = Suc m" by (cases n) auto
  have nx: "dz_next (dzm s x) = after ys" using Cons.prems(3) by (cases ys) auto
  define s1 where "s1 = upd_dz t (\<lambda>y. y\<lparr>dz_size := dz_size y + dz_size (dzm s x)\<rparr>) s"
  define s2 where "s2 = upd_dz x (\<lambda>y. y\<lparr>dz_prev := None, dz_mem := 0, dz_size := 0, dz_next := None\<rparr>) s1"
  have tx: "t \<noteq> x" "x \<notin> set ys" "t \<notin> set ys" using Cons.prems by auto
  have D2: "dzm s2 t = (dzm s t)\<lparr>dz_size := dz_size (dzm s t) + dz_size (dzm s x)\<rparr>"
    "\<And>y. y \<noteq> x \<Longrightarrow> y \<noteq> t \<Longrightarrow> dzm s2 y = dzm s y" and P2: "only_pool s s2"
    using tx by (simp_all add: s2_def s1_def only_pool_def)
  have "free_ok s2 fs" by (rule free_ok_frame [OF Cons.prems(7)]) (use Cons.prems(8,9) in \<open>auto simp: s2_def s1_def\<close>)
  then obtain s3 where s3: "dzmemory_free x s2 = Ok s3" "free_ok s3 (x # fs)" "only_pool s2 s3"
    "\<And>y. y \<noteq> x \<Longrightarrow> dzm s3 y = dzm s2 y"
    using dzmemory_free_eq [of s2 fs x] Cons.prems(4,8) tx by (auto simp: s2_def s1_def)
  have D3: "dzm s3 t = (dzm s t)\<lparr>dz_size := dz_size (dzm s t) + dz_size (dzm s x)\<rparr>"
    "\<And>y. y \<in> set ys \<Longrightarrow> dzm s3 y = dzm s y"
    using s3(4) D2 tx by metis+
  have seg3: "dseg (dzm s3) (Some x) ys None" using Cons.prems(3) D3(2) dseg_cong [of ys "dzm s3" "dzm s"] by auto
  have mem3: "dz_mem (dzm s3 t) = 0 \<and> (\<forall>y \<in> set ys. dz_mem (dzm s3 y) = 0) \<or>
         wcontig (dzm s3) (dz_mem (dzm s3 t) + dz_size (dzm s3 t)) ys"
  proof -
    have "wcontig (dzm s3) a ys = wcontig (dzm s) a ys" for a
      using D3(2) by (induction ys arbitrary: a) auto
    then show ?thesis using Cons.prems(5) D3 by (auto simp: add.assoc)
  qed
  obtain s4 where s4: "free_tail m t (after ys) s3 = Ok s4" "free_ok s4 (rev ys @ x # fs)" "only_pool s3 s4"
    "dzm s4 t = (dzm s3 t)\<lparr>dz_size := dz_size (dzm s3 t) + word_size_sum (dzm s3) ys, dz_next := None\<rparr>"
    "\<And>y. y \<notin> set ys \<Longrightarrow> y \<noteq> t \<Longrightarrow> dzm s4 y = dzm s3 y"
    using Cons.IH [OF tx(3) _ seg3 _ mem3 _ s3(2), of m] Cons.prems(2,4,6,8,9) tx D3(2) n by auto
  have ws: "word_size_sum (dzm s3) ys = word_size_sum (dzm s) ys"
    using D3(2) unfolding word_size_sum_def by (metis (no_types, lifting) map_cong)
  have step: "free_tail n t (Some x) s = Ok s4"
    using Cons.prems(4,5) s3(1) s4(1) nx by (auto simp: n rassert_def s2_def s1_def Let_def)
  have "dzm s4 t = (dzm s t)\<lparr>dz_size := dz_size (dzm s t) + word_size_sum (dzm s) (x # ys), dz_next := None\<rparr>"
    using s4(4) D3(1) ws by (simp add: word_size_sum_def add.assoc)
  moreover have "dzm s4 y = dzm s y" if "y \<notin> set (x # ys)" "y \<noteq> t" for y
    using that s4(5) [of y] s3(4) [of y] D2(2) [of y] by simp
  moreover have "only_pool s s4" using P2 s3(3) s4(3) by (simp add: only_pool_def)
  ultimately show ?case using step s4(2) by simp
qed

lemma dseg_chain: "dseg f p xs None \<Longrightarrow> chain (\<lambda>x. dz_next (f x)) (after xs) xs"
proof (induction xs arbitrary: p)
  case (Cons x xs)
  then show ?case by (cases xs) auto
qed simp

lemma free_chunk_scan:
  assumes "dseg (dzm s) None (xs @ d # ys) None" "length (xs @ d # ys) < n"
  shows "find_in n (\<lambda>x. dz_next (dzm s x)) (\<lambda>x. refcount (dzm s x) \<noteq> 0) (Some d) =
     Ok (find (\<lambda>x. refcount (dzm s x) \<noteq> 0) (d # ys))"
  by (rule find_in_chain) (use assms dseg_chain [of "dzm s" "before xs" "d # ys"] in \<open>simp_all add: dseg_append\<close>)

text \<open>A chunk one of whose pieces is still referenced stays as it is.\<close>

lemma free_chunk_referenced:
  assumes c: "chunk_ok (dzm s) (xs @ d # ys)" and r: "\<exists>x \<in> set (xs @ d # ys). refcount (dzm s x) \<noteq> 0"
    and n: "length (xs @ d # ys) < n"
  shows "dzmemory_free_chunk n d s = Ok s"
proof -
  have seg: "dseg (dzm s) None (xs @ d # ys) None" using c by (simp add: chunk_ok_def)
  note scan = free_chunk_scan [OF seg n] and sbs = chunk_side_by_side [OF c] and L = chunk_links [OF c]
  show ?thesis
  proof (cases "\<exists>x \<in> set (d # ys). refcount (dzm s x) \<noteq> 0")
    case True
    then obtain x where "find (\<lambda>x. refcount (dzm s x) \<noteq> 0) (d # ys) = Some x"
      by (metis (mono_tags, lifting) find_None_iff not_None_eq)
    then show ?thesis unfolding dzmemory_free_chunk_def scan by simp
  next
    case False
    then have none: "find (\<lambda>x. refcount (dzm s x) \<noteq> 0) (d # ys) = None" by (auto simp: find_None_iff)
    have "\<not> (\<forall>x \<in> set xs. refcount (dzm s x) = 0)" and "xs \<noteq> []" using r False by auto
    then have "chunk_top n s d = Ok None" using chunk_top_eq [OF seg sbs] n by simp
    then show ?thesis unfolding dzmemory_free_chunk_def scan none using L(1) \<open>xs \<noteq> []\<close> by simp
  qed
qed

lemma release_top_ok:
  assumes "free_ok s fs" "t \<notin> set fs" "dz_prev (dzm s t) = None" "dz_next (dzm s t) = None" "refcount (dzm s t) = 0"
    and rel: "if dz_mem (dzm s t) = 0 then b = blocks s
              else dz_size (dzm s t) > 4 \<and> jxfree (dz_mem (dzm s t)) (dz_size (dzm s t)) (blocks s) = Ok b"
  shows "\<exists>s'. release_top t s = Ok s' \<and> free_ok s' (t # fs) \<and> blocks s' = b \<and> dzInvalid s' = dzInvalid s \<and>
     (\<forall>x. x \<noteq> t \<longrightarrow> dzm s' x = dzm s x)"
proof (cases "dz_mem (dzm s t) = 0")
  case True
  then show ?thesis
    using dzmemory_free_eq [of s fs t] assms by (auto simp: release_top_def only_pool_def)
next
  case False
  define s1 where "s1 = upd_dz t (\<lambda>x. x\<lparr>dz_mem := 0\<rparr>) (s\<lparr>blocks := b\<rparr>)"
  have "free_ok s1 fs" by (rule free_ok_frame [OF assms(1)]) (use assms(2) in \<open>auto simp: s1_def\<close>)
  then obtain s' where s': "dzmemory_free t s1 = Ok s'" "free_ok s' (t # fs)" "only_pool s1 s'"
    "\<And>y. y \<noteq> t \<Longrightarrow> dzm s' y = dzm s1 y"
    using dzmemory_free_eq [of s1 fs t] assms(2,3,5) by (auto simp: s1_def)
  have "release_top t s = dzmemory_free t s1"
    using False assms by (simp add: release_top_def s1_def)
  then show ?thesis using s' by (auto simp: s1_def only_pool_def)
qed

definition release_blocks :: "memst \<Rightarrow> nat list \<Rightarrow> malloc_state \<Rightarrow> bool" where
  "release_blocks s c b \<longleftrightarrow>
     (if dz_mem (dzm s (hd c)) = 0 then b = blocks s
      else word_size_sum (dzm s) c > 4 \<and>
           jxfree (dz_mem (dzm s (hd c))) (word_size_sum (dzm s) c) (blocks s) = Ok b)"

lemma free_chunk_reduces:
  assumes inv: "dz_inv s fs C" and c: "xs @ d # ys \<in> C" and tz: "xs @ d # ys = t # zs"
    and r: "\<forall>x \<in> set (xs @ d # ys). refcount (dzm s x) = 0"
    and n: "length (xs @ d # ys) < n"
  shows "\<exists>s1. dzmemory_free_chunk n d s = release_top t s1 \<and> free_ok s1 (rev zs @ fs) \<and> only_pool s s1 \<and>
     dzm s1 t = (dzm s t)\<lparr>dz_size := word_size_sum (dzm s) (t # zs), dz_next := None\<rparr> \<and>
     dz_prev (dzm s t) = None \<and> refcount (dzm s t) = 0 \<and> t \<notin> set (rev zs @ fs) \<and>
     (\<forall>x. x \<notin> set zs \<longrightarrow> x \<noteq> t \<longrightarrow> dzm s1 x = dzm s x)"
proof -
  note ch = dz_inv_chunk [OF inv c]
  have seg: "dseg (dzm s) None (xs @ d # ys) None" and dist: "distinct (xs @ d # ys)"
    using ch(1) by (simp_all add: chunk_ok_def)
  note scan = free_chunk_scan [OF seg n] and sbs = chunk_side_by_side [OF ch(1)] and L = chunk_links [OF ch(1)]
  have none: "find (\<lambda>x. refcount (dzm s x) \<noteq> 0) (d # ys) = None" using r by (auto simp: find_None_iff)
  have all0: "\<forall>x \<in> set xs. refcount (dzm s x) = 0" using r by simp
  have ctop: "chunk_top n s d = Ok (Some (hd (xs @ [d])))" using chunk_top_eq [OF seg sbs] n all0 by simp
  have t: "hd (xs @ [d]) = t" using tz by (cases xs) auto
  note seg' = seg [unfolded tz] and dist' = dist [unfolded tz] and r' = r [unfolded tz] and ch2 = ch(2) [unfolded tz]
  have tl: "dz_prev (dzm s t) = None" "dz_next (dzm s t) = after zs" "dseg (dzm s) (Some t) zs None"
    using seg' by (auto split: list.splits)
  have memt: "dz_mem (dzm s t) = 0 \<and> (\<forall>x \<in> set zs. dz_mem (dzm s x) = 0) \<or>
         wcontig (dzm s) (dz_mem (dzm s t) + dz_size (dzm s t)) zs"
    using sbs unfolding tz by (auto simp: side_by_side_def)
  obtain s1 where s1: "free_tail n t (after zs) s = Ok s1" "free_ok s1 (rev zs @ fs)" "only_pool s s1"
    and t1: "dzm s1 t = (dzm s t)\<lparr>dz_size := dz_size (dzm s t) + word_size_sum (dzm s) zs, dz_next := None\<rparr>"
    and fr1: "\<forall>x. x \<notin> set zs \<longrightarrow> x \<noteq> t \<longrightarrow> dzm s1 x = dzm s x"
    using free_tail_ok [of t zs s "Some t" n fs] dist' tl(3) r' memt n tz ch(3) ch2 by auto
  have sum: "dz_size (dzm s t) + word_size_sum (dzm s) zs = word_size_sum (dzm s) (t # zs)"
    by (simp add: word_size_sum_def)
  have "dzmemory_free_chunk n d s = release_top t s1"
  proof (cases "xs = [] \<and> ys = []")
    case True
    then have "s1 = upd_dz t (\<lambda>x. x\<lparr>dz_next := None\<rparr>) s" "zs = []" "t = d" using s1(1) tz n by (auto, cases n, auto)
    moreover have "(dzm s d)\<lparr>dz_next := None\<rparr> = dzm s d" using L(2) True by (cases "dzm s d") simp
    then have "upd_dz d (\<lambda>x. x\<lparr>dz_next := None\<rparr>) s = s" by (simp add: upd_dz_def)
    ultimately have "s1 = s" by simp
    then show ?thesis unfolding dzmemory_free_chunk_def scan none using L True \<open>t = d\<close> by simp
  next
    case False
    then have "dz_prev (dzm s d) \<noteq> None \<or> dz_next (dzm s d) \<noteq> None" using L by simp
    then show ?thesis unfolding dzmemory_free_chunk_def scan none ctop t tl(2) using s1(1) tl(2) by simp
  qed
  moreover have "t \<notin> set (rev zs @ fs)" "refcount (dzm s t) = 0" using dist' ch2 r' by auto
  ultimately show ?thesis using s1(2,3) t1 fr1 tl(1) unfolding sum by blast
qed

text \<open>A chunk none of whose pieces is referenced is released as a whole: its memory goes back to the
  block allocator in one call, with the sum of the sizes, and all its entries to the free list.\<close>

lemma free_chunk_released:
  assumes inv: "dz_inv s fs C" and c: "xs @ d # ys \<in> C"
    and r: "\<forall>x \<in> set (xs @ d # ys). refcount (dzm s x) = 0"
    and n: "length (xs @ d # ys) < n" and b: "release_blocks s (xs @ d # ys) b"
  shows "\<exists>s'. dzmemory_free_chunk n d s = Ok s' \<and> blocks s' = b \<and> dzInvalid s' = dzInvalid s \<and>
     dz_inv s' (hd (xs @ d # ys) # rev (tl (xs @ d # ys)) @ fs) (C - {xs @ d # ys})"
proof -
  obtain t zs where tz: "xs @ d # ys = t # zs" by (cases "xs @ d # ys") auto
  obtain s1 where s1: "dzmemory_free_chunk n d s = release_top t s1" "free_ok s1 (rev zs @ fs)" "only_pool s s1"
    and t1: "dzm s1 t = (dzm s t)\<lparr>dz_size := word_size_sum (dzm s) (t # zs), dz_next := None\<rparr>"
    and pt: "dz_prev (dzm s t) = None" "refcount (dzm s t) = 0" "t \<notin> set (rev zs @ fs)"
    and fr1: "\<And>x. x \<notin> set zs \<Longrightarrow> x \<noteq> t \<Longrightarrow> dzm s1 x = dzm s x"
    using free_chunk_reduces [OF inv c tz r n] by blast
  have "if dz_mem (dzm s1 t) = 0 then b = blocks s1
        else dz_size (dzm s1 t) > 4 \<and> jxfree (dz_mem (dzm s1 t)) (dz_size (dzm s1 t)) (blocks s1) = Ok b"
    using b s1(3) unfolding tz release_blocks_def t1 by (auto simp: only_pool_def split: if_splits)
  then obtain s2 where s2: "release_top t s1 = Ok s2" "free_ok s2 (t # rev zs @ fs)" "blocks s2 = b"
    "dzInvalid s2 = dzInvalid s1" "\<And>x. x \<noteq> t \<Longrightarrow> dzm s2 x = dzm s1 x"
    using release_top_ok [OF s1(2) pt(3), of b] t1 pt by auto
  have "dz_inv s2 (t # rev zs @ fs) (C - {t # zs} \<union> {})"
    by (rule dz_inv_replace [OF inv _ _ s2(2)])
      (use c tz s2(5) fr1 in auto)
  then show ?thesis using s1 s2 unfolding tz by (simp add: only_pool_def)
qed

lemma free_chunk_returns:
  assumes inv: "dz_inv s fs C" and c: "xs @ d # ys \<in> C"
    and r: "\<forall>x \<in> set (xs @ d # ys). refcount (dzm s x) = 0"
    and n: "length (xs @ d # ys) < n" and ok: "dzmemory_free_chunk n d s = Ok s'"
  shows "\<exists>b. release_blocks s (xs @ d # ys) b"
proof -
  obtain t zs where tz: "xs @ d # ys = t # zs" by (cases "xs @ d # ys") auto
  obtain s1 where s1: "release_top t s1 = Ok s'" "only_pool s s1"
    and t1: "dzm s1 t = (dzm s t)\<lparr>dz_size := word_size_sum (dzm s) (t # zs), dz_next := None\<rparr>"
    using free_chunk_reduces [OF inv c tz r n] ok by auto
  then show ?thesis
    unfolding tz release_blocks_def release_top_def by (auto simp: only_pool_def split: if_splits)
qed

end
