(* ===== verification/Block_Copy.thy ===== *)
theory Block_Copy
  imports JX_Prelude
begin

section \<open>Block copies (Assembly/lowlevel.S and the inline assembler of memory\_move)\<close>

text \<open>
  \<^verbatim>\<open>jxwordcpy\<close>, \<^verbatim>\<open>jxbytecpy\<close> and \<^verbatim>\<open>jxwmemset\<close> and the two inline assembler blocks of
  \<^verbatim>\<open>memory_move\<close> are string instructions; each store of such an instruction is one step of a
  loop here, so overlapping ranges behave as on the processor.  \<open>move_spec\<close> is the reference
  they are compared with: a copy that reads all of its source before it writes.
\<close>

unbundle bit_operations_syntax

subsection \<open>String instructions\<close>

text \<open>One \<^verbatim>\<open>movsb\<close>, \<^verbatim>\<open>movsw\<close>, \<^verbatim>\<open>movsl\<close>: the datum is read before it is written.\<close>

definition movs8 :: "u4 \<Rightarrow> u4 \<Rightarrow> memory \<Rightarrow> memory" where
  "movs8 dst src m = m(dst := m src)"

definition movs16 :: "u4 \<Rightarrow> u4 \<Rightarrow> memory \<Rightarrow> memory" where
  "movs16 dst src m = write16 m dst (read16 m src)"

definition movs32 :: "u4 \<Rightarrow> u4 \<Rightarrow> memory \<Rightarrow> memory" where
  "movs32 dst src m = write32 m dst (read32 m src)"

text \<open>\<^verbatim>\<open>rep movsb\<close> and \<^verbatim>\<open>rep movsl\<close> upwards, \<^verbatim>\<open>rep movsl\<close> downwards.\<close>

fun rep_movsb :: "nat \<Rightarrow> u4 \<Rightarrow> u4 \<Rightarrow> memory \<Rightarrow> memory" where
  "rep_movsb 0 dst src m = m"
| "rep_movsb (Suc n) dst src m = rep_movsb n (dst + 1) (src + 1) (movs8 dst src m)"

fun rep_movsl :: "nat \<Rightarrow> u4 \<Rightarrow> u4 \<Rightarrow> memory \<Rightarrow> memory" where
  "rep_movsl 0 dst src m = m"
| "rep_movsl (Suc n) dst src m = rep_movsl n (dst + 4) (src + 4) (movs32 dst src m)"

fun rep_movsl_down :: "nat \<Rightarrow> u4 \<Rightarrow> u4 \<Rightarrow> memory \<Rightarrow> memory" where
  "rep_movsl_down 0 dst src m = m"
| "rep_movsl_down (Suc n) dst src m = rep_movsl_down n (dst - 4) (src - 4) (movs32 dst src m)"

fun rep_stosl :: "nat \<Rightarrow> u4 \<Rightarrow> u4 \<Rightarrow> memory \<Rightarrow> memory" where
  "rep_stosl 0 dst v m = m"
| "rep_stosl (Suc n) dst v m = rep_stosl n (dst + 4) v (write32 m dst v)"

definition jxbytecpy :: "u4 \<Rightarrow> u4 \<Rightarrow> jint \<Rightarrow> memory \<Rightarrow> memory" where
  "jxbytecpy source target nbytes m = rep_movsb (unat nbytes) target source m"

definition jxwordcpy :: "u4 \<Rightarrow> u4 \<Rightarrow> jint \<Rightarrow> memory \<Rightarrow> memory" where
  "jxwordcpy source target nwords m = rep_movsl (unat nwords) target source m"

text \<open>\<^verbatim>\<open>jxwmemset\<close>: a byte count; an odd byte, then an odd half word, then whole words are stored.\<close>

definition jxwmemset :: "u4 \<Rightarrow> u2 \<Rightarrow> jint \<Rightarrow> memory \<Rightarrow> memory" where
  "jxwmemset p what nbytes m =
     (let eax = ucast what OR push_bit 16 (ucast what) :: u4;
          (p1, m1) = (if odd nbytes then (p + 1, m(p := ucast eax)) else (p, m));
          n2 = nbytes div 2;
          (p2, m2) = (if odd n2 then (p1 + 2, write16 m1 p1 (ucast eax)) else (p1, m1))
      in rep_stosl (unat (n2 div 2)) p2 eax m2)"

text \<open>\<^verbatim>\<open>memory_move\<close>: upwards with a byte and a half word first, or downwards with the odd byte, the odd
  half word and the words from the end.\<close>

definition move_up :: "u4 \<Rightarrow> u4 \<Rightarrow> jint \<Rightarrow> memory \<Rightarrow> memory" where
  "move_up dst src count m =
     (let (d1, s1, m1) = (if odd count then (dst + 1, src + 1, movs8 dst src m) else (dst, src, m));
          c2 = count div 2;
          (d2, s2, m2) = (if odd c2 then (d1 + 2, s1 + 2, movs16 d1 s1 m1) else (d1, s1, m1))
      in rep_movsl (unat (c2 div 2)) d2 s2 m2)"

definition move_down :: "u4 \<Rightarrow> u4 \<Rightarrow> jint \<Rightarrow> memory \<Rightarrow> memory" where
  "move_down dst src count m =
     (let di = count - 4 + dst; si = count - 4 + src;
          (d1, s1, m1) = (if odd count then (di - 1, si - 1, movs8 (di + 3) (si + 3) m) else (di, si, m));
          c2 = count div 2;
          (d2, s2, m2) = (if odd c2 then (d1 - 2, s1 - 2, movs16 (d1 + 2) (s1 + 2) m1) else (d1, s1, m1))
      in rep_movsl_down (unat (c2 div 2)) d2 s2 m2)"

subsection \<open>The reference\<close>

text \<open>The reference: \<open>n\<close> bytes from \<open>s\<close> appear at \<open>d\<close> as they were before the copy, everything
  else is unchanged.\<close>

definition move_spec :: "u4 \<Rightarrow> u4 \<Rightarrow> nat \<Rightarrow> memory \<Rightarrow> memory" where
  "move_spec d s n m = (\<lambda>a. if unat (a - d) < n then m (a - d + s) else m a)"

lemma unat_plus: "unat (x::u4) + k < 4294967296 \<Longrightarrow> unat (x + of_nat k) = unat x + k"
  by (simp only: unat_word_ariths) (simp add: unat_of_nat)

lemma small_cases:
  assumes "unat (x::u4) < n" "n \<le> 4"
  shows "x = 0 \<or> n > 1 \<and> x = 1 \<or> n > 2 \<and> x = 2 \<or> n > 3 \<and> x = 3"
proof -
  have "unat x = 0 \<or> n > 1 \<and> unat x = 1 \<or> n > 2 \<and> unat x = 2 \<or> n > 3 \<and> unat x = 3" using assms by linarith
  moreover have "(x = 0) = (unat x = 0)" "(x = 1) = (unat x = 1)" "(x = 2) = (unat x = 2)" "(x = 3) = (unat x = 3)"
    by (simp_all add: word_unat_eq_iff)
  ultimately show ?thesis by argo
qed

lemma movs8_spec: "movs8 d s m = move_spec d s 1 m"
proof
  fix a show "movs8 d s m a = move_spec d s 1 m a"
    using small_cases [of "a - d" 1] by (auto simp: movs8_def move_spec_def)
qed

lemma movs16_spec: "movs16 d s m = move_spec d s 2 m"
proof
  fix a
  show "movs16 d s m a = move_spec d s 2 m a"
  proof (cases "unat (a - d) < 2")
    case True
    then consider "a = d" | "a = d + 1" using small_cases [of "a - d" 2] by (auto simp: algebra_simps)
    then show ?thesis
      by cases (simp_all add: movs16_def move_spec_def write16_def bytes_read16 add.commute)
  next
    case False
    then have "a \<noteq> d" "a \<noteq> d + 1" by auto
    then show ?thesis using False by (simp add: movs16_def move_spec_def write16_def)
  qed
qed

lemma movs32_spec: "movs32 d s m = move_spec d s 4 m"
proof
  fix a
  show "movs32 d s m a = move_spec d s 4 m a"
  proof (cases "unat (a - d) < 4")
    case True
    then consider "a = d" | "a = d + 1" | "a = d + 2" | "a = d + 3"
      using small_cases [of "a - d" 4] by (auto simp: algebra_simps)
    then show ?thesis
      by cases (simp_all add: movs32_def move_spec_def write32_def bytes_read32 add.commute [of _ s])
  next
    case False
    then have "a \<noteq> d" "a \<noteq> d + 1" "a \<noteq> d + 2" "a \<noteq> d + 3" by auto
    then show ?thesis using False by (simp add: movs32_def move_spec_def write32_def)
  qed
qed

text \<open>Two copies in a row are one longer copy when the second does not read what the first wrote:
  upwards if the target is below the source, downwards if it is above.\<close>

lemma move_spec_up:
  assumes "unat d \<le> unat s" "unat s + k + n < 4294967296"
  shows "move_spec (d + of_nat k) (s + of_nat k) n (move_spec d s k m) = move_spec d s (k + n) m"
proof
  fix a
  define x where "x = a - d"
  have k: "k < 4294967296" using assms by simp
  have a: "a = d + x" by (simp add: x_def)
  note u = unat_minus [OF k, of x]
  have xl: "unat x < 4294967296" using unsigned_less [where ?'a = nat and w = x] by simp
  show "move_spec (d + of_nat k) (s + of_nat k) n (move_spec d s k m) a = move_spec d s (k + n) m a"
  proof (cases "k \<le> unat x \<and> unat x < k + n")
    case True
    have "unat (s + x) = unat s + unat x" using True assms by (simp only: unat_word_ariths) simp
    then have "d \<le> s + x" and "unat (s + x - d) = unat s + unat x - unat d"
      using assms(1) by (simp_all add: word_le_nat_alt unat_sub)
    then have "\<not> unat (x + s - d) < k" using True assms(1) by (simp only: add.commute [of x s]) linarith
    moreover have "unat x - k < n" using True by linarith
    ultimately show ?thesis unfolding a using True u by (simp add: move_spec_def)
  next
    case False
    then have "\<not> unat (x - of_nat k) < n" using u assms xl by (auto split: if_splits)
    then show ?thesis unfolding a using False by (auto simp: move_spec_def)
  qed
qed

lemma move_spec_down:
  assumes "unat s \<le> unat d" "unat d + n + k < 4294967296"
  shows "move_spec d s n (move_spec (d + of_nat n) (s + of_nat n) k m) = move_spec d s (n + k) m"
proof
  fix a
  define x where "x = a - d"
  have n: "n < 4294967296" using assms by simp
  have a: "a = d + x" by (simp add: x_def)
  note u = unat_minus [OF n, of x]
  have xl: "unat x < 4294967296" using unsigned_less [where ?'a = nat and w = x] by simp
  show "move_spec d s n (move_spec (d + of_nat n) (s + of_nat n) k m) a = move_spec d s (n + k) m a"
  proof (cases "unat x < n")
    case True
    have sx: "unat (s + x) = unat s + unat x" using True assms by (simp only: unat_word_ariths) simp
    have dn: "unat (d + of_nat n) = unat d + n" using assms by (intro unat_plus) simp
    have "s + x - (d + of_nat n) = s + x - of_nat (unat d + n)" by simp
    then have "unat (s + x - (d + of_nat n)) = unat s + unat x + 4294967296 - (unat d + n)"
      using unat_minus [of "unat d + n" "s + x"] sx assms True by simp
    then have "\<not> unat (x + s - (d + of_nat n)) < k" using assms True by (simp add: add.commute)
    then show ?thesis unfolding a using True by (simp add: move_spec_def)
  next
    case False
    then show ?thesis unfolding a using u by (auto simp: move_spec_def)
  qed
qed

lemma move_spec_0: "move_spec d s 0 m = m"
  by (simp add: move_spec_def)


lemma rep_movsb_up:
  "unat d \<le> unat s \<Longrightarrow> unat s + n < 4294967296 \<Longrightarrow> rep_movsb n d s m = move_spec d s n m"
proof (induction n arbitrary: d s m)
  case (Suc n)
  have u: "unat (d + 1) = unat d + 1" "unat (s + 1) = unat s + 1"
    using Suc.prems unat_plus [of d 1] unat_plus [of s 1] by simp_all
  have "rep_movsb (Suc n) d s m = move_spec (d + 1) (s + 1) n (move_spec d s 1 m)"
    using Suc.prems u by (simp add: Suc.IH movs8_spec)
  also have "\<dots> = move_spec d s (1 + n) m"
    using move_spec_up [of d s 1 n m] Suc.prems by simp
  finally show ?case by simp
qed (simp add: move_spec_0)

lemma rep_movsl_up:
  "unat d \<le> unat s \<Longrightarrow> unat s + 4 * n < 4294967296 \<Longrightarrow> rep_movsl n d s m = move_spec d s (4 * n) m"
proof (induction n arbitrary: d s m)
  case (Suc n)
  have u: "unat (d + 4) = unat d + 4" "unat (s + 4) = unat s + 4"
    using Suc.prems unat_plus [of d 4] unat_plus [of s 4] by simp_all
  have "rep_movsl (Suc n) d s m = move_spec (d + 4) (s + 4) (4 * n) (move_spec d s 4 m)"
    using Suc.prems u by (simp add: Suc.IH movs32_spec)
  also have "\<dots> = move_spec d s (4 + 4 * n) m"
    using move_spec_up [of d s 4 "4 * n" m] Suc.prems by simp
  finally show ?case by simp
qed (simp add: move_spec_0)

lemma rep_movsl_down_spec:
  "unat s \<le> unat d \<Longrightarrow> unat d + 4 * n < 4294967296 \<Longrightarrow>
   rep_movsl_down n (d + of_nat (4 * n) - 4) (s + of_nat (4 * n) - 4) m = move_spec d s (4 * n) m"
proof (induction n arbitrary: m)
  case (Suc n)
  have "rep_movsl_down (Suc n) (d + of_nat (4 * Suc n) - 4) (s + of_nat (4 * Suc n) - 4) m =
     rep_movsl_down n (d + of_nat (4 * n) - 4) (s + of_nat (4 * n) - 4) (movs32 (d + of_nat (4 * n)) (s + of_nat (4 * n)) m)"
    by (simp add: algebra_simps)
  also have "\<dots> = move_spec d s (4 * n) (move_spec (d + of_nat (4 * n)) (s + of_nat (4 * n)) 4 m)"
    using Suc.prems by (simp only: movs32_spec) (rule Suc.IH, simp_all)
  also have "\<dots> = move_spec d s (4 * n + 4) m"
    using Suc.prems by (intro move_spec_down) simp_all
  finally show ?case by (simp add: add.commute)
qed (simp add: move_spec_0)

text \<open>The byte count, split as the shifts of the assembler code do it.\<close>

lemma count_split:
  fixes c :: u4
  shows "unat c = (if odd c then 1 else 0) + (if odd (c div 2) then 2 else 0) + 4 * unat (c div 2 div 2)"
proof -
  have e: "unat (c div 2) = unat c div 2" "unat (c div 2 div 2) = unat c div 2 div 2"
    "odd c = odd (unat c)" "odd (c div 2) = odd (unat c div 2)"
    by (simp_all add: unat_div bit_0 [symmetric] bit_unsigned_iff bit_Suc [symmetric])
  show ?thesis unfolding e by presburger
qed

lemma move_up_spec:
  assumes "unat d \<le> unat s" "unat s + unat c < 4294967296"
  shows "move_up d s c m = move_spec d s (unat c) m"
proof -
  define b0 where "b0 = (if odd c then 1 else 0 :: nat)"
  define b1 where "b1 = (if odd (c div 2) then 2 else 0 :: nat)"
  define q where "q = unat (c div 2 div 2)"
  have c: "unat c = b0 + b1 + 4 * q" using count_split [of c] by (simp add: b0_def b1_def q_def)
  have u: "unat (d + of_nat b0) = unat d + b0" "unat (s + of_nat b0) = unat s + b0"
    "unat (d + of_nat (b0 + b1)) = unat d + (b0 + b1)" "unat (s + of_nat (b0 + b1)) = unat s + (b0 + b1)"
    using assms c by (auto intro!: unat_plus simp del: of_nat_add)
  have "move_up d s c m = rep_movsl q (d + of_nat (b0 + b1)) (s + of_nat (b0 + b1))
     (move_spec (d + of_nat b0) (s + of_nat b0) b1 (move_spec d s b0 m))"
    by (simp add: move_up_def b0_def b1_def q_def movs8_spec movs16_spec move_spec_0 Let_def algebra_simps)
  also have "\<dots> = rep_movsl q (d + of_nat (b0 + b1)) (s + of_nat (b0 + b1)) (move_spec d s (b0 + b1) m)"
    using assms c by (subst move_spec_up) simp_all
  also have "\<dots> = move_spec (d + of_nat (b0 + b1)) (s + of_nat (b0 + b1)) (4 * q) (move_spec d s (b0 + b1) m)"
    using assms c u by (intro rep_movsl_up) simp_all
  also have "\<dots> = move_spec d s (b0 + b1 + 4 * q) m"
    using assms c by (intro move_spec_up) simp_all
  finally show ?thesis by (simp add: c)
qed

lemma move_down_spec:
  assumes "unat s \<le> unat d" "unat d + unat c < 4294967296"
  shows "move_down d s c m = move_spec d s (unat c) m"
proof -
  define b0 where "b0 = (if odd c then 1 else 0 :: nat)"
  define b1 where "b1 = (if odd (c div 2) then 2 else 0 :: nat)"
  define q where "q = unat (c div 2 div 2)"
  have c: "unat c = b0 + b1 + 4 * q" using count_split [of c] by (simp add: b0_def b1_def q_def)
  have cw: "c = of_nat b0 + of_nat b1 + of_nat (4 * q)"
  proof -
    have "c = of_nat (unat c)" by simp
    also have "\<dots> = of_nat b0 + of_nat b1 + of_nat (4 * q)" unfolding c by simp
    finally show ?thesis .
  qed
  define Q where "Q = (of_nat (4 * q) :: u4)"
  have di: "c - 4 + d = d + Q + of_nat b0 + of_nat b1 - 4" and si: "c - 4 + s = s + Q + of_nat b0 + of_nat b1 - 4"
    by (subst cw, simp add: Q_def algebra_simps)+
  have u: "unat (d + of_nat (4 * q)) = unat d + 4 * q" "unat (s + of_nat (4 * q)) = unat s + 4 * q"
    using assms c by (auto intro!: unat_plus simp del: of_nat_mult)
  have "move_down d s c m = rep_movsl_down q (d + of_nat (4 * q) - 4) (s + of_nat (4 * q) - 4)
     (move_spec (d + of_nat (4 * q)) (s + of_nat (4 * q)) b1
       (move_spec (d + of_nat (4 * q + b1)) (s + of_nat (4 * q + b1)) b0 m))"
    unfolding move_down_def Let_def di si q_def [symmetric] Q_def [symmetric] of_nat_add
    by (simp add: b0_def b1_def movs8_spec movs16_spec move_spec_0 algebra_simps)
  also have "\<dots> = rep_movsl_down q (d + of_nat (4 * q) - 4) (s + of_nat (4 * q) - 4)
     (move_spec (d + of_nat (4 * q)) (s + of_nat (4 * q)) (b1 + b0) m)"
    using move_spec_down [of "s + of_nat (4 * q)" "d + of_nat (4 * q)" b1 b0 m] assms c u by (simp add: add.assoc)
  also have "\<dots> = move_spec d s (4 * q) (move_spec (d + of_nat (4 * q)) (s + of_nat (4 * q)) (b1 + b0) m)"
    using assms c by (intro rep_movsl_down_spec) simp_all
  also have "\<dots> = move_spec d s (4 * q + (b1 + b0)) m"
    using assms c by (intro move_spec_down) simp_all
  finally show ?thesis by (simp add: c ac_simps)
qed

subsection \<open>What a routine leaves alone\<close>

lemma outside_split:
  fixes a p :: u4
  assumes "\<not> unat (a - p) < k + n" "k + n < 4294967296"
  shows "\<not> unat (a - p) < k" "\<not> unat (a - (p + of_nat k)) < n"
proof -
  show "\<not> unat (a - p) < k" using assms by simp
  have e: "a - (p + of_nat k) = (a - p) - of_nat k" by simp
  show "\<not> unat (a - (p + of_nat k)) < n" unfolding e using assms unat_minus [of k "a - p"] by simp
qed

lemma outside_sub:
  fixes a p :: u4
  assumes "\<not> unat (a - p) < sz" "off + n \<le> sz" "sz < 4294967296"
  shows "\<not> unat (a - (p + of_nat off)) < n"
  using outside_split(2) [of a p off n] assms by simp

lemma write16_outside: "\<not> unat (a - p) < 2 \<Longrightarrow> write16 m p v a = m a"
proof -
  assume "\<not> unat (a - p) < 2"
  then have "a \<noteq> p" "a \<noteq> p + 1" by auto
  then show ?thesis by (simp add: write16_def)
qed

lemma write32_outside: "\<not> unat (a - p) < 4 \<Longrightarrow> write32 m p v a = m a"
proof -
  assume "\<not> unat (a - p) < 4"
  then have "a \<noteq> p" "a \<noteq> p + 1" "a \<noteq> p + 2" "a \<noteq> p + 3" by auto
  then show ?thesis by (rule write32_other)
qed

lemma byte_outside: "\<not> unat (a - p) < 1 \<Longrightarrow> (m(p := v)) a = m a"
  by auto

lemma rep_movsb_outside:
  "\<not> unat (a - d) < n \<Longrightarrow> n < 4294967296 \<Longrightarrow> rep_movsb n d s m a = m a"
proof (induction n arbitrary: d s m)
  case (Suc n)
  have "\<not> unat (a - d) < 1" "\<not> unat (a - (d + 1)) < n" using outside_split [of a d 1 n] Suc.prems by simp_all
  then show ?case using Suc.IH [of "d + 1" "s + 1" "movs8 d s m"] Suc.prems byte_outside [of a d m "m s"]
    by (simp add: movs8_def del: fun_upd_apply)
qed simp

lemma rep_movsl_outside:
  "\<not> unat (a - d) < 4 * n \<Longrightarrow> 4 * n < 4294967296 \<Longrightarrow> rep_movsl n d s m a = m a"
proof (induction n arbitrary: d s m)
  case (Suc n)
  have "\<not> unat (a - d) < 4" "\<not> unat (a - (d + 4)) < 4 * n" using outside_split [of a d 4 "4 * n"] Suc.prems by simp_all
  then show ?case using Suc.IH [of "d + 4" "s + 4" "movs32 d s m"] Suc.prems write32_outside by (simp add: movs32_def)
qed simp

lemma rep_stosl_outside:
  "\<not> unat (a - d) < 4 * n \<Longrightarrow> 4 * n < 4294967296 \<Longrightarrow> rep_stosl n d v m a = m a"
proof (induction n arbitrary: d m)
  case (Suc n)
  have "\<not> unat (a - d) < 4" "\<not> unat (a - (d + 4)) < 4 * n" using outside_split [of a d 4 "4 * n"] Suc.prems by simp_all
  then show ?case using Suc.IH [of "d + 4" "write32 m d v"] Suc.prems write32_outside by simp
qed simp

lemma jxwmemset_outside:
  assumes "\<not> unat (a - p) < unat nb"
  shows "jxwmemset p w nb m a = m a"
proof -
  define b0 where "b0 = (if odd nb then 1 else 0 :: nat)"
  define b1 where "b1 = (if odd (nb div 2) then 2 else 0 :: nat)"
  define q where "q = unat (nb div 2 div 2)"
  have c: "unat nb = b0 + (b1 + 4 * q)" using count_split [of nb] by (simp add: b0_def b1_def q_def)
  have lim: "unat nb < 4294967296" using unsigned_less [where ?'a = nat and w = nb] by simp
  have o1: "\<not> unat (a - p) < b0" "\<not> unat (a - (p + of_nat b0)) < b1 + 4 * q"
    using outside_split [of a p b0 "b1 + 4 * q"] assms lim c by simp_all
  then have o2: "\<not> unat (a - (p + of_nat b0)) < b1" "\<not> unat (a - (p + of_nat b0 + of_nat b1)) < 4 * q"
    using outside_split [of a "p + of_nat b0" b1 "4 * q"] lim c by simp_all
  have q4: "4 * q < 4294967296" using lim c by simp
  define e where "e = (ucast w OR push_bit 16 (ucast w) :: u4)"
  define m1 where "m1 = (if odd nb then m(p := ucast e) else m)"
  define m2 where "m2 = (if odd (nb div 2) then write16 m1 (p + of_nat b0) (ucast e) else m1)"
  have "jxwmemset p w nb m = rep_stosl q (p + of_nat b0 + of_nat b1) e m2"
    by (simp add: jxwmemset_def Let_def e_def m1_def m2_def b0_def b1_def q_def)
  moreover have "m1 a = m a" using o1(1) by (auto simp: m1_def b0_def)
  moreover have "m2 a = m1 a" using o2(1) write16_outside by (auto simp: m2_def b1_def)
  ultimately show ?thesis using rep_stosl_outside [OF o2(2) q4] by simp
qed

lemma move_spec_outside: "\<not> unat (a - d) < n \<Longrightarrow> move_spec d s n m a = m a"
  by (simp add: move_spec_def)

end
