(* ===== verification/Memory_Access.thy ===== *)
theory Memory_Access
  imports Memory_Obj Block_Copy
begin

section \<open>Memory objects: access (Interface/zero\_Memory\_org.c)\<close>

text \<open>
  The operations that read and write through a memory object, and the copy loops they are built
  on (theory \<open>Block_Copy\<close>).  Index arithmetic is on 32 bit words; a comparison
  is signed or unsigned as C's conversions make it: \<^verbatim>\<open>size / sizeof(t)\<close> is
  unsigned and so is every comparison with it, comparisons between two \<^verbatim>\<open>jint\<close> values are signed.
  \<^verbatim>\<open>memory_getBigEndian32\<close> and \<^verbatim>\<open>memory_setBigEndian32\<close> use an inline assembler statement without an
  input operand, whose effect the C code does not determine; they are not modelled.
\<close>

unbundle bit_operations_syntax

subsection \<open>Physical memory\<close>

abbreviation ram :: "memst \<Rightarrow> memory" where
  "ram s \<equiv> mem (blocks s)"

definition set_ram :: "memory \<Rightarrow> memst \<Rightarrow> memst" where
  "set_ram m s = s\<lparr>blocks := (blocks s)\<lparr>mem := m\<rparr>\<rparr>"

subsection \<open>Reading and writing single values\<close>

abbreviation out_of_bounds :: "'a res" where
  "out_of_bounds \<equiv> Fault (JavaThrow ''MemoryIndexOutOfBounds'')"

definition memory_set8 :: "MemoryProxy option \<Rightarrow> jint \<Rightarrow> u1 \<Rightarrow> memst \<Rightarrow> memst res" where
  "memory_set8 self where' what s =
     CHECK_NULL_PTR self (\<lambda>self. CHECKVALID self s
       (rassert (mp_mem self \<noteq> 0) ''ptr != NULL''
         (if sint where' \<ge> sint (mp_size self) then out_of_bounds
          else Ok (set_ram ((ram s)(mp_mem self + where' := what)) s))))"

definition memory_get8 :: "MemoryProxy option \<Rightarrow> jint \<Rightarrow> memst \<Rightarrow> jint res" where
  "memory_get8 self where' s =
     (case self of
        None \<Rightarrow> Fault (SysPanic ''STRANGE NULL'')
      | Some self \<Rightarrow> CHECKVALID self s
          (if sint where' \<ge> sint (mp_size self) \<or> sint where' < 0 then out_of_bounds
           else Ok (scast (ram s (mp_mem self + where')))))"

definition memory_set16 :: "MemoryProxy option \<Rightarrow> jint \<Rightarrow> u2 \<Rightarrow> memst \<Rightarrow> memst res" where
  "memory_set16 self where' what s =
     CHECK_NULL_PTR self (\<lambda>self. CHECKVALID self s
       (if where' \<ge> mp_size self div 2 then out_of_bounds
        else Ok (set_ram (write16 (ram s) (mp_mem self + where' * 2) what) s)))"

definition memory_get16 :: "MemoryProxy option \<Rightarrow> jint \<Rightarrow> memst \<Rightarrow> jint res" where
  "memory_get16 self where' s =
     CHECK_NULL_PTR self (\<lambda>self. CHECKVALID self s
       (if where' \<ge> mp_size self div 2 then out_of_bounds
        else Ok (ucast (read16 (ram s) (mp_mem self + where' * 2)))))"

text \<open>\<^verbatim>\<open>memory_set32\<close> compares with the arithmetic shift \<^verbatim>\<open>size >> 2\<close> and has no null check.\<close>

definition memory_set32 :: "MemoryProxy \<Rightarrow> jint \<Rightarrow> jint \<Rightarrow> memst \<Rightarrow> memst res" where
  "memory_set32 self where' what s =
     CHECKVALID self s
       (if sint where' \<ge> sint (mp_size self) div 4 then Fault (JavaThrow ''RuntimeException'')
        else Ok (set_ram (write32 (ram s) (mp_mem self + where' * 4) what) s))"

definition memory_get32 :: "MemoryProxy \<Rightarrow> jint \<Rightarrow> memst \<Rightarrow> jint res" where
  "memory_get32 self where' s =
     CHECKVALID self s
       (if where' \<ge> mp_size self div 4 then Fault (SysPanic ''Reading Memory access out of range'')
        else Ok (read32 (ram s) (mp_mem self + where' * 4)))"

subsection \<open>Filling\<close>

definition memory_fill16 :: "MemoryProxy option \<Rightarrow> u2 \<Rightarrow> jint \<Rightarrow> jint \<Rightarrow> memst \<Rightarrow> memst res" where
  "memory_fill16 self what where' len s =
     CHECK_NULL_PTR self (\<lambda>self. CHECKVALID self s
       (if where' + len > mp_size self div 2 then out_of_bounds
        else Ok (set_ram (jxwmemset (mp_mem self + where' * 2) what (len * 2) (ram s)) s)))"

fun fill32_loop :: "nat \<Rightarrow> u4 \<Rightarrow> jint \<Rightarrow> memory \<Rightarrow> memory" where
  "fill32_loop 0 p what m = m"
| "fill32_loop (Suc n) p what m = fill32_loop n (p + 4) what (write32 m p what)"

definition memory_fill32 :: "MemoryProxy option \<Rightarrow> jint \<Rightarrow> jint \<Rightarrow> jint \<Rightarrow> memst \<Rightarrow> memst res" where
  "memory_fill32 self what where' len s =
     CHECK_NULL_PTR self (\<lambda>self. CHECKVALID self s
       (if where' + len > mp_size self div 4 then out_of_bounds
        else Ok (set_ram (fill32_loop (nat (sint len)) (mp_mem self + where' * 4) what (ram s)) s)))"

definition memory_clear :: "MemoryProxy option \<Rightarrow> memst \<Rightarrow> memst res" where
  "memory_clear self s =
     CHECK_NULL_PTR self (\<lambda>self. CHECKVALID self s
       (Ok (set_ram (jxwmemset (mp_mem self) 0 (mp_size self div 4) (ram s)) s)))"

subsection \<open>Copying\<close>

definition memory_move :: "MemoryProxy \<Rightarrow> jint \<Rightarrow> jint \<Rightarrow> jint \<Rightarrow> memst \<Rightarrow> memst res" where
  "memory_move self dst' src' count s =
     (let dst = mp_mem self + dst'; src = mp_mem self + src'
      in if sint (dst' + count) > sint (mp_size self) \<or> sint (src' + count) > sint (mp_size self) then out_of_bounds
         else Ok (set_ram (if dst < src then move_up dst src count (ram s) else move_down dst src count (ram s)) s))"

definition memory_getStartAddress :: "MemoryProxy \<Rightarrow> memst \<Rightarrow> jint res" where
  "memory_getStartAddress self s = CHECKVALID self s (Ok (mp_mem self))"

definition memory_size :: "MemoryProxy \<Rightarrow> jint" where
  "memory_size self = mp_size self"

definition memory_copy :: "MemoryProxy option \<Rightarrow> jint \<Rightarrow> jint \<Rightarrow> jint \<Rightarrow> memst \<Rightarrow> memst res" where
  "memory_copy self from to len s =
     CHECK_NULL_PTR self (\<lambda>self. CHECKVALID self s
       (if sint (to + len) > sint (mp_size self) then Fault (SysPanic ''to+len out of range'')
        else if sint (from + len) > sint (mp_size self) then Fault (SysPanic ''from+len out of range'')
        else Ok (set_ram (rep_movsb (nat (sint len)) (mp_mem self + to) (mp_mem self + from) (ram s)) s)))"

text \<open>A Java byte array: its length and the address of its elements, which are 32 bits wide.\<close>

record ArrayDesc =
  arr_size :: jint
  arr_data :: u4

fun bytes_to_array :: "nat \<Rightarrow> u4 \<Rightarrow> u4 \<Rightarrow> memory \<Rightarrow> memory" where
  "bytes_to_array 0 dst src m = m"
| "bytes_to_array (Suc n) dst src m = bytes_to_array n (dst + 4) (src + 1) (write32 m dst (scast (m src)))"

fun array_to_bytes :: "nat \<Rightarrow> u4 \<Rightarrow> u4 \<Rightarrow> memory \<Rightarrow> memory" where
  "array_to_bytes 0 dst src m = m"
| "array_to_bytes (Suc n) dst src m = array_to_bytes n (dst + 1) (src + 4) (m(dst := ucast (read32 m src)))"

definition memory_copyToByteArray ::
  "MemoryProxy option \<Rightarrow> ArrayDesc option \<Rightarrow> jint \<Rightarrow> jint \<Rightarrow> jint \<Rightarrow> memst \<Rightarrow> memst res" where
  "memory_copyToByteArray self bytes array_offset mem_offset len s =
     CHECK_NULL_PTR self (\<lambda>self. CHECK_NULL_PTR bytes (\<lambda>bytes. CHECKVALID self s
       (if sint (mem_offset + len) > sint (mp_size self) then out_of_bounds
        else if sint (array_offset + len) > sint (arr_size bytes) then out_of_bounds
        else Ok (set_ram (bytes_to_array (nat (sint len)) (arr_data bytes + array_offset * 4)
                            (mp_mem self + mem_offset) (ram s)) s))))"

definition memory_copyFromByteArray ::
  "MemoryProxy option \<Rightarrow> ArrayDesc option \<Rightarrow> jint \<Rightarrow> jint \<Rightarrow> jint \<Rightarrow> memst \<Rightarrow> memst res" where
  "memory_copyFromByteArray self bytes array_offset mem_offset len s =
     CHECK_NULL_PTR self (\<lambda>self. CHECK_NULL_PTR bytes (\<lambda>bytes. CHECKVALID self s
       (if sint (mem_offset + len) > sint (mp_size self) then out_of_bounds
        else if sint (array_offset + len) > sint (arr_size bytes) then out_of_bounds
        else Ok (set_ram (array_to_bytes (nat (sint len)) (mp_mem self + mem_offset)
                            (arr_data bytes + array_offset * 4) (ram s)) s))))"

text \<open>The choice between word and byte copy that \<^verbatim>\<open>memory_copyToMemory\<close> and
  \<^verbatim>\<open>memory_copyFromMemory\<close> share; \<^verbatim>\<open>len >> 2\<close> is an arithmetic shift.\<close>

definition copy_range :: "u4 \<Rightarrow> u4 \<Rightarrow> jint \<Rightarrow> memory \<Rightarrow> memory" where
  "copy_range smem dmem len m =
     (if (smem OR dmem OR len) AND 3 = 0 then jxwordcpy smem dmem (word_of_int (sint len div 4)) m
      else jxbytecpy smem dmem len m)"

definition memory_copyToMemory ::
  "MemoryProxy option \<Rightarrow> MemoryProxy option \<Rightarrow> jint \<Rightarrow> jint \<Rightarrow> jint \<Rightarrow> memst \<Rightarrow> memst res" where
  "memory_copyToMemory self dst srcOffset dstOffset len s =
     CHECK_NULL_PTR self (\<lambda>self. CHECK_NULL_PTR dst (\<lambda>dst. CHECKVALID self s
       (if sint (dstOffset + len) > sint (mp_size dst) \<or> sint (srcOffset + len) > sint (mp_size self) then out_of_bounds
        else Ok (set_ram (copy_range (mp_mem self + srcOffset) (mp_mem dst + dstOffset) len (ram s)) s))))"

definition memory_copyFromMemory ::
  "MemoryProxy option \<Rightarrow> MemoryProxy option \<Rightarrow> jint \<Rightarrow> jint \<Rightarrow> jint \<Rightarrow> memst \<Rightarrow> memst res" where
  "memory_copyFromMemory self src srcOffset dstOffset len s =
     CHECK_NULL_PTR self (\<lambda>self. CHECK_NULL_PTR src (\<lambda>src. CHECKVALID self s (CHECKVALID src s
       (if sint (dstOffset + len) > sint (mp_size self) \<or> sint (srcOffset + len) > sint (mp_size src) then out_of_bounds
        else Ok (set_ram (copy_range (mp_mem src + srcOffset) (mp_mem self + dstOffset) len (ram s)) s)))))"

subsection \<open>Byte order\<close>

definition memory_getLittleEndian32 :: "MemoryProxy option \<Rightarrow> jint \<Rightarrow> memst \<Rightarrow> jint res" where
  "memory_getLittleEndian32 self offset s =
     CHECK_NULL_PTR self (\<lambda>self. CHECKVALID self s
       (if sint (offset + 4) > sint (mp_size self) then out_of_bounds
        else Ok (read32 (ram s) (mp_mem self + offset))))"

definition memory_setLittleEndian32 :: "MemoryProxy option \<Rightarrow> jint \<Rightarrow> jint \<Rightarrow> memst \<Rightarrow> memst res" where
  "memory_setLittleEndian32 self offset v s =
     CHECK_NULL_PTR self (\<lambda>self. CHECKVALID self s
       (if sint (offset + 4) > sint (mp_size self) then out_of_bounds
        else Ok (set_ram (write32 (ram s) (mp_mem self + offset) v) s)))"

definition memory_getLittleEndian16 :: "MemoryProxy option \<Rightarrow> jint \<Rightarrow> memst \<Rightarrow> jint res" where
  "memory_getLittleEndian16 self offset s =
     CHECK_NULL_PTR self (\<lambda>self. CHECKVALID self s
       (if sint (offset + 2) > sint (mp_size self) then out_of_bounds
        else Ok (ucast (read16 (ram s) (mp_mem self + offset)))))"

definition memory_setLittleEndian16 :: "MemoryProxy option \<Rightarrow> jint \<Rightarrow> u2 \<Rightarrow> memst \<Rightarrow> memst res" where
  "memory_setLittleEndian16 self offset v s =
     CHECK_NULL_PTR self (\<lambda>self. CHECKVALID self s
       (if sint (offset + 2) > sint (mp_size self) then out_of_bounds
        else Ok (set_ram (write16 (ram s) (mp_mem self + offset) v) s)))"

text \<open>\<^verbatim>\<open>((value & 0x00ff) << 8) | ((value & 0xff00) >> 8)\<close>, on an int.\<close>

definition swap16 :: "u4 \<Rightarrow> u4" where
  "swap16 v = push_bit 8 (v AND 0xff) OR drop_bit 8 (v AND 0xff00)"

definition memory_getBigEndian16 :: "MemoryProxy option \<Rightarrow> jint \<Rightarrow> memst \<Rightarrow> jint res" where
  "memory_getBigEndian16 self offset s =
     CHECK_NULL_PTR self (\<lambda>self. CHECKVALID self s
       (if sint (offset + 2) > sint (mp_size self) then out_of_bounds
        else Ok (swap16 (scast (read16 (ram s) (mp_mem self + offset))))))"

definition memory_setBigEndian16 :: "MemoryProxy option \<Rightarrow> jint \<Rightarrow> u2 \<Rightarrow> memst \<Rightarrow> memst res" where
  "memory_setBigEndian16 self offset v s =
     CHECK_NULL_PTR self (\<lambda>self. CHECKVALID self s
       (if sint (offset + 2) > sint (mp_size self) then out_of_bounds
        else Ok (set_ram (write16 (ram s) (mp_mem self + offset) (ucast (swap16 (scast v)))) s)))"

subsection \<open>Objects and ranges\<close>

text \<open>An object that lies in the address space and is smaller than 2 GB, so that its size is not
  negative as a \<^verbatim>\<open>jint\<close>.\<close>

definition sized :: "MemoryProxy \<Rightarrow> bool" where
  "sized p \<longleftrightarrow> unat (mp_size p) < 2147483648 \<and> unat (mp_mem p) + unat (mp_size p) < 4294967296"

definition inside :: "MemoryProxy \<Rightarrow> u4 \<Rightarrow> bool" where
  "inside p a \<longleftrightarrow> unat (a - mp_mem p) < unat (mp_size p)"

text \<open>\<open>span_ok p off len\<close>: the indices are not negative and their sum does not overflow.\<close>

definition span_ok :: "jint \<Rightarrow> jint \<Rightarrow> bool" where
  "span_ok off len \<longleftrightarrow> unat off + unat len < 2147483648"

lemma span_sum:
  assumes "span_ok off len"
  shows "unat (off + len) = unat off + unat len" "sint (off + len) = int (unat off) + int (unat len)"
    "sint off = int (unat off)" "sint len = int (unat len)"
proof -
  have "unat off + unat len < 2147483648" using assms by (simp add: span_ok_def)
  then show u: "unat (off + len) = unat off + unat len" by (simp only: unat_word_ariths) simp
  show "sint (off + len) = int (unat off) + int (unat len)"
    unfolding sint_u4 u using assms by (simp add: span_ok_def)
  show "sint off = int (unat off)" "sint len = int (unat len)"
    using assms by (simp_all add: sint_u4 span_ok_def)
qed

lemma sized_sint: "sized p \<Longrightarrow> sint (mp_size p) = int (unat (mp_size p))"
  by (simp add: sized_def sint_u4)

lemma bound_test:
  assumes "sized p" "span_ok off len"
  shows "(sint (off + len) > sint (mp_size p)) = (unat off + unat len > unat (mp_size p))"
  unfolding span_sum(2) [OF assms(2)] sized_sint [OF assms(1)] by linarith

lemma outside_span:
  assumes "sized p" "\<not> inside p a" "unat off + n \<le> unat (mp_size p)"
  shows "\<not> unat (a - (mp_mem p + off)) < n"
proof -
  have "\<not> unat (a - (mp_mem p + of_nat (unat off))) < n"
    by (rule outside_sub [of a "mp_mem p" "unat (mp_size p)"]) (use assms in \<open>auto simp: inside_def sized_def\<close>)
  then show ?thesis by simp
qed

lemma scaled_index:
  assumes "(x::u4) < y div k" "k = 2 \<or> k = 4"
  shows "unat (x * k) = unat x * unat k" "unat x * unat k + unat k \<le> unat y"
proof -
  have k: "unat k = 2 \<or> unat k = 4" using assms(2) by auto
  have x: "unat x < unat y div unat k" using assms(1) by (simp add: word_less_nat_alt unat_div)
  have yl: "unat y < 4294967296" using unsigned_less [where ?'a = nat and w = y] by simp
  show le: "unat x * unat k + unat k \<le> unat y" using x k by auto
  then show "unat (x * k) = unat x * unat k" using yl k by (simp only: unat_word_ariths) (auto simp: mod_less)
qed

subsection \<open>Moving\<close>

text \<open>C34: \<^verbatim>\<open>memory_move\<close> copies like \<^verbatim>\<open>memmove\<close>: for ranges inside the object, overlapping or not, the
  bytes of the source appear at the target as they were before, and no other byte changes.  Both
  assembler loops (upwards with leading byte and half word, downwards with trailing ones) agree with
  the one reference.\<close>

theorem memory_move_correct:
  assumes "sized p" "span_ok dst count" "span_ok src count"
    and "unat dst + unat count \<le> unat (mp_size p)" "unat src + unat count \<le> unat (mp_size p)"
  shows "memory_move p dst src count s =
     Ok (set_ram (move_spec (mp_mem p + dst) (mp_mem p + src) (unat count) (ram s)) s)"
proof -
  have lim: "unat (mp_mem p) + unat (mp_size p) < 4294967296" using assms(1) by (simp add: sized_def)
  have d: "unat (mp_mem p + dst) = unat (mp_mem p) + unat dst" "unat (mp_mem p + src) = unat (mp_mem p) + unat src"
    using lim assms(4,5) by (simp_all only: unat_word_ariths) simp_all
  have b: "\<not> sint (dst + count) > sint (mp_size p)" "\<not> sint (src + count) > sint (mp_size p)"
    using bound_test [OF assms(1,2)] bound_test [OF assms(1,3)] assms(4,5) by simp_all
  have "(if mp_mem p + dst < mp_mem p + src then move_up (mp_mem p + dst) (mp_mem p + src) count (ram s)
         else move_down (mp_mem p + dst) (mp_mem p + src) count (ram s)) =
     move_spec (mp_mem p + dst) (mp_mem p + src) (unat count) (ram s)"
    using d lim assms(4,5) by (auto intro!: move_up_spec move_down_spec simp: word_less_nat_alt)
  then show ?thesis using b by (simp add: memory_move_def Let_def)
qed

theorem memory_move_correct_witness:
  "\<forall>s. memory_move \<lparr>mp_size = 100, mp_mem = 0x1000, mp_dz = 0\<rparr> 3 0 10 s =
     Ok (set_ram (move_spec 0x1003 0x1000 10 (ram s)) s)"
proof
  fix s show "memory_move \<lparr>mp_size = 100, mp_mem = 0x1000, mp_dz = 0\<rparr> 3 0 10 s =
     Ok (set_ram (move_spec 0x1003 0x1000 10 (ram s)) s)"
    using memory_move_correct [of "\<lparr>mp_size = 100, mp_mem = 0x1000, mp_dz = 0\<rparr>" 3 10 0 s]
    by (simp add: sized_def span_ok_def)
qed

subsection \<open>Writes stay inside the object\<close>

datatype mem_write =
    Set8 jint u1 | Set16 jint u2 | Set32 jint jint
  | Fill16 u2 jint jint | Fill32 jint jint jint | Clear
  | Copy jint jint jint | Move jint jint jint
  | SetLE32 jint jint | SetLE16 jint u2 | SetBE16 jint u2
  | FromArray ArrayDesc jint jint jint
  | FromMemory MemoryProxy jint jint jint | ToMemory MemoryProxy jint jint jint

fun do_write :: "MemoryProxy \<Rightarrow> mem_write \<Rightarrow> memst \<Rightarrow> memst res" where
  "do_write p (Set8 w v) s = memory_set8 (Some p) w v s"
| "do_write p (Set16 w v) s = memory_set16 (Some p) w v s"
| "do_write p (Set32 w v) s = memory_set32 p w v s"
| "do_write p (Fill16 v w n) s = memory_fill16 (Some p) v w n s"
| "do_write p (Fill32 v w n) s = memory_fill32 (Some p) v w n s"
| "do_write p Clear s = memory_clear (Some p) s"
| "do_write p (Copy f t n) s = memory_copy (Some p) f t n s"
| "do_write p (Move d f n) s = memory_move p d f n s"
| "do_write p (SetLE32 w v) s = memory_setLittleEndian32 (Some p) w v s"
| "do_write p (SetLE16 w v) s = memory_setLittleEndian16 (Some p) w v s"
| "do_write p (SetBE16 w v) s = memory_setBigEndian16 (Some p) w v s"
| "do_write p (FromArray b ao mo n) s = memory_copyFromByteArray (Some p) (Some b) ao mo n s"
| "do_write p (FromMemory q so do n) s = memory_copyFromMemory (Some p) (Some q) so do n s"
| "do_write p (ToMemory q so do n) s = memory_copyToMemory (Some q) (Some p) so do n s"

fun write_span_ok :: "mem_write \<Rightarrow> bool" where
  "write_span_ok (Set8 w v) = span_ok w 1"
| "write_span_ok (Set16 w v) = True"
| "write_span_ok (Set32 w v) = span_ok w 1"
| "write_span_ok (Fill16 v w n) = span_ok w n"
| "write_span_ok (Fill32 v w n) = span_ok w n"
| "write_span_ok Clear = True"
| "write_span_ok (Copy f t n) = span_ok t n"
| "write_span_ok (Move d f n) = (span_ok d n \<and> span_ok f n)"
| "write_span_ok (SetLE32 w v) = span_ok w 4"
| "write_span_ok (SetLE16 w v) = span_ok w 2"
| "write_span_ok (SetBE16 w v) = span_ok w 2"
| "write_span_ok (FromArray b ao mo n) = span_ok mo n"
| "write_span_ok (FromMemory q so do n) = span_ok do n"
| "write_span_ok (ToMemory q so do n) = span_ok do n"

lemma set_ram_ram [simp]: "ram (set_ram m s) = m"
  by (simp add: set_ram_def)

lemma fill32_loop_stosl: "fill32_loop n p v m = rep_stosl n p v m"
  by (induction n arbitrary: p m) auto

lemma array_to_bytes_outside:
  "\<not> unat (a - d) < n \<Longrightarrow> n < 4294967296 \<Longrightarrow> array_to_bytes n d s m a = m a"
proof (induction n arbitrary: d s m)
  case (Suc n)
  have "\<not> unat (a - d) < 1" "\<not> unat (a - (d + 1)) < n" using outside_split [of a d 1 n] Suc.prems by simp_all
  then show ?case
    using Suc.IH [of "d + 1" "s + 4" "m(d := ucast (read32 m s))"] Suc.prems byte_outside [of a d m "ucast (read32 m s)"]
    by (simp del: fun_upd_apply)
qed simp

lemma copy_range_outside:
  assumes "\<not> unat (a - d) < unat len" "unat len < 2147483648"
  shows "copy_range q d len m a = m a"
proof -
  have "sint len div 4 = int (unat len div 4)" using assms(2) unfolding sint_u4 by (simp add: zdiv_int)
  then have "unat (word_of_int (sint len div 4) :: u4) = unat len div 4"
    using assms(2) by (simp add: unat_of_nat)
  then show ?thesis
    using assms by (auto simp: copy_range_def jxwordcpy_def jxbytecpy_def intro!: rep_movsl_outside rep_movsb_outside)
qed

lemmas access_simps = CHECK_NULL_PTR_def CHECKVALID_def rassert_def

lemma index_below:
  assumes "sized p" "span_ok w n" "\<not> sint (mp_size p) div k \<le> sint w" "0 < k"
  shows "int (unat w) < int (unat (mp_size p)) div k"
  using assms(3) unfolding span_sum(3) [OF assms(2)] sized_sint [OF assms(1)] by simp

lemma fill_span:
  assumes "span_ok w n" "w + n \<le> sz div k" "k = 2 \<or> k = 4"
  shows "unat (w * k) = unat w * unat k" "unat (n * k) = unat n * unat k" "unat w * unat k + unat n * unat k \<le> unat sz"
proof -
  have k: "unat k = 2 \<or> unat k = 4" using assms(3) by auto
  have szl: "unat sz < 4294967296" using unsigned_less [where ?'a = nat and w = sz] by simp
  have "unat w + unat n \<le> unat sz div unat k"
    using assms(2) span_sum(1) [OF assms(1)] by (simp add: word_le_nat_alt unat_div)
  then have "(unat w + unat n) * unat k \<le> unat sz div unat k * unat k" by (rule mult_le_mono1)
  also have "\<dots> \<le> unat sz" by (rule div_times_less_eq_dividend)
  finally show le: "unat w * unat k + unat n * unat k \<le> unat sz" by (simp add: add_mult_distrib)
  show "unat (w * k) = unat w * unat k" "unat (n * k) = unat n * unat k"
    using le szl by (simp_all only: unat_word_ariths) (auto simp: mod_less)
qed

lemma value_writes_inside:
  assumes p: "sized p" "\<not> inside p a"
  shows "memory_set8 (Some p) w v s = Ok s' \<Longrightarrow> span_ok w 1 \<Longrightarrow> ram s' a = ram s a"
    and "memory_set16 (Some p) w v2 s = Ok s' \<Longrightarrow> ram s' a = ram s a"
    and "memory_set32 p w v4 s = Ok s' \<Longrightarrow> span_ok w 1 \<Longrightarrow> ram s' a = ram s a"
proof -
  assume a: "memory_set8 (Some p) w v s = Ok s'" "span_ok w 1"
  then have g: "\<not> sint (mp_size p) div 1 \<le> sint w" and s': "s' = set_ram ((ram s)(mp_mem p + w := v)) s"
    by (auto simp: memory_set8_def access_simps split: if_splits)
  have "unat w + 1 \<le> unat (mp_size p)" using index_below [OF p(1) a(2) g zero_less_one] unfolding div_by_1 by linarith
  then show "ram s' a = ram s a"
    unfolding s' set_ram_ram using outside_span [OF p, of w 1] by (intro byte_outside) simp
next
  assume a: "memory_set16 (Some p) w v2 s = Ok s'"
  then have g: "w < mp_size p div 2" and s': "s' = set_ram (write16 (ram s) (mp_mem p + w * 2) v2) s"
    by (auto simp: memory_set16_def access_simps not_le split: if_splits)
  have "unat (w * 2) + 2 \<le> unat (mp_size p)" using scaled_index [OF g] by simp
  then show "ram s' a = ram s a" unfolding s' set_ram_ram using outside_span [OF p] by (intro write16_outside) simp
next
  assume a: "memory_set32 p w v4 s = Ok s'" "span_ok w 1"
  then have g: "\<not> sint (mp_size p) div 4 \<le> sint w" and s': "s' = set_ram (write32 (ram s) (mp_mem p + w * 4) v4) s"
    by (auto simp: memory_set32_def access_simps split: if_splits)
  have "int (unat w) < int (unat (mp_size p)) div 4" using index_below [OF p(1) a(2) g] by simp
  then have "unat w < unat (mp_size p) div 4" by linarith
  then have "w < mp_size p div 4" by (simp add: word_less_nat_alt unat_div)
  then have "unat (w * 4) + 4 \<le> unat (mp_size p)" using scaled_index [of w "mp_size p" 4] by simp
  then show "ram s' a = ram s a" unfolding s' set_ram_ram using outside_span [OF p] by (intro write32_outside) simp
qed

lemma fill_writes_inside:
  assumes p: "sized p" "\<not> inside p a"
  shows "memory_fill16 (Some p) v2 w n s = Ok s' \<Longrightarrow> span_ok w n \<Longrightarrow> ram s' a = ram s a"
    and "memory_fill32 (Some p) v4 w n s = Ok s' \<Longrightarrow> span_ok w n \<Longrightarrow> ram s' a = ram s a"
    and "memory_clear (Some p) s = Ok s' \<Longrightarrow> ram s' a = ram s a"
proof -
  assume a: "memory_fill16 (Some p) v2 w n s = Ok s'" "span_ok w n"
  then have g: "w + n \<le> mp_size p div 2" and s': "s' = set_ram (jxwmemset (mp_mem p + w * 2) v2 (n * 2) (ram s)) s"
    by (auto simp: memory_fill16_def access_simps not_less split: if_splits)
  have "unat (w * 2) + unat (n * 2) \<le> unat (mp_size p)" using fill_span [OF a(2) g] by simp
  then show "ram s' a = ram s a" unfolding s' set_ram_ram using outside_span [OF p] by (intro jxwmemset_outside) simp
next
  assume a: "memory_fill32 (Some p) v4 w n s = Ok s'" "span_ok w n"
  then have g: "w + n \<le> mp_size p div 4" and s': "s' = set_ram (fill32_loop (nat (sint n)) (mp_mem p + w * 4) v4 (ram s)) s"
    by (auto simp: memory_fill32_def access_simps not_less split: if_splits)
  have n: "nat (sint n) = unat n" using span_sum(4) [OF a(2)] by simp
  have f: "unat (w * 4) + 4 * unat n \<le> unat (mp_size p)" using fill_span [OF a(2) g] by simp
  then show "ram s' a = ram s a"
    unfolding s' set_ram_ram n fill32_loop_stosl using outside_span [OF p f] p(1)
    by (intro rep_stosl_outside) (simp_all add: sized_def)
next
  assume a: "memory_clear (Some p) s = Ok s'"
  then have s': "s' = set_ram (jxwmemset (mp_mem p) 0 (mp_size p div 4) (ram s)) s"
    by (auto simp: memory_clear_def access_simps split: if_splits)
  have "unat (0::u4) + unat (mp_size p div 4) \<le> unat (mp_size p)" by (simp add: unat_div)
  from outside_span [OF p this] show "ram s' a = ram s a"
    unfolding s' set_ram_ram by (intro jxwmemset_outside) simp
qed

lemma copy_writes_inside:
  assumes p: "sized p" "\<not> inside p a"
  shows "memory_copy (Some p) f t n s = Ok s' \<Longrightarrow> span_ok t n \<Longrightarrow> ram s' a = ram s a"
    and "memory_copyFromByteArray (Some p) (Some b) ao t n s = Ok s' \<Longrightarrow> span_ok t n \<Longrightarrow> ram s' a = ram s a"
    and "memory_copyFromMemory (Some p) (Some q) so t n s = Ok s' \<Longrightarrow> span_ok t n \<Longrightarrow> ram s' a = ram s a"
    and "memory_copyToMemory (Some q) (Some p) so t n s = Ok s' \<Longrightarrow> span_ok t n \<Longrightarrow> ram s' a = ram s a"
proof -
  have o: "\<not> unat (a - (mp_mem p + t)) < unat n" "nat (sint n) = unat n" "unat n < 4294967296" "unat n < 2147483648"
    if "span_ok t n" "\<not> sint (t + n) > sint (mp_size p)"
  proof -
    show "\<not> unat (a - (mp_mem p + t)) < unat n"
      using outside_span [OF p] that bound_test [OF p(1) that(1)] by simp
    show "nat (sint n) = unat n" using span_sum(4) [OF that(1)] by simp
    show "unat n < 4294967296" "unat n < 2147483648" using that(1) by (simp_all add: span_ok_def)
  qed
  { assume a: "memory_copy (Some p) f t n s = Ok s'" "span_ok t n"
    then have g: "\<not> sint (t + n) > sint (mp_size p)"
      and s': "s' = set_ram (rep_movsb (nat (sint n)) (mp_mem p + t) (mp_mem p + f) (ram s)) s"
      by (auto simp: memory_copy_def access_simps split: if_splits)
    show "ram s' a = ram s a" unfolding s' set_ram_ram o(2) [OF a(2) g] by (rule rep_movsb_outside [OF o(1,3) [OF a(2) g]]) }
  { assume a: "memory_copyFromByteArray (Some p) (Some b) ao t n s = Ok s'" "span_ok t n"
    then have g: "\<not> sint (t + n) > sint (mp_size p)"
      and s': "s' = set_ram (array_to_bytes (nat (sint n)) (mp_mem p + t) (arr_data b + ao * 4) (ram s)) s"
      by (auto simp: memory_copyFromByteArray_def access_simps split: if_splits)
    show "ram s' a = ram s a" unfolding s' set_ram_ram o(2) [OF a(2) g] by (rule array_to_bytes_outside [OF o(1,3) [OF a(2) g]]) }
  { assume a: "memory_copyFromMemory (Some p) (Some q) so t n s = Ok s'" "span_ok t n"
    then have g: "\<not> sint (t + n) > sint (mp_size p)"
      and s': "s' = set_ram (copy_range (mp_mem q + so) (mp_mem p + t) n (ram s)) s"
      by (auto simp: memory_copyFromMemory_def access_simps split: if_splits)
    show "ram s' a = ram s a" unfolding s' set_ram_ram by (rule copy_range_outside [OF o(1,4) [OF a(2) g]]) }
  { assume a: "memory_copyToMemory (Some q) (Some p) so t n s = Ok s'" "span_ok t n"
    then have g: "\<not> sint (t + n) > sint (mp_size p)"
      and s': "s' = set_ram (copy_range (mp_mem q + so) (mp_mem p + t) n (ram s)) s"
      by (auto simp: memory_copyToMemory_def access_simps split: if_splits)
    show "ram s' a = ram s a" unfolding s' set_ram_ram by (rule copy_range_outside [OF o(1,4) [OF a(2) g]]) }
qed

lemma move_inside:
  assumes p: "sized p" "\<not> inside p a" and m: "memory_move p d f n s = Ok s'" and sp: "span_ok d n" "span_ok f n"
  shows "ram s' a = ram s a"
proof -
  have "\<not> sint (d + n) > sint (mp_size p)" "\<not> sint (f + n) > sint (mp_size p)"
    using m by (auto simp: memory_move_def Let_def split: if_splits)
  then have b: "unat d + unat n \<le> unat (mp_size p)" "unat f + unat n \<le> unat (mp_size p)"
    using bound_test [OF p(1) sp(1)] bound_test [OF p(1) sp(2)] by simp_all
  have lim: "unat (mp_mem p) + unat (mp_size p) < 4294967296" using p(1) by (simp add: sized_def)
  have u: "unat (mp_mem p + d) = unat (mp_mem p) + unat d" "unat (mp_mem p + f) = unat (mp_mem p) + unat f"
    using lim b by (simp_all only: unat_word_ariths) simp_all
  have "ram s' = move_spec (mp_mem p + d) (mp_mem p + f) (unat n) (ram s)"
    using m u lim b by (auto simp: memory_move_def Let_def word_less_nat_alt move_up_spec move_down_spec split: if_splits)
  then show ?thesis using outside_span [OF p b(1)] by (simp add: move_spec_outside)
qed

lemma endian_writes_inside:
  assumes p: "sized p" "\<not> inside p a"
  shows "memory_setLittleEndian32 (Some p) w v4 s = Ok s' \<Longrightarrow> span_ok w 4 \<Longrightarrow> ram s' a = ram s a"
    and "memory_setLittleEndian16 (Some p) w v2 s = Ok s' \<Longrightarrow> span_ok w 2 \<Longrightarrow> ram s' a = ram s a"
    and "memory_setBigEndian16 (Some p) w v2 s = Ok s' \<Longrightarrow> span_ok w 2 \<Longrightarrow> ram s' a = ram s a"
proof -
  have o: "\<not> unat (a - (mp_mem p + w)) < unat k" if "span_ok w k" "\<not> sint (w + k) > sint (mp_size p)" for k
    using outside_span [OF p] that bound_test [OF p(1) that(1)] by simp
  { assume a: "memory_setLittleEndian32 (Some p) w v4 s = Ok s'" "span_ok w 4"
    then show "ram s' a = ram s a"
      using o [OF a(2)] by (auto simp: memory_setLittleEndian32_def access_simps write32_outside split: if_splits) }
  { assume a: "memory_setLittleEndian16 (Some p) w v2 s = Ok s'" "span_ok w 2"
    then show "ram s' a = ram s a"
      using o [OF a(2)] by (auto simp: memory_setLittleEndian16_def access_simps write16_outside split: if_splits) }
  { assume a: "memory_setBigEndian16 (Some p) w v2 s = Ok s'" "span_ok w 2"
    then show "ram s' a = ram s a"
      using o [OF a(2)] by (auto simp: memory_setBigEndian16_def access_simps write16_outside split: if_splits) }
qed

text \<open>C33: a write through a memory object that is smaller than 2 GB and lies in the address space (\<open>sized\<close>) never
  changes a byte outside the object, provided its indices are not negative and the sum of offset and length does not overflow (is below \<^verbatim>\<open>2^31\<close>):
  under this condition every operation that stores (single values, fills, copies from arrays and from
  other objects, moves) checks its range before it stores.  \<^verbatim>\<open>memory_set16\<close> and \<^verbatim>\<open>memory_clear\<close> need
  no such condition.  The condition is needed for the others: see \<open>index_overflow_escapes\<close> and
  \<open>memory_set8_negative_index\<close> below.\<close>

theorem writes_stay_inside:
  assumes "do_write p w s = Ok s'" "write_span_ok w" "sized p" "\<not> inside p a"
  shows "ram s' a = ram s a"
  using assms(1,2)
  by (cases w) (simp_all add: value_writes_inside [OF assms(3,4)] fill_writes_inside [OF assms(3,4)]
      copy_writes_inside [OF assms(3,4)] endian_writes_inside [OF assms(3,4)] move_inside [OF assms(3,4)])


theorem writes_stay_inside_witness:
  "\<exists>s s'. do_write \<lparr>mp_size = 100, mp_mem = 0x1000, mp_dz = 0\<rparr> (SetLE32 96 0xABCD) s = Ok s' \<and>
     ram s' 0x1060 = 0xCD \<and> ram s' 0x1064 = ram s 0x1064"
proof -
  define p where "p = \<lparr>mp_size = 100, mp_mem = 0x1000, mp_dz = 0\<rparr>"
  define s where "s = \<lparr>dzm = (\<lambda>_. fresh_dz 100 0x1000), dzMemoryFreeList = None, dzInvalid = None, blocks = blank_state, memoryObjectBytes = (\<lambda>_. 0)\<rparr>"
  define s' where "s' = set_ram (write32 (ram s) 0x1060 0xABCD) s"
  have w: "do_write p (SetLE32 96 0xABCD) s = Ok s'"
    by (simp add: p_def s_def s'_def memory_setLittleEndian32_def access_simps sint_u4)
  have "ram s' 0x1060 = 0xCD" by (simp add: s'_def write32_def)
  moreover have "ram s' 0x1064 = ram s 0x1064"
    by (rule writes_stay_inside [OF w]) (simp_all add: p_def sized_def span_ok_def inside_def)
  ultimately show ?thesis using w unfolding p_def by blast
qed

subsection \<open>Reading back\<close>

lemma read16_write16 [simp]: "read16 (write16 m a v) a = v"
proof -
  have "ucast (ucast v :: u1) OR push_bit 8 (ucast (ucast (drop_bit 8 v) :: u1)) = v"
    by (rule bit_word_eqI) (auto simp: bit_unsigned_iff bit_or_iff bit_push_bit_iff bit_drop_bit_eq)
  then show ?thesis by (simp add: read16_def write16_def)
qed

lemma byte_masks: "(0xff::u4) = mask 8" "(0xff00::u4) = push_bit 8 (mask 8)"
  by (simp_all add: mask_eq_exp_minus_1)

lemma bit_swap16: "bit (swap16 v) n \<longleftrightarrow> (if n < 8 then bit v (8 + n) else n < 16 \<and> bit v (n - 8))"
  unfolding swap16_def byte_masks by (auto simp: bit_simps)

lemma swap16_twice: "swap16 (scast (ucast (swap16 (scast (v::u2))) :: u2)) = ucast v"
  by (rule bit_word_eqI) (auto simp: bit_swap16 bit_simps dest: bit_imp_le_length)

lemma swap16_bytes:
  "ucast (ucast (swap16 (scast (v::u2))) :: u2) = (ucast (drop_bit 8 v) :: u1)"
  "ucast (drop_bit 8 (ucast (swap16 (scast v)) :: u2)) = (ucast v :: u1)"
  by (rule bit_word_eqI, auto simp: bit_swap16 bit_simps dest: bit_imp_le_length)+

lemma CHECKVALID_set_ram [simp]: "CHECKVALID p (set_ram m s) k = CHECKVALID p s k"
  by (simp add: CHECKVALID_def set_ram_def)

text \<open>C35: what was stored is read back, for the 32 bit little-endian, the 16 bit little-endian and
  big-endian and the indexed 16 bit accessors; a 16 bit big-endian value has its high byte first in
  memory, and 16 bit reads give the value without sign.\<close>

theorem accessor_roundtrip:
  assumes "memory_setLittleEndian32 (Some p) o1 v4 s = Ok s1" "memory_setLittleEndian16 (Some p) o2 v2 s = Ok s2"
    and "memory_setBigEndian16 (Some p) o3 v3 s = Ok s3" "memory_set16 (Some p) w v5 s = Ok s4"
  shows "memory_getLittleEndian32 (Some p) o1 s1 = Ok v4 \<and> memory_getLittleEndian16 (Some p) o2 s2 = Ok (ucast v2) \<and>
     memory_getBigEndian16 (Some p) o3 s3 = Ok (ucast v3) \<and> memory_get16 (Some p) w s4 = Ok (ucast v5) \<and>
     ram s3 (mp_mem p + o3) = ucast (drop_bit 8 v3) \<and> ram s3 (mp_mem p + o3 + 1) = ucast v3"
proof -
  have le32: "memory_getLittleEndian32 (Some p) o1 s1 = Ok v4"
    using assms(1) by (auto simp: memory_setLittleEndian32_def memory_getLittleEndian32_def CHECK_NULL_PTR_def
        CHECKVALID_def [of _ s] split: if_splits)
  have le16: "memory_getLittleEndian16 (Some p) o2 s2 = Ok (ucast v2)"
    using assms(2) by (auto simp: memory_setLittleEndian16_def memory_getLittleEndian16_def CHECK_NULL_PTR_def
        CHECKVALID_def [of _ s] split: if_splits)
  have s3: "\<not> sint (o3 + 2) > sint (mp_size p)" "dz_valid (dzm s (mp_dz p)) \<noteq> 0"
    "s3 = set_ram (write16 (ram s) (mp_mem p + o3) (ucast (swap16 (scast v3)))) s"
    using assms(3) by (auto simp: memory_setBigEndian16_def access_simps split: if_splits)
  then have be16: "memory_getBigEndian16 (Some p) o3 s3 = Ok (ucast v3)"
    by (simp add: memory_getBigEndian16_def CHECK_NULL_PTR_def CHECKVALID_def [of _ s] swap16_twice)
  have "memory_get16 (Some p) w s4 = Ok (ucast v5)"
    using assms(4) by (auto simp: memory_set16_def memory_get16_def CHECK_NULL_PTR_def
        CHECKVALID_def [of _ s] split: if_splits)
  then show ?thesis using le32 le16 be16 s3(3) by (simp add: write16_def swap16_bytes)
qed

theorem accessor_roundtrip_witness:
  "\<exists>s p s1 s2 s3 s4. mp_size p = 100 \<and>
     memory_setLittleEndian32 (Some p) 3 0x89ABCDEF s = Ok s1 \<and> memory_getLittleEndian32 (Some p) 3 s1 = Ok 0x89ABCDEF \<and>
     memory_setLittleEndian16 (Some p) 5 0xBEEF s = Ok s2 \<and> memory_getLittleEndian16 (Some p) 5 s2 = Ok 0xBEEF \<and>
     memory_setBigEndian16 (Some p) 7 0xAA55 s = Ok s3 \<and> memory_getBigEndian16 (Some p) 7 s3 = Ok 0xAA55 \<and>
     memory_set16 (Some p) 49 0xFFFF s = Ok s4 \<and> memory_get16 (Some p) 49 s4 = Ok 0xFFFF \<and>
     ram s3 0x1007 = 0xAA \<and> ram s3 0x1008 = 0x55"
proof -
  define p where "p = \<lparr>mp_size = 100, mp_mem = 0x1000, mp_dz = 0\<rparr>"
  define s where "s = \<lparr>dzm = (\<lambda>_. fresh_dz 100 0x1000), dzMemoryFreeList = None, dzInvalid = None, blocks = blank_state, memoryObjectBytes = (\<lambda>_. 0)\<rparr>"
  obtain s1 s2 s3 s4 where ok: "memory_setLittleEndian32 (Some p) 3 0x89ABCDEF s = Ok s1"
    "memory_setLittleEndian16 (Some p) 5 0xBEEF s = Ok s2" "memory_setBigEndian16 (Some p) 7 0xAA55 s = Ok s3"
    "memory_set16 (Some p) 49 0xFFFF s = Ok s4"
    by (simp add: p_def s_def memory_setLittleEndian32_def memory_setLittleEndian16_def memory_setBigEndian16_def
        memory_set16_def access_simps sint_u4)
  have "mp_size p = 100" "mp_mem p + 7 = 0x1007" "mp_mem p + 7 + 1 = 0x1008" by (simp_all add: p_def)
  then show ?thesis
    using accessor_roundtrip [OF ok] ok
    by (intro exI [of _ s] exI [of _ p] exI [of _ s1] exI [of _ s2] exI [of _ s3] exI [of _ s4]) simp
qed

subsection \<open>Defects\<close>

text \<open>C36: \<^verbatim>\<open>memory_set8\<close> has no test for negative indices: index -k stores below the object, outside the
  memory the object gives access to.\<close>

theorem memory_set8_negative_index:
  assumes "sized p" "dz_valid (dzm s (mp_dz p)) = 1" "mp_mem p \<noteq> 0" "0 < k" "k \<le> unat (mp_mem p)" "k < 2147483648"
  shows "\<exists>s'. memory_set8 (Some p) (- of_nat k) v s = Ok s' \<and> ram s' (mp_mem p - of_nat k) = v \<and>
     \<not> inside p (mp_mem p - of_nat k)"
proof -
  have neg: "unat (- of_nat k :: u4) = 4294967296 - k" using unat_minus [of k 0] assms(4,6) by simp
  then have "sint (- of_nat k :: u4) < 0" using assms(4,6) by (simp add: sint_u4)
  moreover have "0 \<le> sint (mp_size p)" using assms(1) by (simp add: sint_nonneg sized_def)
  ultimately have "\<not> sint (mp_size p) \<le> sint (- of_nat k :: u4)" by linarith
  then have "memory_set8 (Some p) (- of_nat k) v s = Ok (set_ram ((ram s)(mp_mem p + (- of_nat k) := v)) s)"
    using assms(2,3) by (simp add: memory_set8_def access_simps)
  moreover have "\<not> inside p (mp_mem p - of_nat k)" using neg assms(1,6) unfolding inside_def sized_def by simp linarith
  ultimately show ?thesis by simp
qed

theorem memory_set8_negative_index_witness:
  "\<exists>s s'. memory_set8 (Some \<lparr>mp_size = 100, mp_mem = 0x1000, mp_dz = 0\<rparr>) (- of_nat 1) 7 s = Ok s' \<and> ram s' 0xFFF = 7"
proof -
  define s where "s = \<lparr>dzm = (\<lambda>_. fresh_dz 100 0x1000), dzMemoryFreeList = None, dzInvalid = None, blocks = blank_state, memoryObjectBytes = (\<lambda>_. 0)\<rparr>"
  have "\<exists>s'. memory_set8 (Some \<lparr>mp_size = 100, mp_mem = 0x1000, mp_dz = 0\<rparr>) (- of_nat 1) 7 s = Ok s' \<and> ram s' 0xFFF = 7"
    using memory_set8_negative_index [of "\<lparr>mp_size = 100, mp_mem = 0x1000, mp_dz = 0\<rparr>" s 1 7]
    by (auto simp: s_def sized_def)
  then show ?thesis by blast
qed

text \<open>The sum of offset and length is computed in 32 bits: at an offset just below \<^verbatim>\<open>2^31\<close> it is negative
  and passes the test, so that \<^verbatim>\<open>memory_setLittleEndian32\<close> stores 2 GB behind the start of the object.\<close>

lemma index_overflow_escapes:
  assumes "unat (mp_size p) < 0x7FFFFFFD" "dz_valid (dzm s (mp_dz p)) = 1"
  shows "\<exists>s'. memory_setLittleEndian32 (Some p) 0x7FFFFFFD v s = Ok s' \<and>
     read32 (ram s') (mp_mem p + 0x7FFFFFFD) = v \<and> \<not> inside p (mp_mem p + 0x7FFFFFFD)"
proof -
  have "0 \<le> sint (mp_size p)" using assms(1) by (simp add: sint_nonneg)
  moreover have "sint (0x7FFFFFFD + 4 :: u4) < 0" by (simp add: sint_u4)
  ultimately have "\<not> sint (mp_size p) < sint (0x7FFFFFFD + 4 :: u4)" by linarith
  then have "memory_setLittleEndian32 (Some p) 0x7FFFFFFD v s =
     Ok (set_ram (write32 (ram s) (mp_mem p + 0x7FFFFFFD) v) s)"
    using assms(2) by (simp add: memory_setLittleEndian32_def access_simps)
  moreover have "\<not> inside p (mp_mem p + 0x7FFFFFFD)" using assms(1) by (simp add: inside_def)
  ultimately show ?thesis by simp
qed

text \<open>\<^verbatim>\<open>memory_clear\<close> hands the number of 32 bit words to \<^verbatim>\<open>jxwmemset\<close>, which counts bytes: the upper
  three quarters of the object keep their old contents.\<close>

theorem memory_clear_partial:
  assumes "sized p" "memory_clear (Some p) s = Ok s'" "unat (mp_size p) div 4 \<le> i" "i < unat (mp_size p)"
  shows "ram s' (mp_mem p + of_nat i) = ram s (mp_mem p + of_nat i)"
proof -
  have s': "s' = set_ram (jxwmemset (mp_mem p) 0 (mp_size p div 4) (ram s)) s"
    using assms(2) by (auto simp: memory_clear_def access_simps split: if_splits)
  have "unat (of_nat i :: u4) = i" using assms(1,4) by (intro unat_of_nat_u4) (simp add: sized_def)
  then have "\<not> unat (mp_mem p + of_nat i - mp_mem p) < unat (mp_size p div 4)" using assms(3) by (simp add: unat_div)
  then show ?thesis unfolding s' set_ram_ram by (rule jxwmemset_outside)
qed

theorem memory_clear_partial_witness:
  "\<exists>s s'. memory_clear (Some \<lparr>mp_size = 16, mp_mem = 0x1000, mp_dz = 0\<rparr>) s = Ok s' \<and> ram s' 0x1004 = 0xEE"
proof -
  define s where "s = \<lparr>dzm = (\<lambda>_. fresh_dz 16 0x1000), dzMemoryFreeList = None, dzInvalid = None,
     blocks = blank_state\<lparr>mem := (\<lambda>_. 0xEE)\<rparr>, memoryObjectBytes = (\<lambda>_. 0)\<rparr>"
  define p where "p = \<lparr>mp_size = 16, mp_mem = 0x1000, mp_dz = 0\<rparr>"
  obtain s' where s': "memory_clear (Some p) s = Ok s'" by (simp add: p_def s_def memory_clear_def access_simps)
  have "ram s' (mp_mem p + of_nat 4) = ram s (mp_mem p + of_nat 4)"
    by (rule memory_clear_partial [OF _ s']) (simp_all add: p_def sized_def)
  then have "ram s' 0x1004 = 0xEE" by (simp add: p_def s_def)
  then show ?thesis using s' unfolding p_def by blast
qed

end
