(* ===== verification/Memory_Steps.thy ===== *)
theory Memory_Steps
  imports Memory_Obj Memory_Access
begin

section \<open>Memory objects: runs and the Java-visible operations\<close>

text \<open>
  The pool of proxies as a transition system: \<open>dzstep\<close> has one rule for each routine of
  \<^verbatim>\<open>zero_Memory_org.c\<close> that changes it, and \<open>dz_inv\<close> holds in every reachable state.  On top
  of it the properties of the operations a Java domain calls: creating, splitting, joining, dropping
  and revoking memory objects.
\<close>

unbundle bit_operations_syntax

subsection \<open>The initial pool\<close>

lemma dz_reset_free:
  assumes "free_ok s fs" "d \<notin> set fs"
  shows "free_ok (dz_reset d s) (d # fs)"
proof -
  have "chain (\<lambda>x. dz_next (dzm (dz_reset d s) x)) (dzMemoryFreeList s) fs"
    by (subst chain_cong [of fs _ "\<lambda>x. dz_next (dzm s x)"])
      (use assms in \<open>auto simp: free_ok_def dz_reset_def\<close>)
  then show ?thesis using assms by (auto simp: free_ok_def dz_reset_def)
qed

lemma dz_reset_all: "free_ok s [] \<Longrightarrow> free_ok (foldl (\<lambda>s d. dz_reset d s) s [0..<k]) (rev [0..<k])"
  by (induction k) (simp_all add: dz_reset_free)

lemma dzmemory_init_inv:
  assumes "jxmalloc n 720000 (blocks s0) = Ok (a, b)" "0 < n"
  shows "\<exists>s. dzmemory_init n E s0 = Ok s \<and> blocks s = b \<and> dz_inv s (rev [0..<19999]) {[19999]}"
proof -
  obtain m where n: "n = Suc m" using assms(2) by (cases n) auto
  define s1 where "s1 = foldl (\<lambda>s d. dz_reset d s) (s0\<lparr>blocks := b, dzMemoryFreeList := None\<rparr>) [0..<NUMBER_DZMEM]"
  have "rev [0..<NUMBER_DZMEM] = 19999 # rev [0..<19999]"
    using upt_Suc_append [of 0 19999] by (simp add: NUMBER_DZMEM_def del: upt_Suc)
  then have f1: "free_ok s1 (19999 # rev [0..<19999])"
    using dz_reset_all [of "s0\<lparr>blocks := b, dzMemoryFreeList := None\<rparr>" NUMBER_DZMEM]
    by (simp add: s1_def free_ok_def)
  have bl: "blocks (foldl (\<lambda>s d. dz_reset d s) s ds) = blocks s" for s and ds :: "nat list"
    by (induction ds arbitrary: s) (simp_all add: dz_reset_def)
  define s2 where "s2 = upd_dz 19999 (\<lambda>x. x\<lparr>dz_valid := 0, dz_next := None, refcount := 1\<rparr>)
     (s1\<lparr>dzMemoryFreeList := dz_next (dzm s1 19999)\<rparr>)"
  define s3 where "s3 = (upd_dz 19999 (\<lambda>x. x\<lparr>dz_valid := 0\<rparr>) s2)\<lparr>dzInvalid := Some 19999\<rparr>"
  have al: "dzmemory_alloc n E s1 = Ok (19999, s2)"
    using f1 by (simp add: n dzmemory_alloc_def free_ok_def s2_def)
  have "dzmemory_init n E s0 = Ok s3"
    using assms(1) al by (simp add: dzmemory_init_def NUMBER_DZMEM_def s1_def s3_def del: upt_Suc)
  moreover have "blocks s3 = b" by (simp add: s3_def s2_def s1_def bl)
  moreover have "free_ok s3 (rev [0..<19999])"
    by (rule free_ok_tl [OF f1]) (auto simp: s3_def s2_def)
  moreover have "chunk_ok (dzm s3) [19999]"
    using f1 by (intro dead_chunkI) (auto simp: s3_def s2_def free_ok_def)
  moreover have "insert (19999::nat) {0..<19999} = {..<NUMBER_DZMEM}" by (auto simp: NUMBER_DZMEM_def)
  ultimately show ?thesis by (auto simp: dz_inv_def)
qed

subsection \<open>Steps\<close>

definition has_free :: "nat \<Rightarrow> memst \<Rightarrow> bool" where
  "has_free k s \<longleftrightarrow> (\<exists>fs. free_ok s fs \<and> k \<le> length fs)"

inductive dzstep :: "memenv \<Rightarrow> memst \<Rightarrow> memst \<Rightarrow> bool" for E :: memenv where
  create: "createDZMemory n E sz m s = Ok (d, s') \<Longrightarrow> has_free 1 s \<Longrightarrow> m \<noteq> 0 \<Longrightarrow>
     unat m + unat sz < 4294967296 \<Longrightarrow> dzstep E s s'"
| split2: "dzmemory_split2 n E cd d offset s = Ok (Some r2, s') \<Longrightarrow> has_free 2 s \<Longrightarrow> d < NUMBER_DZMEM \<Longrightarrow> dzstep E s s'"
| split3: "dzmemory_split3 n E cd d offset len s = Ok (Some r3, s') \<Longrightarrow> has_free 3 s \<Longrightarrow> d < NUMBER_DZMEM \<Longrightarrow> dzstep E s s'"
| join: "dzmemory_join n E d1 d2 s = Ok (d, s') \<Longrightarrow> has_free 1 s \<Longrightarrow> d1 < NUMBER_DZMEM \<Longrightarrow> dzstep E s s'"
| share: "mp_dz mp < NUMBER_DZMEM \<Longrightarrow> refcount (dzm s (mp_dz mp)) \<noteq> 0 \<Longrightarrow> dzstep E s (dzmemory_incRefcount mp s)"
| drop: "dzmemory_decRefcount n mp s = Ok s' \<Longrightarrow> mp_dz mp < NUMBER_DZMEM \<Longrightarrow> refcount (dzm s (mp_dz mp)) \<noteq> 0 \<Longrightarrow>
     NUMBER_DZMEM < n \<Longrightarrow> dzstep E s s'"

lemma has_free_inv: "has_free k s \<Longrightarrow> dz_inv s fs C \<Longrightarrow> k \<le> length fs"
  by (auto simp: has_free_def dz_inv_def free_ok_def dest: chain_det)

lemma in_chunk:
  assumes "dz_inv s fs C" "d < NUMBER_DZMEM" "d \<notin> set fs"
  obtains xs ys where "xs @ d # ys \<in> C"
proof -
  have "d \<in> \<Union> (set ` C)" using assms by (auto simp: dz_inv_def)
  then obtain c where "c \<in> C" "d \<in> set c" by blast
  then show ?thesis using that by (metis in_set_conv_decomp)
qed

lemma valid_in_live_chunk:
  assumes "dz_inv s fs C" "d < NUMBER_DZMEM" "dz_valid (dzm s d) = 1"
  obtains xs ys where "xs @ d # ys \<in> C" "live_chunk (dzm s) (xs @ d # ys)"
proof -
  have "d \<notin> set fs" using assms by (auto simp: dz_inv_def free_ok_def)
  then obtain xs ys where c: "xs @ d # ys \<in> C" using in_chunk [OF assms(1,2)] by blast
  moreover have "chunk_ok (dzm s) (xs @ d # ys)" using assms(1) c by (auto simp: dz_inv_def)
  moreover from this assms(3) have "live_chunk (dzm s) (xs @ d # ys)"
    by (auto simp: chunk_ok_def dead_chunk_def)
  ultimately show ?thesis using that by blast
qed

lemma create_inv:
  assumes inv: "dz_inv s (d # fs) C" and m: "m \<noteq> 0" "unat m + unat sz < 4294967296"
  shows "\<exists>s'. createDZMemory (Suc n) E sz m s = Ok (d, s') \<and> dz_inv s' fs (C \<union> {[d]}) \<and> only_pool s s' \<and>
     dzm s' = (dzm s)(d := fresh_dz sz m)"
proof -
  have free: "free_ok s (d # fs)" using inv by (simp add: dz_inv_def)
  define s' where "s' = s\<lparr>dzm := (dzm s)(d := fresh_dz sz m), dzMemoryFreeList := dz_next (dzm s d)\<rparr>"
  have fs': "free_ok s' fs" unfolding s'_def by (rule free_ok_take [OF free])
  have ch: "chunk_ok (dzm s') [d]"
    using m by (auto simp: chunk_ok_def live_chunk_def s'_def unat_gt_0 word_neq_0_conv)
  have "d \<notin> set fs" using free by (simp add: free_ok_def)
  then have "dz_inv s' fs (C - {} \<union> {[d]})"
    by (intro dz_inv_replace [OF inv _ _ fs']) (use ch in \<open>auto simp: s'_def\<close>)
  then show ?thesis using createDZMemory_eq [OF free] by (simp add: s'_def only_pool_def)
qed

lemma create0: "createDZMemory 0 E sz m s = Fault OutOfFuel"
  by (simp add: createDZMemory_def dzmemory_alloc_def)

lemma refcount_irrelevant:
  "dseg (f(d := (f d)\<lparr>refcount := v\<rparr>)) p c q = dseg f p c q"
  "contig (f(d := (f d)\<lparr>refcount := v\<rparr>)) a c = contig f a c"
  "total_size (f(d := (f d)\<lparr>refcount := v\<rparr>)) c = total_size f c"
  by (induction c arbitrary: p a) auto

lemma refcount_inv:
  assumes inv: "dz_inv s fs C" and d: "d \<notin> set fs"
  shows "dz_inv (upd_dz d (\<lambda>x. x\<lparr>refcount := g x\<rparr>) s) fs C"
proof -
  have "chunk_ok ((dzm s)(d := (dzm s d)\<lparr>refcount := v\<rparr>)) c = chunk_ok (dzm s) c" for c v
    unfolding chunk_ok_def live_chunk_def dead_chunk_def refcount_irrelevant by auto
  moreover have "free_ok (upd_dz d (\<lambda>x. x\<lparr>refcount := g x\<rparr>) s) fs"
    by (rule free_ok_frame [of s]) (use inv d in \<open>auto simp: dz_inv_def\<close>)
  ultimately show ?thesis using inv by (simp add: dz_inv_def)
qed

lemma chunk_length:
  assumes "dz_inv s fs C" "c \<in> C"
  shows "length c \<le> NUMBER_DZMEM"
proof -
  have "set c \<subseteq> {..<NUMBER_DZMEM}" "distinct c" using assms by (auto simp: dz_inv_def chunk_ok_def)
  then show ?thesis using card_mono [of "{..<NUMBER_DZMEM}" "set c"] by (simp add: distinct_card)
qed

lemma dec_inv:
  assumes inv: "dz_inv s fs C" and d: "mp_dz mp < NUMBER_DZMEM" "refcount (dzm s (mp_dz mp)) \<noteq> 0" and n: "NUMBER_DZMEM < n"
    and ok: "dzmemory_decRefcount n mp s = Ok s'"
  shows "\<exists>fs C. dz_inv s' fs C"
proof -
  have nf: "mp_dz mp \<notin> set fs" using inv d(2) by (auto simp: dz_inv_def free_ok_def)
  define s1 where "s1 = upd_dz (mp_dz mp) (\<lambda>x. x\<lparr>refcount := refcount x - 1\<rparr>) s"
  have inv1: "dz_inv s1 fs C" unfolding s1_def by (rule refcount_inv [OF inv nf])
  obtain xs ys where c: "xs @ mp_dz mp # ys \<in> C" using in_chunk [OF inv d(1) nf] by blast
  have len: "length (xs @ mp_dz mp # ys) < n" using chunk_length [OF inv c] n by simp
  show ?thesis
  proof (cases "refcount (dzm s1 (mp_dz mp)) = 0")
    case False
    then show ?thesis using ok inv1 by (auto simp: dzmemory_decRefcount_def s1_def)
  next
    case True
    then have fc: "dzmemory_free_chunk n (mp_dz mp) s1 = Ok s'" using ok by (simp add: dzmemory_decRefcount_def s1_def Let_def)
    show ?thesis
    proof (cases "\<forall>x \<in> set (xs @ mp_dz mp # ys). refcount (dzm s1 x) = 0")
      case True
      obtain b where "release_blocks s1 (xs @ mp_dz mp # ys) b"
        using free_chunk_returns [OF inv1 c True len fc] by blast
      then show ?thesis using free_chunk_released [OF inv1 c True len] fc by auto
    next
      case False
      have ck: "chunk_ok (dzm s1) (xs @ mp_dz mp # ys)" using inv1 c by (auto simp: dz_inv_def)
      show ?thesis using free_chunk_referenced [OF ck _ len] False fc inv1 by auto
    qed
  qed
qed

lemma dzstep_inv:
  assumes "dzstep E s s'" "dz_inv s fs C"
  shows "\<exists>fs C. dz_inv s' fs C"
  using assms
proof cases
  case (create n sz m d)
  then obtain d' fs' where "fs = d' # fs'" using has_free_inv [OF create(2) assms(2)] by (cases fs) auto
  moreover obtain k where "n = Suc k" using create(1) by (cases n) (auto simp: create0)
  ultimately show ?thesis using create_inv [of s d' fs' C m sz k E] create assms(2) by auto
next
  case (split2 n cd d offset r2)
  have g: "dz_valid (dzm s d) = 1" "0 \<le> sint offset" "offset \<le> dz_size (dzm s d)"
    using split2(1) by (auto simp: dzmemory_split2_def split: if_splits)
  obtain xs ys where c: "xs @ d # ys \<in> C" "live_chunk (dzm s) (xs @ d # ys)"
    using valid_in_live_chunk [OF assms(2) split2(3) g(1)] by blast
  obtain d0 d1 fs' where "fs = d0 # d1 # fs'" using has_free_inv [OF split2(2) assms(2)]
    by (metis One_nat_def Suc_1 Suc_le_length_iff)
  moreover obtain k where "n = Suc k"
    using split2(1) g by (cases n) (auto simp: dzmemory_split2_def create0 split: if_splits)
  ultimately show ?thesis using split2_inv [of s d0 d1 fs' C xs d ys offset k E cd] c g(2,3) split2(1) assms(2) by auto
next
  case (split3 n cd d offset len r3)
  have g: "dz_valid (dzm s d) = 1" "0 \<le> sint offset" "0 \<le> sint len" "offset + len \<le> dz_size (dzm s d)"
    using split3(1) by (auto simp: dzmemory_split3_def split: if_splits)
  obtain xs ys where c: "xs @ d # ys \<in> C" "live_chunk (dzm s) (xs @ d # ys)"
    using valid_in_live_chunk [OF assms(2) split3(3) g(1)] by blast
  obtain d0 d1 d2 fs' where "fs = d0 # d1 # d2 # fs'" using has_free_inv [OF split3(2) assms(2)]
    by (metis Suc_le_length_iff numeral_3_eq_3)
  moreover obtain k where "n = Suc k"
    using split3(1) g by (cases n) (auto simp: dzmemory_split3_def create0 split: if_splits)
  ultimately show ?thesis
    using split3_inv [of s d0 d1 d2 fs' C xs d ys offset len k E cd] c g(2-4) split3(1) assms(2) by auto
next
  case (join n d1 d2 d)
  have g: "dz_valid (dzm s d1) = 1" "dz_next (dzm s d1) = Some d2" using join(1) by (simp_all add: dzmemory_join_def)
  obtain xs zs where c: "xs @ d1 # zs \<in> C" "live_chunk (dzm s) (xs @ d1 # zs)"
    using valid_in_live_chunk [OF assms(2) join(3) g(1)] by blast
  have "dz_next (dzm s d1) = after zs" by (rule chunk_links(2) [OF dz_inv_chunk(1) [OF assms(2) c(1)]])
  then obtain ys where zs: "zs = d2 # ys" using g(2) by (cases zs) auto
  obtain d' fs' where "fs = d' # fs'" using has_free_inv [OF join(2) assms(2)] by (cases fs) auto
  moreover obtain k where "n = Suc k"
    using join(1) by (cases n) (auto simp: dzmemory_join_def create0 split: if_splits)
  ultimately show ?thesis using join_inv [of s d' fs' C xs d1 d2 ys k E] c zs join(1) assms(2) by auto
next
  case (share mp)
  then have "mp_dz mp \<notin> set fs" using assms(2) by (auto simp: dz_inv_def free_ok_def)
  then have "dz_inv s' fs C" unfolding share(1) dzmemory_incRefcount_def by (rule refcount_inv [OF assms(2)])
  then show ?thesis by blast
next
  case (drop n mp)
  then show ?thesis using dec_inv [OF assms(2)] by blast
qed

subsection \<open>A concrete machine\<close>

text \<open>1024 blocks at 1 MB, an empty pool, and a heap that always has room.\<close>

definition boot0 :: memst where
  "boot0 = \<lparr>dzm = (\<lambda>_. fresh_dz 0 0), dzMemoryFreeList = None, dzInvalid = None,
     blocks = jxmalloc_setup 0x100000 0x200000 blank_state, memoryObjectBytes = (\<lambda>_. 0)\<rparr>"

definition heap_env :: memenv where
  "heap_env = \<lparr>gc_run = (\<lambda>s. s), gc_alloc = Some\<rparr>"

lemma boot0_facts:
  "malloc_inv (blocks boot0)" "nblk (blocks boot0) = 1024" "j < 1024 \<Longrightarrow> ublk (blocks boot0) j = (j < 1)"
  using jxmalloc_setup_inv [where start = "0x100000" and stop = "0x200000" and s = blank_state]
  by (simp_all add: boot0_def)

lemma boot0_alloc: "\<exists>a b. jxmalloc 2100 720000 (blocks boot0) = Ok (a, b)"
proof -
  have "free_run (blocks boot0) 1 704" by (auto simp: free_run_def boot0_facts)
  then show ?thesis
    using jxmalloc_returns [of "blocks boot0" 720000 1 2100] boot0_facts by (auto simp: is_ok_iff)
qed

lemma boot_ready: "\<exists>s. dzmemory_init 2100 heap_env boot0 = Ok s \<and> dz_inv s (rev [0..<19999]) {[19999]} \<and>
    (\<exists>a. jxmalloc 2100 720000 (blocks boot0) = Ok (a, blocks s))"
proof -
  obtain a b where ab: "jxmalloc 2100 720000 (blocks boot0) = Ok (a, b)" using boot0_alloc by blast
  then show ?thesis using dzmemory_init_inv [OF ab, of heap_env] by auto
qed

text \<open>C27: after \<^verbatim>\<open>dzmemory_init\<close> and any sequence of creations, splits in two or three, pairwise joins,
  shares and drops of memory objects, each made while the free list has the entries it needs, the
  pool is consistent: its \<^verbatim>\<open>NUMBER_DZMEM\<close> entries are divided between the free list
  and doubly linked chunks, every live chunk is one contiguous range of memory, and no entry
  is in two of them.  \<^verbatim>\<open>memory_joinAll\<close>, \<^verbatim>\<open>memory_getSubRange\<close> and \<^verbatim>\<open>memory_revoke\<close> are not among the
  steps: the last two do not keep the pool consistent in every case.\<close>

theorem dz_pool_invariant:
  assumes "jxmalloc n 720000 (blocks s0) = Ok (a, b)" "0 < n" "dzmemory_init n E s0 = Ok s" "(dzstep E)\<^sup>*\<^sup>* s s'"
  shows "\<exists>fs C. dz_inv s' fs C"
  using assms(4)
proof induction
  case base
  then show ?case using dzmemory_init_inv [OF assms(1,2), of E] assms(3) by auto
next
  case (step t u)
  then show ?case using dzstep_inv by blast
qed

theorem dz_pool_invariant_witness:
  "\<exists>s. dzmemory_init 2100 heap_env boot0 = Ok s \<and> (\<exists>fs C. dz_inv s fs C) \<and>
     (\<exists>s' d. createDZMemory 1 heap_env 100 0x1F0000 s = Ok (d, s') \<and> (\<exists>fs C. dz_inv s' fs C))"
proof -
  obtain s a where s: "dzmemory_init 2100 heap_env boot0 = Ok s" "dz_inv s (rev [0..<19999]) {[19999]}"
    "jxmalloc 2100 720000 (blocks boot0) = Ok (a, blocks s)" using boot_ready by blast
  have r: "rev [0..<19999] = 19998 # rev [0..<19998::nat]" using upt_Suc_append [of 0 19998] by (simp del: upt_Suc)
  obtain s' where s': "createDZMemory 1 heap_env 100 0x1F0000 s = Ok (19998, s')"
    using create_inv [of s 19998 "rev [0..<19998]" "{[19999]}" "0x1F0000" 100 0 heap_env] s(2) r by auto
  have "has_free 1 s" using s(2) unfolding has_free_def dz_inv_def r by (metis length_Cons le_add2 Suc_eq_plus1)
  then have "dzstep heap_env s s'" by (intro dzstep.create [OF s']) simp_all
  then have "(dzstep heap_env)\<^sup>*\<^sup>* s s'" by (rule r_into_rtranclp)
  then have "\<exists>fs C. dz_inv s' fs C" by (intro dz_pool_invariant [OF s(3) _ s(1), of s']) simp
  then show ?thesis using s(1,2) s' by blast
qed

subsection \<open>Splitting and joining objects\<close>

lemma FREE_DZ_idem: "dz_valid (dzm s d) = 0 \<Longrightarrow> dz_mem (dzm s d) = 0 \<Longrightarrow> FREE_DZ d s = s"
  by (cases "dzm s d") (simp add: FREE_DZ_def upd_dz_def fun_upd_idem)

definition object_of :: "memst \<Rightarrow> MemoryProxy \<Rightarrow> bool" where
  "object_of s p \<longleftrightarrow> mp_dz p < NUMBER_DZMEM \<and> memory_isValid p s \<and>
     mp_size p = dz_size (dzm s (mp_dz p)) \<and> mp_mem p = dz_mem (dzm s (mp_dz p))"

lemma alloc_proxy:
  "gc_alloc E = Some \<Longrightarrow> allocMemoryProxyInDomainDZM E d s =
     Ok (\<lparr>mp_size = dz_size (dzm s d), mp_mem = dz_mem (dzm s d), mp_dz = d\<rparr>, s)"
  by (simp add: allocMemoryProxyInDomainDZM_def internalallocMemoryProxyInDomain_def)

lemma memory_split2_ok:
  assumes inv: "dz_inv s (d0 # d1 # fs) C" and p: "object_of s p" and off: "0 \<le> sint off" "off \<le> mp_size p"
    and E: "gc_alloc E = Some" and a: "2 \<le> sint a"
  shows "\<exists>s' xs ys. memory_split2 (Suc n) E cd (Some p) off (Some a) s =
       Ok ([\<lparr>mp_size = off, mp_mem = mp_mem p, mp_dz = d0\<rparr>, \<lparr>mp_size = mp_size p - off, mp_mem = mp_mem p + off, mp_dz = d1\<rparr>], s') \<and>
     dz_inv s' fs (C - {xs @ mp_dz p # ys} \<union> {xs @ [d0, d1] @ ys, [mp_dz p]}) \<and>
     live_chunk (dzm s') (xs @ [d0, d1] @ ys) \<and> blocks s' = blocks s \<and>
     nextOwner (dzm s' d0) = cd \<and> dz_size (dzm s' d0) = off \<and> dz_mem (dzm s' d0) = mp_mem p \<and>
     dz_size (dzm s' d1) = mp_size p - off \<and> dz_mem (dzm s' d1) = mp_mem p + off \<and> dz_valid (dzm s' (mp_dz p)) = 0"
proof -
  have pv: "dz_valid (dzm s (mp_dz p)) = 1" "mp_dz p < NUMBER_DZMEM" "mp_size p = dz_size (dzm s (mp_dz p))"
    "mp_mem p = dz_mem (dzm s (mp_dz p))" using p by (simp_all add: object_of_def memory_isValid_def)
  obtain xs ys where c: "xs @ mp_dz p # ys \<in> C" "live_chunk (dzm s) (xs @ mp_dz p # ys)"
    using valid_in_live_chunk [OF inv pv(2,1)] by blast
  obtain s' where s': "dzmemory_split2 (Suc n) E cd (mp_dz p) off s = Ok (Some (d0, d1), s')" "only_pool s s'"
    "dz_inv s' fs (C - {xs @ mp_dz p # ys} \<union> {xs @ [d0, d1] @ ys, [mp_dz p]})" "live_chunk (dzm s') (xs @ [d0, d1] @ ys)"
    and f: "dz_size (dzm s' d0) = off" "dz_mem (dzm s' d0) = mp_mem p" "dz_size (dzm s' d1) = mp_size p - off"
    "dz_mem (dzm s' d1) = mp_mem p + off" "nextOwner (dzm s' d0) = cd" "dzm s' (mp_dz p) = retired (dzm s (mp_dz p))"
    using split2_inv [OF inv c off(1), of n E cd] off(2) pv(3,4) by auto
  have "FREE_DZ (mp_dz p) s' = s'" using f(6) by (intro FREE_DZ_idem) simp_all
  then have "memory_split2 (Suc n) E cd (Some p) off (Some a) s =
       Ok ([\<lparr>mp_size = off, mp_mem = mp_mem p, mp_dz = d0\<rparr>, \<lparr>mp_size = mp_size p - off, mp_mem = mp_mem p + off, mp_dz = d1\<rparr>], s')"
    using pv(1) a s'(1) f alloc_proxy [OF E] by (simp add: memory_split2_def CHECK_NULL_PTR_def CHECKVALID_def)
  then show ?thesis using s' f by (intro exI [of _ s'] exI [of _ xs] exI [of _ ys]) (simp add: only_pool_def)
qed

text \<open>C28: splitting a valid object gives two valid objects that lie side by side and cover exactly its
  range, and makes the old object invalid; joining the first with its successor gives
  back one object over the original range and makes both parts invalid.\<close>

theorem memory_split2_joinNext:
  assumes "dz_inv s fs C" "3 \<le> length fs" "object_of s p" "0 \<le> sint off" "off \<le> mp_size p"
    and E: "gc_alloc E = Some" and "2 \<le> sint a" "0 < n"
  shows "\<exists>p0 p1 s1 q s2. memory_split2 n E cd (Some p) off (Some a) s = Ok ([p0, p1], s1) \<and>
     object_of s1 p0 \<and> object_of s1 p1 \<and> \<not> memory_isValid p s1 \<and>
     mp_mem p0 = mp_mem p \<and> mp_size p0 = off \<and> mp_mem p1 = mp_mem p + off \<and> mp_size p1 = mp_size p - off \<and>
     memory_joinNext n E cd (Some p0) s1 = Ok (Some q, s2) \<and> object_of s2 q \<and>
     mp_mem q = mp_mem p \<and> mp_size q = mp_size p \<and> \<not> memory_isValid p0 s2 \<and> \<not> memory_isValid p1 s2 \<and>
     blocks s2 = blocks s"
proof -
  obtain k where n: "n = Suc k" using assms(8) by (cases n) auto
  obtain d0 d1 d fs' where fs: "fs = d0 # d1 # d # fs'" using assms(2) by (metis Suc_le_length_iff numeral_3_eq_3)
  define p0 where "p0 = \<lparr>mp_size = off, mp_mem = mp_mem p, mp_dz = d0\<rparr>"
  define p1 where "p1 = \<lparr>mp_size = mp_size p - off, mp_mem = mp_mem p + off, mp_dz = d1\<rparr>"
  obtain s1 xs ys where s1: "memory_split2 n E cd (Some p) off (Some a) s = Ok ([p0, p1], s1)"
    "dz_inv s1 (d # fs') (C - {xs @ mp_dz p # ys} \<union> {xs @ [d0, d1] @ ys, [mp_dz p]})"
    "live_chunk (dzm s1) (xs @ [d0, d1] @ ys)" "blocks s1 = blocks s" "nextOwner (dzm s1 d0) = cd"
    "dz_size (dzm s1 d0) = off" "dz_mem (dzm s1 d0) = mp_mem p"
    "dz_size (dzm s1 d1) = mp_size p - off" "dz_mem (dzm s1 d1) = mp_mem p + off" "dz_valid (dzm s1 (mp_dz p)) = 0"
    using memory_split2_ok [OF assms(1) [unfolded fs] assms(3-7), of k cd] unfolding n p0_def p1_def by blast
  have in2: "d0 < NUMBER_DZMEM" "d1 < NUMBER_DZMEM" "d < NUMBER_DZMEM"
    using assms(1) fs by (auto simp: dz_inv_def)
  have c1: "xs @ d0 # d1 # ys \<in> C - {xs @ mp_dz p # ys} \<union> {xs @ [d0, d1] @ ys, [mp_dz p]}"
    "live_chunk (dzm s1) (xs @ d0 # d1 # ys)" using s1(3) by simp_all
  have v1: "dz_valid (dzm s1 d0) = 1" "dz_valid (dzm s1 d1) = 1" using s1(3) by (simp_all add: live_chunk_def)
  have nx: "dz_next (dzm s1 d0) = Some d1" using chunk_links(2) [OF dz_inv_chunk(1) [OF s1(2) c1(1)]] by simp
  obtain s2 where s2: "dzmemory_join n E d0 d1 s1 = Ok (d, s2)" "only_pool s1 s2" "live_chunk (dzm s2) (xs @ [d] @ ys)"
    "dz_size (dzm s2 d) = mp_size p" "dz_mem (dzm s2 d) = mp_mem p"
    "dz_valid (dzm s2 d0) = 0" "dz_mem (dzm s2 d0) = 0" "dz_valid (dzm s2 d1) = 0" "dz_mem (dzm s2 d1) = 0"
    using join_inv [OF s1(2) c1, of k E] s1(6-9) unfolding n by auto
  define q where "q = \<lparr>mp_size = mp_size p, mp_mem = mp_mem p, mp_dz = d\<rparr>"
  have "FREE_DZ d0 (FREE_DZ d1 s2) = s2" using s2(6-9) by (simp add: FREE_DZ_idem)
  then have j: "memory_joinNext n E cd (Some p0) s1 = Ok (Some q, s2)"
    using v1 nx s1(5) s2(1,4,5) alloc_proxy [OF E]
    by (simp add: memory_joinNext_def CHECK_NULL_PTR_def CHECKVALID_def p0_def q_def Let_def)
  have "object_of s1 p0" "object_of s1 p1" "object_of s2 q"
    using in2 v1 s1(6-9) s2(3-5) by (simp_all add: object_of_def memory_isValid_def p0_def p1_def q_def live_chunk_def)
  moreover have "\<not> memory_isValid p s1" "\<not> memory_isValid p0 s2" "\<not> memory_isValid p1 s2"
    using s1(10) s2(6,8) by (simp_all add: memory_isValid_def p0_def p1_def)
  moreover have "blocks s2 = blocks s" using s1(4) s2(2) by (simp add: only_pool_def)
  moreover have "mp_mem p0 = mp_mem p" "mp_size p0 = off" "mp_mem p1 = mp_mem p + off" "mp_size p1 = mp_size p - off"
    "mp_mem q = mp_mem p" "mp_size q = mp_size p" by (simp_all add: p0_def p1_def q_def)
  ultimately show ?thesis using s1(1) j by blast
qed

lemma demo_object:
  "\<exists>s p fs. dz_inv s fs {[19999], [19998]} \<and> 3 \<le> length fs \<and> object_of s p \<and> mp_size p = 100 \<and> mp_mem p = 0x1F0000 \<and>
     mp_dz p = 19998 \<and> dzm s 19998 = fresh_dz 100 0x1F0000"
proof -
  obtain s a where s: "dzmemory_init 2100 heap_env boot0 = Ok s" "dz_inv s (rev [0..<19999]) {[19999]}"
    "jxmalloc 2100 720000 (blocks boot0) = Ok (a, blocks s)" using boot_ready by blast
  have r: "rev [0..<19999] = 19998 # rev [0..<19998::nat]" using upt_Suc_append [of 0 19998] by (simp del: upt_Suc)
  obtain s' where s': "dz_inv s' (rev [0..<19998]) ({[19999]} \<union> {[19998]})" "dzm s' = (dzm s)(19998 := fresh_dz 100 0x1F0000)"
    using create_inv [of s 19998 "rev [0..<19998]" "{[19999]}" "0x1F0000" 100 0 heap_env] s(2) r by auto
  have "object_of s' \<lparr>mp_size = 100, mp_mem = 0x1F0000, mp_dz = 19998\<rparr>"
    by (simp add: object_of_def memory_isValid_def s'(2) NUMBER_DZMEM_def)
  moreover have "{[19999]} \<union> {[19998]} = {[19999], [19998::nat]}" by blast
  ultimately show ?thesis using s' by (intro exI [of _ s'] exI [of _ "rev [0..<19998]"] exI [of _ "\<lparr>mp_size = 100, mp_mem = 0x1F0000, mp_dz = 19998\<rparr>"]) simp
qed

theorem memory_split2_joinNext_witness:
  "\<exists>s p p0 p1 s1 q s2. object_of s p \<and> mp_size p = 100 \<and>
     memory_split2 1 heap_env 3 (Some p) 40 (Some 2) s = Ok ([p0, p1], s1) \<and> mp_size p1 = 60 \<and>
     memory_joinNext 1 heap_env 3 (Some p0) s1 = Ok (Some q, s2) \<and> mp_size q = 100"
proof -
  obtain s p fs where p: "dz_inv s fs {[19999], [19998]}" "3 \<le> length fs" "object_of s p" "mp_size p = 100"
    using demo_object by blast
  have h: "gc_alloc heap_env = Some" by (simp add: heap_env_def)
  have "0 \<le> sint (40::jint)" "(2::int) \<le> sint (2::u4)" by (simp_all add: sint_u4)
  then obtain p0 p1 s1 q s2 where "memory_split2 1 heap_env 3 (Some p) 40 (Some 2) s = Ok ([p0, p1], s1)"
    "mp_size p1 = mp_size p - 40" "memory_joinNext 1 heap_env 3 (Some p0) s1 = Ok (Some q, s2)" "mp_size q = mp_size p"
    using memory_split2_joinNext [OF p(1-3) _ _ h, of 40 2 1 3] p(4) by auto
  then show ?thesis using p(3,4) by (intro exI [of _ s] exI [of _ p] exI [of _ p0] exI [of _ p1] exI [of _ s1] exI [of _ q] exI [of _ s2]) simp
qed

subsection \<open>Dropping the last reference\<close>

lemma refcount_sizes:
  assumes "s1 = upd_dz d (\<lambda>x. x\<lparr>refcount := g x\<rparr>) s"
  shows "dz_size (dzm s1 x) = dz_size (dzm s x)" "dz_mem (dzm s1 x) = dz_mem (dzm s x)"
    "word_size_sum (dzm s1) c = of_nat (total_size (dzm s) c)" "blocks s1 = blocks s"
  using assms by (simp_all add: word_size_sum_total refcount_irrelevant)

lemma live_total:
  assumes "live_chunk f c" "c \<noteq> []"
  shows "(of_nat (total_size f c) :: u4) > 4 \<longleftrightarrow> 4 < total_size f c" "dz_mem (f (hd c)) \<noteq> 0"
proof -
  have "total_size f c < 4294967296" using assms(1) by (auto simp: live_chunk_def)
  then have "unat (of_nat (total_size f c) :: u4) = total_size f c" by (rule unat_of_nat_u4)
  then show "(of_nat (total_size f c) :: u4) > 4 \<longleftrightarrow> 4 < total_size f c" by (simp add: word_less_nat_alt)
  show "dz_mem (f (hd c)) \<noteq> 0" using live_piece(2) [of f "[]" "hd c" "tl c"] assms by simp
qed

text \<open>C29: when an object is dropped, the chunk it belongs to keeps its memory as long as any of its
  pieces is referenced, and then only the reference count changes; when this was the last
  reference to any piece and the chunk has more than 4 bytes, the whole range of the chunk, from its
  first piece over the sum of the sizes, is handed back to the block allocator in one call, and, when the
  allocator accepts it, the entries become free.  The last drop of a chunk of at most 4 bytes does not return: it fails
  \<^verbatim>\<open>ASSERT(dzm->size > 4)\<close>.\<close>

theorem memory_deleted_correct:
  assumes inv: "dz_inv s fs C" and ch: "c \<in> C" "mp_dz p \<in> set c" and r: "refcount (dzm s (mp_dz p)) \<noteq> 0"
    and n: "NUMBER_DZMEM < n" and s1: "s1 = upd_dz (mp_dz p) (\<lambda>x. x\<lparr>refcount := refcount x - 1\<rparr>) s"
    and live: "live_chunk (dzm s) c"
    and free: "\<forall>x \<in> set c. refcount (dzm s1 x) = 0 \<Longrightarrow> 4 < total_size (dzm s) c \<Longrightarrow>
       jxfree (dz_mem (dzm s (hd c))) (of_nat (total_size (dzm s) c)) (blocks s) = Ok b"
  shows "if \<exists>x \<in> set c. refcount (dzm s1 x) \<noteq> 0 then memory_deleted n p s = Ok s1
     else if 4 < total_size (dzm s) c
     then \<exists>s'. memory_deleted n p s = Ok s' \<and> blocks s' = b \<and> dz_inv s' (hd c # rev (tl c) @ fs) (C - {c})
     else \<not> is_ok (memory_deleted n p s)"
proof -
  obtain xs ys where c: "c = xs @ mp_dz p # ys" using ch(2) by (meson split_list)
  have nf: "mp_dz p \<notin> set fs" using inv r by (auto simp: dz_inv_def free_ok_def)
  have inv1: "dz_inv s1 fs C" unfolding s1 by (rule refcount_inv [OF inv nf])
  have len: "length c < n" using chunk_length [OF inv ch(1)] n by simp
  have del: "memory_deleted n p s = (if refcount (dzm s1 (mp_dz p)) = 0 then dzmemory_free_chunk n (mp_dz p) s1 else Ok s1)"
    by (simp add: memory_deleted_def dzmemory_decRefcount_def s1 Let_def)
  show ?thesis
  proof (cases "\<forall>x \<in> set c. refcount (dzm s1 x) = 0")
    case True
    then have zero: "refcount (dzm s1 (mp_dz p)) = 0" using ch(2) by blast
    have "c \<noteq> []" using ch(2) by auto
    note tot = live_total [OF live this]
    show ?thesis
    proof (cases "4 < total_size (dzm s) c")
      case big: True
      have "release_blocks s1 c b"
        using tot big free [OF True big] refcount_sizes [OF s1] by (simp add: release_blocks_def)
      then obtain s' where "dzmemory_free_chunk n (mp_dz p) s1 = Ok s'" "blocks s' = b"
        "dz_inv s' (hd c # rev (tl c) @ fs) (C - {c})"
        using free_chunk_released [OF inv1, of xs "mp_dz p" ys n b] True len ch(1) unfolding c by blast
      then show ?thesis using True big zero del by auto
    next
      case small: False
      have "\<not> release_blocks s1 c b'" for b'
        using tot small refcount_sizes [OF s1] by (simp add: release_blocks_def)
      then have "\<not> is_ok (dzmemory_free_chunk n (mp_dz p) s1)"
        using free_chunk_returns [OF inv1, of xs "mp_dz p" ys n] True len ch(1) unfolding c is_ok_iff by blast
      then show ?thesis using True small zero del by auto
    qed
  next
    case False
    have "chunk_ok (dzm s1) c" using inv1 ch(1) by (auto simp: dz_inv_def)
    then have "dzmemory_free_chunk n (mp_dz p) s1 = Ok s1"
      using free_chunk_referenced [of s1 xs "mp_dz p" ys n] False len unfolding c by auto
    then show ?thesis using False del by auto
  qed
qed

subsection \<open>A new object and its release\<close>

text \<open>The allocator's bitmap lies in blocks that are in use, so clearing a new object leaves it
  alone.\<close>

definition bitmap_reserved :: "malloc_state \<Rightarrow> bool" where
  "bitmap_reserved b \<longleftrightarrow> bitmap b = jxmem_start b \<and> (\<forall>j. j * 1024 < (nblk b + 7) div 8 \<longrightarrow> ublk b j)"

lemma clear_keeps_blocks:
  assumes inv: "malloc_inv s" and post: "alloc_post s n c addr b" and sz: "unat sz \<le> n * 1024" "0 < n"
    and res: "bitmap_reserved s" and k: "k < nblk s"
  shows "ublk (b\<lparr>mem := memset0 addr sz (mem b)\<rparr>) k = ublk b k"
proof -
  have st: "unat (jxmem_start s) + nblk s * 1024 < 4294967296" using inv by (simp add: malloc_inv_def)
  have c: "c + n \<le> nblk s" "\<not> ublk s c" using post sz(2) by (auto simp: alloc_post_def free_run_def)
  then have cb: "(nblk s + 7) div 8 \<le> c * 1024" using res by (meson bitmap_reserved_def not_less)
  have b: "bitmap b = jxmem_start s" "unat addr = unat (jxmem_start s) + c * 1024"
    using post res by (simp_all add: alloc_post_def bitmap_reserved_def)
  define pos where "pos = (drop_bit 3 (of_nat k) :: u4)"
  have "unat (of_nat k :: u4) = k" using k st by (intro unat_of_nat_u4) simp
  then have pos: "unat pos = k div 8" by (simp add: pos_def drop_bit_eq_div unat_div)
  have "k div 8 < (nblk s + 7) div 8" using k by linarith
  then have "k div 8 < c * 1024" using cb by simp
  moreover have c2: "c * 1024 + n * 1024 \<le> nblk s * 1024" using c(1) by (metis add_mult_distrib mult_le_mono1)
  ultimately have below: "unat (bitmap b + pos) < unat addr"
    using st pos b by (simp add: unat_word_ariths)
  have "\<not> (bitmap b + pos) - addr < sz"
  proof
    assume w: "(bitmap b + pos) - addr < sz"
    have "unat addr + unat ((bitmap b + pos) - addr) < 4294967296"
      using w b(2) sz(1) st c2 by (simp add: word_less_nat_alt)
    then have "unat (addr + ((bitmap b + pos) - addr)) = unat addr + unat ((bitmap b + pos) - addr)"
      by (simp only: unat_word_ariths) simp
    then show False using below by simp
  qed
  then show ?thesis
    by (simp add: ublk_def block_used_def bitmap_at_def memset0_def pos_def [symmetric])
qed

lemma cleared_inv:
  assumes "malloc_inv b" "\<And>k. k < nblk b \<Longrightarrow> ublk (b\<lparr>mem := m\<rparr>) k = ublk b k"
  shows "malloc_inv (b\<lparr>mem := m\<rparr>)" "free_count (b\<lparr>mem := m\<rparr>) = free_count b"
proof -
  have n: "nblk (b\<lparr>mem := m\<rparr>) = nblk b" by (simp add: nblk_def)
  show "free_count (b\<lparr>mem := m\<rparr>) = free_count b"
    unfolding free_count_def n using assms(2) by (intro arg_cong [where f = length] filter_cong) auto
  then show "malloc_inv (b\<lparr>mem := m\<rparr>)" using assms(1) by (simp add: malloc_inv_def cur_def n)
qed

lemma createMemoryInstance_ok:
  assumes inv: "dz_inv s (d # fs) C" and m: "malloc_inv (blocks s)" "bitmap_reserved (blocks s)"
    and sz: "unat sz + 1023 < 2 ^ 32" "0 < unat sz"
    and run: "free_run (blocks s) k ((unat sz + 1023) div 1024)" and n: "2 * nblk (blocks s) + 1 < n"
    and st: "jxmem_start (blocks s) \<noteq> 0" and E: "gc_alloc E = Some"
  shows "\<exists>a b c s'. alloc_post (blocks s) ((unat sz + 1023) div 1024) c a b \<and> malloc_inv b \<and>
     createMemoryInstance n E cd sz 1 s = Ok (\<lparr>mp_size = sz, mp_mem = a, mp_dz = d\<rparr>, s') \<and>
     blocks s' = b\<lparr>mem := memset0 a sz (mem b)\<rparr> \<and> dz_inv s' fs (C \<union> {[d]}) \<and> dzm s' d = fresh_dz sz a \<and>
     unat a + unat sz < 4294967296 \<and> a \<noteq> 0"
proof -
  obtain a b where ab: "jxmalloc n sz (blocks s) = Ok (a, b)"
    using jxmalloc_returns [OF m(1) sz run n] by (auto simp: is_ok_iff)
  obtain c where post: "alloc_post (blocks s) ((unat sz + 1023) div 1024) c a b" and mb: "malloc_inv b"
    using jxmalloc_post [OF m(1) sz(1) ab] by blast
  have c: "c + (unat sz + 1023) div 1024 \<le> nblk (blocks s)" "unat a = unat (jxmem_start (blocks s)) + c * 1024"
    using post by (auto simp: alloc_post_def free_run_def)
  have lim: "unat (jxmem_start (blocks s)) + nblk (blocks s) * 1024 < 4294967296" using m(1) by (simp add: malloc_inv_def)
  have "unat sz \<le> (unat sz + 1023) div 1024 * 1024" by linarith
  moreover have "c * 1024 + (unat sz + 1023) div 1024 * 1024 \<le> nblk (blocks s) * 1024"
    using c(1) by (metis add_mult_distrib mult_le_mono1)
  ultimately have fit: "unat a + unat sz < 4294967296" using c(2) lim by linarith
  have a0: "a \<noteq> 0" using c(2) st by (metis add_is_0 unat_eq_0)
  define s1 where "s1 = s\<lparr>blocks := b\<lparr>mem := memset0 a sz (mem b)\<rparr>,
     memoryObjectBytes := (memoryObjectBytes s)(cd := memoryObjectBytes s cd + sz)\<rparr>"
  have inv1: "dz_inv s1 (d # fs) C"
    using inv unfolding dz_inv_def by (auto simp: s1_def free_ok_def)
  obtain k' where n': "n = Suc k'" using n by (cases n) auto
  obtain s' where s': "createDZMemory n E sz a s1 = Ok (d, s')" "dz_inv s' fs (C \<union> {[d]})" "only_pool s1 s'"
    "dzm s' = (dzm s1)(d := fresh_dz sz a)"
    using create_inv [OF inv1 a0 fit, of k' E] unfolding n' by blast
  have "createMemoryInstance n E cd sz 1 s = Ok (\<lparr>mp_size = sz, mp_mem = a, mp_dz = d\<rparr>, s')"
    using ab s' E
    by (simp add: createMemoryInstance_def align_up_def Let_def s1_def [symmetric] allocMemoryProxyInDomain_def
        internalallocMemoryProxyInDomain_def)
  then show ?thesis using post mb s' fit a0 by (intro exI [of _ a] exI [of _ b] exI [of _ c] exI [of _ s'])
      (simp add: only_pool_def s1_def)
qed

lemma memoryManager_alloc_ok:
  assumes inv: "dz_inv s (d # fs) C" and m: "malloc_inv (blocks s)" "bitmap_reserved (blocks s)"
    and sz: "unat sz + 1023 < 2 ^ 32" "0 < unat sz" and K: "K = (unat sz + 1023) div 1024"
    and run: "free_run (blocks s) k K" and n: "2 * nblk (blocks s) + 1 < n"
    and st: "jxmem_start (blocks s) \<noteq> 0" and E: "gc_alloc E = Some" and cd: "cd \<noteq> 0"
  shows "\<exists>a c s1 b2. memoryManager_alloc n E cd sz s = Ok (\<lparr>mp_size = sz, mp_mem = a, mp_dz = d\<rparr>, s1) \<and>
     (\<forall>i < unat sz. mem (blocks s1) (a + of_nat i) = 0) \<and> alloc_post (blocks s) K c a (blocks s1) \<and>
     dz_inv s1 fs (C \<union> {[d]}) \<and> dzm s1 d = fresh_dz sz a \<and> unat a + unat sz < 4294967296 \<and> a \<noteq> 0 \<and>
     jxfree a sz (blocks s1) = Ok b2 \<and>
     (\<forall>j < nblk (blocks s). ublk b2 j = ublk (blocks s) j) \<and> free_count b2 = free_count (blocks s)"
proof -
  obtain a b c s1 where post: "alloc_post (blocks s) K c a b" and mb: "malloc_inv b"
    and cr: "createMemoryInstance n E cd sz 1 s = Ok (\<lparr>mp_size = sz, mp_mem = a, mp_dz = d\<rparr>, s1)"
    and b1: "blocks s1 = b\<lparr>mem := memset0 a sz (mem b)\<rparr>" and inv1: "dz_inv s1 fs (C \<union> {[d]})"
    and d1: "dzm s1 d = fresh_dz sz a" and fit: "unat a + unat sz < 4294967296" "a \<noteq> 0"
    using createMemoryInstance_ok [OF inv m sz _ n st E] run unfolding K by fastforce
  have nb: "nblk b = nblk (blocks s)" using post by (simp add: alloc_post_def)
  have same: "ublk (blocks s1) j = ublk b j" if "j < nblk b" for j
    unfolding b1 using clear_keeps_blocks [OF m(1) post _ _ m(2)] that sz(2) nb K by simp
  note ci = cleared_inv [OF mb, of "memset0 a sz (mem b)", folded b1, OF same]
  have nb1: "nblk (blocks s1) = nblk (blocks s)" "jxmem_start (blocks s1) = jxmem_start (blocks s)"
    "bitmap (blocks s1) = bitmap (blocks s)"
    using post b1 by (simp_all add: alloc_post_def nblk_def)
  have post1: "alloc_post (blocks s) K c a (blocks s1)"
    using post same nb nb1 ci(2) by (simp add: alloc_post_def)
  have f: "c < nblk (blocks s)" "c + K \<le> nblk (blocks s)" "\<forall>j<K. \<not> ublk (blocks s) (c + j)"
    using post sz(2) K by (auto simp: alloc_post_def free_run_def)
  have used: "\<forall>j<K. ublk (blocks s1) (c + j)" using post1 f(2) by (auto simp: alloc_post_def)
  have af: "unat a = unat (jxmem_start (blocks s1)) + c * 1024" "c < nblk (blocks s1)" "c + K \<le> nblk (blocks s1)"
    using post1 f nb1 by (simp_all add: alloc_post_def)
  obtain b2 where b2: "jxfree a sz (blocks s1) = Ok b2"
    "\<forall>j<nblk (blocks s1). ublk b2 j = (ublk (blocks s1) j \<and> \<not> (c \<le> j \<and> j < c + K))"
    "free_count b2 = free_count (blocks s1) + K"
    using jxfree_post [OF ci(1) sz(1) af(1-2) af(3) [unfolded K] used [unfolded K]] K by blast
  have "\<forall>i < unat sz. mem (blocks s1) (a + of_nat i) = 0"
  proof (intro allI impI)
    fix i assume "i < unat sz"
    then have "(of_nat i :: u4) < sz"
      using unsigned_less [where ?'a = nat and w = sz] by (simp add: word_less_nat_alt unat_of_nat)
    then show "mem (blocks s1) (a + of_nat i) = 0" unfolding b1 by (simp add: memset0_at)
  qed
  moreover have "memoryManager_alloc n E cd sz s = Ok (\<lparr>mp_size = sz, mp_mem = a, mp_dz = d\<rparr>, s1)"
    using cr cd by (simp add: memoryManager_alloc_def)
  moreover have "\<forall>j < nblk (blocks s). ublk b2 j = ublk (blocks s) j"
  proof (intro allI impI)
    fix j assume j: "j < nblk (blocks s)"
    have "\<not> ublk (blocks s) j" if "c \<le> j" "j < c + K"
      using f(3) that by (metis le_add_diff_inverse nat_add_left_cancel_less)
    then show "ublk b2 j = ublk (blocks s) j"
      using b2(2) post1 j nb1(1) unfolding alloc_post_def by auto
  qed
  moreover have "free_count b2 = free_count (blocks s)"
    using b2(3) post1 by (simp add: alloc_post_def)
  ultimately show ?thesis using post1 inv1 d1 fit b2(1) by blast
qed

lemma drop_new_object:
  assumes inv: "dz_inv s1 fs (C \<union> {[d]})" and dC: "[d] \<notin> C" and d1: "dzm s1 d = fresh_dz sz a" "a \<noteq> 0"
    and fr: "jxfree a sz (blocks s1) = Ok b2" and n: "NUMBER_DZMEM < n"
  shows "if 4 < unat sz
     then \<exists>s2. memory_deleted n \<lparr>mp_size = sz, mp_mem = a, mp_dz = d\<rparr> s1 = Ok s2 \<and> dz_inv s2 (d # fs) C \<and> blocks s2 = b2
     else \<not> is_ok (memory_deleted n \<lparr>mp_size = sz, mp_mem = a, mp_dz = d\<rparr> s1)"
proof -
  define t where "t = upd_dz d (\<lambda>x. x\<lparr>refcount := refcount x - 1\<rparr>) s1"
  have nf: "d \<notin> set fs" using inv by (auto simp: dz_inv_def)
  have invt: "dz_inv t fs (C \<union> {[d]})" unfolding t_def by (rule refcount_inv [OF inv nf])
  have zero: "\<forall>x \<in> set ([] @ d # []). refcount (dzm t x) = 0" using d1 by (simp add: t_def)
  have nn: "length ([] @ d # []) < n" using n by (simp add: NUMBER_DZMEM_def)
  have mem: "[] @ d # [] \<in> C \<union> {[d]}" by simp
  have del: "memory_deleted n \<lparr>mp_size = sz, mp_mem = a, mp_dz = d\<rparr> s1 = dzmemory_free_chunk n d t"
    using d1 by (simp add: memory_deleted_def dzmemory_decRefcount_def t_def Let_def)
  have rel: "release_blocks t ([] @ d # []) b \<longleftrightarrow> 4 < unat sz \<and> b = b2" for b
    using d1 fr by (auto simp: release_blocks_def t_def word_size_sum_def word_less_nat_alt)
  show ?thesis
  proof (cases "4 < unat sz")
    case True
    then have "release_blocks t ([] @ d # []) b2" by (simp only: rel)
    then obtain s2 where s2: "dzmemory_free_chunk n d t = Ok s2" "blocks s2 = b2"
      "dz_inv s2 (hd ([] @ d # []) # rev (tl ([] @ d # [])) @ fs) (C \<union> {[d]} - {[] @ d # []})"
      using free_chunk_released [OF invt mem zero nn] by blast
    have "dz_inv s2 (d # fs) C" using s2(3) dC by simp
    then show ?thesis using True s2 del by auto
  next
    case False
    then have "\<not> is_ok (dzmemory_free_chunk n d t)"
      using free_chunk_returns [OF invt mem zero nn] rel unfolding is_ok_iff by blast
    then show ?thesis using False del by simp
  qed
qed

text \<open>C30: with a free pool entry, a long enough run of free blocks and room on the heap,
  \<^verbatim>\<open>MemoryManager.alloc\<close> of at least one byte in a domain other than DomainZero returns a valid object of the requested size, all of
  whose bytes are zero, in memory no one else used.  If it has more than 4 bytes, dropping its only
  reference returns the memory and the pool entry, and the allocator is as it was before; the drop of an
  object of 1 to 4 bytes does not return (\<^verbatim>\<open>ASSERT(dzm->size > 4)\<close>).\<close>

theorem memoryManager_alloc_drop:
  assumes inv: "dz_inv s (d # fs) C" and m: "malloc_inv (blocks s)" "bitmap_reserved (blocks s)"
    and sz: "unat sz + 1023 < 2 ^ 32" "0 < unat sz"
    and run: "free_run (blocks s) k ((unat sz + 1023) div 1024)" and n: "2 * nblk (blocks s) + 1 < n" "NUMBER_DZMEM < n"
    and st: "jxmem_start (blocks s) \<noteq> 0" and E: "gc_alloc E = Some" and cd: "cd \<noteq> 0"
  shows "\<exists>p s1. memoryManager_alloc n E cd sz s = Ok (p, s1) \<and> object_of s1 p \<and> mp_size p = sz \<and>
     (\<forall>i < unat sz. mem (blocks s1) (mp_mem p + of_nat i) = 0) \<and>
     (\<exists>c. alloc_post (blocks s) ((unat sz + 1023) div 1024) c (mp_mem p) (blocks s1)) \<and>
     (if 4 < unat sz
      then \<exists>s2. memory_deleted n p s1 = Ok s2 \<and> dz_inv s2 (d # fs) C \<and>
        (\<forall>j < nblk (blocks s). ublk (blocks s2) j = ublk (blocks s) j) \<and> free_count (blocks s2) = free_count (blocks s)
      else \<not> is_ok (memory_deleted n p s1))"
proof -
  obtain a c s1 b2 where al: "memoryManager_alloc n E cd sz s = Ok (\<lparr>mp_size = sz, mp_mem = a, mp_dz = d\<rparr>, s1)"
    and cleared: "\<forall>i < unat sz. mem (blocks s1) (a + of_nat i) = 0"
    and post: "alloc_post (blocks s) ((unat sz + 1023) div 1024) c a (blocks s1)"
    and inv1: "dz_inv s1 fs (C \<union> {[d]})" and d1: "dzm s1 d = fresh_dz sz a" "a \<noteq> 0"
    and fr: "jxfree a sz (blocks s1) = Ok b2" "\<forall>j < nblk (blocks s). ublk b2 j = ublk (blocks s) j"
      "free_count b2 = free_count (blocks s)"
    using memoryManager_alloc_ok [OF inv m sz refl run n(1) st E cd] by blast
  define p where "p = \<lparr>mp_size = sz, mp_mem = a, mp_dz = d\<rparr>"
  have dN: "d < NUMBER_DZMEM" and dC: "[d] \<notin> C" using inv by (auto simp: dz_inv_def)
  have "object_of s1 p" using d1 dN by (simp add: object_of_def memory_isValid_def p_def)
  moreover have "if 4 < unat sz then \<exists>s2. memory_deleted n p s1 = Ok s2 \<and> dz_inv s2 (d # fs) C \<and>
        (\<forall>j < nblk (blocks s). ublk (blocks s2) j = ublk (blocks s) j) \<and> free_count (blocks s2) = free_count (blocks s)
      else \<not> is_ok (memory_deleted n p s1)"
    using drop_new_object [OF inv1 dC d1 fr(1) n(2)] fr(2,3) unfolding p_def by (cases "4 < unat sz") auto
  moreover have "mp_size p = sz" "mp_mem p = a" by (simp_all add: p_def)
  ultimately show ?thesis
    using al cleared post unfolding p_def [symmetric] by (intro exI [of _ p] exI [of _ s1]) auto
qed

lemma boot_blocks:
  assumes "jxmalloc 2100 720000 (blocks boot0) = Ok (a, b)"
  shows "malloc_inv b" "bitmap_reserved b" "nblk b = 1024" "jxmem_start b \<noteq> 0" "\<exists>k. free_run b k 1"
proof -
  obtain c where post: "alloc_post (blocks boot0) 704 c a b" and mb: "malloc_inv b"
    using jxmalloc_post [OF boot0_facts(1) _ assms] by auto
  have c: "c + 704 \<le> 1024" and u: "\<forall>j<1024. ublk b j = (j < 1 \<or> c \<le> j \<and> j < c + 704)" and nb: "nblk b = 1024"
    using post boot0_facts by (auto simp: alloc_post_def free_run_def)
  have st: "jxmem_start (blocks boot0) = 0x100000" "bitmap (blocks boot0) = 0x100000"
    by (simp_all add: boot0_def jxmalloc_setup_def Let_def markUsed_def)
  then have stb: "jxmem_start b = 0x100000" "bitmap b = 0x100000" using post by (simp_all add: alloc_post_def)
  show "malloc_inv b" "nblk b = 1024" "jxmem_start b \<noteq> 0" using mb nb stb by simp_all
  show "bitmap_reserved b" using stb u nb by (auto simp: bitmap_reserved_def)
  have "\<not> ublk b (if c \<le> 1 then 800 else 1)" using u by auto
  then have "free_run b (if c \<le> 1 then 800 else 1) 1" using nb by (auto simp: free_run_def)
  then show "\<exists>k. free_run b k 1" by blast
qed

lemma demo_alloc:
  "\<exists>s k. dzmemory_init 2100 heap_env boot0 = Ok s \<and> dz_inv s (19998 # rev [0..<19998]) {[19999]} \<and>
     malloc_inv (blocks s) \<and> bitmap_reserved (blocks s) \<and> nblk (blocks s) = 1024 \<and> jxmem_start (blocks s) \<noteq> 0 \<and>
     free_run (blocks s) k 1"
proof -
  obtain s a where s: "dzmemory_init 2100 heap_env boot0 = Ok s" "dz_inv s (rev [0..<19999]) {[19999]}"
    "jxmalloc 2100 720000 (blocks boot0) = Ok (a, blocks s)" using boot_ready by blast
  have r: "rev [0..<19999] = 19998 # rev [0..<19998::nat]" using upt_Suc_append [of 0 19998] by (simp del: upt_Suc)
  note b = boot_blocks [OF s(3)]
  then show ?thesis using s(1) s(2) [unfolded r] by blast
qed

theorem memoryManager_alloc_drop_witness:
  "\<exists>s p s1 s2. dzmemory_init 2100 heap_env boot0 = Ok s \<and> memoryManager_alloc 20001 heap_env 3 100 s = Ok (p, s1) \<and>
     mp_size p = 100 \<and> memory_deleted 20001 p s1 = Ok s2 \<and> free_count (blocks s2) = free_count (blocks s)"
proof -
  obtain s k where s: "dzmemory_init 2100 heap_env boot0 = Ok s" "dz_inv s (19998 # rev [0..<19998]) {[19999]}"
    and b: "malloc_inv (blocks s)" "bitmap_reserved (blocks s)" "nblk (blocks s) = 1024" "jxmem_start (blocks s) \<noteq> 0"
    and k: "free_run (blocks s) k 1" using demo_alloc by blast
  have h: "gc_alloc heap_env = Some" by (simp add: heap_env_def)
  have run: "free_run (blocks s) k ((unat (100::u4) + 1023) div 1024)" using k by simp
  have "\<exists>p s1. memoryManager_alloc 20001 heap_env 3 100 s = Ok (p, s1) \<and> mp_size p = 100 \<and>
     (\<exists>s2. memory_deleted 20001 p s1 = Ok s2 \<and> free_count (blocks s2) = free_count (blocks s))"
    using memoryManager_alloc_drop [OF s(2) b(1,2) _ _ run, of 20001 heap_env 3] b(3,4) h
    by (simp add: NUMBER_DZMEM_def) blast
  then show ?thesis using s(1) by blast
qed

text \<open>An object from the booted allocator, shared once: the first drop leaves it alone, the second
  releases its memory.\<close>

theorem memory_deleted_correct_witness:
  "\<exists>s0 p s s1 s2. memoryManager_alloc 20001 heap_env 3 100 s0 = Ok (p, s) \<and>
     memory_deleted 20001 p (dzmemory_incRefcount p s) = Ok s1 \<and> refcount (dzm s1 (mp_dz p)) = 1 \<and>
     memory_deleted 20001 p s1 = Ok s2 \<and> free_count (blocks s2) = free_count (blocks s0)"
proof -
  obtain s0 k where inv0: "dz_inv s0 (19998 # rev [0..<19998]) {[19999]}"
    and b: "malloc_inv (blocks s0)" "bitmap_reserved (blocks s0)" "nblk (blocks s0) = 1024" "jxmem_start (blocks s0) \<noteq> 0"
    and k: "free_run (blocks s0) k 1" using demo_alloc by blast
  obtain a c s b2 where al: "memoryManager_alloc 20001 heap_env 3 100 s0 = Ok (\<lparr>mp_size = 100, mp_mem = a, mp_dz = 19998\<rparr>, s)"
    and inv: "dz_inv s (rev [0..<19998]) ({[19999]} \<union> {[19998]})" and d: "dzm s 19998 = fresh_dz 100 a" "a \<noteq> 0"
    "unat a + unat (100::u4) < 4294967296" and fr: "jxfree a 100 (blocks s) = Ok b2" "free_count b2 = free_count (blocks s0)"
    using memoryManager_alloc_ok [OF inv0 b(1,2) _ _ refl _ _ b(4), of 100 k 20001 heap_env 3] k b(3)
    by (auto simp: heap_env_def)
  define p where "p = \<lparr>mp_size = 100, mp_mem = a, mp_dz = 19998\<rparr>"
  define t where "t = dzmemory_incRefcount p s"
  define t1 where "t1 = upd_dz (mp_dz p) (\<lambda>x. x\<lparr>refcount := refcount x - 1\<rparr>) t"
  define t2 where "t2 = upd_dz (mp_dz p) (\<lambda>x. x\<lparr>refcount := refcount x - 1\<rparr>) t1"
  have nf: "mp_dz p \<notin> set (rev [0..<19998])" by (simp add: p_def)
  have inv1: "dz_inv t (rev [0..<19998]) ({[19999]} \<union> {[19998]})"
    unfolding t_def dzmemory_incRefcount_def by (rule refcount_inv [OF inv nf])
  have inv2: "dz_inv t1 (rev [0..<19998]) ({[19999]} \<union> {[19998]})" unfolding t1_def by (rule refcount_inv [OF inv1 nf])
  have live: "live_chunk (dzm t) [19998]" "live_chunk (dzm t1) [19998]"
    using d by (auto simp: live_chunk_def t1_def t_def p_def dzmemory_incRefcount_def unat_gt_0)
  have rc: "refcount (dzm t 19998) = 2" "refcount (dzm t1 19998) = 1" "refcount (dzm t2 19998) = 0"
    using d by (simp_all add: t2_def t1_def t_def p_def dzmemory_incRefcount_def)
  have same: "dz_mem (dzm t1 19998) = a" "dz_size (dzm t1 19998) = 100" "blocks t1 = blocks s"
    using d by (simp_all add: t1_def t_def p_def dzmemory_incRefcount_def)
  have one: "memory_deleted 20001 p t = Ok t1"
    using memory_deleted_correct [OF inv1 _ _ _ _ t1_def live(1), of 20001] rc
    by (simp add: p_def NUMBER_DZMEM_def)
  obtain s2 where two: "memory_deleted 20001 p t1 = Ok s2" "blocks s2 = b2"
    using memory_deleted_correct [OF inv2 _ _ _ _ t2_def live(2), of 20001 b2] rc same fr(1)
    by (auto simp: p_def NUMBER_DZMEM_def)
  have "refcount (dzm t1 (mp_dz p)) = 1" using rc(2) by (simp add: p_def)
  then have "memoryManager_alloc 20001 heap_env 3 100 s0 = Ok (p, s) \<and>
     memory_deleted 20001 p (dzmemory_incRefcount p s) = Ok t1 \<and> refcount (dzm t1 (mp_dz p)) = 1 \<and>
     memory_deleted 20001 p t1 = Ok s2 \<and> free_count (blocks s2) = free_count (blocks s0)"
    using al one two fr(2) by (simp add: t_def p_def)
  then show ?thesis by blast
qed

subsection \<open>Revocation\<close>

lemma FREE_DZ_inv:
  assumes inv: "dz_inv s fs C" and d: "[d] \<in> C"
  shows "dz_inv (FREE_DZ d s) fs C"
proof -
  note ch = dz_inv_chunk [OF inv d]
  have L: "dz_prev (dzm s d) = None" "dz_next (dzm s d) = None" using chunk_links [of "dzm s" "[]" d "[]"] ch(1) by simp_all
  have "chunk_ok (dzm (FREE_DZ d s)) [d]" using L by (intro dead_chunkI) (auto simp: FREE_DZ_def)
  moreover have "free_ok (FREE_DZ d s) fs"
    by (rule free_ok_frame [OF ch(3)]) (use ch(2) in \<open>auto simp: FREE_DZ_def\<close>)
  ultimately have "dz_inv (FREE_DZ d s) fs (C - {[d]} \<union> {[d]})"
    by (intro dz_inv_replace [OF inv]) (use d ch(2) in \<open>auto simp: FREE_DZ_def\<close>)
  moreover have "C - {[d]} \<union> {[d]} = C" using d by blast
  ultimately show ?thesis by simp
qed

text \<open>The operations on a memory object that test its validity before anything else.  Not among them
  are \<^verbatim>\<open>memory_move\<close>, the target of \<^verbatim>\<open>memory_copyToMemory\<close> and \<^verbatim>\<open>memory_size\<close>, which have no such test.\<close>

fun tests_validity :: "mem_write \<Rightarrow> bool" where
  "tests_validity (Move d f n) = False"
| "tests_validity (ToMemory q so to n) = False"
| "tests_validity _ = True"

abbreviation invalid_memory :: "'a res" where
  "invalid_memory \<equiv> Fault (JavaThrow ''InvalidMemory'')"

definition access_refused :: "MemoryProxy \<Rightarrow> memst \<Rightarrow> bool" where
  "access_refused p s \<longleftrightarrow>
     (\<forall>w. tests_validity w \<longrightarrow> do_write p w s = invalid_memory) \<and>
     (\<forall>i. memory_get8 (Some p) i s = invalid_memory \<and> memory_get16 (Some p) i s = invalid_memory \<and>
        memory_get32 p i s = invalid_memory \<and> memory_getLittleEndian32 (Some p) i s = invalid_memory \<and>
        memory_getLittleEndian16 (Some p) i s = invalid_memory \<and> memory_getBigEndian16 (Some p) i s = invalid_memory) \<and>
     memory_getStartAddress p s = invalid_memory \<and>
     (\<forall>b ao mo k. memory_copyToByteArray (Some p) (Some b) ao mo k s = invalid_memory) \<and>
     (\<forall>q so to k. memory_copyToMemory (Some p) (Some q) so to k s = invalid_memory) \<and>
     (\<forall>n E cd off k ar. memory_split2 n E cd (Some p) off ar s = invalid_memory \<and>
        memory_split3 n E cd (Some p) off k ar s = invalid_memory) \<and>
     (\<forall>n E cd. memory_joinPrevious n E cd (Some p) s = invalid_memory \<and>
        memory_joinNext n E cd (Some p) s = invalid_memory \<and> memory_joinAll n E cd (Some p) s = invalid_memory) \<and>
     (\<forall>st n E cd off k. memory_getSubRange st n E cd (Some p) off k s = invalid_memory) \<and>
     (\<forall>j n E cd. memory_revoke j n E cd p s = invalid_memory)"

lemma invalid_refused:
  assumes "dz_valid (dzm s (mp_dz p)) = 0"
  shows "access_refused p s"
proof -
  have "do_write p w s = invalid_memory" if "tests_validity w" for w
    using that assms by (cases w) (simp_all add: CHECK_NULL_PTR_def CHECKVALID_def memory_set8_def memory_set16_def memory_set32_def
        memory_fill16_def memory_fill32_def memory_clear_def memory_copy_def memory_setLittleEndian32_def
        memory_setLittleEndian16_def memory_setBigEndian16_def memory_copyFromByteArray_def memory_copyFromMemory_def)
  then show ?thesis
    unfolding access_refused_def using assms
    by (simp add: CHECK_NULL_PTR_def CHECKVALID_def memory_get8_def memory_get16_def memory_get32_def
        memory_getLittleEndian32_def memory_getLittleEndian16_def memory_getBigEndian16_def memory_getStartAddress_def
        memory_copyToByteArray_def memory_copyToMemory_def memory_split2_def memory_split3_def memory_joinPrevious_def
        memory_joinNext_def memory_joinAll_def memory_getSubRange_def memory_revoke_def)
qed

text \<open>C31: with a free pool entry and room on the heap, revoking an object that was never split gives the caller a new valid object over the same range;
  the revoked one and every copy of it that another domain holds are invalid from then on, and every
  modelled operation that tests validity, reading, writing, copying, splitting, joining or revoking,
  throws \<^verbatim>\<open>InvalidMemory\<close> when it is called on one of them.  \<^verbatim>\<open>memory_move\<close>, the target of
  \<^verbatim>\<open>memory_copyToMemory\<close> and \<^verbatim>\<open>memory_size\<close> make no such test: \<^verbatim>\<open>memory_move\<close> through a revoked object
  still stores.\<close>

theorem memory_revoke_correct:
  assumes inv: "dz_inv s (t # fs) C" and d: "[mp_dz p] \<in> C" and p: "object_of s p" and E: "gc_alloc E = Some" and n: "1 < n"
  shows "\<exists>q s'. memory_revoke junk n E cd p s = Ok (q, s') \<and> dz_inv s' fs (C \<union> {[t]}) \<and> object_of s' q \<and>
     mp_mem q = mp_mem p \<and> mp_size q = mp_size p \<and> blocks s' = blocks s \<and>
     (\<forall>p'. mp_dz p' = mp_dz p \<longrightarrow> \<not> memory_isValid p' s' \<and> access_refused p' s' \<and>
        (\<forall>d f k. memory_move p' d f k s' \<noteq> invalid_memory))"
proof -
  obtain m where n: "n = Suc (Suc m)" using n by (cases n; cases "n - 1") auto
  note ch = dz_inv_chunk [OF inv d]
  have pv: "dz_valid (dzm s (mp_dz p)) = 1" "mp_size p = dz_size (dzm s (mp_dz p))" "mp_mem p = dz_mem (dzm s (mp_dz p))"
    using p by (simp_all add: object_of_def memory_isValid_def)
  have live: "live_chunk (dzm s) [mp_dz p]" using ch(1) pv(1) by (auto simp: chunk_ok_def dead_chunk_def)
  have fit: "mp_mem p \<noteq> 0" "unat (mp_mem p) + unat (mp_size p) < 4294967296"
    using live_piece [of "dzm s" "[]" "mp_dz p" "[]"] live pv by simp_all
  have L: "dz_prev (dzm s (mp_dz p)) = None" "dz_next (dzm s (mp_dz p)) = None"
    using chunk_links [of "dzm s" "[]" "mp_dz p" "[]"] ch(1) by simp_all
  have td: "t \<noteq> mp_dz p" "t < NUMBER_DZMEM" using ch(2) inv by (auto simp: dz_inv_def)
  obtain s1 where s1: "createDZMemory n E (mp_size p) (mp_mem p) s = Ok (t, s1)" "dz_inv s1 fs (C \<union> {[t]})"
    "only_pool s s1" "dzm s1 = (dzm s)(t := fresh_dz (mp_size p) (mp_mem p))"
    using create_inv [OF inv fit, of "Suc m" E] unfolding n by blast
  have L1: "dzm s1 (mp_dz p) = dzm s (mp_dz p)" using td s1(4) by simp
  define s' where "s' = FREE_DZ (mp_dz p) s1"
  define q where "q = \<lparr>mp_size = mp_size p, mp_mem = mp_mem p, mp_dz = t\<rparr>"
  have v': "dz_valid (dzm s' (mp_dz p)) = 0" by (simp add: s'_def FREE_DZ_def)
  obtain o1 where o1: "revoke_prev n E cd (mp_dz p) t junk s1 = Ok (o1, junk, s1)" "o1 = None \<or> o1 = Some (mp_dz p)"
    unfolding n using L L1 by (cases "prevOwner (dzm s (mp_dz p)) = cd") auto
  obtain o2 where o2: "revoke_next n E cd (mp_dz p) t junk s1 = Ok (o2, junk, s1)" "o2 = None \<or> o2 = Some (mp_dz p)"
    unfolding n using L L1 by (cases "nextOwner (dzm s (mp_dz p)) = cd") auto
  have "memory_revoke junk n E cd p s = Ok (q, s')"
    using pv(1) s1(1,4) o1 o2 L L1 alloc_proxy [OF E] v'
    by (auto simp: memory_revoke_def CHECKVALID_def s'_def [symmetric] q_def Let_def)
  moreover have "dz_inv s' fs (C \<union> {[t]})" unfolding s'_def by (rule FREE_DZ_inv [OF s1(2)]) (use d in blast)
  moreover have "object_of s' q"
    using td s1(4) by (simp add: object_of_def memory_isValid_def q_def s'_def FREE_DZ_def)
  moreover have "blocks s' = blocks s" using s1(3) by (simp add: s'_def FREE_DZ_def only_pool_def)
  moreover have "\<forall>p'. mp_dz p' = mp_dz p \<longrightarrow> \<not> memory_isValid p' s' \<and> access_refused p' s' \<and>
        (\<forall>d f k. memory_move p' d f k s' \<noteq> invalid_memory)"
    using v' by (simp add: memory_isValid_def invalid_refused memory_move_def Let_def)
  moreover have "mp_mem q = mp_mem p" "mp_size q = mp_size p" by (simp_all add: q_def)
  ultimately show ?thesis by blast
qed

theorem memory_revoke_correct_witness:
  "\<exists>s p q s'. object_of s p \<and> memory_revoke 7 2 heap_env 3 p s = Ok (q, s') \<and> mp_mem q = 0x1F0000 \<and>
     memory_set32 p 0 5 s' = invalid_memory \<and> memory_get32 p 0 s' = invalid_memory"
proof -
  obtain s p fs where p: "dz_inv s fs {[19999], [19998]}" "3 \<le> length fs" "object_of s p" "mp_mem p = 0x1F0000" "mp_dz p = 19998"
    using demo_object by blast
  obtain t fs' where fs: "fs = t # fs'" using p(2) by (cases fs) auto
  have "\<exists>q s'. memory_revoke 7 2 heap_env 3 p s = Ok (q, s') \<and> mp_mem q = mp_mem p \<and> access_refused p s'"
    using memory_revoke_correct [OF p(1) [unfolded fs] _ p(3), of heap_env 2 7 3] by (auto simp add: p(5) heap_env_def)
  then obtain q s' where q: "memory_revoke 7 2 heap_env 3 p s = Ok (q, s')" "mp_mem q = mp_mem p" "access_refused p s'" by blast
  then have "do_write p (Set32 0 5) s' = invalid_memory" by (simp add: access_refused_def del: do_write.simps)
  moreover have "memory_get32 p 0 s' = invalid_memory" using q(3) by (simp add: access_refused_def)
  ultimately show ?thesis using q p(3,4) by (intro exI [of _ s] exI [of _ p] exI [of _ q] exI [of _ s']) simp
qed

text \<open>C32: when the piece before the revoked one belongs to another domain, \<^verbatim>\<open>memory_revoke\<close> links that piece
  to the uninitialised variable \<^verbatim>\<open>dzmCurNew\<close> instead of to the new proxy: whatever entry \<open>junk\<close> the
  variable happens to name becomes its successor, and the new proxy is not linked.\<close>

theorem memory_revoke_stray_link:
  assumes inv: "dz_inv s (t # fs) C" and d: "[x, mp_dz p] \<in> C" and p: "object_of s p" and E: "gc_alloc E = Some" and n: "1 < n"
    and own: "prevOwner (dzm s (mp_dz p)) \<noteq> cd" "nextOwner (dzm s (mp_dz p)) \<noteq> cd" and j: "junk \<notin> {x, mp_dz p, t}"
  shows "\<exists>q s'. memory_revoke junk n E cd p s = Ok (q, s') \<and> dz_next (dzm s' x) = Some junk \<and>
     dz_prev (dzm s' junk) = Some x \<and> dz_prev (dzm s' (mp_dz q)) = None"
proof -
  obtain m where n: "n = Suc (Suc m)" using n by (cases n; cases "n - 1") auto
  note ch = dz_inv_chunk [OF inv d]
  have pv: "dz_valid (dzm s (mp_dz p)) = 1" "mp_size p = dz_size (dzm s (mp_dz p))" "mp_mem p = dz_mem (dzm s (mp_dz p))"
    using p by (simp_all add: object_of_def memory_isValid_def)
  have L: "dz_prev (dzm s (mp_dz p)) = Some x" "dz_next (dzm s (mp_dz p)) = None"
    using chunk_links [of "dzm s" "[x]" "mp_dz p" "[]"] ch(1) by simp_all
  have td: "t \<noteq> mp_dz p" "t \<noteq> x" "x \<noteq> mp_dz p" using ch by (auto simp: chunk_ok_def)
  define s1 where "s1 = s\<lparr>dzm := (dzm s)(t := fresh_dz (mp_size p) (mp_mem p)), dzMemoryFreeList := dz_next (dzm s t)\<rparr>"
  have s1: "createDZMemory n E (mp_size p) (mp_mem p) s = Ok (t, s1)"
    unfolding n s1_def by (rule createDZMemory_eq [OF ch(3)])
  have D1: "dzm s1 = (dzm s)(t := fresh_dz (mp_size p) (mp_mem p))" by (simp add: s1_def)
  define s3 where "s3 = upd_dz junk (\<lambda>y. y\<lparr>dz_prev := Some x, prevOwner := prevOwner (dzm s (mp_dz p))\<rparr>)
     (upd_dz x (\<lambda>y. y\<lparr>dz_next := Some junk\<rparr>) s1)"
  have o1: "revoke_prev n E cd (mp_dz p) t junk s1 = Ok (Some (mp_dz p), junk, s1)"
    unfolding n using own td by (simp add: D1)
  have D3: "dzm s3 (mp_dz p) = dzm s (mp_dz p)" "dzm s3 t = fresh_dz (mp_size p) (mp_mem p)"
    "dz_next (dzm s3 x) = Some junk" "dz_prev (dzm s3 junk) = Some x"
    using td j by (simp_all add: s3_def D1)
  have o2: "revoke_next n E cd (mp_dz p) t junk s3 = Ok (Some (mp_dz p), junk, s3)"
    unfolding n using own D3(1) by simp
  define s' where "s' = FREE_DZ (mp_dz p) s3"
  define q where "q = \<lparr>mp_size = mp_size p, mp_mem = mp_mem p, mp_dz = t\<rparr>"
  have v': "dz_valid (dzm s' (mp_dz p)) = 0" by (simp add: s'_def FREE_DZ_def)
  have "memory_revoke junk n E cd p s = Ok (q, s')"
    using pv(1) s1 o1 o2 L D1 D3 td alloc_proxy [OF E] v'
    by (simp add: memory_revoke_def CHECKVALID_def s3_def [symmetric] s'_def [symmetric] q_def Let_def)
  moreover have "dz_next (dzm s' x) = Some junk" "dz_prev (dzm s' junk) = Some x" "dz_prev (dzm s' (mp_dz q)) = None"
    using D3 td j by (simp_all add: s'_def FREE_DZ_def q_def)
  ultimately show ?thesis by blast
qed

theorem memory_revoke_stray_link_witness:
  "\<exists>s p x q s'. object_of s p \<and> memory_revoke 19999 2 heap_env 4 p s = Ok (q, s') \<and> dz_next (dzm s' x) = Some 19999"
proof -
  obtain s p fs where p: "dz_inv s fs {[19999], [19998]}" "3 \<le> length fs" "object_of s p" "mp_size p = 100" "mp_mem p = 0x1F0000"
    "mp_dz p = 19998" "dzm s 19998 = fresh_dz 100 0x1F0000" using demo_object by blast
  obtain d0 d1 t fs' where fs: "fs = d0 # d1 # t # fs'" using p(2) by (metis Suc_le_length_iff numeral_3_eq_3)
  have c: "[] @ 19998 # [] \<in> {[19999], [19998::nat]}" by simp
  note ch = dz_inv_chunk [OF p(1) [unfolded fs] c]
  have live: "live_chunk (dzm s) ([] @ 19998 # [])" using p(7) by (auto simp: live_chunk_def)
  have off: "0 \<le> sint (40::u4)" "40 \<le> dz_size (dzm s 19998)" using p(7) by (simp_all add: sint_u4)
  obtain s1 where s1: "dzmemory_split2 (Suc 0) heap_env 3 19998 40 s = Ok (Some (d0, d1), s1)"
    "dz_inv s1 (t # fs') ({[19999], [19998]} - {[] @ 19998 # []} \<union> {[] @ [d0, d1] @ [], [19998]})"
    "live_chunk (dzm s1) ([] @ [d0, d1] @ [])" "dz_size (dzm s1 d1) = dz_size (dzm s 19998) - 40"
    "dz_mem (dzm s1 d1) = dz_mem (dzm s 19998) + 40"
    using split2_inv [OF p(1) [unfolded fs] c live off, of 0 heap_env 3] by blast
  obtain s2 where "dzmemory_split2 (Suc 0) heap_env 3 19998 40 s = Ok (Some (d0, d1), s2)"
    and D1: "dzm s2 d1 = (fresh_dz (dz_size (dzm s 19998) - 40) (dz_mem (dzm s 19998) + 40))
        \<lparr>dz_prev := Some d0, dz_next := after [], prevOwner := 3, nextOwner := nextOwner (dzm s 19998)\<rparr>"
    using split2_pointwise [OF ch(3,1,2) live_piece(1,2) [OF live] off, of 0 heap_env 3] by blast
  then have "s2 = s1" using s1(1) by simp
  then have own: "prevOwner (dzm s1 d1) = 3" "nextOwner (dzm s1 d1) = 0" using D1 p(7) by (simp_all add: fresh_dz_def)
  define p1 where "p1 = \<lparr>mp_size = dz_size (dzm s1 d1), mp_mem = dz_mem (dzm s1 d1), mp_dz = d1\<rparr>"
  have "d1 < NUMBER_DZMEM" using p(1) fs by (auto simp: dz_inv_def)
  then have ob: "object_of s1 p1" using s1(3) by (simp add: object_of_def memory_isValid_def p1_def live_chunk_def)
  have "set fs \<inter> {19999} = {}" using p(1) by (auto simp: dz_inv_def)
  then have j: "19999 \<notin> {d0, mp_dz p1, t}" using fs by (auto simp: p1_def)
  have "\<exists>q s'. memory_revoke 19999 2 heap_env 4 p1 s1 = Ok (q, s') \<and> dz_next (dzm s' d0) = Some 19999 \<and>
     dz_prev (dzm s' 19999) = Some d0 \<and> dz_prev (dzm s' (mp_dz q)) = None"
    by (rule memory_revoke_stray_link [OF s1(2) _ ob _ _ _ _ j]) (simp_all add: p1_def own heap_env_def)
  then show ?thesis using ob by blast
qed

end
