(* ===== verification/Quad_Arith.thy ===== *)
theory Quad_Arith
  imports JX_Prelude "HOL-Library.Signed_Division"
begin

section \<open>64 bit division (arch/minic.c)\<close>

text \<open>
  The compiler calls \<^verbatim>\<open>__divdi3\<close>, \<^verbatim>\<open>__moddi3\<close> and \<^verbatim>\<open>__udivdi3\<close> for 64 bit divisions on the 32 bit target.
  All go through \<^verbatim>\<open>__qdivrem\<close>, multiple-precision division with digits of 16 bits kept in 32 bit words
  (\<^verbatim>\<open>ULONG_MAX\<close> is not defined in this build, so \<^verbatim>\<open>digit\<close> is \<^verbatim>\<open>u4_t\<close>).  The arrays \<^verbatim>\<open>uspace\<close>,
  \<^verbatim>\<open>vspace\<close> and \<^verbatim>\<open>qspace\<close> are functions from indices, the moving pointers \<^verbatim>\<open>u\<close>, \<^verbatim>\<open>v\<close> and \<^verbatim>\<open>q\<close> are offsets
  into them.  The main theorem is that the routine computes quotient and remainder for every divisor but 0.
\<close>

unbundle bit_operations_syntax

subsection \<open>Digits\<close>

type_synonym digits = "nat \<Rightarrow> u4"

definition HHALF :: "u4 \<Rightarrow> u4" where "HHALF x = drop_bit 16 x"

definition LHALF :: "u4 \<Rightarrow> u4" where "LHALF x = x AND 0xFFFF"

definition COMBINE :: "u4 \<Rightarrow> u4 \<Rightarrow> u4" where "COMBINE a b = push_bit 16 a OR b"

text \<open>The two long words of a quad (\<^verbatim>\<open>union uu\<close>).\<close>

definition ulH :: "u8 \<Rightarrow> u4" where "ulH x = ucast (drop_bit 32 x)"

definition ulL :: "u8 \<Rightarrow> u4" where "ulL x = ucast x"

definition quad :: "u4 \<Rightarrow> u4 \<Rightarrow> u8" where "quad h l = push_bit 32 (ucast h) OR ucast l"

text \<open>\<^verbatim>\<open>shl(p, len, sh)\<close> shifts \<^verbatim>\<open>p[0]..p[len]\<close> left; \<open>k\<close> iterations remain and \<open>i\<close> have been done.\<close>

fun shl_loop :: "nat \<Rightarrow> nat \<Rightarrow> nat \<Rightarrow> nat \<Rightarrow> digits \<Rightarrow> digits" where
  "shl_loop 0 p i sh ds = ds(p + i := LHALF (push_bit sh (ds (p + i))))"
| "shl_loop (Suc k) p i sh ds = shl_loop k p (Suc i) sh
     (ds(p + i := LHALF (push_bit sh (ds (p + i))) OR drop_bit (16 - sh) (ds (p + i + 1))))"

definition shl :: "nat \<Rightarrow> nat \<Rightarrow> nat \<Rightarrow> digits \<Rightarrow> digits" where
  "shl p len sh ds = shl_loop len p 0 sh ds"

subsection \<open>The stages of the division\<close>

text \<open>\<^verbatim>\<open>for (n = 4; v[1] == 0; v++) if (--n == 1) ...\<close>: \<open>Inl\<close> is the exit through the one-digit division, with
  the offset of \<^verbatim>\<open>v\<close>; \<open>Inr\<close> the normal exit with \<^verbatim>\<open>n\<close> and the offset.\<close>

fun norm_v :: "digits \<Rightarrow> nat \<Rightarrow> nat \<Rightarrow> nat + nat \<times> nat" where
  "norm_v vs 0 vo = Inl vo"
| "norm_v vs (Suc n) vo = (if vs (vo + 1) \<noteq> 0 then Inr (Suc n, vo)
     else if n = 1 then Inl vo else norm_v vs n (vo + 1))"

text \<open>\<^verbatim>\<open>for (m = 4 - n; u[1] == 0; u++) m--;\<close>\<close>

fun norm_u :: "nat \<Rightarrow> digits \<Rightarrow> nat \<Rightarrow> nat \<Rightarrow> (nat \<times> nat) res" where
  "norm_u 0 us m uo = Fault OutOfFuel"
| "norm_u (Suc k) us m uo = (if us (uo + 1) = 0 then norm_u k us (m - 1) (uo + 1) else Ok (m, uo))"

text \<open>\<^verbatim>\<open>for (t = v[1]; t < B / 2; t <<= 1) d++;\<close>\<close>

fun norm_d :: "nat \<Rightarrow> u4 \<Rightarrow> nat \<Rightarrow> nat res" where
  "norm_d 0 t d = Fault OutOfFuel"
| "norm_d (Suc k) t d = (if t < 0x8000 then norm_d k (push_bit 1 t) (Suc d) else Ok d)"

text \<open>The one-digit division, unrolled in the code.\<close>

definition short_div :: "digits \<Rightarrow> u4 \<Rightarrow> u8 \<times> u8" where
  "short_div us t =
     (let q1 = us 1 div t;
          rbj = COMBINE (us 1 mod t) (us 2); q2 = rbj div t;
          rbj = COMBINE (rbj mod t) (us 3); q3 = rbj div t;
          rbj = COMBINE (rbj mod t) (us 4); q4 = rbj div t
      in (quad (COMBINE q1 q2) (COMBINE q3 q4), ucast (rbj mod t)))"

text \<open>D3.  The loop from its label \<^verbatim>\<open>qhat_too_big\<close> on, and the first estimate.\<close>

fun qhat_too_big :: "nat \<Rightarrow> u4 \<Rightarrow> u4 \<Rightarrow> u4 \<Rightarrow> u4 \<Rightarrow> u4 \<Rightarrow> u4 res" where
  "qhat_too_big 0 v1 v2 uj2 qhat rhat = Fault OutOfFuel"
| "qhat_too_big (Suc k) v1 v2 uj2 qhat rhat =
     (let qhat = qhat - 1; rhat = rhat + v1
      in if rhat \<ge> 0x10000 then Ok qhat
         else if v2 * qhat > COMBINE rhat uj2 then qhat_too_big k v1 v2 uj2 qhat rhat
         else Ok qhat)"

definition estimate :: "u4 \<Rightarrow> u4 \<Rightarrow> u4 \<Rightarrow> u4 \<Rightarrow> u4 \<Rightarrow> u4 res" where
  "estimate v1 v2 uj0 uj1 uj2 =
     (if uj0 = v1 then qhat_too_big 3 v1 v2 uj2 0x10000 uj1
      else let n = COMBINE uj0 uj1; qhat = n div v1; rhat = n mod v1
           in if v2 * qhat > COMBINE rhat uj2 then qhat_too_big 3 v1 v2 uj2 qhat rhat else Ok qhat)"

text \<open>D4 and D6: the loops over \<^verbatim>\<open>u[i + j]\<close> and \<^verbatim>\<open>v[i]\<close> for \<open>i\<close> from \<open>n\<close> down to 1; \<open>a\<close> is the offset of
  \<^verbatim>\<open>u[j]\<close>.\<close>

fun mulsub :: "nat \<Rightarrow> nat \<Rightarrow> nat \<Rightarrow> digits \<Rightarrow> u4 \<Rightarrow> u4 \<Rightarrow> digits \<Rightarrow> u4 \<times> digits" where
  "mulsub 0 a vo vs qhat t us = (t, us)"
| "mulsub (Suc i) a vo vs qhat t us =
     (let t1 = us (a + Suc i) - vs (vo + Suc i) * qhat - t
      in mulsub i a vo vs qhat ((0x10000 - HHALF t1) AND 0xFFFF) (us(a + Suc i := LHALF t1)))"

fun addback :: "nat \<Rightarrow> nat \<Rightarrow> nat \<Rightarrow> digits \<Rightarrow> u4 \<Rightarrow> digits \<Rightarrow> u4 \<times> digits" where
  "addback 0 a vo vs t us = (t, us)"
| "addback (Suc i) a vo vs t us =
     (let t1 = t + (us (a + Suc i) + vs (vo + Suc i))
      in addback i a vo vs (HHALF t1) (us(a + Suc i := LHALF t1)))"

definition div_step :: "nat \<Rightarrow> nat \<Rightarrow> nat \<Rightarrow> digits \<Rightarrow> digits \<Rightarrow> (u4 \<times> digits) res" where
  "div_step n a vo vs us =
     rbind (estimate (vs (vo + 1)) (vs (vo + 2)) (us a) (us (a + 1)) (us (a + 2))) (\<lambda>qhat.
       let (t, us1) = mulsub n a vo vs qhat 0 us;
           t1 = us1 a - t;
           us2 = us1(a := LHALF t1)
       in if HHALF t1 \<noteq> 0
          then let (t2, us3) = addback n a vo vs 0 us2 in Ok (qhat - 1, us3(a := LHALF (us3 a + t2)))
          else Ok (qhat, us2))"

fun div_loop :: "nat \<Rightarrow> nat \<Rightarrow> nat \<Rightarrow> nat \<Rightarrow> nat \<Rightarrow> nat \<Rightarrow> digits \<Rightarrow> digits \<Rightarrow> digits \<Rightarrow> (digits \<times> digits) res" where
  "div_loop 0 j n uo vo qo vs us qs = Ok (us, qs)"
| "div_loop (Suc k) j n uo vo qo vs us qs =
     rbind (div_step n (uo + j) vo vs us) (\<lambda>(qhat, us').
       div_loop k (Suc j) n uo vo qo vs us' (qs(qo + j := qhat)))"

text \<open>\<^verbatim>\<open>for (i = m + n; i > m; --i) u[i] = (u[i] >> d) | LHALF(u[i - 1] << (HALF_BITS - d)); u[i] = 0;\<close> with \<open>a\<close> the
  offset of \<^verbatim>\<open>u[m]\<close>.\<close>

fun unshift :: "nat \<Rightarrow> nat \<Rightarrow> nat \<Rightarrow> digits \<Rightarrow> digits" where
  "unshift 0 a d us = us(a := 0)"
| "unshift (Suc i) a d us = unshift i a d
     (us(a + Suc i := drop_bit d (us (a + Suc i)) OR LHALF (push_bit (16 - d) (us (a + i)))))"

text \<open>\<^verbatim>\<open>for (i = 4 - m; --i >= 0;) q[i] = 0;\<close>\<close>

fun clear_q :: "nat \<Rightarrow> digits \<Rightarrow> digits" where
  "clear_q 0 qs = qs"
| "clear_q (Suc i) qs = clear_q i (qs(i := 0))"

definition split_quad :: "u8 \<Rightarrow> digits \<Rightarrow> digits" where
  "split_quad x ds = ds(1 := HHALF (ulH x), 2 := LHALF (ulH x), 3 := HHALF (ulL x), 4 := LHALF (ulL x))"

definition long_div :: "nat \<Rightarrow> nat \<Rightarrow> digits \<Rightarrow> digits \<Rightarrow> digits \<Rightarrow> (u8 \<times> u8) res" where
  "long_div n vo us vs qs =
     rbind (norm_u 5 us (4 - n) 0) (\<lambda>(m, uo).
     let qs1 = clear_q (4 - m) qs in
     rbind (norm_d 17 (vs (vo + 1)) 0) (\<lambda>d.
     let us1 = (if d > 0 then shl uo (m + n) d us else us);
         vs1 = (if d > 0 then shl (vo + 1) (n - 1) d vs else vs) in
     rbind (div_loop (Suc m) 0 n uo vo (4 - m) vs1 us1 qs1) (\<lambda>(us2, qs2).
     let us3 = (if d > 0 then unshift n (uo + m) d us2 else us2) in
     Ok (quad (COMBINE (qs2 1) (qs2 2)) (COMBINE (qs2 3) (qs2 4)),
         quad (COMBINE (us3 1) (us3 2)) (COMBINE (us3 3) (us3 4))))))"

text \<open>\<open>junk\<close> stands for the uninitialised parts of the arrays.  Both results are returned; a caller that passes
  a null pointer ignores the remainder.  A zero divisor executes \<^verbatim>\<open>1 / zero\<close>, which raises the divide
  exception of the processor.\<close>

definition qdivrem :: "digits \<Rightarrow> u8 \<Rightarrow> u8 \<Rightarrow> (u8 \<times> u8) res" where
  "qdivrem junk uq vq =
     (if vq = 0 then Fault (AssertFail ''divide error'')
      else if uq < vq then Ok (0, uq)
      else let us = split_quad uq (junk(0 := 0)); vs = split_quad vq junk
           in case norm_v vs 4 0 of
                Inl vo \<Rightarrow> Ok (short_div us (vs (vo + 2)))
              | Inr (n, vo) \<Rightarrow> long_div n vo us vs junk)"

definition udivdi3 :: "digits \<Rightarrow> u8 \<Rightarrow> u8 \<Rightarrow> u8 res" where
  "udivdi3 junk a b = rbind (qdivrem junk a b) (\<lambda>(q, r). Ok q)"

text \<open>Sign and magnitude of the operands; \<^verbatim>\<open>neg\<close> is 1 when exactly one is negative, in both routines.\<close>

definition divdi3 :: "digits \<Rightarrow> u8 \<Rightarrow> u8 \<Rightarrow> u8 res" where
  "divdi3 junk a b =
     (let (ua, neg) = (if sint a < 0 then (- a, True) else (a, False));
          (ub, neg) = (if sint b < 0 then (- b, \<not> neg) else (b, neg))
      in rbind (qdivrem junk ua ub) (\<lambda>(uq, _). Ok (if neg then - uq else uq)))"

definition moddi3 :: "digits \<Rightarrow> u8 \<Rightarrow> u8 \<Rightarrow> u8 res" where
  "moddi3 junk a b =
     (let (ua, neg) = (if sint a < 0 then (- a, True) else (a, False));
          (ub, neg) = (if sint b < 0 then (- b, \<not> neg) else (b, neg))
      in rbind (qdivrem junk ua ub) (\<lambda>(_, ur). Ok (if neg then - ur else ur)))"

subsection \<open>Values of digit sequences\<close>

text \<open>The number that \<open>k\<close> digits from index \<open>a\<close> on represent, most significant first.\<close>

fun val :: "digits \<Rightarrow> nat \<Rightarrow> nat \<Rightarrow> nat" where
  "val ds a 0 = 0"
| "val ds a (Suc k) = val ds a k * 65536 + unat (ds (a + k))"

definition digits_ok :: "digits \<Rightarrow> nat \<Rightarrow> nat \<Rightarrow> bool" where
  "digits_ok ds a k \<longleftrightarrow> (\<forall>i<k. unat (ds (a + i)) < 65536)"

lemma digits_okD: "digits_ok ds a k \<Longrightarrow> a \<le> i \<Longrightarrow> i < a + k \<Longrightarrow> unat (ds i) < 65536"
  unfolding digits_ok_def by (metis add.commute less_diff_conv2 le_add_diff_inverse)

lemma digits_okI: "(\<And>i. a \<le> i \<Longrightarrow> i < a + k \<Longrightarrow> unat (ds i) < 65536) \<Longrightarrow> digits_ok ds a k"
  unfolding digits_ok_def by simp

lemma digits_ok_sub: "digits_ok ds a k \<Longrightarrow> a \<le> b \<Longrightarrow> b + l \<le> a + k \<Longrightarrow> digits_ok ds b l"
  by (rule digits_okI) (erule digits_okD, simp_all)

lemma val_cong: "(\<And>i. a \<le> i \<Longrightarrow> i < a + k \<Longrightarrow> ds i = ds' i) \<Longrightarrow> val ds a k = val ds' a k"
  by (induction k) auto

lemma val_lt: "digits_ok ds a k \<Longrightarrow> val ds a k < 65536 ^ k"
proof (induction k)
  case (Suc k)
  have "val ds a k < 65536 ^ k" using Suc by (meson digits_ok_sub le_add1 le_refl add_le_mono lessI less_imp_le)
  moreover have "unat (ds (a + k)) < 65536" using Suc.prems by (rule digits_okD) simp_all
  ultimately show ?case by simp
qed simp

lemma val_append: "val ds a (j + k) = val ds a j * 65536 ^ k + val ds (a + j) k"
  by (induction k) (simp_all add: algebra_simps)

lemma val_front: "val ds a (Suc k) = unat (ds a) * 65536 ^ k + val ds (Suc a) k"
  using val_append [of ds a 1 k] by simp

lemma unat_HHALF: "unat (HHALF x) = unat x div 65536"
  unfolding HHALF_def by (simp only: unat_drop_bit_eq) (simp add: drop_bit_eq_div)

lemma and_FFFF: "x AND 0xFFFF = take_bit 16 (x::u4)"
proof -
  have "(0xFFFF::u4) = mask 16" by (simp add: mask_eq_exp_minus_1)
  then show ?thesis by (simp only: take_bit_eq_mask)
qed

lemma unat_take16: "unat (take_bit 16 x :: u4) = unat x mod 65536"
  by (simp only: unsigned_take_bit_eq) (simp add: take_bit_eq_mod)

lemma unat_LHALF: "unat (LHALF x) = unat x mod 65536"
  unfolding LHALF_def and_FFFF by (rule unat_take16)

lemma half_lt: "unat (LHALF x) < 65536" "unat (HHALF x) < 65536"
proof -
  show "unat (LHALF x) < 65536" by (simp add: unat_LHALF)
  have "unat x < 4294967296" using unsigned_less [where ?'a = nat and w = x] by simp
  then show "unat (HHALF x) < 65536" by (simp add: unat_HHALF)
qed

text \<open>Joining halves with a bitwise or is addition when the bits are disjoint.\<close>

lemma or_shift_add:
  assumes "unat b < 2 ^ k" "unat a * 2 ^ k < 2 ^ LENGTH('a)"
  shows "unat (push_bit k a OR b) = unat a * 2 ^ k + unat (b :: 'a :: len word)"
proof -
  have "push_bit k a OR b = push_bit k a + b"
  proof (rule disjunctive_add [symmetric])
    fix n
    have "\<not> bit b n" if "k \<le> n"
    proof -
      have "unat b < 2 ^ n" using assms(1) power_increasing [OF that, of "2::nat"] by linarith
      then have "\<not> bit (unat b) n" by (simp add: bit_iff_odd)
      moreover have "bit (unat b) n = bit b n" by (simp add: bit_unsigned_iff)
      ultimately show ?thesis by blast
    qed
    then show "\<not> bit (push_bit k a) n \<or> \<not> bit b n" by (auto simp: bit_push_bit_iff)
  qed
  moreover have p: "unat (push_bit k a) = unat a * 2 ^ k"
    using assms(2) by (simp only: unsigned_push_bit_eq) (simp add: push_bit_eq_mult take_bit_nat_eq_self)
  moreover have "unat a * 2 ^ k + unat b < 2 ^ LENGTH('a)"
  proof (cases "k \<le> LENGTH('a)")
    case True
    then obtain r where r: "LENGTH('a) = k + r" using le_iff_add by blast
    then have "unat a < 2 ^ r" using assms(2) by (simp add: power_add)
    then have "(unat a + 1) * 2 ^ k \<le> 2 ^ r * 2 ^ k" by (intro mult_right_mono) simp_all
    then show ?thesis using assms(1) r by (simp add: power_add algebra_simps)
  next
    case False
    then have "2 ^ LENGTH('a) < (2::nat) ^ k" by simp
    moreover have "2 ^ k \<le> unat a * 2 ^ k" if "unat a \<noteq> 0" using that by simp
    ultimately have "unat a = 0" using assms(2) by linarith
    then show ?thesis by (simp add: unsigned_less)
  qed
  ultimately show ?thesis by (simp add: unat_word_ariths(1))
qed

lemma unat_COMBINE:
  "unat a < 65536 \<Longrightarrow> unat b < 65536 \<Longrightarrow> unat (COMBINE a b) = unat a * 65536 + unat b"
  unfolding COMBINE_def using or_shift_add [of b 16 a] by simp

lemma unat_quad: "unat (quad h l) = unat h * 4294967296 + unat l"
proof -
  have "unat (ucast l :: u8) = unat l" "unat (ucast h :: u8) = unat h"
    by (simp_all only: unsigned_ucast_eq) (simp_all add: take_bit_nat_eq_self unsigned_less [where ?'a = nat] less_le_trans [OF unsigned_less [where ?'a = nat]])
  moreover have "unat h < 4294967296" "unat l < 4294967296"
    using unsigned_less [where ?'a = nat and w = h] unsigned_less [where ?'a = nat and w = l] by simp_all
  ultimately show ?thesis unfolding quad_def using or_shift_add [of "ucast l :: u8" 32 "ucast h"] by simp
qed

lemma unat_ul: "unat (ulH x) = unat x div 4294967296" "unat (ulL x) = unat x mod 4294967296"
proof -
  have "unat x < 18446744073709551616" using unsigned_less [where ?'a = nat and w = x] by simp
  then have "unat x div 4294967296 < 4294967296" by (simp add: less_mult_imp_div_less)
  then show "unat (ulH x) = unat x div 4294967296"
    unfolding ulH_def by (simp only: unsigned_ucast_eq unat_drop_bit_eq) (simp add: take_bit_eq_mod drop_bit_eq_div)
  show "unat (ulL x) = unat x mod 4294967296"
    unfolding ulL_def by (simp only: unsigned_ucast_eq) (simp add: take_bit_eq_mod)
qed

lemma val4: "val ds 1 4 = unat (ds 1) * 281474976710656 + unat (ds 2) * 4294967296
    + unat (ds 3) * 65536 + unat (ds 4)"
proof -
  have e: "Suc (1 + 1 + 1) = (4::nat)" by simp
  have "val ds 1 (Suc (1 + 1 + 1)) = val ds 1 (1 + 1 + 1) * 65536 + unat (ds (1 + (1 + 1 + 1)))" by (rule val.simps)
  moreover have "val ds 1 (1 + 1 + 1) = val ds 1 1 * 65536 * 65536 + unat (ds (1 + 1)) * 65536 + unat (ds (1 + 1 + 1))"
    unfolding val_append by simp
  moreover have "(1::nat) + 1 = 2" "(1::nat) + 1 + 1 = 3" "1 + (1 + 1 + 1) = (4::nat)" by simp_all
  ultimately show ?thesis unfolding e by (simp only:) simp
qed

lemma quad_digits:
  assumes "digits_ok ds 1 4"
  shows "unat (quad (COMBINE (ds 1) (ds 2)) (COMBINE (ds 3) (ds 4))) = val ds 1 4"
proof -
  have "unat (ds 1) < 65536" "unat (ds 2) < 65536" "unat (ds 3) < 65536" "unat (ds 4) < 65536"
    by (rule digits_okD [OF assms], simp_all)+
  then show ?thesis unfolding val4 by (simp add: unat_quad unat_COMBINE)
qed

lemma split_quad_val: "val (split_quad x ds) 1 4 = unat x" and split_quad_ok: "digits_ok (split_quad x ds) 1 4"
proof -
  have "\<And>i. i < 4 \<Longrightarrow> i = 0 \<or> i = 1 \<or> i = 2 \<or> (i::nat) = 3" by linarith
  then show "digits_ok (split_quad x ds) 1 4"
    unfolding digits_ok_def split_quad_def using half_lt by fastforce
  define h l where "h = unat x div 4294967296" and "l = unat x mod 4294967296"
  have x: "unat x = h * 4294967296 + l" unfolding h_def l_def by simp
  have "h = h div 65536 * 65536 + h mod 65536" "l = l div 65536 * 65536 + l mod 65536" by simp_all
  then have "h div 65536 * 281474976710656 + h mod 65536 * 4294967296 + l div 65536 * 65536 + l mod 65536
      = h * 4294967296 + l" by linarith
  then show "val (split_quad x ds) 1 4 = unat x"
    unfolding val4 x split_quad_def by (simp add: unat_HHALF unat_LHALF unat_ul h_def [symmetric] l_def [symmetric])
qed

subsection \<open>Shifting digit sequences\<close>

lemma unat_push_digit:
  assumes "unat (x::u4) < 65536" "sh \<le> 16"
  shows "unat (push_bit sh x) = unat x * 2 ^ sh"
proof -
  have "unat x * 2 ^ sh < 65536 * 2 ^ sh" using assms(1) by simp
  also have "(65536::nat) * 2 ^ sh \<le> 65536 * 2 ^ 16" using assms(2) by (intro mult_left_mono power_increasing) simp_all
  finally have "unat x * 2 ^ sh < 2 ^ 32" by simp
  then show ?thesis by (simp only: unsigned_push_bit_eq) (simp add: push_bit_eq_mult take_bit_nat_eq_self)
qed

lemma or_digit:
  assumes "unat (x::u4) < 65536" "sh \<le> 16" "unat c < 2 ^ sh"
  shows "unat (LHALF (push_bit sh x) OR c) = (unat x * 2 ^ sh + unat c) mod 65536"
proof -
  have c: "unat c < 65536" using assms(2,3) power_increasing [of sh 16 "2::nat"] by simp
  then have "take_bit 16 c = c" by (metis mod_less unat_take16 word_unat_eq_iff)
  then have "LHALF (push_bit sh x) OR c = LHALF (push_bit sh x OR c)"
    unfolding LHALF_def and_FFFF by (simp only: take_bit_or)
  moreover have "unat (push_bit sh x OR c) = unat x * 2 ^ sh + unat c"
    by (rule or_shift_add [OF assms(3)]) (metis unsigned_less unat_push_digit [OF assms(1,2)])
  ultimately show ?thesis by (simp add: unat_LHALF)
qed

lemma shl_loop_spec:
  "digits_ok ds (p + i) (Suc k) \<Longrightarrow> sh \<le> 16 \<Longrightarrow>
   val (shl_loop k p i sh ds) (p + i) (Suc k) = (val ds (p + i) (Suc k) * 2 ^ sh) mod 65536 ^ Suc k
   \<and> digits_ok (shl_loop k p i sh ds) (p + i) (Suc k)
   \<and> (\<forall>x. x < p + i \<or> p + i + k < x \<longrightarrow> shl_loop k p i sh ds x = ds x)"
proof (induction k arbitrary: i ds)
  case 0
  have "unat (ds (p + i)) < 65536" using 0(1) by (rule digits_okD) simp_all
  then show ?case using 0(2) by (simp add: unat_LHALF unat_push_digit digits_ok_def)
next
  case (Suc k)
  define a where "a = p + i"
  define x where "x = ds a"
  define R where "R = val ds (Suc a) (Suc k)"
  define c where "c = drop_bit (16 - sh) (ds (Suc a))"
  define ds1 where "ds1 = ds(a := LHALF (push_bit sh x) OR c)"
  have x: "unat x < 65536" and y: "unat (ds (Suc a)) < 65536"
    unfolding x_def a_def by (rule digits_okD [OF Suc.prems(1)], simp_all)+
  have okR: "digits_ok ds (Suc a) (Suc k)" using Suc.prems(1) unfolding a_def by (rule digits_ok_sub) simp_all
  have ok1: "digits_ok ds1 (p + Suc i) (Suc k)"
    using okR unfolding digits_ok_def ds1_def a_def by (simp add: a_def)
  have R1: "val ds1 (Suc a) (Suc k) = R" unfolding R_def ds1_def by (rule val_cong) simp
  note IH = Suc.IH [OF ok1 Suc.prems(2)]
  have loop: "shl_loop (Suc k) p i sh ds = shl_loop k p (Suc i) sh ds1"
    by (simp add: ds1_def x_def c_def a_def)
  have B: "(65536::nat) = 2 ^ sh * 2 ^ (16 - sh)" using Suc.prems(2) by (simp flip: power_add)
  have uc: "unat c = unat (ds (Suc a)) div 2 ^ (16 - sh)"
    unfolding c_def by (simp only: unat_drop_bit_eq) (simp add: drop_bit_eq_div)
  have cl: "unat c < 2 ^ sh" using y unfolding uc by (simp add: B less_mult_imp_div_less)
  have top: "unat (ds (Suc a)) = R div 65536 ^ k"
    unfolding R_def val_front using val_lt [OF digits_ok_sub [OF okR, of "Suc (Suc a)" k]] by simp
  have cR: "unat c = R * 2 ^ sh div 65536 ^ Suc k"
  proof -
    have "R * 2 ^ sh div 65536 ^ Suc k = R * 2 ^ sh div (65536 ^ k * 2 ^ (16 - sh) * 2 ^ sh)"
      by (simp add: B [symmetric] mult.assoc mult.commute [of "2 ^ (16 - sh)"] power_commutes)
    also have "\<dots> = R div (65536 ^ k * 2 ^ (16 - sh))" by (rule div_mult_mult2) simp
    also have "\<dots> = unat c" unfolding uc top by (rule div_mult2_eq)
    finally show ?thesis by simp
  qed
  have dig: "unat (ds1 a) = (unat x * 2 ^ sh + unat c) mod 65536"
    unfolding ds1_def using or_digit [OF x Suc.prems(2) cl] by simp
  define N where "N = (65536::nat) ^ Suc k"
  have "val (shl_loop k p (Suc i) sh ds1) a (Suc (Suc k)) = unat (ds1 a) * N + R * 2 ^ sh mod N"
    using IH R1 unfolding N_def a_def by (simp only: val_front [of _ _ "Suc k"]) simp
  also have "\<dots> = (unat x * N + R) * 2 ^ sh mod (N * 65536)"
  proof -
    have "(unat x * N + R) * 2 ^ sh = unat x * 2 ^ sh * N + R * 2 ^ sh" by (simp add: algebra_simps)
    moreover have "(unat x * 2 ^ sh * N + R * 2 ^ sh) div N = unat x * 2 ^ sh + unat c"
      unfolding cR N_def [symmetric] by (simp add: N_def)
    moreover have "(unat x * 2 ^ sh * N + R * 2 ^ sh) mod N = R * 2 ^ sh mod N" by simp
    ultimately show ?thesis unfolding dig by (simp only: mod_mult2_eq) (simp add: mult.commute)
  qed
  also have "\<dots> = val ds a (Suc (Suc k)) * 2 ^ sh mod 65536 ^ Suc (Suc k)"
    unfolding N_def R_def x_def val_front [of ds a "Suc k"] by (simp add: mult.commute)
  finally have v: "val (shl_loop k p (Suc i) sh ds1) a (Suc (Suc k)) = val ds a (Suc (Suc k)) * 2 ^ sh mod 65536 ^ Suc (Suc k)" .
  have ok: "digits_ok (shl_loop k p (Suc i) sh ds1) a (Suc (Suc k))"
  proof (rule digits_okI)
    fix j assume "a \<le> j" "j < a + Suc (Suc k)"
    then consider "j = a" | "p + Suc i \<le> j" "j < p + Suc i + Suc k" unfolding a_def by linarith
    then show "unat (shl_loop k p (Suc i) sh ds1 j) < 65536"
      using IH dig by cases (simp add: a_def, metis digits_okD)
  qed
  have "shl_loop k p (Suc i) sh ds1 z = ds z" if "z < a \<or> a + Suc k < z" for z
  proof -
    have "shl_loop k p (Suc i) sh ds1 z = ds1 z" using that IH unfolding a_def by auto
    then show ?thesis using that by (auto simp: ds1_def)
  qed
  then show ?case using v ok unfolding loop a_def [symmetric] by (simp only:) blast
qed

lemma shl_spec:
  assumes "digits_ok ds p (Suc len)" "sh \<le> 16" "val ds p (Suc len) * 2 ^ sh < 65536 ^ Suc len"
  shows "val (shl p len sh ds) p (Suc len) = val ds p (Suc len) * 2 ^ sh"
    and "digits_ok (shl p len sh ds) p (Suc len)"
    and "x < p \<or> p + len < x \<Longrightarrow> shl p len sh ds x = ds x"
  using shl_loop_spec [of ds p 0 len sh] assms unfolding shl_def by (simp, simp, auto)

lemma unshift_spec:
  "us a = 0 \<Longrightarrow> digits_ok us a (Suc n) \<Longrightarrow> d \<le> 16 \<Longrightarrow>
   val (unshift n a d us) (Suc a) n = val us (Suc a) n div 2 ^ d
   \<and> digits_ok (unshift n a d us) (Suc a) n \<and> unshift n a d us a = 0
   \<and> (\<forall>x. x < a \<or> a + n < x \<longrightarrow> unshift n a d us x = us x)"
proof (induction n arbitrary: us)
  case 0
  then show ?case by (simp add: digits_ok_def)
next
  case (Suc n)
  define x y where "x = us (a + Suc n)" and "y = us (a + n)"
  define V where "V = val us (Suc a) n"
  define g where "g = drop_bit d x OR LHALF (push_bit (16 - d) y)"
  define us1 where "us1 = us(a + Suc n := g)"
  have x: "unat x < 65536" and y: "unat y < 65536"
    unfolding x_def y_def by (rule digits_okD [OF Suc.prems(2)], simp_all)+
  have ok1: "digits_ok us1 a (Suc n)"
    using Suc.prems(2) unfolding digits_ok_def us1_def by simp
  have z1: "us1 a = 0" using Suc.prems(1) by (simp add: us1_def)
  note IH = Suc.IH [OF z1 ok1 Suc.prems(3)]
  have loop: "unshift (Suc n) a d us = unshift n a d us1" by (simp add: us1_def g_def x_def y_def)
  have "unshift n a d us1 (Suc (a + n)) = us1 (Suc (a + n))" using IH by simp
  then have low: "unshift n a d us1 (Suc (a + n)) = g" by (simp add: us1_def)
  have V1: "val us1 (Suc a) n = V" unfolding V_def us1_def by (rule val_cong) simp
  have B: "(65536::nat) = 2 ^ d * 2 ^ (16 - d)" using Suc.prems(3) by (simp flip: power_add)
  have ux: "unat (drop_bit d x) = unat x div 2 ^ d"
    by (simp only: unat_drop_bit_eq) (simp add: drop_bit_eq_div)
  have xl: "unat (drop_bit d x) < 2 ^ (16 - d)" using x unfolding ux by (simp add: B less_mult_imp_div_less mult.commute)
  have "unat g = (unat y * 2 ^ (16 - d) + unat x div 2 ^ d) mod 65536"
    unfolding g_def using or_digit [OF y _ xl] ux by (simp add: or.commute)
  also have "\<dots> = (unat y * 2 ^ (16 - d) + unat x div 2 ^ d) mod (2 ^ (16 - d) * 2 ^ d)" by (simp add: B mult.commute)
  also have "\<dots> = 2 ^ (16 - d) * (unat y mod 2 ^ d) + unat x div 2 ^ d"
    using xl unfolding ux mod_mult2_eq by simp
  finally have g: "unat g = (unat y mod 2 ^ d) * 2 ^ (16 - d) + unat x div 2 ^ d" by (simp add: mult.commute)
  have "val us a (Suc n) = V" unfolding V_def val_front using Suc.prems(1) by simp
  then have V: "V = val us a n * 65536 + unat y" by (simp add: y_def)
  then have "V mod 2 ^ d = unat y mod 2 ^ d" unfolding V B by (simp add: mult.assoc [symmetric] mult.commute [of "_ * 2 ^ d"])
  then have g: "unat g = (V mod 2 ^ d) * 2 ^ (16 - d) + unat x div 2 ^ d" using g by simp
  have "(V * 65536 + unat x) div 2 ^ d = V * 2 ^ (16 - d) + unat x div 2 ^ d"
    unfolding B by (simp add: mult.assoc [symmetric] mult.commute [of "_ * 2 ^ d"] mult.left_commute)
  also have "\<dots> = (V div 2 ^ d * 2 ^ d + V mod 2 ^ d) * 2 ^ (16 - d) + unat x div 2 ^ d"
    by (simp only: div_mult_mod_eq)
  also have "\<dots> = V div 2 ^ d * 65536 + unat g" unfolding g B by (simp only: distrib_right mult.assoc add.assoc)
  finally have "val (unshift n a d us1) (Suc a) (Suc n) = (V * 65536 + unat x) div 2 ^ d"
    using IH V1 low by (simp only: val.simps add_Suc)
  moreover have "val us (Suc a) (Suc n) = V * 65536 + unat x" by (simp add: V_def x_def)
  moreover have "digits_ok (unshift n a d us1) (Suc a) (Suc n)"
  proof -
    have "unat g < 65536"
    proof -
      have "unat g = (unat y * 2 ^ (16 - d) + unat x div 2 ^ d) mod 65536"
        unfolding g_def using or_digit [OF y _ xl] ux by (simp add: or.commute)
      then show ?thesis by simp
    qed
    with low have "unat (unshift n a d us1 (Suc (a + n))) < 65536" by simp
    moreover have "digits_ok (unshift n a d us1) (Suc a) n" using IH by blast
    ultimately show ?thesis unfolding digits_ok_def by (auto simp: less_Suc_eq)
  qed
  moreover have "unshift n a d us1 z = us z" if "z < a \<or> a + Suc n < z" for z
  proof -
    have "unshift n a d us1 z = us1 z" using that IH by auto
    then show ?thesis using that by (auto simp: us1_def)
  qed
  ultimately show ?case using IH unfolding loop by (simp only:) blast
qed

subsection \<open>One quotient digit\<close>

lemma unat_mult_digits: "unat a < 65536 \<Longrightarrow> unat b \<le> 65536 \<Longrightarrow> unat (a * b :: u4) = unat a * unat b"
proof -
  assume a: "unat a < 65536" "unat b \<le> 65536"
  have "unat a * unat b \<le> 65535 * 65536" using a by (intro mult_le_mono) simp_all
  then show ?thesis by (simp add: unat_word_ariths(2))
qed

lemma unat_add_small: "unat a + unat b < 4294967296 \<Longrightarrow> unat (a + b :: u4) = unat a + unat b"
  by (simp add: unat_word_ariths(1))

lemma mulsub_digit:
  fixes u v q t :: u4
  assumes "unat u < 65536" "unat v < 65536" "unat q < 65536" "unat t < 65536"
  defines "t1 \<equiv> u - v * q - t"
  defines "t2 \<equiv> (0x10000 - HHALF t1) AND 0xFFFF"
  shows "unat (LHALF t1) + unat v * unat q + unat t = unat u + unat t2 * 65536 \<and> unat t2 < 65536"
proof -
  define P where "P = unat v * unat q + unat t"
  have "unat v * unat q \<le> 65535 * 65535" using assms by (intro mult_le_mono) simp_all
  then have P: "P \<le> 65535 * 65535 + 65535" using assms unfolding P_def by linarith
  have "t1 = u - of_nat P" unfolding t1_def P_def by (simp add: unat_mult_digits)
  then have t1: "unat t1 = (if P \<le> unat u then unat u - P else unat u + 4294967296 - P)"
    using P by (simp only: unat_minus)
  have t2: "unat t2 = (65536 - unat t1 div 65536) mod 65536"
  proof -
    have "unat (HHALF t1) \<le> 65536" using half_lt(2) [of t1] by simp
    then have "unat (0x10000 - HHALF t1) = 65536 - unat t1 div 65536"
      by (simp add: unat_sub word_le_nat_alt unat_HHALF)
    then show ?thesis unfolding t2_def and_FFFF by (simp add: unat_take16)
  qed
  show ?thesis
  proof (cases "P \<le> unat u")
    case True
    then have "unat t1 = unat u - P" "unat t1 < 65536" using t1 assms by simp_all
    then show ?thesis using True t2 unfolding unat_LHALF P_def [symmetric] by (simp add: P_def)
  next
    case False
    define h where "h = unat t1 div 65536"
    have x: "unat t1 = unat u + 4294967296 - P" "65536 \<le> unat t1" "unat t1 < 4294967296" using False t1 P by simp_all
    then have h: "1 \<le> h" "h < 65536" unfolding h_def by (simp_all add: less_mult_imp_div_less div_greater_zero_iff Suc_leI)
    then have "unat t2 = 65536 - h" unfolding t2 h_def [symmetric] by simp
    moreover have "unat t1 mod 65536 + h * 65536 = unat t1" unfolding h_def by simp
    ultimately show ?thesis using x h False P unfolding unat_LHALF P_def by (simp add: diff_mult_distrib)
  qed
qed

lemma mulsub_spec:
  "digits_ok us (Suc a) i \<Longrightarrow> digits_ok vs (Suc vo) i \<Longrightarrow> unat qhat < 65536 \<Longrightarrow> unat t < 65536 \<Longrightarrow>
   mulsub i a vo vs qhat t us = (t', us') \<Longrightarrow>
   unat t' < 65536 \<and> digits_ok us' (Suc a) i \<and> (\<forall>x. x \<le> a \<or> a + i < x \<longrightarrow> us' x = us x)
   \<and> val us' (Suc a) i + unat qhat * val vs (Suc vo) i + unat t = val us (Suc a) i + unat t' * 65536 ^ i"
proof (induction i arbitrary: t us)
  case 0
  then show ?case by (simp add: digits_ok_def)
next
  case (Suc i)
  define u v where "u = us (a + Suc i)" and "v = vs (vo + Suc i)"
  define t1 where "t1 = u - v * qhat - t"
  define t2 where "t2 = (0x10000 - HHALF t1) AND 0xFFFF"
  define us1 where "us1 = us(a + Suc i := LHALF t1)"
  have u: "unat u < 65536" unfolding u_def by (rule digits_okD [OF Suc.prems(1)]) simp_all
  have v: "unat v < 65536" unfolding v_def by (rule digits_okD [OF Suc.prems(2)]) simp_all
  note d = mulsub_digit [OF u v Suc.prems(3,4), folded t1_def, folded t2_def]
  have ok1: "digits_ok us1 (Suc a) i" using Suc.prems(1) unfolding digits_ok_def us1_def by simp
  have okv: "digits_ok vs (Suc vo) i" using Suc.prems(2) unfolding digits_ok_def by simp
  have run: "mulsub i a vo vs qhat t2 us1 = (t', us')"
    using Suc.prems(5) by (simp add: Let_def t2_def t1_def us1_def u_def v_def)
  from Suc.IH [OF ok1 okv Suc.prems(3) _ run] d have IH: "unat t' < 65536" "digits_ok us' (Suc a) i"
    "\<And>x. x \<le> a \<or> a + i < x \<Longrightarrow> us' x = us1 x"
    "val us' (Suc a) i + unat qhat * val vs (Suc vo) i + unat t2 = val us1 (Suc a) i + unat t' * 65536 ^ i"
    by blast+
  have low: "us' (Suc (a + i)) = LHALF t1" using IH(3) [of "Suc (a + i)"] by (simp add: us1_def)
  have v1: "val us1 (Suc a) i = val us (Suc a) i" unfolding us1_def by (rule val_cong) simp
  have "digits_ok us' (Suc a) (Suc i)" using IH(2) low half_lt(1) [of t1] unfolding digits_ok_def
    by (auto simp: less_Suc_eq)
  moreover have "us' x = us x" if "x \<le> a \<or> a + Suc i < x" for x
    using IH(3) [of x] that by (auto simp: us1_def)
  moreover have "val us' (Suc a) (Suc i) + unat qhat * val vs (Suc vo) (Suc i) + unat t
      = val us (Suc a) (Suc i) + unat t' * 65536 ^ Suc i"
  proof -
    have "(val us' (Suc a) i + unat qhat * val vs (Suc vo) i + unat t2) * 65536
      = (val us (Suc a) i + unat t' * 65536 ^ i) * 65536" using IH(4) v1 by simp
    then show ?thesis using d low by (simp add: u_def v_def algebra_simps)
  qed
  ultimately show ?case using IH(1) by blast
qed

lemma addback_spec:
  "digits_ok us (Suc a) i \<Longrightarrow> digits_ok vs (Suc vo) i \<Longrightarrow> unat t \<le> 1 \<Longrightarrow>
   addback i a vo vs t us = (t', us') \<Longrightarrow>
   unat t' \<le> 1 \<and> digits_ok us' (Suc a) i \<and> (\<forall>x. x \<le> a \<or> a + i < x \<longrightarrow> us' x = us x)
   \<and> val us' (Suc a) i + unat t' * 65536 ^ i = val us (Suc a) i + val vs (Suc vo) i + unat t"
proof (induction i arbitrary: t us)
  case 0
  then show ?case by (simp add: digits_ok_def)
next
  case (Suc i)
  define u v where "u = us (a + Suc i)" and "v = vs (vo + Suc i)"
  define t1 where "t1 = t + (u + v)"
  define us1 where "us1 = us(a + Suc i := LHALF t1)"
  have u: "unat u < 65536" unfolding u_def by (rule digits_okD [OF Suc.prems(1)]) simp_all
  have v: "unat v < 65536" unfolding v_def by (rule digits_okD [OF Suc.prems(2)]) simp_all
  have t1: "unat t1 = unat t + (unat u + unat v)" using u v Suc.prems(3) unfolding t1_def by (simp add: unat_add_small)
  have t2: "unat (HHALF t1) \<le> 1" using t1 u v Suc.prems(3) unfolding unat_HHALF by linarith
  have d: "unat (LHALF t1) + unat (HHALF t1) * 65536 = unat t + (unat u + unat v)"
    unfolding t1 [symmetric] unat_LHALF unat_HHALF by simp
  have ok1: "digits_ok us1 (Suc a) i" using Suc.prems(1) unfolding digits_ok_def us1_def by simp
  have okv: "digits_ok vs (Suc vo) i" using Suc.prems(2) unfolding digits_ok_def by simp
  have run: "addback i a vo vs (HHALF t1) us1 = (t', us')"
    using Suc.prems(4) by (simp add: Let_def t1_def us1_def u_def v_def)
  from Suc.IH [OF ok1 okv t2 run] have IH: "unat t' \<le> 1" "digits_ok us' (Suc a) i"
    "\<And>x. x \<le> a \<or> a + i < x \<Longrightarrow> us' x = us1 x"
    "val us' (Suc a) i + unat t' * 65536 ^ i = val us1 (Suc a) i + val vs (Suc vo) i + unat (HHALF t1)"
    by blast+
  have low: "us' (Suc (a + i)) = LHALF t1" using IH(3) [of "Suc (a + i)"] by (simp add: us1_def)
  have v1: "val us1 (Suc a) i = val us (Suc a) i" unfolding us1_def by (rule val_cong) simp
  have "digits_ok us' (Suc a) (Suc i)" using IH(2) low half_lt(1) [of t1] unfolding digits_ok_def
    by (auto simp: less_Suc_eq)
  moreover have "us' x = us x" if "x \<le> a \<or> a + Suc i < x" for x
    using IH(3) [of x] that by (auto simp: us1_def)
  moreover have "val us' (Suc a) (Suc i) + unat t' * 65536 ^ Suc i
      = val us (Suc a) (Suc i) + val vs (Suc vo) (Suc i) + unat t"
  proof -
    have "(val us' (Suc a) i + unat t' * 65536 ^ i) * 65536
      = (val us (Suc a) i + val vs (Suc vo) i + unat (HHALF t1)) * 65536" using IH(4) v1 by simp
    then show ?thesis using d low by (simp add: u_def v_def algebra_simps)
  qed
  ultimately show ?case using IH(1) by blast
qed

text \<open>The estimate is never below a digit that fits the leading digits, and itself fits them.\<close>

lemma qhat_too_big_spec:
  assumes "unat v1 < 65536" "unat v2 < 65536" "unat u2 < 65536"
  shows "unat qhat \<le> 65536 \<Longrightarrow> unat rhat < 65536 \<Longrightarrow> q < unat qhat \<Longrightarrow> N = unat qhat * unat v1 + unat rhat \<Longrightarrow>
    q * (unat v1 * 65536 + unat v2) \<le> N * 65536 + unat u2 \<Longrightarrow> 65536 \<le> unat rhat + k * unat v1 \<Longrightarrow>
    \<exists>h. qhat_too_big k v1 v2 u2 qhat rhat = Ok h \<and> q \<le> unat h \<and> unat h < 65536
      \<and> unat h * (unat v1 * 65536 + unat v2) \<le> N * 65536 + unat u2"
proof (induction k arbitrary: qhat rhat)
  case (Suc k)
  define h r where "h = qhat - 1" and "r = rhat + v1"
  have h: "unat h = unat qhat - 1" using Suc.prems(3) unat_minus [of 1 qhat] unfolding h_def by simp
  have r: "unat r = unat rhat + unat v1" using Suc.prems(2) assms unfolding r_def by (simp add: unat_add_small)
  have hb: "q \<le> unat h" "unat h < 65536" using Suc.prems(1,3) h by simp_all
  have "unat qhat * unat v1 = unat h * unat v1 + unat v1" using Suc.prems(3) unfolding h
    by (metis Suc_eq_plus1 Suc_pred' add.commute gr_zeroI less_nat_zero_code mult_Suc)
  then have N: "N = unat h * unat v1 + unat r" using Suc.prems(4) r by simp
  define P M where "P = unat h * unat v1" and "M = unat h * unat v2"
  have W: "unat h * (unat v1 * 65536 + unat v2) = P * 65536 + M" by (simp add: P_def M_def algebra_simps)
  have M: "M \<le> 65535 * 65535" unfolding M_def using hb assms by (intro mult_le_mono) simp_all
  have m: "unat (v2 * h) = M" using unat_mult_digits [of v2 h] hb assms by (simp add: M_def mult.commute)
  have step: "qhat_too_big (Suc k) v1 v2 u2 qhat rhat = (if r \<ge> 0x10000 then Ok h
     else if v2 * h > COMBINE r u2 then qhat_too_big k v1 v2 u2 h r else Ok h)"
    by (simp add: Let_def h_def r_def)
  show ?case
  proof (cases "65536 \<le> unat r")
    case True
    then have "P * 65536 + M \<le> N * 65536 + unat u2" unfolding N P_def [symmetric] using M by (simp add: algebra_simps)
    then show ?thesis using True hb unfolding step W [symmetric] by (simp add: word_le_nat_alt)
  next
    case False
    then have c: "unat (COMBINE r u2) = unat r * 65536 + unat u2" using assms by (simp add: unat_COMBINE)
    show ?thesis
    proof (cases "v2 * h > COMBINE r u2")
      case True
      then have "unat r * 65536 + unat u2 < M" using c m by (simp add: word_less_nat_alt)
      then have big: "N * 65536 + unat u2 < unat h * (unat v1 * 65536 + unat v2)"
        unfolding W N P_def [symmetric] by (simp add: algebra_simps)
      have "q < unat h"
      proof (rule ccontr)
        assume "\<not> q < unat h"
        then have "unat h * (unat v1 * 65536 + unat v2) \<le> q * (unat v1 * 65536 + unat v2)" by (intro mult_le_mono1) simp
        with big Suc.prems(5) show False by linarith
      qed
      moreover have "65536 \<le> unat r + k * unat v1" using Suc.prems(6) r by simp
      ultimately have "\<exists>g. qhat_too_big k v1 v2 u2 h r = Ok g \<and> q \<le> unat g \<and> unat g < 65536
          \<and> unat g * (unat v1 * 65536 + unat v2) \<le> N * 65536 + unat u2"
        using Suc.IH [of h r] hb False N Suc.prems(5) by simp
      then show ?thesis using True False unfolding step by (simp add: word_le_nat_alt)
    next
      case False': False
      then have "M \<le> unat r * 65536 + unat u2" using c m by (simp add: word_less_nat_alt)
      then have "P * 65536 + M \<le> N * 65536 + unat u2" unfolding N P_def [symmetric] by (simp add: algebra_simps)
      then show ?thesis using False False' hb unfolding step W [symmetric] by (simp add: word_le_nat_alt)
    qed
  qed
qed simp

lemma estimate_spec:
  assumes v: "32768 \<le> unat v1" "unat v1 < 65536" "unat v2 < 65536"
    and u: "unat u0 \<le> unat v1" "unat u1 < 65536" "unat u2 < 65536"
    and q: "q < 65536" "q * (unat v1 * 65536 + unat v2) \<le> (unat u0 * 65536 + unat u1) * 65536 + unat u2"
  shows "\<exists>h. estimate v1 v2 u0 u1 u2 = Ok h \<and> q \<le> unat h \<and> unat h < 65536
    \<and> unat h * (unat v1 * 65536 + unat v2) \<le> (unat u0 * 65536 + unat u1) * 65536 + unat u2"
proof (cases "u0 = v1")
  case True
  have "\<exists>h. qhat_too_big 3 v1 v2 u2 0x10000 u1 = Ok h \<and> q \<le> unat h \<and> unat h < 65536
    \<and> unat h * (unat v1 * 65536 + unat v2) \<le> (unat u0 * 65536 + unat u1) * 65536 + unat u2"
    by (rule qhat_too_big_spec [OF v(2,3) u(3)]) (use True u v q in simp_all)
  then show ?thesis using True by (simp add: estimate_def)
next
  case False
  then have lt: "unat u0 < unat v1" using u(1) by (metis le_neq_implies_less word_unat_eq_iff)
  define n where "n = COMBINE u0 u1"
  define qh rh where "qh = n div v1" and "rh = n mod v1"
  have n: "unat n = unat u0 * 65536 + unat u1" unfolding n_def using lt u v by (intro unat_COMBINE) simp_all
  have qr: "unat qh = unat n div unat v1" "unat rh = unat n mod unat v1" unfolding qh_def rh_def by (simp_all add: unat_div unat_mod)
  have "unat n < unat v1 * 65536" using n lt u(2) by (simp add: less_le_trans)
  then have qh: "unat qh < 65536" unfolding qr by (simp add: less_mult_imp_div_less mult.commute)
  have rh: "unat rh < unat v1" unfolding qr using v by simp
  have N: "unat n = unat qh * unat v1 + unat rh" unfolding qr by simp
  have m: "unat (v2 * qh) = unat v2 * unat qh" using unat_mult_digits [of v2 qh] qh v by simp
  have c: "unat (COMBINE rh u2) = unat rh * 65536 + unat u2" using rh v u by (intro unat_COMBINE) simp_all
  have W: "unat qh * (unat v1 * 65536 + unat v2) = (unat n - unat rh) * 65536 + unat v2 * unat qh"
    unfolding N by (simp add: algebra_simps)
  have qle: "q \<le> unat qh"
  proof (rule ccontr)
    assume "\<not> q \<le> unat qh"
    then have "(unat qh + 1) * (unat v1 * 65536) \<le> q * (unat v1 * 65536)" by (intro mult_le_mono1) simp
    also have "\<dots> \<le> unat n * 65536 + unat u2" using q(2) unfolding n by (simp add: algebra_simps)
    finally have "(unat qh + 1) * unat v1 * 65536 \<le> unat n * 65536 + unat u2" by (simp add: mult.assoc)
    then have "(unat qh + 1) * unat v1 \<le> unat n" using u(3) by linarith
    then show False using N rh by simp
  qed
  have step: "estimate v1 v2 u0 u1 u2 = (if v2 * qh > COMBINE rh u2 then qhat_too_big 3 v1 v2 u2 qh rh else Ok qh)"
    using False by (simp add: estimate_def Let_def n_def qh_def rh_def)
  show ?thesis
  proof (cases "v2 * qh > COMBINE rh u2")
    case True
    then have "unat rh * 65536 + unat u2 < unat v2 * unat qh" using c m by (simp add: word_less_nat_alt)
    then have big: "unat n * 65536 + unat u2 < unat qh * (unat v1 * 65536 + unat v2)" unfolding W N by simp
    have "q \<noteq> unat qh" using big q(2) unfolding n by auto
    then have "\<exists>h. qhat_too_big 3 v1 v2 u2 qh rh = Ok h \<and> q \<le> unat h \<and> unat h < 65536
      \<and> unat h * (unat v1 * 65536 + unat v2) \<le> unat n * 65536 + unat u2"
      using qle qh rh v u q N n by (intro qhat_too_big_spec) simp_all
    then show ?thesis using True unfolding step n by simp
  next
    case False
    then have "unat v2 * unat qh \<le> unat rh * 65536 + unat u2" using c m by (simp add: word_less_nat_alt)
    then have "unat qh * (unat v1 * 65536 + unat v2) \<le> unat n * 65536 + unat u2" unfolding W N by simp
    then show ?thesis using False qle qh unfolding step n by simp
  qed
qed

lemma digit_unique:
  fixes D r K u t :: nat
  assumes "D + u * K = r + t * K" "D < K" "r < K"
  shows "u = t \<and> D = r"
proof -
  have "(D + u * K) div K = u" "(D + u * K) mod K = D" using assms(2) by simp_all
  moreover have "(r + t * K) div K = t" "(r + t * K) mod K = r" using assms(3) by simp_all
  ultimately show ?thesis using assms(1) by metis
qed

lemma carry_one:
  fixes S K u t :: nat
  assumes "S + u * K = t * K" "0 < S" "S < 2 * K"
  shows "t = u + 1 \<and> S = K"
proof -
  have "S = (t - u) * K" using assms(1) by (simp add: diff_mult_distrib)
  moreover from this assms have "t - u = 1" by (cases "t - u"; cases "t - u - 1") auto
  ultimately show ?thesis by simp
qed

text \<open>What the leading digits \<open>W\<close> and \<open>Y\<close> of divisor and dividend say about the quotient digit.\<close>

lemma leading_digits:
  fixes X V Y W K :: nat
  assumes X: "X = Y * K + Xr" "Xr < K" and V: "V = W * K + Vr" "Vr < K" and V1: "65536 * K \<le> V"
  shows "X div V * W \<le> Y"
    and "h * W \<le> Y \<Longrightarrow> h < 65536 \<Longrightarrow> X div V \<le> h \<Longrightarrow> h = X div V \<or> h = X div V + 1"
proof -
  define q r where "q = X div V" and "r = X mod V"
  have "0 < V" using V1 X(2) by linarith
  then have qr: "X = q * V + r" "r < V" by (simp_all add: q_def r_def)
  have "q * W * K \<le> q * V" unfolding V by (simp add: algebra_simps)
  also have "\<dots> < (Y + 1) * K" using qr(1) X by simp
  finally have "q * W < Y + 1" by (simp only: mult_less_cancel2)
  then show "X div V * W \<le> Y" by (simp add: q_def)
  assume h: "h * W \<le> Y" "h < 65536" "X div V \<le> h"
  have "h * V \<le> h * W * K + 65535 * Vr" unfolding V using h(2) by (simp add: algebra_simps mult_le_mono1)
  also have "\<dots> \<le> Y * K + 65535 * Vr" using h(1) by (simp add: mult_le_mono1)
  also have "\<dots> < X + V" using V1 V(2) unfolding X by linarith
  finally have "h * V < (q + 2) * V" using qr by (simp add: algebra_simps)
  then have "h < q + 2" by (simp only: mult_less_cancel2)
  then show "h = X div V \<or> h = X div V + 1" using h(3) unfolding q_def by linarith
qed

lemma first_digit_le:
  fixes u0 v1 :: nat
  assumes "((u0 * 65536 + u1) * 65536 + u2) * K + Xr < ((v1 * 65536 + v2) * K + Vr) * 65536" "Vr < K" "v2 < 65536"
  shows "u0 \<le> v1"
proof -
  have "u0 * (65536 * 65536 * K) \<le> ((u0 * 65536 + u1) * 65536 + u2) * K + Xr" by (simp add: algebra_simps)
  also have "\<dots> < ((v1 * 65536 + v2) * K + K) * 65536" using assms(1,2) by simp
  also have "\<dots> \<le> (v1 + 1) * (65536 * 65536 * K)"
    using mult_right_mono [of "v1 * 65536 + v2 + 1" "(v1 + 1) * 65536" "K * 65536"] assms(3) by (simp add: algebra_simps)
  finally have "u0 < v1 + 1" by (simp only: mult_less_cancel2)
  then show ?thesis by simp
qed

text \<open>D5 and D6: one add-back repairs a digit that was one too large.\<close>

lemma add_back_repairs:
  assumes ok: "digits_ok us (Suc a) n" and vs: "digits_ok vs (Suc vo) n" and top: "unat (us a) = 65535"
    and V: "r < val vs (Suc vo) n" "val us (Suc a) n + (val vs (Suc vo) n - r) = 65536 ^ n"
  shows "\<exists>t us'. addback n a vo vs 0 us = (t, us') \<and> LHALF (us' a + t) = 0 \<and> val us' (Suc a) n = r
    \<and> digits_ok us' (Suc a) n \<and> (\<forall>x. x < a \<or> a + n < x \<longrightarrow> us' x = us x)"
proof -
  obtain t us' where b: "addback n a vo vs 0 us = (t, us')" by fastforce
  from addback_spec [OF ok vs _ b] have b1: "digits_ok us' (Suc a) n" "\<And>x. x \<le> a \<or> a + n < x \<Longrightarrow> us' x = us x"
    and b2: "val us' (Suc a) n + unat t * 65536 ^ n = val us (Suc a) n + val vs (Suc vo) n" by auto
  have "val vs (Suc vo) n < 65536 ^ n" by (rule val_lt [OF vs])
  then have rn: "r < 65536 ^ n" using V(1) by linarith
  have "val us' (Suc a) n + unat t * 65536 ^ n = r + 1 * 65536 ^ n" using b2 V by linarith
  from digit_unique [OF this val_lt [OF b1(1)] rn] have f: "unat t = 1" "val us' (Suc a) n = r" by blast+
  have "unat (us' a + t) = 65536" using top b1(2) [of a] f(1) by (simp add: unat_add_small)
  then have "LHALF (us' a + t) = 0" using unat_LHALF [of "us' a + t"] by (simp add: word_unat_eq_iff)
  then show ?thesis using b f(2) b1 by auto
qed

lemma minus_one_halves: "HHALF (- 1) \<noteq> 0" "unat (LHALF (- 1)) = 65535"
proof -
  have t1: "unat (- 1 :: u4) = 4294967295" by (simp add: unsigned_minus_1_eq_mask mask_eq_exp_minus_1)
  then show "HHALF (- 1) \<noteq> 0" "unat (LHALF (- 1)) = 65535"
    using unat_HHALF [of "- 1"] unat_LHALF [of "- 1"] by auto
qed

text \<open>The step after the estimate: \<open>h\<close> is the quotient digit or one more.\<close>

lemma correct_digit:
  assumes us: "digits_ok us a (Suc n)" and vs: "digits_ok vs (Suc vo) n"
  defines "V \<equiv> val vs (Suc vo) n" and "X \<equiv> val us a (Suc n)"
  assumes V0: "0 < V" and h: "unat h < 65536" "unat h = X div V \<or> unat h = X div V + 1"
    and e: "estimate (vs (vo + 1)) (vs (vo + 2)) (us a) (us (a + 1)) (us (a + 2)) = Ok h"
  shows "\<exists>qd us'. div_step n a vo vs us = Ok (qd, us') \<and> unat qd = X div V \<and> us' a = 0
    \<and> val us' (Suc a) n = X mod V \<and> digits_ok us' (Suc a) n \<and> (\<forall>x. x < a \<or> a + n < x \<longrightarrow> us' x = us x)"
proof -
  define q r where "q = X div V" and "r = X mod V"
  have qr: "X = q * V + r" "r < V" using V0 by (simp_all add: q_def r_def)
  have Vn: "V < 65536 ^ n" unfolding V_def by (rule val_lt [OF vs])
  obtain t us1 where m: "mulsub n a vo vs h 0 us = (t, us1)" by fastforce
  from mulsub_spec [OF digits_ok_sub [OF us] vs h(1) _ m]
  have m1: "digits_ok us1 (Suc a) n" "\<And>x. x \<le> a \<or> a + n < x \<Longrightarrow> us1 x = us x"
    and m2: "val us1 (Suc a) n + unat h * V = val us (Suc a) n + unat t * 65536 ^ n"
    unfolding V_def by auto
  define D t1 us2 where "D = val us1 (Suc a) n" and "t1 = us a - t" and "us2 = us1(a := LHALF t1)"
  have D: "D < 65536 ^ n" unfolding D_def by (rule val_lt [OF m1(1)])
  have bal: "D + unat (us a) * 65536 ^ n + unat h * V = X + unat t * 65536 ^ n"
    using m2 val_front [of us a n] unfolding D_def X_def by simp
  have step: "div_step n a vo vs us = (if HHALF t1 \<noteq> 0
      then let (t2, us3) = addback n a vo vs 0 us2 in Ok (h - 1, us3(a := LHALF (us3 a + t2)))
      else Ok (h, us2))"
    using e m m1(2) [of a] by (simp add: div_step_def t1_def us2_def)
  have ok2: "digits_ok us2 (Suc a) n" using m1(1) unfolding digits_ok_def us2_def by simp
  have D2: "val us2 (Suc a) n = D" unfolding us2_def D_def by (rule val_cong) simp
  have out: "us2 x = us x" if "x < a \<or> a + n < x" for x using m1(2) [of x] that by (auto simp: us2_def)
  from h(2) consider "unat h = q" | "unat h = q + 1" unfolding q_def by blast
  then show ?thesis
  proof cases
    case 1
    have "D + unat (us a) * 65536 ^ n = r + unat t * 65536 ^ n" using bal qr(1) unfolding 1 by simp
    from digit_unique [OF this D less_trans [OF qr(2) Vn]] have f: "unat (us a) = unat t" "D = r" by blast+
    from f(1) have "us a = t" by (simp only: word_unat_eq_iff)
    then have "HHALF t1 = 0" "us2 a = 0" by (simp_all add: HHALF_def LHALF_def us2_def t1_def)
    then show ?thesis unfolding step using 1 f(2) D2 ok2 out by (auto simp: q_def r_def)
  next
    case 2
    have "(D + (V - r)) + unat (us a) * 65536 ^ n = unat t * 65536 ^ n" using bal qr unfolding 2 by (simp add: algebra_simps)
    moreover have "0 < D + (V - r)" "D + (V - r) < 2 * 65536 ^ n" using qr D Vn by linarith+
    ultimately have f: "unat t = unat (us a) + 1 \<and> D + (V - r) = 65536 ^ n" by (rule carry_one)
    have "unat (us a) < 65536" using us by (rule digits_okD) simp_all
    then have "t = us a + 1" using f by (intro word_unat_eq_iff [THEN iffD2]) (simp add: unat_add_small)
    then have t1: "t1 = - 1" by (simp add: t1_def)
    have "unat (us2 a) = 65535" unfolding us2_def t1 by (simp add: minus_one_halves)
    from add_back_repairs [OF ok2 vs this, of r] qr(2) f obtain t2 us3 where
      b: "addback n a vo vs 0 us2 = (t2, us3)" "LHALF (us3 a + t2) = 0" "val us3 (Suc a) n = r" "digits_ok us3 (Suc a) n"
      "\<And>x. x < a \<or> a + n < x \<Longrightarrow> us3 x = us2 x" unfolding V_def D2 by blast
    have "unat (h - 1) = q" using 2 unat_minus [of 1 h] by simp
    moreover have "val (us3(a := 0)) (Suc a) n = r" unfolding b(3) [symmetric] by (rule val_cong) simp
    moreover have "digits_ok (us3(a := 0)) (Suc a) n" using b(4) unfolding digits_ok_def by simp
    ultimately show ?thesis unfolding step using b out minus_one_halves(1) t1 by (auto simp: q_def r_def)
  qed
qed

lemma div_step_spec:
  assumes n: "n = Suc (Suc k)" and us: "digits_ok us a (Suc n)" and vs: "digits_ok vs (Suc vo) n"
    and v1: "32768 \<le> unat (vs (Suc vo))"
  defines "V \<equiv> val vs (Suc vo) n" and "X \<equiv> val us a (Suc n)"
  assumes lt: "X < V * 65536"
  shows "\<exists>qd us'. div_step n a vo vs us = Ok (qd, us') \<and> unat qd = X div V \<and> us' a = 0
    \<and> val us' (Suc a) n = X mod V \<and> digits_ok us' (Suc a) n \<and> (\<forall>x. x < a \<or> a + n < x \<longrightarrow> us' x = us x)"
proof -
  define K where "K = (65536::nat) ^ k"
  define W where "W = unat (vs (Suc vo)) * 65536 + unat (vs (Suc vo + 1))"
  define Y where "Y = (unat (us a) * 65536 + unat (us (Suc a))) * 65536 + unat (us (a + 2))"
  define Vr Xr where "Vr = val vs (Suc vo + 2) k" and "Xr = val us (a + 3) k"
  have vd: "unat (vs (Suc vo)) < 65536" "unat (vs (Suc vo + 1)) < 65536"
    by (rule digits_okD [OF vs], use n in simp_all)+
  have ud: "unat (us (Suc a)) < 65536" "unat (us (a + 2)) < 65536"
    by (rule digits_okD [OF us], use n in simp_all)+
  have V: "V = W * K + Vr"
    using val_append [of vs "Suc vo" 2 k] n by (simp add: V_def W_def Vr_def K_def numeral_2_eq_2)
  have X: "X = Y * K + Xr"
    using val_append [of us a 3 k] n by (simp add: X_def Y_def Xr_def K_def numeral_3_eq_3 numeral_2_eq_2)
  have r: "Vr < K" "Xr < K" unfolding Vr_def Xr_def K_def
    by (rule val_lt, rule digits_ok_sub [OF vs], use n in simp_all, rule val_lt, rule digits_ok_sub [OF us], use n in simp_all)
  have "65536 * K \<le> W * K" unfolding W_def using v1 by (intro mult_le_mono1) simp
  then have V1: "65536 * K \<le> V" unfolding V by linarith
  note ld = leading_digits [OF X r(2) V r(1) V1]
  have q: "X div V < 65536" using lt by (simp add: less_mult_imp_div_less mult.commute)
  have u0: "unat (us a) \<le> unat (vs (Suc vo))"
    using first_digit_le [of "unat (us a)", OF _ r(1) vd(2)] lt unfolding X V Y_def W_def by blast
  obtain h where h: "estimate (vs (Suc vo)) (vs (Suc vo + 1)) (us a) (us (Suc a)) (us (a + 2)) = Ok h"
    "X div V \<le> unat h" "unat h < 65536" "unat h * W \<le> Y"
    using estimate_spec [OF v1 vd u0 ud q] ld(1) unfolding W_def Y_def by blast
  have "0 < V" using V1 r(1) by linarith
  then show ?thesis
    using correct_digit [OF us vs _ h(3)] ld(2) [OF h(4,3,2)] h(1) unfolding V_def X_def by simp
qed

subsection \<open>The whole division\<close>

lemma div_loop_spec:
  assumes n: "n = Suc (Suc l)" and vs: "digits_ok vs (Suc vo) n" and v1: "32768 \<le> unat (vs (Suc vo))"
  defines "V \<equiv> val vs (Suc vo) n"
  shows "digits_ok us (uo + j) (n + k) \<Longrightarrow> val us (uo + j) n < V \<Longrightarrow>
    \<exists>us' qs'. div_loop k j n uo vo qo vs us qs = Ok (us', qs')
      \<and> val qs' (qo + j) k = val us (uo + j) (n + k) div V \<and> val us' (uo + j + k) n = val us (uo + j) (n + k) mod V
      \<and> digits_ok us' (uo + j + k) n \<and> digits_ok qs' (qo + j) k
      \<and> (\<forall>x. x < uo + j \<longrightarrow> us' x = us x) \<and> (\<forall>x. uo + j \<le> x \<and> x < uo + j + k \<longrightarrow> us' x = 0)
      \<and> (\<forall>x. x < qo + j \<longrightarrow> qs' x = qs x)"
proof (induction k arbitrary: j us qs)
  case 0
  then show ?case by (auto simp: digits_ok_def)
next
  case (Suc k)
  define a where "a = uo + j"
  define X0 where "X0 = val us a (Suc n)"
  have V0: "0 < V" using Suc.prems(2) by simp
  have ok: "digits_ok us a (Suc n)" using Suc.prems(1) unfolding a_def by (rule digits_ok_sub) simp_all
  have "unat (us (a + n)) < 65536" using ok by (rule digits_okD) simp_all
  then have lt: "X0 < V * 65536" unfolding X0_def using Suc.prems(2) by (simp add: a_def)
  from div_step_spec [OF n ok vs v1] lt obtain qd us1 where
    st: "div_step n a vo vs us = Ok (qd, us1)" "unat qd = X0 div V" "us1 a = 0" "val us1 (Suc a) n = X0 mod V"
    "digits_ok us1 (Suc a) n" and out: "\<And>x. x < a \<or> a + n < x \<Longrightarrow> us1 x = us x"
    unfolding V_def X0_def by blast
  define R where "R = val us (a + Suc n) k"
  have R1: "val us1 (Suc a + n) k = R" unfolding R_def by (simp, rule val_cong, rule out, simp)
  have X: "val us a (n + Suc k) = X0 * 65536 ^ k + R"
    using val_append [of us a "Suc n" k] by (simp add: X0_def R_def)
  have X1: "val us1 (uo + Suc j) (n + k) = (X0 mod V) * 65536 ^ k + R"
    unfolding val_append using st(4) R1 by (simp add: a_def)
  have ok1: "digits_ok us1 (uo + Suc j) (n + k)"
  proof (rule digits_okI)
    fix x assume x: "uo + Suc j \<le> x" "x < uo + Suc j + (n + k)"
    show "unat (us1 x) < 65536"
    proof (cases "x < Suc a + n")
      case True
      then show ?thesis using x by (intro digits_okD [OF st(5)]) (simp_all add: a_def)
    next
      case False
      then show ?thesis using x out [of x] by (simp add: a_def digits_okD [OF Suc.prems(1)])
    qed
  qed
  have "val us1 (uo + Suc j) n < V" using st(4) V0 by (simp add: a_def)
  from Suc.IH [OF ok1 this, of "qs(qo + j := qd)"] obtain us' qs' where
    r: "div_loop k (Suc j) n uo vo qo vs us1 (qs(qo + j := qd)) = Ok (us', qs')"
    "val qs' (qo + Suc j) k = val us1 (uo + Suc j) (n + k) div V" "val us' (uo + Suc j + k) n = val us1 (uo + Suc j) (n + k) mod V"
    "digits_ok us' (uo + Suc j + k) n" "digits_ok qs' (qo + Suc j) k"
    and o: "\<And>x. x < uo + Suc j \<Longrightarrow> us' x = us1 x" "\<And>x. uo + Suc j \<le> x \<Longrightarrow> x < uo + Suc j + k \<Longrightarrow> us' x = 0"
    "\<And>x. x < qo + Suc j \<Longrightarrow> qs' x = (qs(qo + j := qd)) x"
    by blast
  have eq: "val us a (n + Suc k) = X0 div V * 65536 ^ k * V + val us1 (uo + Suc j) (n + k)"
  proof -
    have "X0 * 65536 ^ k = (X0 div V * V + X0 mod V) * 65536 ^ k" by (simp only: div_mult_mod_eq)
    also have "\<dots> = X0 div V * 65536 ^ k * V + X0 mod V * 65536 ^ k"
      by (simp only: distrib_right mult.assoc mult.commute [of V])
    finally show ?thesis unfolding X X1 by simp
  qed
  have dm: "val us a (n + Suc k) div V = X0 div V * 65536 ^ k + val us1 (uo + Suc j) (n + k) div V"
    "val us a (n + Suc k) mod V = val us1 (uo + Suc j) (n + k) mod V"
    unfolding eq using V0 by simp_all
  have qd: "qs' (qo + j) = qd" using o(3) [of "qo + j"] by simp
  have "val qs' (qo + j) (Suc k) = val us a (n + Suc k) div V"
    unfolding val_front dm(1) using qd st(2) r(2) by simp
  moreover have "digits_ok qs' (qo + j) (Suc k)"
  proof (rule digits_okI)
    fix x assume x: "qo + j \<le> x" "x < qo + j + Suc k"
    have "X0 div V < 65536" using lt by (simp add: less_mult_imp_div_less mult.commute)
    then show "unat (qs' x) < 65536"
      using x qd st(2) by (cases "x = qo + j") (simp_all add: digits_okD [OF r(5)])
  qed
  moreover have "us' x = us x" if "x < a" for x using that o(1) [of x] out [of x] by (simp add: a_def)
  moreover have "us' x = 0" if "a \<le> x" "x < a + Suc k" for x
    using that o(1) [of x] o(2) [of x] st(3) by (cases "x = a") (simp_all add: a_def)
  moreover have "qs' x = qs x" if "x < qo + j" for x using that o(3) [of x] by simp
  ultimately show ?case using st(1) r unfolding a_def [symmetric] dm(2) by (auto simp: a_def)
qed

lemma norm_v_spec:
  "norm_v vs 4 0 = Inl vo \<Longrightarrow> vo = 2 \<and> vs 1 = 0 \<and> vs 2 = 0 \<and> vs 3 = 0"
  "norm_v vs 4 0 = Inr (n, vo) \<Longrightarrow> n + vo = 4 \<and> 2 \<le> n \<and> vs (Suc vo) \<noteq> 0 \<and> (\<forall>x. 1 \<le> x \<and> x \<le> vo \<longrightarrow> vs x = 0)"
proof -
  have e: "norm_v vs 4 0 = (if vs 1 \<noteq> 0 then Inr (4, 0) else if vs 2 \<noteq> 0 then Inr (3, 1)
      else if vs 3 \<noteq> 0 then Inr (2, 2) else Inl 2)"
  proof -
    have "norm_v vs (Suc (Suc (Suc (Suc 0)))) 0 = (if vs 1 \<noteq> 0 then Inr (4, 0) else if vs 2 \<noteq> 0 then Inr (3, 1)
      else if vs 3 \<noteq> 0 then Inr (2, 2) else Inl 2)"
      by (simp add: numeral_3_eq_3 numeral_2_eq_2)
    moreover have "Suc (Suc (Suc (Suc 0))) = 4" by simp
    ultimately show ?thesis by (simp only:)
  qed
  then show "norm_v vs 4 0 = Inl vo \<Longrightarrow> vo = 2 \<and> vs 1 = 0 \<and> vs 2 = 0 \<and> vs 3 = 0" by (auto split: if_splits)
  assume "norm_v vs 4 0 = Inr (n, vo)"
  then consider "n = 4" "vo = 0" "vs 1 \<noteq> 0" | "n = 3" "vo = 1" "vs 1 = 0" "vs 2 \<noteq> 0"
    | "n = 2" "vo = 2" "vs 1 = 0" "vs 2 = 0" "vs 3 \<noteq> 0" unfolding e by (auto split: if_splits)
  then show "n + vo = 4 \<and> 2 \<le> n \<and> vs (Suc vo) \<noteq> 0 \<and> (\<forall>x. 1 \<le> x \<and> x \<le> vo \<longrightarrow> vs x = 0)"
  proof cases
    case 3
    have "x = 1 \<or> x = 2" if "1 \<le> x" "x \<le> 2" for x :: nat using that by linarith
    with 3 show ?thesis by (auto simp: numeral_3_eq_3 numeral_2_eq_2)
  qed (auto simp: numeral_2_eq_2 le_Suc_eq)
qed

lemma norm_u_spec:
  "us (uo + 1 + x) \<noteq> 0 \<Longrightarrow> x \<le> m \<Longrightarrow> m < k \<Longrightarrow>
   \<exists>y\<le>m. norm_u k us m uo = Ok (m - y, uo + y) \<and> us (uo + y + 1) \<noteq> 0 \<and> (\<forall>z. uo < z \<and> z \<le> uo + y \<longrightarrow> us z = 0)"
proof (induction k arbitrary: m uo x)
  case (Suc k)
  show ?case
  proof (cases "us (uo + 1) = 0")
    case True
    then obtain x' where x': "x = Suc x'" using Suc.prems(1) by (cases x) auto
    then obtain m' where m': "m = Suc m'" using Suc.prems(2) by (cases m) auto
    have "us (uo + 1 + 1 + x') \<noteq> 0" using Suc.prems(1) x' by simp
    from Suc.IH [OF this, of m'] Suc.prems x' m' obtain y where
      y: "y \<le> m'" "norm_u k us m' (uo + 1) = Ok (m' - y, uo + 1 + y)" "us (uo + 1 + y + 1) \<noteq> 0"
      "\<And>z. uo + 1 < z \<Longrightarrow> z \<le> uo + 1 + y \<Longrightarrow> us z = 0" by auto
    have "us z = 0" if "uo < z" "z \<le> uo + Suc y" for z
      using that y(4) [of z] True by (cases "z = uo + 1") simp_all
    then show ?thesis using y True m' by (intro exI [of _ "Suc y"]) auto
  next
    case False
    then show ?thesis by (intro exI [of _ 0]) auto
  qed
qed simp

lemma norm_d_spec:
  "unat t < 65536 \<Longrightarrow> 32768 \<le> unat t * 2 ^ k \<Longrightarrow>
   \<exists>d. norm_d (Suc k) t d0 = Ok (d0 + d) \<and> 32768 \<le> unat t * 2 ^ d \<and> unat t * 2 ^ d < 65536"
proof (induction k arbitrary: t d0)
  case 0
  then show ?case by (intro exI [of _ 0]) (simp add: word_less_nat_alt)
next
  case (Suc k)
  show ?case
  proof (cases "unat t < 32768")
    case True
    have p: "unat (push_bit 1 t) = unat t * 2" using unat_push_digit [of t 1] Suc.prems(1) by simp
    with Suc.IH [of "push_bit 1 t" "Suc d0"] Suc.prems True obtain d where
      "norm_d (Suc k) (push_bit 1 t) (Suc d0) = Ok (Suc d0 + d)" "32768 \<le> unat t * 2 * 2 ^ d" "unat t * 2 * 2 ^ d < 65536"
      by (auto simp: mult.assoc)
    then show ?thesis using True by (intro exI [of _ "Suc d"]) (simp add: word_less_nat_alt)
  next
    case False
    then show ?thesis using Suc.prems(1) by (intro exI [of _ 0]) (simp add: word_less_nat_alt)
  qed
qed

lemma clear_q_spec: "clear_q i qs x = (if x < i then 0 else qs x)"
  by (induction i arbitrary: qs) auto

lemma val_zeros: "(\<And>x. a \<le> x \<Longrightarrow> x < a + k \<Longrightarrow> ds x = 0) \<Longrightarrow> val ds a k = 0"
  by (induction k) simp_all

lemma val_skip:
  assumes "\<And>x. a \<le> x \<Longrightarrow> x < a + j \<Longrightarrow> ds x = 0"
  shows "val ds a (j + k) = val ds (a + j) k"
  using val_append [of ds a j k] val_zeros [of a j ds] assms by simp

lemma top_digit:
  assumes "digits_ok ds a (Suc k)"
  shows "unat (ds a) = val ds a (Suc k) div 65536 ^ k"
  using val_lt [OF digits_ok_sub [OF assms, of "Suc a" k]] by (simp add: val_front del: val.simps)

lemma shifted_v:
  assumes ok: "digits_ok vs a (Suc k)" and v: "32768 \<le> unat (vs a) * 2 ^ d" "unat (vs a) * 2 ^ d < 65536" and d: "d \<le> 16"
  defines "vs1 \<equiv> (if 0 < d then shl a k d vs else vs)"
  shows "val vs1 a (Suc k) = val vs a (Suc k) * 2 ^ d" "digits_ok vs1 a (Suc k)" "32768 \<le> unat (vs1 a)"
proof -
  define R where "R = val vs (Suc a) k"
  have R: "R < 65536 ^ k" unfolding R_def by (rule val_lt [OF digits_ok_sub [OF ok]]) simp_all
  have "(65536::nat) = 2 ^ (16 - d) * 2 ^ d" using d by (simp flip: power_add)
  with v(2) have "unat (vs a) < 2 ^ (16 - d)" by (metis mult_less_cancel2)
  then have "(unat (vs a) + 1) * 2 ^ d \<le> 2 ^ (16 - d) * 2 ^ d" by (intro mult_le_mono1) simp
  then have le: "(unat (vs a) + 1) * 2 ^ d \<le> 65536"
    using \<open>(65536::nat) = 2 ^ (16 - d) * 2 ^ d\<close> by simp
  have "val vs a (Suc k) * 2 ^ d < (unat (vs a) + 1) * 65536 ^ k * 2 ^ d"
    using R unfolding val_front R_def [symmetric] by simp
  also have "\<dots> = (unat (vs a) + 1) * 2 ^ d * 65536 ^ k" by (simp only: ac_simps)
  also have "\<dots> \<le> 65536 * 65536 ^ k" using le by (rule mult_le_mono1)
  finally have lt: "val vs a (Suc k) * 2 ^ d < 65536 ^ Suc k" by (simp del: val.simps)
  show 1: "val vs1 a (Suc k) = val vs a (Suc k) * 2 ^ d"
    unfolding vs1_def using shl_spec(1) [OF ok d lt] by (auto simp del: val.simps)
  show 2: "digits_ok vs1 a (Suc k)" unfolding vs1_def using shl_spec(2) [OF ok d lt] ok by auto
  have "32768 * 65536 ^ k \<le> unat (vs a) * 2 ^ d * 65536 ^ k" using v(1) by (rule mult_le_mono1)
  also have "\<dots> \<le> val vs a (Suc k) * 2 ^ d" unfolding val_front by (simp add: algebra_simps)
  finally have "32768 \<le> val vs1 a (Suc k) div 65536 ^ k" unfolding 1 by (simp add: div_le_mono less_eq_div_iff_mult_less_eq del: val.simps)
  then show "32768 \<le> unat (vs1 a)" unfolding top_digit [OF 2] .
qed

lemma shifted_u:
  assumes ok: "digits_ok us a (Suc k)" and z: "us a = 0" and d: "d \<le> 15"
  defines "us1 \<equiv> (if 0 < d then shl a k d us else us)"
  shows "val us1 a (Suc k) = val us a (Suc k) * 2 ^ d" "digits_ok us1 a (Suc k)" "unat (us1 a) < 32768"
    "x < a \<or> a + k < x \<Longrightarrow> us1 x = us x"
proof -
  have "val us (Suc a) k < 65536 ^ k" by (rule val_lt [OF digits_ok_sub [OF ok]]) simp_all
  then have v: "val us a (Suc k) < 65536 ^ k" unfolding val_front z by simp
  have p: "(2::nat) ^ d \<le> 2 ^ 15" using d by (intro power_increasing) simp_all
  have lt': "val us a (Suc k) * 2 ^ d < 65536 ^ k * 2 ^ d" using v by (simp del: val.simps)
  also have "\<dots> \<le> 65536 ^ k * 32768" using p by (intro mult_le_mono2) simp
  finally have lt: "val us a (Suc k) * 2 ^ d < 32768 * 65536 ^ k" by (simp add: mult.commute)
  then have lt2: "val us a (Suc k) * 2 ^ d < 65536 ^ Suc k" by (simp del: val.simps)
  have d16: "d \<le> 16" using d by simp
  show 1: "val us1 a (Suc k) = val us a (Suc k) * 2 ^ d"
    unfolding us1_def using shl_spec(1) [OF ok d16 lt2] by (auto simp del: val.simps)
  show 2: "digits_ok us1 a (Suc k)" unfolding us1_def using shl_spec(2) [OF ok d16 lt2] ok by auto
  show "unat (us1 a) < 32768" unfolding top_digit [OF 2] 1 using lt by (simp add: less_mult_imp_div_less del: val.simps)
  show "x < a \<or> a + k < x \<Longrightarrow> us1 x = us x" unfolding us1_def using shl_spec(3) [OF ok d16 lt2] by auto
qed

lemma val_lt_val:
  assumes "digits_ok us a (Suc k)" "unat (us a) < unat (vs b)"
  shows "val us a (Suc k) < val vs b (Suc k)"
proof -
  have "val us (Suc a) k < 65536 ^ k" by (rule val_lt [OF digits_ok_sub [OF assms(1)]]) simp_all
  then have "val us a (Suc k) < (unat (us a) + 1) * 65536 ^ k" unfolding val_front by simp
  also have "\<dots> \<le> unat (vs b) * 65536 ^ k" using assms(2) by (intro mult_le_mono1) simp
  also have "\<dots> \<le> val vs b (Suc k)" unfolding val_front by simp
  finally show ?thesis .
qed

text \<open>The dividend has a nonzero digit among its first \<open>5 - n\<close>, because it is not below the divisor.\<close>

lemma norm_u_result:
  assumes us: "digits_ok us 0 5" "us 0 = 0" and n: "2 \<le> n" "n \<le> 4" and le: "65536 ^ (n - 1) \<le> val us 1 4"
  shows "\<exists>m uo. norm_u 5 us (4 - n) 0 = Ok (m, uo) \<and> uo + m + n = 4 \<and> (\<forall>z\<le>uo. us z = 0)"
proof -
  have "\<exists>x\<le>4 - n. us (0 + 1 + x) \<noteq> 0"
  proof (rule ccontr)
    assume "\<not> ?thesis"
    then have z: "us x = 0" if "1 \<le> x" "x < 1 + (5 - n)" for x using that by (auto dest: spec [of _ "x - 1"])
    have "val us 1 4 = val us (1 + (5 - n)) (n - 1)" using val_skip [of 1 "5 - n" us "n - 1"] z n by simp
    also have "\<dots> < 65536 ^ (n - 1)" by (rule val_lt, rule digits_ok_sub [OF us(1)]) (use n in simp_all)
    finally show False using le by simp
  qed
  then obtain x where x: "us (0 + 1 + x) \<noteq> 0" "x \<le> 4 - n" by blast
  have "4 - n < 5" by simp
  from norm_u_spec [of us 0 x "4 - n" 5, OF x this] obtain uo where uo: "uo \<le> 4 - n" "norm_u 5 us (4 - n) 0 = Ok (4 - n - uo, uo)"
    and uz: "\<And>z. 0 < z \<Longrightarrow> z \<le> uo \<Longrightarrow> us z = 0" by auto
  have "us z = 0" if "z \<le> uo" for z using that uz [of z] us(2) by (cases "z = 0") simp_all
  then show ?thesis using uo n by auto
qed

lemma norm_d_result:
  assumes "unat t < 65536" "t \<noteq> 0"
  shows "\<exists>d\<le>15. norm_d 17 t 0 = Ok d \<and> 32768 \<le> unat t * 2 ^ d \<and> unat t * 2 ^ d < 65536"
proof -
  have t: "1 \<le> unat t" using assms(2) by (simp add: unat_gt_0 Suc_leI)
  then have "32768 \<le> unat t * 2 ^ 16" by simp
  from norm_d_spec [OF assms(1) this, of 0] obtain d where d: "norm_d 17 t 0 = Ok d" "32768 \<le> unat t * 2 ^ d"
    "unat t * 2 ^ d < 65536" by (auto simp del: norm_d.simps)
  have "1 * 2 ^ d \<le> unat t * 2 ^ d" using t by (rule mult_le_mono1)
  then have "(2::nat) ^ d < 65536" using d(3) by linarith
  then have "(2::nat) ^ d < 2 ^ 16" by simp
  then have "d < 16" by (rule power_less_imp_less_exp [rotated]) simp
  then show ?thesis using d by auto
qed

lemma place_digits:
  assumes "\<And>x. x < Suc p \<Longrightarrow> ds x = 0" "digits_ok ds (Suc p) k" "p + k = 4"
  shows "val ds 1 4 = val ds (Suc p) k" "digits_ok ds 1 4"
proof -
  show "val ds 1 4 = val ds (Suc p) k" using val_skip [of 1 p ds k] assms by simp
  show "digits_ok ds 1 4"
  proof (rule digits_okI)
    fix x :: nat assume "1 \<le> x" "x < 1 + 4"
    then show "unat (ds x) < 65536"
      using assms(1) [of x] digits_okD [OF assms(2), of x] assms(3) by (cases "x < Suc p") simp_all
  qed
qed

lemma unshift_remainder:
  assumes us: "us a = 0" "digits_ok us (Suc a) n" "val us (Suc a) n = R * 2 ^ d" and d: "d \<le> 15"
  defines "us' \<equiv> (if 0 < d then unshift n a d us else us)"
  shows "val us' (Suc a) n = R" "digits_ok us' (Suc a) n" "x < a \<Longrightarrow> us' x = us x" "us' a = 0"
proof -
  have "digits_ok us a (Suc n)"
  proof (rule digits_okI)
    fix x assume "a \<le> x" "x < a + Suc n"
    then show "unat (us x) < 65536" using us(1) digits_okD [OF us(2), of x] by (cases "x = a") simp_all
  qed
  from unshift_spec [of us a n d, OF us(1) this] d us
  show "val us' (Suc a) n = R" "digits_ok us' (Suc a) n" "x < a \<Longrightarrow> us' x = us x" "us' a = 0"
    unfolding us'_def by auto
qed

lemma long_div_spec:
  assumes us: "digits_ok us 0 5" "us 0 = 0" and vs: "digits_ok vs 1 4"
    and n: "n + vo = 4" "2 \<le> n" "vs (Suc vo) \<noteq> 0" "\<And>x. 1 \<le> x \<Longrightarrow> x \<le> vo \<Longrightarrow> vs x = 0"
    and le: "val vs 1 4 \<le> val us 1 4"
  shows "\<exists>Q R. long_div n vo us vs qs = Ok (Q, R) \<and> unat Q = val us 1 4 div val vs 1 4 \<and> unat R = val us 1 4 mod val vs 1 4"
proof -
  define U V where "U = val us 1 4" and "V = val vs 1 4"
  obtain l where l: "n = Suc (Suc l)" using le_Suc_ex [OF n(2)] by auto
  have okv: "digits_ok vs (Suc vo) n" by (rule digits_ok_sub [OF vs]) (use n in simp_all)
  have V: "V = val vs (Suc vo) n" using val_skip [of 1 vo vs n] n unfolding V_def by (simp add: add.commute)
  have "65536 ^ (n - 1) \<le> unat (vs (Suc vo)) * 65536 ^ (n - 1)" using n(3) by (simp add: unat_gt_0 Suc_leI)
  also have "\<dots> \<le> V" unfolding V l val_front by simp
  finally have "65536 ^ (n - 1) \<le> val us 1 4" using le by (simp add: V_def)
  from norm_u_result [OF us n(2) _ this] n(1) obtain m uo where nu: "norm_u 5 us (4 - n) 0 = Ok (m, uo)"
    and mn: "uo + m + n = 4" and uz: "\<And>z. z \<le> uo \<Longrightarrow> us z = 0" by auto
  have oku: "digits_ok us uo (Suc (m + n))" by (rule digits_ok_sub [OF us(1)]) (use mn in simp_all)
  have U: "val us uo (Suc (m + n)) = U"
    using val_skip [of 1 uo us "m + n"] uz mn unfolding U_def val_front by (simp add: add.assoc)
  have "unat (vs (Suc vo)) < 65536" using okv by (rule digits_okD) (use n in simp_all)
  from norm_d_result [OF this n(3)] obtain d where d15: "d \<le> 15" and d: "norm_d 17 (vs (Suc vo)) 0 = Ok d"
    "32768 \<le> unat (vs (Suc vo)) * 2 ^ d" "unat (vs (Suc vo)) * 2 ^ d < 65536" by blast
  define us1 where "us1 = (if 0 < d then shl uo (m + n) d us else us)"
  define vs1 where "vs1 = (if 0 < d then shl (Suc vo) (n - 1) d vs else vs)"
  have n1: "n = Suc (n - 1)" using l by simp
  have sv: "val vs1 (Suc vo) n = V * 2 ^ d" "digits_ok vs1 (Suc vo) n" "32768 \<le> unat (vs1 (Suc vo))"
    using shifted_v [of vs "Suc vo" "n - 1" d] okv n1 d d15 unfolding vs1_def V by (simp_all del: val.simps)
  note su = shifted_u [OF oku uz [OF order_refl] d15, folded us1_def]
  have X: "val us1 (uo + 0) (n + Suc m) = U * 2 ^ d" using su(1) U by (simp add: add.commute del: val.simps)
  have p1: "digits_ok us1 (uo + 0) (n + Suc m)" using su(2) by (simp add: add.commute)
  have p2: "val us1 (uo + 0) n < val vs1 (Suc vo) n"
    using val_lt_val [of us1 uo "n - 1" vs1 "Suc vo"] digits_ok_sub [OF su(2), of uo n] su(3) sv(3) n1 by simp
  from div_loop_spec [OF l sv(2,3) p1 p2, of "4 - m" "clear_q (4 - m) qs", unfolded X sv(1)]
  obtain us2 qs2 where lp: "div_loop (Suc m) 0 n uo vo (4 - m) vs1 us1 (clear_q (4 - m) qs) = Ok (us2, qs2)"
    and q: "val qs2 (4 - m + 0) (Suc m) = U * 2 ^ d div (V * 2 ^ d)" "digits_ok qs2 (4 - m + 0) (Suc m)"
    "\<And>x. x < 4 - m + 0 \<Longrightarrow> qs2 x = clear_q (4 - m) qs x"
    and r: "val us2 (uo + 0 + Suc m) n = U * 2 ^ d mod (V * 2 ^ d)" "digits_ok us2 (uo + 0 + Suc m) n"
    "\<And>x. x < uo + 0 \<Longrightarrow> us2 x = us1 x" "\<And>x. uo + 0 \<le> x \<Longrightarrow> x < uo + 0 + Suc m \<Longrightarrow> us2 x = 0"
    by (elim exE conjE) (rule that, assumption+, blast+)
  have "Suc (3 - m) = 4 - m" using mn n(2) by simp
  with q have "digits_ok qs2 (Suc (3 - m)) (Suc m)" "\<And>x. x < Suc (3 - m) \<Longrightarrow> qs2 x = 0"
    "val qs2 (Suc (3 - m)) (Suc m) = U div V" by (simp_all add: clear_q_spec del: val.simps)
  with place_digits [of "3 - m" qs2 "Suc m"] mn n(2) have Q: "val qs2 1 4 = U div V" "digits_ok qs2 1 4"
    by (simp_all del: val.simps)
  define us3 where "us3 = (if 0 < d then unshift n (uo + m) d us2 else us2)"
  have "us2 (uo + m) = 0" "digits_ok us2 (Suc (uo + m)) n" "val us2 (Suc (uo + m)) n = (U mod V) * 2 ^ d"
    using r(1,2) r(4) [of "uo + m"] by (simp_all add: mult_mod_right mult.commute)
  note u3 = unshift_remainder [OF this d15, folded us3_def]
  have "us2 x = 0" if "x < uo + m" for x
    using that r(3) [of x] r(4) [of x] su(4) [of x] uz [of x] by (cases "uo \<le> x") simp_all
  then have "us3 x = 0" if "x < Suc (uo + m)" for x using that u3(3) [of x] u3(4) by (cases "x = uo + m") simp_all
  from place_digits [OF this u3(2) mn] u3(1) have R: "val us3 1 4 = U mod V" "digits_ok us3 1 4" by simp_all
  have "long_div n vo us vs qs = Ok (quad (COMBINE (qs2 1) (qs2 2)) (COMBINE (qs2 3) (qs2 4)),
      quad (COMBINE (us3 1) (us3 2)) (COMBINE (us3 3) (us3 4)))"
    by (simp only: long_div_def nu rbind.simps case_prod_conv Let_def Suc_eq_plus1 [symmetric] d(1)
        us1_def [symmetric] vs1_def [symmetric] lp us3_def [symmetric])
  then show ?thesis using quad_digits [OF Q(2)] quad_digits [OF R(2)] Q R unfolding U_def V_def by simp
qed

lemma div_digit:
  fixes X u t :: nat
  assumes "0 < t"
  shows "(X * 65536 + u) div t = X div t * 65536 + ((X mod t) * 65536 + u) div t"
    and "(X * 65536 + u) mod t = ((X mod t) * 65536 + u) mod t"
proof -
  have e: "X * 65536 + u = X div t * 65536 * t + ((X mod t) * 65536 + u)"
  proof -
    have "X * 65536 = (X div t * t + X mod t) * 65536" by (simp only: div_mult_mod_eq)
    also have "\<dots> = X div t * 65536 * t + X mod t * 65536" by (simp only: distrib_right ac_simps)
    finally show ?thesis by simp
  qed
  show "(X * 65536 + u) div t = X div t * 65536 + ((X mod t) * 65536 + u) div t"
    using assms by (subst e) simp
  show "(X * 65536 + u) mod t = ((X mod t) * 65536 + u) mod t" by (subst e) simp
qed


lemma short_div_spec:
  assumes us: "digits_ok us 1 4" and t: "0 < unat t" "unat t < 65536"
  shows "\<exists>Q R. short_div us t = (Q, R) \<and> unat Q = val us 1 4 div unat t \<and> unat R = val us 1 4 mod unat t"
proof -
  have d: "unat (us 1) < 65536" "unat (us 2) < 65536" "unat (us 3) < 65536" "unat (us 4) < 65536"
    by (rule digits_okD [OF us], simp_all)+
  define r2 where "r2 = COMBINE (us 1 mod t) (us 2)"
  define r3 where "r3 = COMBINE (r2 mod t) (us 3)"
  define r4 where "r4 = COMBINE (r3 mod t) (us 4)"
  have md: "unat (x mod t) = unat x mod unat t" "unat (x div t) = unat x div unat t" "unat x mod unat t < 65536" for x
    using t mod_less_divisor [OF t(1), of "unat x"] by (simp_all add: unat_mod unat_div del: mod_less_divisor)
  have r: "unat r2 = unat (us 1) mod unat t * 65536 + unat (us 2)" "unat r3 = unat r2 mod unat t * 65536 + unat (us 3)"
    "unat r4 = unat r3 mod unat t * 65536 + unat (us 4)"
    unfolding r2_def r3_def r4_def by (subst unat_COMBINE; simp add: md d)+
  have lt: "(x mod unat t * 65536 + y) div unat t < 65536" if "y < 65536" for x y
  proof -
    have "x mod unat t + 1 \<le> unat t" using t by (simp add: Suc_leI)
    then have "(x mod unat t + 1) * 65536 \<le> unat t * 65536" by (rule mult_le_mono1)
    then have "x mod unat t * 65536 + y < unat t * 65536" using that by simp
    then show ?thesis by (simp add: less_mult_imp_div_less mult.commute)
  qed
  define ds where "ds = (\<lambda>_::nat. 0 :: u4)(1 := us 1 div t, 2 := r2 div t, 3 := r3 div t, 4 := r4 div t)"
  have ds: "ds 1 = us 1 div t" "ds 2 = r2 div t" "ds 3 = r3 div t" "ds 4 = r4 div t" by (simp_all add: ds_def)
  have "unat (ds 1) < 65536" unfolding ds md using d(1) by (rule le_less_trans [OF div_le_dividend])
  moreover have "unat (ds 2) < 65536" unfolding ds md r(1) by (rule lt [OF d(2)])
  moreover have "unat (ds 3) < 65536" unfolding ds md r(2) by (rule lt [OF d(3)])
  moreover have "unat (ds 4) < 65536" unfolding ds md r(3) by (rule lt [OF d(4)])
  moreover have "x \<in> {1, 2, 3, 4}" if "1 \<le> x" "x < 1 + 4" for x :: nat using that by auto
  ultimately have ok: "digits_ok ds 1 4" by (intro digits_okI) blast
  define X2 X3 where "X2 = unat (us 1) * 65536 + unat (us 2)" and "X3 = X2 * 65536 + unat (us 3)"
  have X: "val us 1 4 = X3 * 65536 + unat (us 4)" unfolding val4 X3_def X2_def by simp
  have m2: "unat r2 mod unat t = X2 mod unat t" unfolding r(1) X2_def by (rule div_digit(2) [OF t(1), symmetric])
  have m3: "unat r3 mod unat t = X3 mod unat t" unfolding r(2) m2 X3_def by (rule div_digit(2) [OF t(1), symmetric])
  have q2: "X2 div unat t = unat (ds 1) * 65536 + unat (ds 2)" 
    using div_digit(1) [OF t(1), of "unat (us 1)" "unat (us 2)"] unfolding X2_def ds md r(1) .
  have q3: "X3 div unat t = X2 div unat t * 65536 + unat (ds 3)" 
    using div_digit(1) [OF t(1), of X2 "unat (us 3)"] unfolding X3_def ds md r(2) m2 .
  have q4: "val us 1 4 div unat t = X3 div unat t * 65536 + unat (ds 4)" 
    using div_digit(1) [OF t(1), of X3 "unat (us 4)"] unfolding X ds md r(3) m3 .
  have "val us 1 4 div unat t = val ds 1 4" unfolding q4 q3 q2 val4 [of ds] by simp
  moreover have "unat (ucast (r4 mod t) :: u8) = val us 1 4 mod unat t"
  proof -
    have "unat (ucast (r4 mod t) :: u8) = unat (r4 mod t)"
      by (simp only: unsigned_ucast_eq) (simp add: take_bit_nat_eq_self less_le_trans [OF unsigned_less [where ?'a = nat]])
    then show ?thesis using div_digit(2) [OF t(1), of X3 "unat (us 4)"] unfolding X md r(3) m3 by simp
  qed
  moreover have "short_div us t = (quad (COMBINE (ds 1) (ds 2)) (COMBINE (ds 3) (ds 4)), ucast (r4 mod t))"
    unfolding ds short_div_def Let_def r2_def [symmetric] r3_def [symmetric] r4_def [symmetric] ..
  ultimately show ?thesis using quad_digits [OF ok] by simp
qed

lemma qdivrem_spec:
  assumes "vq \<noteq> 0"
  shows "qdivrem junk uq vq = Ok (uq div vq, uq mod vq)"
proof (cases "uq < vq")
  case True
  then have "uq div vq = 0" "uq mod vq = uq" by (simp_all add: word_unat_eq_iff unat_div unat_mod word_less_nat_alt)
  then show ?thesis using True assms by (simp add: qdivrem_def)
next
  case False
  define us vs where "us = split_quad uq (junk(0 := 0))" and "vs = split_quad vq junk"
  have u: "val us 1 4 = unat uq" "digits_ok us 1 4" and v: "val vs 1 4 = unat vq" "digits_ok vs 1 4"
    unfolding us_def vs_def by (rule split_quad_val, rule split_quad_ok)+
  have u0: "us 0 = 0" by (simp add: us_def split_quad_def)
  have le: "unat vq \<le> unat uq" using False by (simp add: word_less_nat_alt)
  have "\<exists>Q R. qdivrem junk uq vq = Ok (Q, R) \<and> unat Q = unat uq div unat vq \<and> unat R = unat uq mod unat vq"
  proof (cases "norm_v vs 4 0")
    case (Inl vo)
    from norm_v_spec(1) [OF this] have z: "vo = 2" "vs 1 = 0" "vs 2 = 0" "vs 3 = 0" by blast+
    have t: "unat (vs 4) = unat vq" using v(1) z unfolding val4 by simp
    have "unat (vs 4) < 65536" using v(2) by (rule digits_okD) simp_all
    moreover have "0 < unat (vs 4)" using assms unfolding t by (simp add: unat_gt_0)
    ultimately obtain Q R where "short_div us (vs 4) = (Q, R)" "unat Q = unat uq div unat vq" "unat R = unat uq mod unat vq"
      using short_div_spec [OF u(2), of "vs 4"] unfolding u(1) t by blast
    then show ?thesis using Inl z False assms
      by (simp add: qdivrem_def us_def [symmetric] vs_def [symmetric] Let_def)
  next
    case (Inr nv)
    obtain n vo where nv: "nv = (n, vo)" by fastforce
    from norm_v_spec(2) [OF Inr [unfolded nv]] have n: "n + vo = 4" "2 \<le> n" "vs (Suc vo) \<noteq> 0"
      "\<And>x. 1 \<le> x \<Longrightarrow> x \<le> vo \<Longrightarrow> vs x = 0" by blast+
    have "digits_ok us 0 5"
      by (rule digits_okI) (use u0 digits_okD [OF u(2)] in \<open>metis One_nat_def add.commute add_0 le_0_eq le_less_Suc_eq not_less_eq_eq numeral_nat(3) unsigned_0 zero_less_numeral plus_1_eq_Suc semiring_norm(5) Suc_numeral\<close>)
    from long_div_spec [OF this u0 v(2) n] show ?thesis
      using le False assms Inr nv unfolding qdivrem_def u(1) v(1)
      by (simp add: us_def [symmetric] vs_def [symmetric] Let_def)
  qed
  then show ?thesis by (auto simp: word_unat_eq_iff unat_div unat_mod)
qed

subsection \<open>Signed division\<close>

lemma magnitude:
  fixes x :: u8
  shows "uint (if sint x < 0 then - x else x) = \<bar>sint x\<bar>"
proof -
  have r: "- (2 ^ 63) \<le> sint x" "sint x < 2 ^ 63" using sint_ge [of x] sint_lt [of x] by simp_all
  have "uint (word_of_int k :: u8) = k" if "0 \<le> k" "k < 2 ^ 64" for k
    using that by (simp add: uint_word_of_int take_bit_int_eq_self)
  from this [of "- sint x"] this [of "sint x"] r show ?thesis by (cases "sint x < 0") (simp_all flip: wi_hom_neg)
qed

lemma quotient_of_magnitudes:
  fixes a b :: u8
  defines "ua \<equiv> if sint a < 0 then - a else a" and "ub \<equiv> if sint b < 0 then - b else b"
  shows "ua div ub = word_of_int (\<bar>sint a\<bar> div \<bar>sint b\<bar>)" "ua mod ub = word_of_int (\<bar>sint a\<bar> mod \<bar>sint b\<bar>)"
  unfolding magnitude [symmetric] ua_def [symmetric] ub_def [symmetric] by (simp_all add: word_div_def word_mod_def)

lemma sdiv_smod_cases:
  fixes x y :: int
  assumes "y \<noteq> 0"
  shows "x sdiv y = (if (x < 0) \<noteq> (y < 0) then - (\<bar>x\<bar> div \<bar>y\<bar>) else \<bar>x\<bar> div \<bar>y\<bar>)"
    and "(if y < 0 then - 1 else 1) * (x smod y) = (if (x < 0) \<noteq> (y < 0) then - (\<bar>x\<bar> mod \<bar>y\<bar>) else \<bar>x\<bar> mod \<bar>y\<bar>)"
proof -
  show "x sdiv y = (if (x < 0) \<noteq> (y < 0) then - (\<bar>x\<bar> div \<bar>y\<bar>) else \<bar>x\<bar> div \<bar>y\<bar>)"
    using assms unfolding signed_divide_int_def by (cases x "0::int" rule: linorder_cases) (simp_all add: sgn_if)
  show "(if y < 0 then - 1 else 1) * (x smod y) = (if (x < 0) \<noteq> (y < 0) then - (\<bar>x\<bar> mod \<bar>y\<bar>) else \<bar>x\<bar> mod \<bar>y\<bar>)"
    unfolding signed_modulo_int_def by (cases x "0::int" rule: linorder_cases) (simp_all add: sgn_if)
qed

lemma signed_division_spec:
  assumes "b \<noteq> 0"
  shows "divdi3 junk a b = Ok (word_of_int (sint a sdiv sint b))"
    and "moddi3 junk a b = Ok (word_of_int ((if sint b < 0 then - 1 else 1) * (sint a smod sint b)))"
proof -
  define ua ub where "ua = (if sint a < 0 then - a else a)" and "ub = (if sint b < 0 then - b else b)"
  have ub: "ub \<noteq> 0" using assms by (simp add: ub_def)
  have b: "sint b \<noteq> 0" using assms by (metis signed_0 signed_word_eqI)
  note q = qdivrem_spec [OF ub, of junk ua]
  note m = quotient_of_magnitudes [of a b, folded ua_def, folded ub_def]
  have "divdi3 junk a b = Ok (if (sint a < 0) \<noteq> (sint b < 0) then - (ua div ub) else ua div ub)"
    using q unfolding divdi3_def ua_def ub_def by (cases "sint a < 0"; cases "sint b < 0") (simp_all add: Let_def)
  also have "\<dots> = Ok (word_of_int (sint a sdiv sint b))"
    unfolding m sdiv_smod_cases(1) [OF b] by (simp only: if_distrib [of word_of_int] wi_hom_neg)
  finally show "divdi3 junk a b = Ok (word_of_int (sint a sdiv sint b))" .
  have "moddi3 junk a b = Ok (if (sint a < 0) \<noteq> (sint b < 0) then - (ua mod ub) else ua mod ub)"
    using q unfolding moddi3_def ua_def ub_def by (cases "sint a < 0"; cases "sint b < 0") (simp_all add: Let_def)
  also have "\<dots> = Ok (word_of_int ((if sint b < 0 then - 1 else 1) * (sint a smod sint b)))"
    unfolding m sdiv_smod_cases(2) [OF b] by (simp only: if_distrib [of word_of_int] wi_hom_neg)
  finally show "moddi3 junk a b = Ok (word_of_int ((if sint b < 0 then - 1 else 1) * (sint a smod sint b)))" .
qed

text \<open>C8: \<^verbatim>\<open>__qdivrem\<close>, multiple-precision division with a digit estimate from the leading digits, a correction
  loop, a multiply-and-subtract pass and a rare add-back, computes the quotient and the remainder of every
  pair of 64 bit numbers, whatever the uninitialised parts of its arrays hold; it always terminates, and a
  zero divisor raises the divide exception.\<close>

theorem qdivrem_correct:
  "qdivrem junk uq vq = (if vq = 0 then Fault (AssertFail ''divide error'') else Ok (uq div vq, uq mod vq))"
  using qdivrem_spec [of vq junk uq] by (simp add: qdivrem_def)

text \<open>C37: for every divisor but 0 \<^verbatim>\<open>__divdi3\<close> returns the truncating quotient of C.  \<^verbatim>\<open>__moddi3\<close> toggles the sign
  for a negative divisor as the quotient does, so it returns the remainder of C for positive divisors and
  the negated remainder for negative ones: 7 % -2 gives -1.\<close>

theorem signed_division:
  "divdi3 junk a b = (if b = 0 then Fault (AssertFail ''divide error'') else Ok (word_of_int (sint a sdiv sint b)))
   \<and> moddi3 junk a b = (if b = 0 then Fault (AssertFail ''divide error'')
        else Ok (word_of_int ((if sint b < 0 then - 1 else 1) * (sint a smod sint b))))"
proof (cases "b = 0")
  case True
  then show ?thesis by (simp add: divdi3_def moddi3_def qdivrem_def Let_def)
next
  case False
  then show ?thesis using signed_division_spec by simp
qed

end
