(* ===== verification/Class_Types.thy ===== *)
theory Class_Types
  imports JX_Prelude
begin

section \<open>Type checks of the virtual machine (core/vmsupport.c)\<close>

text \<open>
  \<^verbatim>\<open>instanceof\<close>, \<^verbatim>\<open>checkcast\<close> and the type test of array copies ask \<^verbatim>\<open>check_assign\<close> whether a reference of one
  class may be stored in a variable of another.  Class descriptors are the values of a function from
  descriptor addresses (\<open>cls\<close>); \<open>java_lang_Object\<close> is an argument.  The walks over superclasses and
  interfaces take fuel; on a hierarchy without cycles all large enough fuels agree (\<open>settles\<close>).  The
  tests for stack space (\<^verbatim>\<open>CHECK_STACK_SIZE\<close>) are not modelled: the checks are studied on a large enough
  stack.  The reference is the relation \<open>assignable\<close>, the rule of the Java virtual machine specification.
\<close>

subsection \<open>Classes\<close>

type_synonym cls = nat

record ClassDesc =
  classType :: u4
  cname :: string
  superclass :: "cls option"
  interfaces :: "cls list"
  elementClass :: cls

type_synonym classes = "cls \<Rightarrow> ClassDesc"

definition CLASSTYPE_INTERFACE :: u4 where "CLASSTYPE_INTERFACE = 0x03"

definition isArrayClass :: "classes \<Rightarrow> cls \<Rightarrow> bool" where
  "isArrayClass C c = (case cname (C c) of [] \<Rightarrow> False | x # _ \<Rightarrow> x = CHR ''['')"

definition get_element_class :: "classes \<Rightarrow> cls \<Rightarrow> cls" where
  "get_element_class C c = elementClass (C c)"

definition is_interface :: "classes \<Rightarrow> cls \<Rightarrow> bool" where
  "is_interface C c = (classType (C c) = CLASSTYPE_INTERFACE)"

subsection \<open>The walks\<close>

fun subclass_loop :: "nat \<Rightarrow> classes \<Rightarrow> cls \<Rightarrow> cls \<Rightarrow> bool res" where
  "subclass_loop 0 C subclass super = Fault OutOfFuel"
| "subclass_loop (Suc n) C subclass super = (case superclass (C subclass) of
       None \<Rightarrow> Ok False
     | Some d \<Rightarrow> if d = super then Ok True else subclass_loop n C d super)"

definition is_subclass_of :: "nat \<Rightarrow> classes \<Rightarrow> cls \<Rightarrow> cls \<Rightarrow> bool res" where
  "is_subclass_of n C subclass super =
     (if subclass = super then Ok True else subclass_loop n C subclass super)"

text \<open>\<^verbatim>\<open>is_subinterface_of\<close> and \<^verbatim>\<open>implements_interface\<close> call each other; \<open>subif_loop\<close> is the \<^verbatim>\<open>while\<close> of the first,
  \<open>interfaces_loop\<close> the \<^verbatim>\<open>for\<close> of the second.\<close>

fun is_subinterface_of :: "nat \<Rightarrow> classes \<Rightarrow> cls \<Rightarrow> cls \<Rightarrow> bool res"
  and subif_loop :: "nat \<Rightarrow> classes \<Rightarrow> cls \<Rightarrow> cls \<Rightarrow> bool res"
  and implements_interface :: "nat \<Rightarrow> classes \<Rightarrow> cls \<Rightarrow> cls \<Rightarrow> bool res"
  and interfaces_loop :: "nat \<Rightarrow> classes \<Rightarrow> cls list \<Rightarrow> cls \<Rightarrow> bool res" where
  "is_subinterface_of 0 C subif superif = Fault OutOfFuel"
| "is_subinterface_of (Suc n) C subif superif =
     (if subif = superif then Ok True else subif_loop n C subif superif)"
| "subif_loop 0 C subif superif = Fault OutOfFuel"
| "subif_loop (Suc n) C subif superif = (case superclass (C subif) of
       None \<Rightarrow> Ok False
     | Some d \<Rightarrow> if d = superif then Ok True
         else rbind (implements_interface n C d superif) (\<lambda>b.
           if b then Ok True else subif_loop n C d superif))"
| "implements_interface 0 C c ifa = Fault OutOfFuel"
| "implements_interface (Suc n) C c ifa = rbind (is_subinterface_of n C c ifa) (\<lambda>b.
     if b then Ok True else interfaces_loop n C (interfaces (C c)) ifa)"
| "interfaces_loop 0 C is ifa = Fault OutOfFuel"
| "interfaces_loop (Suc n) C is ifa = (case is of
       [] \<Rightarrow> Ok False
     | i # is' \<Rightarrow> rbind (implements_interface n C i ifa) (\<lambda>b.
         if b then Ok True else rbind (is_subinterface_of n C i ifa) (\<lambda>b.
           if b then Ok True else interfaces_loop n C is' ifa)))"

fun check_assign :: "nat \<Rightarrow> classes \<Rightarrow> cls \<Rightarrow> cls \<Rightarrow> cls \<Rightarrow> bool res" where
  "check_assign 0 C java_lang_Object variable_class reference_class = Fault OutOfFuel"
| "check_assign (Suc n) C java_lang_Object variable_class reference_class =
     (if variable_class = reference_class then Ok True
      else if isArrayClass C reference_class then
        if variable_class = java_lang_Object then Ok True
        else if \<not> isArrayClass C variable_class then Ok False
        else check_assign n C java_lang_Object (get_element_class C variable_class) (get_element_class C reference_class)
      else rbind (is_subclass_of n C reference_class variable_class) (\<lambda>b.
        if b then Ok True
        else if is_interface C variable_class then implements_interface n C reference_class variable_class
        else Ok False))"

text \<open>An object is represented by the class its vtable names; \<open>None\<close> is the null reference.\<close>

definition vm_instanceof :: "nat \<Rightarrow> classes \<Rightarrow> cls \<Rightarrow> cls option \<Rightarrow> cls \<Rightarrow> bool res" where
  "vm_instanceof n C java_lang_Object obj c = (case obj of
       None \<Rightarrow> Ok True
     | Some oclass \<Rightarrow> if oclass = c then Ok True else check_assign n C java_lang_Object c oclass)"

definition vm_checkcast :: "nat \<Rightarrow> classes \<Rightarrow> cls \<Rightarrow> cls option \<Rightarrow> cls \<Rightarrow> unit res" where
  "vm_checkcast n C java_lang_Object obj c = (case obj of
       None \<Rightarrow> Ok ()
     | Some oclass \<Rightarrow> rbind (check_assign n C java_lang_Object c oclass) (\<lambda>b.
         if b then Ok () else Fault (JavaThrow ''java/lang/ClassCastException'')))"

subsection \<open>The reference relation\<close>

text \<open>\<open>parent C c d\<close>: \<open>d\<close> is the superclass or a direct interface of \<open>c\<close>.\<close>

definition super1 :: "classes \<Rightarrow> cls \<Rightarrow> cls \<Rightarrow> bool" where
  "super1 C c d \<longleftrightarrow> superclass (C c) = Some d"

definition parent :: "classes \<Rightarrow> cls \<Rightarrow> cls \<Rightarrow> bool" where
  "parent C c d \<longleftrightarrow> superclass (C c) = Some d \<or> d \<in> set (interfaces (C c))"

text \<open>The rule that the Java virtual machine specification gives for \<^verbatim>\<open>checkcast\<close>: a reference of a class may be used as one of its
  superclasses and as an interface that it, a superclass or a superinterface names; an array as \<open>obj\<close> (the class \<^verbatim>\<open>Object\<close>), as one of the
  interfaces \<open>AI\<close> that arrays implement (\<^verbatim>\<open>Cloneable\<close> and \<^verbatim>\<open>Serializable\<close> in Java), and as an array whose elements the rule allows.\<close>

inductive assignable :: "classes \<Rightarrow> cls \<Rightarrow> cls set \<Rightarrow> cls \<Rightarrow> cls \<Rightarrow> bool" for C :: classes and obj :: cls and AI :: "cls set" where
  same_class: "assignable C obj AI r r"
| by_superclass: "\<not> isArrayClass C r \<Longrightarrow> (super1 C)\<^sup>+\<^sup>+ r v \<Longrightarrow> assignable C obj AI r v"
| by_interface: "\<not> isArrayClass C r \<Longrightarrow> is_interface C v \<Longrightarrow> (parent C)\<^sup>+\<^sup>+ r v \<Longrightarrow> assignable C obj AI r v"
| by_object: "isArrayClass C r \<Longrightarrow> assignable C obj AI r obj"
| by_array_interface: "isArrayClass C r \<Longrightarrow> v \<in> AI \<Longrightarrow> assignable C obj AI r v"
| by_element: "isArrayClass C r \<Longrightarrow> isArrayClass C v \<Longrightarrow>
    assignable C obj AI (get_element_class C r) (get_element_class C v) \<Longrightarrow> assignable C obj AI r v"

text \<open>A class of \<open>AI\<close> or an array (of arrays) of one.\<close>

inductive array_interface :: "classes \<Rightarrow> cls set \<Rightarrow> cls \<Rightarrow> bool" for C :: classes and AI :: "cls set" where
  ai_base: "v \<in> AI \<Longrightarrow> array_interface C AI v"
| ai_array: "isArrayClass C v \<Longrightarrow> array_interface C AI (get_element_class C v) \<Longrightarrow> array_interface C AI v"

inductive_cases assignableE: "assignable C obj AI r v"

text \<open>A hierarchy without cycles: \<open>rank\<close> decreases along every link.\<close>

definition acyclic_classes :: "(cls \<Rightarrow> nat) \<Rightarrow> classes \<Rightarrow> bool" where
  "acyclic_classes rank C \<longleftrightarrow> (\<forall>c d. parent C c d \<longrightarrow> rank d < rank c)
     \<and> (\<forall>c. isArrayClass C c \<longrightarrow> rank (get_element_class C c) < rank c)"

text \<open>What the loader builds from a Java program: classes do not extend array classes, the superclass of an
  interface is \<open>Object\<close>, every class with a parent descends from \<open>Object\<close>, and \<open>Object\<close> has no parent.\<close>

definition java_classes :: "classes \<Rightarrow> cls \<Rightarrow> bool" where
  "java_classes C obj \<longleftrightarrow>
     (\<forall>c d. parent C c d \<longrightarrow> \<not> isArrayClass C d)
     \<and> (\<forall>c d. is_interface C c \<longrightarrow> superclass (C c) = Some d \<longrightarrow> d = obj)
     \<and> (\<forall>c d. parent C c d \<longrightarrow> \<not> isArrayClass C c \<longrightarrow> (super1 C)\<^sup>+\<^sup>+ c obj)
     \<and> (\<forall>d. \<not> parent C obj d) \<and> \<not> isArrayClass C obj"

subsection \<open>Results for all large enough fuels\<close>

definition settles :: "(nat \<Rightarrow> 'a res) \<Rightarrow> 'a \<Rightarrow> bool" where
  "settles f x \<longleftrightarrow> (\<exists>N. \<forall>n\<ge>N. f n = Ok x)"

named_theorems settling \<open>rules for results that large enough fuels agree on\<close>

lemma settles_const [settling]: "settles (\<lambda>n. Ok x) x"
  by (simp add: settles_def)

lemma settles_bind [settling]:
  assumes "settles f x" "settles (g x) y"
  shows "settles (\<lambda>n. rbind (f n) (\<lambda>x. g x n)) y"
proof -
  obtain N M where "\<forall>n\<ge>N. f n = Ok x" "\<forall>n\<ge>M. g x n = Ok y" using assms by (auto simp: settles_def)
  then show ?thesis unfolding settles_def by (intro exI [of _ "max N M"]) simp
qed

lemma settles_if [settling]:
  "settles f x \<Longrightarrow> settles g y \<Longrightarrow> settles (\<lambda>n. if b then f n else g n) (if b then x else y)"
  by simp

lemma settles_Suc:
  assumes "settles (\<lambda>n. f (Suc n)) x"
  shows "settles f x"
proof -
  obtain N where "\<forall>n\<ge>N. f (Suc n) = Ok x" using assms by (auto simp: settles_def)
  then have "\<forall>n\<ge>Suc N. f n = Ok x" by (metis Suc_le_D Suc_le_mono)
  then show ?thesis unfolding settles_def by blast
qed

text \<open>A disjunction evaluated with an early exit.\<close>

lemma settles_or:
  assumes "settles f a" "settles g b"
  shows "settles (\<lambda>n. rbind (f n) (\<lambda>x. if x then Ok True else g n)) (a \<or> b)"
  using settles_bind [OF assms(1), of "\<lambda>x n. if x then Ok True else g n" "a \<or> b"] assms(2) settles_const [of True]
  by (cases a) simp_all

subsection \<open>The walks settle\<close>

lemma parent_intros: "superclass (C c) = Some d \<Longrightarrow> parent C c d" "d \<in> set (interfaces (C c)) \<Longrightarrow> parent C c d"
  by (simp_all add: parent_def)

lemma rtranclp_or: "R\<^sup>*\<^sup>* x y \<longleftrightarrow> x = y \<or> R\<^sup>+\<^sup>+ x y"
  by (metis rtranclpD rtranclp.rtrancl_refl tranclp_into_rtranclp)

lemma rank_induct:
  assumes "acyclic_classes rank C" "\<And>c. (\<And>d. parent C c d \<Longrightarrow> P d) \<Longrightarrow> P c"
  shows "P c"
proof (induction "rank c" arbitrary: c rule: less_induct)
  case less
  then show ?case using assms unfolding acyclic_classes_def by blast
qed

lemma subclass_loop_settles:
  assumes "acyclic_classes rank C"
  shows "settles (\<lambda>n. subclass_loop n C c s) ((super1 C)\<^sup>+\<^sup>+ c s)"
proof (induction c rule: rank_induct [OF assms])
  case (1 c)
  show ?case
  proof (rule settles_Suc, cases "superclass (C c)")
    case None
    then have "\<not> (super1 C)\<^sup>+\<^sup>+ c s" by (auto dest: tranclpD simp: super1_def)
    then show "settles (\<lambda>n. subclass_loop (Suc n) C c s) ((super1 C)\<^sup>+\<^sup>+ c s)" using None settles_const by simp
  next
    case (Some d)
    then have "(super1 C)\<^sup>+\<^sup>+ c s \<longleftrightarrow> d = s \<or> (super1 C)\<^sup>+\<^sup>+ d s"
      by (metis (no_types, lifting) option.inject rtranclpD super1_def tranclp.r_into_trancl tranclpD tranclp_into_tranclp2)
    moreover have "settles (\<lambda>n. subclass_loop n C d s) ((super1 C)\<^sup>+\<^sup>+ d s)" using 1 Some by (blast intro: parent_intros)
    ultimately show "settles (\<lambda>n. subclass_loop (Suc n) C c s) ((super1 C)\<^sup>+\<^sup>+ c s)"
      using Some settles_const [of True] by (cases "d = s") simp_all
  qed
qed

lemma is_subclass_of_settles:
  "acyclic_classes rank C \<Longrightarrow> settles (\<lambda>n. is_subclass_of n C c s) ((super1 C)\<^sup>*\<^sup>* c s)"
  using subclass_loop_settles [of rank C c s] settles_const [of True] rtranclp_or [of "super1 C" c s]
  unfolding is_subclass_of_def by (cases "c = s") simp_all

lemma rtranclp_parent:
  "(parent C)\<^sup>*\<^sup>* c t \<longleftrightarrow> c = t \<or> (\<exists>d. superclass (C c) = Some d \<and> (parent C)\<^sup>*\<^sup>* d t)
     \<or> (\<exists>i\<in>set (interfaces (C c)). (parent C)\<^sup>*\<^sup>* i t)"
proof
  assume "(parent C)\<^sup>*\<^sup>* c t"
  then show "c = t \<or> (\<exists>d. superclass (C c) = Some d \<and> (parent C)\<^sup>*\<^sup>* d t) \<or> (\<exists>i\<in>set (interfaces (C c)). (parent C)\<^sup>*\<^sup>* i t)"
    by (cases rule: converse_rtranclpE) (auto simp: parent_def [of C c])
qed (blast intro: parent_intros converse_rtranclp_into_rtranclp)

lemma implements_settles:
  assumes "acyclic_classes rank C"
  shows "settles (\<lambda>n. implements_interface n C c t) ((parent C)\<^sup>*\<^sup>* c t)
    \<and> settles (\<lambda>n. subif_loop n C c t) (\<exists>d. superclass (C c) = Some d \<and> (parent C)\<^sup>*\<^sup>* d t)"
proof (induction c rule: rank_induct [OF assms])
  case (1 c)
  let ?P = "\<lambda>c. (parent C)\<^sup>*\<^sup>* c t"
  let ?S = "\<lambda>c. \<exists>d. superclass (C c) = Some d \<and> ?P d"
  have up: "?P c" if "?S c" for c using that by (blast intro: parent_intros converse_rtranclp_into_rtranclp)
  have subif: "settles (\<lambda>n. subif_loop n C c t) (?S c)"
  proof (rule settles_Suc, cases "superclass (C c)")
    case (Some d)
    then have IH: "settles (\<lambda>n. implements_interface n C d t) (?P d)" "settles (\<lambda>n. subif_loop n C d t) (?S d)"
      using 1 [OF parent_intros(1)] by blast+
    have "?S c \<longleftrightarrow> d = t \<or> ?P d \<or> ?S d" using up [of d] Some by auto
    then show "settles (\<lambda>n. subif_loop (Suc n) C c t) (?S c)"
      using Some settles_or [OF IH] settles_const [of True] by (cases "d = t") simp_all
  qed (simp add: settles_const)
  have isub: "settles (\<lambda>n. is_subinterface_of n C i t) (i = t \<or> ?S i)" if "settles (\<lambda>n. subif_loop n C i t) (?S i)" for i
    by (rule settles_Suc) (use that settles_const [of True] in \<open>cases "i = t"; simp\<close>)
  have ifs: "settles (\<lambda>n. interfaces_loop n C is t) (\<exists>i\<in>set is. ?P i)" if "set is \<subseteq> set (interfaces (C c))" for "is"
    using that
  proof (induction "is")
    case Nil
    show ?case by (rule settles_Suc) (simp add: settles_const)
  next
    case (Cons i "is")
    then have IH: "settles (\<lambda>n. implements_interface n C i t) (?P i)" "settles (\<lambda>n. subif_loop n C i t) (?S i)"
      using 1 [OF parent_intros(2), of i] Cons.prems by auto
    have "(\<exists>j\<in>set (i # is). ?P j) \<longleftrightarrow> ?P i \<or> (i = t \<or> ?S i) \<or> (\<exists>j\<in>set is. ?P j)" using up [of i] by auto
    then show ?case
      using settles_Suc settles_or [OF IH(1) settles_or [OF isub [OF IH(2)]]] Cons by (simp add: settles_Suc)
  qed
  have "?P c \<longleftrightarrow> (c = t \<or> ?S c) \<or> (\<exists>i\<in>set (interfaces (C c)). ?P i)"
    unfolding rtranclp_parent [of C c] by blast
  then have "settles (\<lambda>n. implements_interface n C c t) (?P c)"
    using settles_or [OF isub [OF subif] ifs [OF order_refl]] by (simp add: settles_Suc)
  then show ?case using subif by blast
qed

lemma assignable_array:
  "isArrayClass C r \<Longrightarrow> v \<noteq> r \<Longrightarrow> assignable C obj {} r v \<longleftrightarrow>
     v = obj \<or> isArrayClass C v \<and> assignable C obj {} (get_element_class C r) (get_element_class C v)"
  by (auto elim: assignableE intro: assignable.intros)

lemma assignable_class:
  "\<not> isArrayClass C r \<Longrightarrow> v \<noteq> r \<Longrightarrow> assignable C obj AI r v \<longleftrightarrow>
     (super1 C)\<^sup>+\<^sup>+ r v \<or> is_interface C v \<and> (parent C)\<^sup>+\<^sup>+ r v"
  by (auto elim: assignableE intro: assignable.intros)

lemma assignable_mono: "assignable C obj AI r v \<Longrightarrow> AI \<subseteq> BI \<Longrightarrow> assignable C obj BI r v"
  by (induction rule: assignable.induct) (auto intro: assignable.intros)

lemma assignable_without: "assignable C obj AI r v \<Longrightarrow> \<not> array_interface C AI v \<Longrightarrow> assignable C obj {} r v"
  by (induction rule: assignable.induct) (auto intro: assignable.intros array_interface.intros)

lemma check_assign_settles:
  assumes a: "acyclic_classes rank C"
  shows "settles (\<lambda>n. check_assign n C obj v r) (assignable C obj {} r v)"
proof (induction "rank r" arbitrary: r v rule: less_induct)
  case less
  show ?case
  proof (rule settles_Suc, cases "v = r")
    case True
    then show "settles (\<lambda>n. check_assign (Suc n) C obj v r) (assignable C obj {} r v)"
      using settles_const [of True] by (simp add: assignable.same_class)
  next
    case ne: False
    show "settles (\<lambda>n. check_assign (Suc n) C obj v r) (assignable C obj {} r v)"
    proof (cases "isArrayClass C r")
      case True
      then have "settles (\<lambda>n. check_assign n C obj (get_element_class C v) (get_element_class C r))
          (assignable C obj {} (get_element_class C r) (get_element_class C v))"
        using less a by (simp add: acyclic_classes_def)
      then show ?thesis using True ne assignable_array [OF True ne]
        by (cases "v = obj"; cases "isArrayClass C v") (simp_all add: settles_const)
    next
      case False
      have s: "settles (\<lambda>n. is_subclass_of n C r v) ((super1 C)\<^sup>+\<^sup>+ r v)"
        using is_subclass_of_settles [OF a, of r v] ne by (simp add: rtranclp_or)
      have "settles (\<lambda>n. implements_interface n C r v) ((parent C)\<^sup>+\<^sup>+ r v)"
        using implements_settles [OF a, of r v] ne by (simp add: rtranclp_or)
      then have "settles (\<lambda>n. if is_interface C v then implements_interface n C r v else Ok False)
          (is_interface C v \<and> (parent C)\<^sup>+\<^sup>+ r v)"
        using settles_const [of False] by (cases "is_interface C v") simp_all
      from settles_or [OF s this] show ?thesis using False ne by (simp add: assignable_class)
    qed
  qed
qed

lemma settles_unique: "settles f x \<Longrightarrow> settles f y \<Longrightarrow> x = y"
  unfolding settles_def by (metis le_refl linorder_le_cases res.inject(1))

subsection \<open>Assignability is transitive\<close>

lemma super1_parent: "(super1 C)\<^sup>+\<^sup>+ c d \<Longrightarrow> (parent C)\<^sup>+\<^sup>+ c d"
  by (induction rule: tranclp_induct) (auto simp: super1_def intro: parent_intros tranclp.intros)

lemma parents_not_array: "java_classes C obj \<Longrightarrow> (parent C)\<^sup>+\<^sup>+ c d \<Longrightarrow> \<not> isArrayClass C d"
  by (auto simp: java_classes_def dest: tranclpD elim: tranclp.cases)

lemma above_object: "java_classes C obj \<Longrightarrow> \<not> (parent C)\<^sup>+\<^sup>+ obj d"
  by (auto simp: java_classes_def dest: tranclpD)

lemma above_interface:
  assumes "java_classes C obj" "is_interface C c" "(super1 C)\<^sup>+\<^sup>+ c d"
  shows "d = obj"
proof -
  obtain e where e: "super1 C c e" "(super1 C)\<^sup>*\<^sup>* e d" using assms(3) by (blast dest: tranclpD)
  then have "e = obj" using assms(1,2) by (auto simp: java_classes_def super1_def)
  then show ?thesis using e(2) above_object [OF assms(1)] super1_parent by (auto simp: rtranclp_or)
qed

lemma assignable_trans:
  assumes j: "java_classes C obj"
  shows "assignable C obj {} a b \<Longrightarrow> assignable C obj {} b c \<Longrightarrow> assignable C obj {} a c"
proof (induction arbitrary: c rule: assignable.induct)
  case (by_superclass r v)
  have nv: "\<not> isArrayClass C v" using parents_not_array [OF j super1_parent] by_superclass by blast
  from by_superclass.prems nv by_superclass.hyps show ?case
    by cases (meson assignable.intros tranclp_trans super1_parent)+
next
  case (by_interface r v)
  have nv: "\<not> isArrayClass C v" using parents_not_array [OF j] by_interface by blast
  obtain d where "parent C r d" using by_interface.hyps(3) by (blast dest: tranclpD)
  then have "(super1 C)\<^sup>+\<^sup>+ r obj" using j by_interface.hyps(1) unfolding java_classes_def by blast
  with by_interface.prems nv by_interface.hyps show ?case
  proof cases
    case by_superclass
    then have "c = obj" using above_interface [OF j by_interface.hyps(2)] by blast
    then show ?thesis using \<open>(super1 C)\<^sup>+\<^sup>+ r obj\<close> by_interface.hyps(1) by (blast intro: assignable.intros)
  qed (use by_interface.hyps in \<open>auto intro: assignable.intros tranclp_trans\<close>)
next
  case (by_object r)
  from by_object.prems above_object [OF j] super1_parent [of C obj] j by_object.hyps show ?case
    by cases (auto intro: assignable.intros simp: java_classes_def)
next
  case (by_element r v)
  from by_element.prems by_element show ?case by cases (auto intro: assignable.intros)
qed simp_all


subsection \<open>Properties\<close>

text \<open>\<open>demo_classes\<close>: \<open>Object\<close>, an interface, a class that implements it, its subclass, and the array classes
  of the last two and of the interface.\<close>

definition demo_classes :: classes where
  "demo_classes c =
     (if c = 1 then \<lparr>classType = 3, cname = ''I'', superclass = Some 0, interfaces = [], elementClass = 0\<rparr>
      else if c = 2 then \<lparr>classType = 1, cname = ''A'', superclass = Some 0, interfaces = [1], elementClass = 0\<rparr>
      else if c = 3 then \<lparr>classType = 1, cname = ''B'', superclass = Some 2, interfaces = [], elementClass = 0\<rparr>
      else if c = 4 then \<lparr>classType = 4, cname = ''[LA;'', superclass = None, interfaces = [], elementClass = 2\<rparr>
      else if c = 5 then \<lparr>classType = 4, cname = ''[LB;'', superclass = None, interfaces = [], elementClass = 3\<rparr>
      else if c = 6 then \<lparr>classType = 4, cname = ''[LI;'', superclass = None, interfaces = [], elementClass = 1\<rparr>
      else \<lparr>classType = 1, cname = ''java/lang/Object'', superclass = None, interfaces = [], elementClass = 0\<rparr>)"

text \<open>C9: on a hierarchy without cycles \<^verbatim>\<open>check_assign\<close> always returns.  Its answer is the rule of the Java virtual machine
  specification for a machine whose arrays implement no interface: a class is assignable to its superclasses and to the
  interfaces it or a superclass implements or extends, an array to \<open>Object\<close> and to arrays of assignable elements.  Compared with Java,
  whose arrays implement the interfaces \<open>AI\<close>, it allows nothing that Java forbids, and it decides like Java unless the variable has one of
  these interfaces, or arrays of one, as its class.  On a hierarchy as the loader builds it (\<open>java_classes\<close>) the answers are moreover
  consistent along chains: when a reference of class \<open>r\<close> may be stored in a variable of class \<open>v\<close> and one of class \<open>v\<close> in a
  variable of class \<open>w\<close>, then \<^verbatim>\<open>vm_checkcast\<close> lets an object of class \<open>r\<close> pass as \<open>w\<close>.\<close>

theorem check_assign_correct:
  assumes "acyclic_classes rank C"
  shows "settles (\<lambda>n. check_assign n C obj v r) (assignable C obj {} r v)
    \<and> (assignable C obj {} r v \<longrightarrow> assignable C obj AI r v)
    \<and> (\<not> array_interface C AI v \<longrightarrow> settles (\<lambda>n. check_assign n C obj v r) (assignable C obj AI r v))
    \<and> (java_classes C obj \<and> settles (\<lambda>n. check_assign n C obj v r) True \<and> settles (\<lambda>n. check_assign n C obj w v) True \<longrightarrow>
         settles (\<lambda>n. vm_checkcast n C obj (Some r) w) ())"
proof (intro conjI impI)
  have s: "settles (\<lambda>n. check_assign n C obj a b) (assignable C obj {} b a)" for a b
    by (rule check_assign_settles [OF assms(1)])
  then show "settles (\<lambda>n. check_assign n C obj v r) (assignable C obj {} r v)" .
  show sound: "assignable C obj AI r v" if "assignable C obj {} r v" using assignable_mono [OF that] by simp
  show "settles (\<lambda>n. check_assign n C obj v r) (assignable C obj AI r v)" if "\<not> array_interface C AI v"
  proof -
    have "assignable C obj AI r v = assignable C obj {} r v" using sound assignable_without [OF _ that] by blast
    then show ?thesis using s by simp
  qed
  assume y: "java_classes C obj \<and> settles (\<lambda>n. check_assign n C obj v r) True \<and> settles (\<lambda>n. check_assign n C obj w v) True"
  then have "assignable C obj {} r v" "assignable C obj {} v w"
    using settles_unique [OF s [of v r]] settles_unique [OF s [of w v]] by blast+
  then have "assignable C obj {} r w" using assignable_trans y by blast
  with s [of w r] show "settles (\<lambda>n. vm_checkcast n C obj (Some r) w) ()"
    unfolding settles_def vm_checkcast_def by auto
qed

lemma rank_parents:
  assumes "(parent C)\<^sup>+\<^sup>+ c d" "acyclic_classes rank C"
  shows "rank d < rank c"
  using assms(1)
proof (induction rule: tranclp_induct)
  case (base y)
  then show ?case using assms(2) by (simp add: acyclic_classes_def)
next
  case (step y z)
  then have "rank z < rank y" using assms(2) by (simp add: acyclic_classes_def)
  then show ?case using step.IH by simp
qed

lemma demo_parent: "parent demo_classes c d \<longleftrightarrow> c = 1 \<and> d = 0 \<or> c = 2 \<and> (d = 0 \<or> d = 1) \<or> c = 3 \<and> d = 2"
  by (auto simp: parent_def demo_classes_def split: if_splits)

lemma demo_array: "isArrayClass demo_classes c \<longleftrightarrow> c = 4 \<or> c = 5 \<or> c = 6"
  by (simp add: isArrayClass_def demo_classes_def)

theorem check_assign_correct_witness:
  "assignable demo_classes 0 {} 5 6 \<and> (\<exists>N. \<forall>n\<ge>N. check_assign n demo_classes 0 6 5 = Ok True)
   \<and> (\<exists>N. \<forall>n\<ge>N. check_assign n demo_classes 0 5 4 = Ok False)
   \<and> assignable demo_classes 0 {1} 4 1 \<and> (\<exists>N. \<forall>n\<ge>N. check_assign n demo_classes 0 1 4 = Ok False)
   \<and> (\<exists>N. \<forall>n\<ge>N. vm_checkcast n demo_classes 0 (Some 3) 1 = Ok ())"
proof -
  define rank where "rank = (\<lambda>c::cls. if c = 0 then 0 else if c = 1 then 1 else if c = 2 then 2 else if c = 3 then 3 else 4::nat)"
  have s: "super1 demo_classes 1 0" "super1 demo_classes 2 0" "super1 demo_classes 3 2" by (simp_all add: super1_def demo_classes_def)
  then have s3: "(super1 demo_classes)\<^sup>+\<^sup>+ 3 0" by (meson tranclp.intros)
  have el: "get_element_class demo_classes 4 = 2" "get_element_class demo_classes 5 = 3" "get_element_class demo_classes 6 = 1"
    by (simp_all add: get_element_class_def demo_classes_def)
  have a: "acyclic_classes rank demo_classes"
    unfolding acyclic_classes_def demo_parent demo_array rank_def by (auto simp: get_element_class_def demo_classes_def)
  have j: "java_classes demo_classes 0"
    unfolding java_classes_def demo_parent demo_array
    using s s3 by (auto simp: is_interface_def CLASSTYPE_INTERFACE_def demo_classes_def)
  have "is_interface demo_classes 1" by (simp add: is_interface_def CLASSTYPE_INTERFACE_def demo_classes_def)
  moreover have "parent demo_classes 3 2" "parent demo_classes 2 1" by (simp_all add: demo_parent)
  then have "(parent demo_classes)\<^sup>+\<^sup>+ 3 1" by (meson tranclp.intros)
  ultimately have "assignable demo_classes 0 {} 3 1" by (auto intro!: assignable.by_interface simp: demo_array)
  then have 1: "assignable demo_classes 0 {} 5 6" by (auto intro!: assignable.by_element [of demo_classes 5 6] simp: el demo_array)
  have "\<not> (super1 demo_classes)\<^sup>+\<^sup>+ 2 3" 
  proof
    assume "(super1 demo_classes)\<^sup>+\<^sup>+ 2 3"
    then have "rank 3 < rank 2" by (rule rank_parents [OF super1_parent a])
    then show False by (simp add: rank_def)
  qed
  moreover have "\<not> is_interface demo_classes 3" by (simp add: is_interface_def CLASSTYPE_INTERFACE_def demo_classes_def)
  ultimately have "\<not> assignable demo_classes 0 {} 2 3" by (subst assignable_class) (simp_all add: demo_array)
  then have 2: "\<not> assignable demo_classes 0 {} 4 5"
    by (subst assignable_array) (simp_all add: el demo_array)
  have 3: "assignable demo_classes 0 {1} 4 1" "\<not> assignable demo_classes 0 {} 4 1"
    by (auto intro: assignable.by_array_interface simp: demo_array assignable_array)
  have 4: "assignable demo_classes 0 {} 3 2" "assignable demo_classes 0 {} 2 1"
    using s \<open>is_interface demo_classes 1\<close> \<open>parent demo_classes 2 1\<close> by (auto intro: assignable.intros simp: demo_array)
  have "settles (\<lambda>n. vm_checkcast n demo_classes 0 (Some 3) 1) ()"
    using check_assign_correct [OF a, where obj = 0 and v = 2 and r = 3 and w = 1]
      check_assign_correct [OF a, where obj = 0 and v = 1 and r = 2] j 4 by simp
  then show ?thesis
    using 1 2 3 check_assign_correct [OF a, where obj = 0 and v = 6 and r = 5] check_assign_correct [OF a, where obj = 0 and v = 5 and r = 4]
      check_assign_correct [OF a, where obj = 0 and v = 1 and r = 4]
    unfolding settles_def by simp
qed

end
