(* ===== verification/Array_Copy.thy ===== *)
theory Array_Copy
  imports Class_Types Block_Copy
begin

section \<open>Array operations of the virtual machine (core/vmsupport.c)\<close>

text \<open>
  Arrays have one 32 bit word per element (\<^verbatim>\<open>ALL_ARRAYS_32BIT\<close>).  A \<open>JArray\<close> is what the code reads of an
  array object: its class, its length and the address of its first element.  The element words are in the
  byte memory.  The copies disable interrupts while they run, so they are one step.  An exception thrown by
  \<^verbatim>\<open>exceptionHandler\<close> does not return.
\<close>

unbundle bit_operations_syntax

record JArray =
  arrayClass :: cls
  ar_size :: jint
  ar_data :: u4

subsection \<open>Operations\<close>

definition ar_out_of_bounds :: "'a res" where
  "ar_out_of_bounds = Fault (JavaThrow ''ArrayIndexOutOfBounds'')"

text \<open>\<^verbatim>\<open>ddata[--doff] = sdata[--soff];\<close>, \<open>count\<close> times.\<close>

fun copy_down :: "nat \<Rightarrow> u4 \<Rightarrow> u4 \<Rightarrow> u4 \<Rightarrow> u4 \<Rightarrow> memory \<Rightarrow> memory" where
  "copy_down 0 ddata doff sdata soff m = m"
| "copy_down (Suc n) ddata doff sdata soff m =
     copy_down n ddata (doff - 1) sdata (soff - 1)
       (write32 m (ddata + (doff - 1) * 4) (read32 m (sdata + (soff - 1) * 4)))"

text \<open>A class that is not an array class is accepted when its name is \<^verbatim>\<open><Array>\<close>.\<close>

definition array_class_ok :: "classes \<Rightarrow> cls \<Rightarrow> bool" where
  "array_class_ok C c \<longleftrightarrow> isArrayClass C c \<or> cname (C c) = ''<Array>''"

definition vm_arraycopy ::
  "nat \<Rightarrow> classes \<Rightarrow> cls \<Rightarrow> JArray option \<Rightarrow> u4 \<Rightarrow> JArray option \<Rightarrow> u4 \<Rightarrow> u4 \<Rightarrow> memory \<Rightarrow> memory res" where
  "vm_arraycopy n C java_lang_Object src soff dst doff count m =
     (case src of None \<Rightarrow> Fault (JavaThrow ''NullPointerException'') | Some src \<Rightarrow>
      case dst of None \<Rightarrow> Fault (JavaThrow ''NullPointerException'') | Some dst \<Rightarrow>
        if \<not> array_class_ok C (arrayClass src) then Fault (JavaThrow ''RuntimeException'')
        else if \<not> array_class_ok C (arrayClass dst) then Fault (JavaThrow ''RuntimeException'')
        else rbind (check_assign n C java_lang_Object (arrayClass dst) (arrayClass src)) (\<lambda>ok.
          if \<not> ok then Fault (JavaThrow ''RuntimeException'')
          else if doff + count > ar_size dst \<or> soff + count > ar_size src then ar_out_of_bounds
          else if ar_data src = ar_data dst \<and> doff > soff
          then Ok (copy_down (unat count) (ar_data dst) doff (ar_data src) soff m)
          else Ok (jxwordcpy (ar_data src + soff * 4) (ar_data dst + doff * 4) count m)))"

definition vm_arraycopy_right ::
  "nat \<Rightarrow> classes \<Rightarrow> cls \<Rightarrow> JArray option \<Rightarrow> u4 \<Rightarrow> JArray option \<Rightarrow> u4 \<Rightarrow> u4 \<Rightarrow> memory \<Rightarrow> memory res" where
  "vm_arraycopy_right n C java_lang_Object src soff dst doff count m =
     (case src of None \<Rightarrow> Fault (JavaThrow ''NullPointerException'') | Some src \<Rightarrow>
      case dst of None \<Rightarrow> Fault (JavaThrow ''NullPointerException'') | Some dst \<Rightarrow>
        rbind (check_assign n C java_lang_Object (arrayClass dst) (arrayClass src)) (\<lambda>ok.
          if \<not> ok then Fault (JavaThrow ''RuntimeException'')
          else if doff + count > ar_size dst \<or> soff + count > ar_size src then ar_out_of_bounds
          else Ok (jxwordcpy (ar_data src + soff * 4) (ar_data dst + doff * 4) count m)))"

definition vm_arraycopy_left ::
  "JArray option \<Rightarrow> u4 \<Rightarrow> JArray option \<Rightarrow> u4 \<Rightarrow> u4 \<Rightarrow> memory \<Rightarrow> memory res" where
  "vm_arraycopy_left src soff dst doff count m = Fault (JavaThrow ''RuntimeException'')"

text \<open>\<^verbatim>\<open>index < arr->size\<close> compares signed values.\<close>

definition vm_put_array_field32 :: "JArray \<Rightarrow> jint \<Rightarrow> jint \<Rightarrow> memory \<Rightarrow> memory res" where
  "vm_put_array_field32 arr index v m =
     (if sint index < sint (ar_size arr) then Ok (write32 m (ar_data arr + index * 4) v) else ar_out_of_bounds)"

subsection \<open>Elements\<close>

text \<open>Element \<open>i\<close> of an array whose elements start at \<open>p\<close>.\<close>

definition elem :: "memory \<Rightarrow> u4 \<Rightarrow> nat \<Rightarrow> u4" where
  "elem m p i = read32 m (p + of_nat (4 * i))"

text \<open>The words of an array lie in the address space.\<close>

definition array_ok :: "JArray \<Rightarrow> bool" where
  "array_ok a \<longleftrightarrow> unat (ar_data a) + 4 * unat (ar_size a) < 4294967296"

lemma scaled_offset: "ar_data a + off * 4 = ar_data a + of_nat (4 * unat (off::u4))"
  by simp

lemma unat_elem_addr:
  "array_ok a \<Longrightarrow> i \<le> unat (ar_size a) \<Longrightarrow> unat (ar_data a + of_nat (4 * i)) = unat (ar_data a) + 4 * i"
  unfolding array_ok_def by (intro unat_plus) simp

text \<open>A simultaneous copy of whole words moves elements.\<close>

lemma move_spec_word:
  assumes "i < n" "unat d + 4 * n < 4294967296"
  shows "read32 (move_spec d s (4 * n) m) (d + of_nat (4 * i)) = read32 m (s + of_nat (4 * i))"
proof -
  have "move_spec d s (4 * n) m (d + of_nat (4 * i) + of_nat j) = m (s + of_nat (4 * i) + of_nat j)" if "j < 4" for j
  proof -
    have "unat (d + of_nat (4 * i) + of_nat j - d) = 4 * i + j"
    proof -
      have "d + of_nat (4 * i) + of_nat j - d = of_nat (4 * i + j)" by simp
      then show ?thesis using assms that by (simp only: unat_of_nat) simp
    qed
    then show ?thesis using assms that unfolding move_spec_def by (simp add: algebra_simps)
  qed
  from this [of 0] this [of 1] this [of 2] this [of 3] show ?thesis by (simp add: read32_def)
qed

lemma move_spec_word_outside:
  assumes "unat a + 4 \<le> unat d \<or> unat d + n \<le> unat a" "unat a + 4 \<le> 4294967296" "unat d + n < 4294967296"
  shows "read32 (move_spec d s n m) a = read32 m a"
proof -
  have "\<not> unat (a + of_nat j - d) < n" if "j < 4" for j
  proof -
    have u: "unat (a + of_nat j) = unat a + j" using assms(2) that by (intro unat_plus) simp
    have "unat (a + of_nat j - of_nat (unat d)) = (if unat d \<le> unat a + j then unat a + j - unat d else unat a + j + 4294967296 - unat d)"
      using assms(3) unfolding u [symmetric] by (intro unat_minus) simp
    then show ?thesis using assms that by auto
  qed
  note o = move_spec_outside [OF this, of _ s m]
  show ?thesis using o [of 0] o [of 1] o [of 2] o [of 3] by (simp add: read32_def)
qed

text \<open>Copying upwards to a range above the source that does not overlap it.\<close>

lemma move_spec_disjoint:
  assumes "unat s + k + n \<le> unat d" "unat d + k + n < 4294967296"
  shows "move_spec (d + of_nat k) (s + of_nat k) n (move_spec d s k m) = move_spec d s (k + n) m"
proof
  fix a
  define x where "x = a - d"
  have a: "a = d + x" and e: "a - (d + of_nat k) = x - of_nat k" by (simp_all add: x_def)
  have ux: "unat (x - of_nat k) = (if k \<le> unat x then unat x - k else unat x + 4294967296 - k)"
    using assms by (intro unat_minus) simp
  show "move_spec (d + of_nat k) (s + of_nat k) n (move_spec d s k m) a = move_spec d s (k + n) m a"
  proof (cases "unat (x - of_nat k) < n")
    case True
    then have x: "k \<le> unat x" "unat x < k + n" using ux assms by (auto split: if_splits)
    have "\<not> unat (x + s - d) < k"
    proof -
      have "unat (s + of_nat (unat x)) = unat s + unat x" using assms x by (intro unat_plus) simp
      then have "unat (x + s) = unat s + unat x" by (simp add: add.commute)
      moreover have "unat (x + s - of_nat (unat d)) = (if unat d \<le> unat (x + s) then unat (x + s) - unat d else unat (x + s) + 4294967296 - unat d)"
        using assms by (intro unat_minus) simp
      ultimately show ?thesis using assms x by auto
    qed
    then show ?thesis using True x unfolding move_spec_def e x_def [symmetric] by (simp add: algebra_simps)
  next
    case False
    then have "unat x < k \<longleftrightarrow> unat x < k + n" using ux by (auto split: if_splits)
    then show ?thesis using False unfolding move_spec_def e x_def [symmetric] by simp
  qed
qed

lemma rep_movsl_disjoint:
  "unat s + 4 * n \<le> unat d \<Longrightarrow> unat d + 4 * n < 4294967296 \<Longrightarrow> rep_movsl n d s m = move_spec d s (4 * n) m"
proof (induction n arbitrary: d s m)
  case (Suc n)
  have u: "unat (d + 4) = unat d + 4" "unat (s + 4) = unat s + 4"
    using Suc.prems unat_plus [of d 4] unat_plus [of s 4] by simp_all
  have "rep_movsl (Suc n) d s m = move_spec (d + of_nat 4) (s + of_nat 4) (4 * n) (move_spec d s 4 m)"
    using Suc.IH [of "s + 4" "d + 4"] Suc.prems u by (simp add: movs32_spec)
  also have "\<dots> = move_spec d s (4 * Suc n) m" using move_spec_disjoint [of s 4 "4 * n" d m] Suc.prems by simp
  finally show ?case .
qed (simp add: move_spec_0)

lemma copy_down_rep:
  "copy_down n p doff q soff m = rep_movsl_down n (p + doff * 4 - 4) (q + soff * 4 - 4) m"
  by (induction n arbitrary: doff soff m) (simp_all add: movs32_def algebra_simps)

subsection \<open>Properties\<close>

lemma in_range_no_wrap:
  assumes "unat off + unat count \<le> unat (sz::u4)"
  shows "\<not> off + count > sz" "unat (off + count) = unat off + unat count"
proof -
  have "unat off + unat count < 4294967296" using assms unsigned_less [where ?'a = nat and w = sz] by simp
  then show "unat (off + count) = unat off + unat count" by (simp add: unat_word_ariths(1))
  then show "\<not> off + count > sz" using assms by (simp add: word_less_nat_alt)
qed

text \<open>The arrays of a copy are one array, or do not overlap.\<close>

definition same_or_disjoint :: "JArray \<Rightarrow> JArray \<Rightarrow> bool" where
  "same_or_disjoint s d \<longleftrightarrow> ar_data s = ar_data d \<and> ar_size s = ar_size d
     \<or> unat (ar_data s) + 4 * unat (ar_size s) \<le> unat (ar_data d)
     \<or> unat (ar_data d) + 4 * unat (ar_size d) \<le> unat (ar_data s)"

lemma jxwordcpy_arrays:
  assumes ok: "array_ok s" "array_ok d" and r: "unat soff + unat count \<le> unat (ar_size s)" "unat doff + unat count \<le> unat (ar_size d)"
    and sd: "same_or_disjoint s d" and up: "ar_data s = ar_data d \<Longrightarrow> unat doff \<le> unat soff"
  shows "jxwordcpy (ar_data s + soff * 4) (ar_data d + doff * 4) count m
    = move_spec (ar_data d + of_nat (4 * unat doff)) (ar_data s + of_nat (4 * unat soff)) (4 * unat count) m"
proof -
  define p q where "p = ar_data d + of_nat (4 * unat doff)" and "q = ar_data s + of_nat (4 * unat soff)"
  have u: "unat p = unat (ar_data d) + 4 * unat doff" "unat q = unat (ar_data s) + 4 * unat soff"
    unfolding p_def q_def using unat_elem_addr [OF ok(2), of "unat doff"] unat_elem_addr [OF ok(1), of "unat soff"] r by simp_all
  consider "unat p \<le> unat q" | "unat q + 4 * unat count \<le> unat p"
    using sd up r unfolding same_or_disjoint_def u by fastforce
  then have "rep_movsl (unat count) p q m = move_spec p q (4 * unat count) m"
  proof cases
    case 1
    then show ?thesis using u ok r by (intro rep_movsl_up) (simp_all add: array_ok_def)
  next
    case 2
    then show ?thesis using u ok r by (intro rep_movsl_disjoint) (simp_all add: array_ok_def)
  qed
  then show ?thesis unfolding jxwordcpy_def scaled_offset p_def q_def .
qed

text \<open>C38: for offsets and a count inside both arrays, and unless the arrays are the same and the destination
  lies above the source, \<^verbatim>\<open>vm_arraycopy\<close> copies exactly the requested elements, as they were before the
  copy, and changes no other byte of memory.\<close>

theorem vm_arraycopy_correct:
  assumes "array_ok s" "array_ok d" "same_or_disjoint s d"
    and "unat soff + unat count \<le> unat (ar_size s)" "unat doff + unat count \<le> unat (ar_size d)"
    and "ar_data s = ar_data d \<Longrightarrow> unat doff \<le> unat soff"
    and "array_class_ok C (arrayClass s)" "array_class_ok C (arrayClass d)"
    and "check_assign n C obj (arrayClass d) (arrayClass s) = Ok True"
  shows "\<exists>m'. vm_arraycopy n C obj (Some s) soff (Some d) doff count m = Ok m'
    \<and> (\<forall>i < unat count. elem m' (ar_data d) (unat doff + i) = elem m (ar_data s) (unat soff + i))
    \<and> (\<forall>a. \<not> unat (a - (ar_data d + doff * 4)) < 4 * unat count \<longrightarrow> m' a = m a)"
proof -
  define m' where "m' = move_spec (ar_data d + of_nat (4 * unat doff)) (ar_data s + of_nat (4 * unat soff)) (4 * unat count) m"
  have "vm_arraycopy n C obj (Some s) soff (Some d) doff count m = Ok m'"
    unfolding m'_def using assms in_range_no_wrap(1) [OF assms(4)] in_range_no_wrap(1) [OF assms(5)]
      jxwordcpy_arrays [OF assms(1,2,4,5,3,6)] by (auto simp: vm_arraycopy_def word_less_nat_alt)
  moreover have "elem m' (ar_data d) (unat doff + i) = elem m (ar_data s) (unat soff + i)" if "i < unat count" for i
    using move_spec_word [of i "unat count" "ar_data d + of_nat (4 * unat doff)" "ar_data s + of_nat (4 * unat soff)" m]
      unat_elem_addr [OF assms(2), of "unat doff"] assms that
    unfolding elem_def m'_def by (simp add: array_ok_def algebra_simps)
  moreover have "m' a = m a" if "\<not> unat (a - (ar_data d + doff * 4)) < 4 * unat count" for a
    using that unfolding m'_def scaled_offset by (intro move_spec_outside)
  ultimately show ?thesis by blast
qed

definition demo_array_at :: "u4 \<Rightarrow> JArray" where
  "demo_array_at p = \<lparr>arrayClass = 4, ar_size = 8, ar_data = p\<rparr>"

theorem vm_arraycopy_correct_witness:
  "\<forall>m. \<exists>m'. vm_arraycopy 1 demo_classes 0 (Some (demo_array_at 0x1000)) 1 (Some (demo_array_at 0x2000)) 2 2 m = Ok m'
     \<and> elem m' 0x2000 2 = elem m 0x1000 1 \<and> elem m' 0x2000 3 = elem m 0x1000 2 \<and> m' 0x2014 = m 0x2014"
proof
  fix m :: memory
  have "\<exists>m'. vm_arraycopy 1 demo_classes 0 (Some (demo_array_at 0x1000)) 1 (Some (demo_array_at 0x2000)) 2 2 m = Ok m'
    \<and> (\<forall>i < unat (2::u4). elem m' (ar_data (demo_array_at 0x2000)) (unat (2::u4) + i) = elem m (ar_data (demo_array_at 0x1000)) (unat (1::u4) + i))
    \<and> (\<forall>a. \<not> unat (a - (ar_data (demo_array_at 0x2000) + 2 * 4)) < 4 * unat (2::u4) \<longrightarrow> m' a = m a)"
    by (rule vm_arraycopy_correct) (simp_all add: demo_array_at_def array_ok_def same_or_disjoint_def array_class_ok_def demo_array)
  then obtain m' where r: "vm_arraycopy 1 demo_classes 0 (Some (demo_array_at 0x1000)) 1 (Some (demo_array_at 0x2000)) 2 2 m = Ok m'"
    and e: "\<And>i. i < 2 \<Longrightarrow> elem m' 0x2000 (2 + i) = elem m 0x1000 (1 + i)"
    and o: "\<And>a. \<not> unat (a - 0x2008) < 8 \<Longrightarrow> m' a = m a" by (auto simp: demo_array_at_def)
  show "\<exists>m'. vm_arraycopy 1 demo_classes 0 (Some (demo_array_at 0x1000)) 1 (Some (demo_array_at 0x2000)) 2 2 m = Ok m'
     \<and> elem m' 0x2000 2 = elem m 0x1000 1 \<and> elem m' 0x2000 3 = elem m 0x1000 2 \<and> m' 0x2014 = m 0x2014"
    using r e [of 0] e [of 1] o [of "0x2014"] by (intro exI [of _ m'] conjI) (simp_all del: One_nat_def)
qed

text \<open>C39: a copy within one array to a higher position.  The loop for this case starts at the beginning of the
  ranges instead of their end: the destination range is not written at all; the elements below it receive
  the elements below the source range.\<close>

theorem vm_arraycopy_overlap_wrong:
  assumes "array_ok a" "array_class_ok C (arrayClass a)"
    and "unat soff < unat doff" "unat doff + unat count \<le> unat (ar_size a)" "unat count \<le> unat soff"
  shows "\<exists>m'. vm_arraycopy (Suc n) C obj (Some a) soff (Some a) doff count m = Ok m'
    \<and> (\<forall>i < unat count. elem m' (ar_data a) (unat doff + i) = elem m (ar_data a) (unat doff + i))
    \<and> (\<forall>i < unat count. elem m' (ar_data a) (unat doff - unat count + i) = elem m (ar_data a) (unat soff - unat count + i))"
proof -
  define c where "c = unat count"
  define p q where "p = ar_data a + of_nat (4 * (unat doff - c))" and "q = ar_data a + of_nat (4 * (unat soff - c))"
  define m' where "m' = move_spec p q (4 * c) m"
  have le: "c \<le> unat doff" "c \<le> unat soff" "unat doff + c \<le> unat (ar_size a)" using assms by (simp_all add: c_def)
  have u: "unat p = unat (ar_data a) + 4 * (unat doff - c)" "unat q = unat (ar_data a) + 4 * (unat soff - c)"
    unfolding p_def q_def using assms le by (intro unat_elem_addr; simp)+
  have e: "ar_data a + off * 4 = ar_data a + of_nat (4 * (unat off - c)) + of_nat (4 * c)" if "c \<le> unat off" for off
  proof -
    have "4 * (unat off - c) + 4 * c = 4 * unat off" using that by simp
    then show ?thesis unfolding scaled_offset add.assoc of_nat_add [symmetric] by simp
  qed
  have sum: "unat p + 4 * c < 4294967296" using u le assms(1) by (simp add: array_ok_def)
  have "copy_down c (ar_data a) doff (ar_data a) soff m = m'"
    unfolding copy_down_rep e [OF le(1)] e [OF le(2)] p_def [symmetric] q_def [symmetric] m'_def
    using u sum assms(3) by (intro rep_movsl_down_spec) simp_all
  moreover have "unat soff + unat count \<le> unat (ar_size a)" using assms by simp
  ultimately have "vm_arraycopy (Suc n) C obj (Some a) soff (Some a) doff count m = Ok m'"
    using assms in_range_no_wrap(1) [OF assms(4)] in_range_no_wrap(1) by (auto simp: vm_arraycopy_def word_less_nat_alt c_def)
  moreover have "elem m' (ar_data a) (unat doff + i) = elem m (ar_data a) (unat doff + i)" if "i < unat count" for i
  proof -
    have "unat (ar_data a + of_nat (4 * (unat doff + i))) = unat (ar_data a) + 4 * (unat doff + i)"
      using assms that by (intro unat_elem_addr) simp_all
    moreover have "4 * (unat doff - c) + 4 * c \<le> 4 * (unat doff + i)" using le by simp
    ultimately show ?thesis unfolding elem_def m'_def using u le assms sum that
      by (intro move_spec_word_outside disjI2) (simp_all add: array_ok_def c_def)
  qed
  moreover have "elem m' (ar_data a) (unat doff - unat count + i) = elem m (ar_data a) (unat soff - unat count + i)"
    if "i < unat count" for i
    using move_spec_word [of i c p q m] sum that unfolding elem_def m'_def c_def p_def q_def by (simp add: algebra_simps)
  ultimately show ?thesis by blast
qed

theorem vm_arraycopy_overlap_wrong_witness:
  "\<forall>m. \<exists>m'. vm_arraycopy 1 demo_classes 0 (Some (demo_array_at 0x1000)) 2 (Some (demo_array_at 0x1000)) 3 1 m = Ok m'
     \<and> elem m' 0x1000 3 = elem m 0x1000 3 \<and> elem m' 0x1000 2 = elem m 0x1000 1"
proof
  fix m :: memory
  have "\<exists>m'. vm_arraycopy (Suc 0) demo_classes 0 (Some (demo_array_at 0x1000)) 2 (Some (demo_array_at 0x1000)) 3 1 m = Ok m'
    \<and> (\<forall>i < unat (1::u4). elem m' (ar_data (demo_array_at 0x1000)) (unat (3::u4) + i) = elem m (ar_data (demo_array_at 0x1000)) (unat (3::u4) + i))
    \<and> (\<forall>i < unat (1::u4). elem m' (ar_data (demo_array_at 0x1000)) (unat (3::u4) - unat (1::u4) + i)
         = elem m (ar_data (demo_array_at 0x1000)) (unat (2::u4) - unat (1::u4) + i))"
    by (rule vm_arraycopy_overlap_wrong) (simp_all add: demo_array_at_def array_ok_def array_class_ok_def demo_array)
  then show "\<exists>m'. vm_arraycopy 1 demo_classes 0 (Some (demo_array_at 0x1000)) 2 (Some (demo_array_at 0x1000)) 3 1 m = Ok m'
     \<and> elem m' 0x1000 3 = elem m 0x1000 3 \<and> elem m' 0x1000 2 = elem m 0x1000 1"
    by (simp add: demo_array_at_def)
qed

text \<open>A stored element index is compared as a signed number: a negative index writes below the elements.\<close>

lemma put_array_field_negative:
  assumes "sint index < 0" "0 \<le> sint (ar_size arr)"
  shows "vm_put_array_field32 arr index v m = Ok (write32 m (ar_data arr - of_nat (4 * nat (- sint index))) v)"
proof -
  define k where "k = nat (- sint index)"
  have "index = of_int (sint index)" by simp
  also have "sint index = - int k" using assms(1) by (simp add: k_def)
  finally have "ar_data arr + index * 4 = ar_data arr - of_nat (4 * k)" by simp
  then show ?thesis using assms by (simp add: vm_put_array_field32_def k_def mult.commute)
qed

end
