(* ===== verification/Portals.thy ===== *)
theory Portals
  imports Kernel_Runs
begin

section \<open>Portal calls (core/portal.c)\<close>

text \<open>
  A portal call is a synchronous call between domains.  A \<^emph>\<open>service\<close> (\<^verbatim>\<open>DEPDesc\<close>) sits in the service table of its
  domain; the calling threads wait in its queue, linked through \<^verbatim>\<open>nextInDEPQueue\<close>; one receiver thread takes
  them out one by one, runs the method and replies.  Services are addressed by domain and table index, as
  the code does (\<^verbatim>\<open>GETSVC\<close>).

  The operations run with interrupts disabled, so each is one step; where the code blocks or hands over the
  processor the operation ends, and \<open>resume_at\<close> records where the thread goes on when it runs again (its saved
  program counter).  The model is the control part of a call: the copying of parameter and result objects
  between heaps is left out, \<open>ret\<close> stands for the value that is handed over.
\<close>

subsection \<open>State\<close>

definition STATE_PORTAL_WAIT_FOR_PARAMCOPY :: u4 where "STATE_PORTAL_WAIT_FOR_PARAMCOPY = 13"
definition STATE_PORTAL_WAIT_FOR_RETCOPY :: u4 where "STATE_PORTAL_WAIT_FOR_RETCOPY = 14"
definition PORTAL_RETURN_TYPE_EXCEPTION :: u4 where "PORTAL_RETURN_TYPE_EXCEPTION = 3"
definition MAX_SERVICES :: nat where "MAX_SERVICES = 1500"

lemmas portal_states = thread_states STATE_PORTAL_WAIT_FOR_PARAMCOPY_def STATE_PORTAL_WAIT_FOR_RETCOPY_def

record DEPDesc =
  firstWaitingSender :: "tid option"
  lastWaitingSender :: "tid option"
  receiver :: "tid option"
  dep_obj :: u4
  dep_interface :: nat
  dep_valid :: u4
  dep_refcount :: u4
  serviceIndex :: nat
  abortFlag :: u4

datatype service_entry = SERVICE_ENTRY_FREE | SERVICE_ENTRY_CHANGING | Service DEPDesc

datatype point = InJava | SendBlock | SendHandoff | RecvBlock | RecvLoop

record PortalThread =
  nextInDEPQueue :: "tid option"
  blockedInDomain :: "did option"
  blockedInDomainID :: u4
  blockedInServiceIndex :: nat
  blockedInServiceThread :: "tid option"
  depMethodIndex :: u4
  processingDEP :: "(did \<times> nat) option"
  mostRecentlyCalledBy :: "tid option"
  callerDomain :: "did option"
  callerDomainID :: u4
  portalReturn :: u4
  portalReturnType :: u4
  resume_at :: point

record Proxy =
  targetDomain :: did
  targetDomainID :: u4
  px_index :: nat

record portals =
  sch :: sched
  pt :: "tid \<Rightarrow> PortalThread"
  services :: "did \<Rightarrow> nat \<Rightarrow> service_entry"
  domain_id :: "did \<Rightarrow> u4"

definition upd_pt :: "tid \<Rightarrow> (PortalThread \<Rightarrow> PortalThread) \<Rightarrow> portals \<Rightarrow> portals" where
  "upd_pt t f p = p\<lparr>pt := (pt p)(t := f (pt p t))\<rparr>"

definition set_service :: "did \<Rightarrow> nat \<Rightarrow> service_entry \<Rightarrow> portals \<Rightarrow> portals" where
  "set_service d i e p = p\<lparr>services := (services p)(d := (services p d)(i := e))\<rparr>"

definition depq_next :: "portals \<Rightarrow> tid \<Rightarrow> tid option" where
  "depq_next p t = nextInDEPQueue (pt p t)"

text \<open>\<^verbatim>\<open>GETSVC\<close>, with its \<^verbatim>\<open>ASSERTDEP\<close>.\<close>

definition get_service :: "did \<Rightarrow> nat \<Rightarrow> portals \<Rightarrow> DEPDesc res" where
  "get_service d i p = (case services p d i of Service svc \<Rightarrow> Ok svc | _ \<Rightarrow> Fault (AssertFail ''ASSERTDEP''))"

text \<open>A call of the scheduler.\<close>

definition on_sched :: "(sched \<Rightarrow> sched res) \<Rightarrow> portals \<Rightarrow> portals res" where
  "on_sched f p = rbind (f (sch p)) (\<lambda>s. Ok (p\<lparr>sch := s\<rparr>))"

subsection \<open>The queue of waiting senders\<close>

text \<open>\<^verbatim>\<open>check_servicequeue\<close> compares every waiting thread with those behind it, and gives up after a million
  comparisons.\<close>

fun scan_others :: "nat \<Rightarrow> (tid \<Rightarrow> tid option) \<Rightarrow> tid \<Rightarrow> tid option \<Rightarrow> nat \<Rightarrow> nat res" where
  "scan_others 0 nx t s i = Fault OutOfFuel"
| "scan_others (Suc n) nx t s i = (case s of None \<Rightarrow> Ok i
     | Some s \<Rightarrow> if s = t then Fault (SysPanic ''Thread multiple times in depqueue'')
         else if i + 1 = 1000000 then Fault (SysPanic ''endless loop in portal waitqueue'')
         else scan_others n nx t (nx s) (i + 1))"

fun scan_senders :: "nat \<Rightarrow> (tid \<Rightarrow> tid option) \<Rightarrow> tid option \<Rightarrow> nat \<Rightarrow> unit res" where
  "scan_senders 0 nx t i = Fault OutOfFuel"
| "scan_senders (Suc n) nx t i = (case t of None \<Rightarrow> Ok ()
     | Some t \<Rightarrow> rbind (scan_others n nx t (nx t) i) (scan_senders n nx (nx t)))"

definition check_servicequeue :: "nat \<Rightarrow> DEPDesc \<Rightarrow> portals \<Rightarrow> unit res" where
  "check_servicequeue n dep p = scan_senders n (depq_next p) (firstWaitingSender dep) 0"

definition check_notin_servicequeue :: "nat \<Rightarrow> DEPDesc \<Rightarrow> tid \<Rightarrow> portals \<Rightarrow> unit res" where
  "check_notin_servicequeue n dep t p = rbind (find_in n (depq_next p) (\<lambda>x. x = t) (firstWaitingSender dep))
     (\<lambda>r. if r \<noteq> None then Fault (SysPanic ''Thread already in depqueue'') else Ok ())"

definition portal_set_recv :: "did \<Rightarrow> nat \<Rightarrow> tid \<Rightarrow> portals \<Rightarrow> portals res" where
  "portal_set_recv d i t p = rbind (get_service d i p) (\<lambda>dep. Ok (set_service d i (Service (dep\<lparr>receiver := Some t\<rparr>)) p))"

definition portal_add_sender :: "nat \<Rightarrow> did \<Rightarrow> nat \<Rightarrow> tid \<Rightarrow> portals \<Rightarrow> portals res" where
  "portal_add_sender n d i t p =
     rbind (get_service d i p) (\<lambda>dep.
     rbind (check_servicequeue n dep p) (\<lambda>_.
     rbind (check_notin_servicequeue n dep t p) (\<lambda>_.
       let p1 = upd_pt t (\<lambda>x. x\<lparr>nextInDEPQueue := None\<rparr>) p;
           (dep2, p2) = (case lastWaitingSender dep of
               None \<Rightarrow> (dep\<lparr>firstWaitingSender := Some t, lastWaitingSender := Some t\<rparr>, p1)
             | Some l \<Rightarrow> (dep\<lparr>lastWaitingSender := Some t\<rparr>, upd_pt l (\<lambda>x. x\<lparr>nextInDEPQueue := Some t\<rparr>) p1));
           p3 = set_service d i (Service dep2) p2 in
       rbind (check_servicequeue n dep2 p3) (\<lambda>_. Ok p3))))"

definition portal_dequeue_sender :: "did \<Rightarrow> nat \<Rightarrow> portals \<Rightarrow> (tid option \<times> portals) res" where
  "portal_dequeue_sender d i p = rbind (get_service d i p) (\<lambda>dep. case firstWaitingSender dep of
       None \<Rightarrow> Ok (None, p)
     | Some t \<Rightarrow> let first = depq_next p t;
           dep2 = dep\<lparr>firstWaitingSender := first, lastWaitingSender := if first = None then None else lastWaitingSender dep\<rparr> in
         Ok (Some t, upd_pt t (\<lambda>x. x\<lparr>nextInDEPQueue := None\<rparr>) (set_service d i (Service dep2) p)))"

text \<open>The walk of \<^verbatim>\<open>portal_remove_sender\<close>: \<open>prev\<close> says which cell the pointer \<^verbatim>\<open>t\<close> refers to, \<^verbatim>\<open>firstWaitingSender\<close> or
  the link of a thread.  \<^verbatim>\<open>lastWaitingSender\<close> and the link of the removed thread keep their values.\<close>

fun unlink_sender :: "nat \<Rightarrow> did \<Rightarrow> nat \<Rightarrow> DEPDesc \<Rightarrow> tid \<Rightarrow> tid option \<Rightarrow> tid option \<Rightarrow> portals \<Rightarrow> portals res" where
  "unlink_sender 0 d i dep sender prev c p = Fault OutOfFuel"
| "unlink_sender (Suc n) d i dep sender prev c p = (case c of
       None \<Rightarrow> Fault (SysPanic ''SENDER NOT IN QUEUE'')
     | Some t \<Rightarrow> if t = sender then (case prev of
           None \<Rightarrow> Ok (set_service d i (Service (dep\<lparr>firstWaitingSender := depq_next p t\<rparr>)) p)
         | Some q \<Rightarrow> Ok (upd_pt q (\<lambda>x. x\<lparr>nextInDEPQueue := depq_next p t\<rparr>) p))
       else unlink_sender n d i dep sender (Some t) (depq_next p t) p)"

definition portal_remove_sender :: "nat \<Rightarrow> did \<Rightarrow> nat \<Rightarrow> tid \<Rightarrow> portals \<Rightarrow> portals res" where
  "portal_remove_sender n d i sender p = rbind (get_service d i p) (\<lambda>dep.
     unlink_sender n d i dep sender None (firstWaitingSender dep) p)"

definition portal_abort_current_call :: "did \<Rightarrow> nat \<Rightarrow> tid \<Rightarrow> portals \<Rightarrow> portals res" where
  "portal_abort_current_call d i sender p = rbind (get_service d i p) (\<lambda>dep.
     Ok (set_service d i (Service (dep\<lparr>abortFlag := 1\<rparr>)) p))"

subsection \<open>Sending\<close>

datatype send_result = LocalCall u4 | Returned u4 | Thrown u4 | Waiting

abbreviation me :: "portals \<Rightarrow> tid" where
  "me p \<equiv> curthr (sch p)"

text \<open>From the label \<^verbatim>\<open>finished\<close> to the end of \<^verbatim>\<open>direct_send_portal\<close>.\<close>

definition send_finished :: "portals \<Rightarrow> (send_result \<times> portals) res" where
  "send_finished p =
     (let p1 = upd_pt (me p) (\<lambda>x. x\<lparr>blockedInDomain := None, blockedInServiceIndex := 0, blockedInServiceThread := None,
                 resume_at := InJava\<rparr>) p;
          x = pt p1 (me p) in
      if portalReturnType x = PORTAL_RETURN_TYPE_EXCEPTION then Ok (Thrown (portalReturn x), p1)
      else Ok (Returned (portalReturn x), upd_pt (me p) (\<lambda>x. x\<lparr>portalReturnType := 0\<rparr>) p1))"

text \<open>The call is queued; then the thread blocks, or hands the processor to the waiting receiver.\<close>

definition send_enqueued :: "nat \<Rightarrow> did \<Rightarrow> nat \<Rightarrow> portals \<Rightarrow> portals res" where
  "send_enqueued n d i p = rbind (get_service d i p) (\<lambda>svc. case receiver svc of
       None \<Rightarrow> Fault (AssertFail ''receiver'')
     | Some target \<Rightarrow>
         if t_state (thr (sch p) target) \<noteq> STATE_PORTAL_WAIT_FOR_SND
         then on_sched (Sched_block n STATE_PORTAL_WAIT_FOR_RCV) (upd_pt (me p) (\<lambda>x. x\<lparr>resume_at := SendBlock\<rparr>) p)
         else rbind (check_servicequeue n svc p) (\<lambda>_.
           on_sched (Sched_portal_handoff_to_receiver n target) (upd_pt (me p) (\<lambda>x. x\<lparr>resume_at := SendHandoff\<rparr>) p)))"

definition direct_send_portal :: "nat \<Rightarrow> Proxy \<Rightarrow> u4 \<Rightarrow> portals \<Rightarrow> (send_result \<times> portals) res" where
  "direct_send_portal n proxy methodIndex p =
     (let d = targetDomain proxy; i = px_index proxy in
      if d = curdom (sch p) then
        rbind (get_service d i p) (\<lambda>svc.
          if targetDomainID proxy \<noteq> domain_id p d then Fault (JavaThrow ''domain was terminated'')
          else Ok (LocalCall (dep_obj svc), p))
      else if targetDomainID proxy \<noteq> domain_id p d \<or> d_state (dom (sch p) d) \<noteq> DOMAIN_STATE_ACTIVE
          \<or> services p d i = SERVICE_ENTRY_CHANGING
      then send_finished (upd_pt (me p) (\<lambda>x. x\<lparr>portalReturnType := PORTAL_RETURN_TYPE_EXCEPTION\<rparr>) p)
      else rbind (portal_add_sender n d i (me p) (upd_pt (me p) (\<lambda>x. x\<lparr>blockedInDomain := Some d,
             blockedInDomainID := domain_id p d, blockedInServiceIndex := i, depMethodIndex := methodIndex\<rparr>) p))
           (\<lambda>p1. rbind (send_enqueued n d i p1) (\<lambda>p2. Ok (Waiting, p2))))"

text \<open>What a sender does when it runs again: after \<^verbatim>\<open>SCHED_BLOCK_PORTAL_WAIT_FOR_RCV\<close> it checks that it has left the
  queue, after a handoff only the assertion of \<^verbatim>\<open>Sched_portal_handoff_to_receiver\<close>.\<close>

definition send_resume :: "nat \<Rightarrow> portals \<Rightarrow> (send_result \<times> portals) res" where
  "send_resume n p =
     (if resume_at (pt p (me p)) = SendBlock then
        let p1 = p\<lparr>sch := Sched_block_resume (sch p)\<rparr>; x = pt p1 (me p1) in
        case blockedInDomain x of None \<Rightarrow> Fault (AssertFail ''targetDomain'')
        | Some d \<Rightarrow> rbind (get_service d (blockedInServiceIndex x) p1) (\<lambda>svc0.
            rbind (check_notin_servicequeue n svc0 (me p1) p1) (\<lambda>_. send_finished p1))
      else rbind (on_sched Sched_portal_handoff_resume p) send_finished)"

subsection \<open>Receiving\<close>

text \<open>The checks before the service method is called, and the note of who called.\<close>

definition receive_checked :: "nat \<Rightarrow> tid \<Rightarrow> DEPDesc \<Rightarrow> portals \<Rightarrow> portals res" where
  "receive_checked n source svc p =
     rbind (check_servicequeue n svc p) (\<lambda>_.
     rbind (check_notin_servicequeue n svc source p) (\<lambda>_.
       if dep_valid svc = 0 then Fault (JavaThrow ''RuntimeException'')
       else
         let c = t_domain (thr (sch p) source);
             p4 = upd_pt (me p) (\<lambda>x. x\<lparr>callerDomain := Some c, callerDomainID := domain_id p c, resume_at := InJava\<rparr>) p in
         Ok (p4\<lparr>sch := set_state source STATE_PORTAL_WAIT_FOR_RET (sch p4)\<rparr>)))"

text \<open>There is a waiting sender: the way to the call of the service method.\<close>

definition receive_start :: "nat \<Rightarrow> tid \<Rightarrow> portals \<Rightarrow> portals res" where
  "receive_start n source p =
     (let r = me p in
      rbind (check_domain_not_in_runq n (curdom (sch p)) (sch p)) (\<lambda>_.
      let p1 = p\<lparr>sch := set_state source STATE_PORTAL_WAIT_FOR_PARAMCOPY (sch p)\<rparr>;
          i = blockedInServiceIndex (pt p1 source) in
      rbind (get_service (curdom (sch p1)) i p1) (\<lambda>svc.
      rassert (t_state (thr (sch p1) r) = STATE_RUNNABLE) ''receive_portalcall'' (
      let p2 = upd_pt r (\<lambda>x. x\<lparr>processingDEP := Some (curdom (sch p1), i), mostRecentlyCalledBy := Some source\<rparr>) p1;
          p3 = upd_pt source (\<lambda>x. x\<lparr>blockedInServiceThread := Some r\<rparr>) p2 in
      receive_checked n source svc p3))))"

text \<open>One round of the receive loop: take a sender out of the queue, or wait for one.\<close>

definition receive_portalcall :: "nat \<Rightarrow> nat \<Rightarrow> portals \<Rightarrow> portals res" where
  "receive_portalcall n i p =
     (let r = me p;
          p0 = (if resume_at (pt p r) = RecvBlock then p\<lparr>sch := Sched_block_resume (sch p)\<rparr>
                else upd_pt r (\<lambda>x. x\<lparr>processingDEP := None, mostRecentlyCalledBy := None\<rparr>) p) in
      rbind (portal_dequeue_sender (curdom (sch p0)) i p0) (\<lambda>(source, p1). case source of
          None \<Rightarrow> on_sched (Sched_block n STATE_PORTAL_WAIT_FOR_SND) (upd_pt r (\<lambda>x. x\<lparr>resume_at := RecvBlock\<rparr>) p1)
        | Some source \<Rightarrow> receive_start n source p1))"

text \<open>The caller is gone when its descriptor was given to another domain or its domain is not active.\<close>

definition caller_alive :: "portals \<Rightarrow> bool" where
  "caller_alive p = (let x = pt p (me p) in case callerDomain x of None \<Rightarrow> False
     | Some c \<Rightarrow> callerDomainID x = domain_id p c \<and> d_state (dom (sch p) c) = DOMAIN_STATE_ACTIVE)"

text \<open>The reply to the caller.\<close>

definition receive_reply :: "nat \<Rightarrow> DEPDesc \<Rightarrow> tid \<Rightarrow> bool \<Rightarrow> u4 \<Rightarrow> portals \<Rightarrow> portals res" where
  "receive_reply n svc source isref ret p =
     (let r = me p;
          p1 = p\<lparr>sch := set_state source STATE_PORTAL_WAIT_FOR_RETCOPY (sch p)\<rparr>;
          p2 = upd_pt source (\<lambda>x. x\<lparr>portalReturnType := (if isref then 1 else 0), portalReturn := ret\<rparr>) p1;
          p3 = upd_pt r (\<lambda>x. x\<lparr>processingDEP := None, mostRecentlyCalledBy := None\<rparr>) p2 in
      on_sched (Sched_portal_handoff_to_sender n source (firstWaitingSender svc \<noteq> None)) (upd_pt r (\<lambda>x. x\<lparr>resume_at := RecvLoop\<rparr>) p3))"

text \<open>When the service method has returned \<open>ret\<close>, a reference if \<open>isref\<close>.  \<open>i\<close> is the service index of the call.\<close>

definition receive_return :: "nat \<Rightarrow> nat \<Rightarrow> bool \<Rightarrow> u4 \<Rightarrow> portals \<Rightarrow> portals res" where
  "receive_return n i isref ret p =
     (let r = me p; loop = upd_pt r (\<lambda>x. x\<lparr>resume_at := RecvLoop\<rparr>) in
      if \<not> caller_alive p then Ok (loop p)
      else case mostRecentlyCalledBy (pt p r) of None \<Rightarrow> Fault (AssertFail ''ASSERTTHREAD'')
      | Some source \<Rightarrow>
        rbind (get_service (curdom (sch p)) i p) (\<lambda>svc.
        if abortFlag svc = 1 then Ok (loop (set_service (curdom (sch p)) i (Service (svc\<lparr>abortFlag := 0\<rparr>)) p))
        else rbind (check_notin_servicequeue n svc r p) (\<lambda>_. receive_reply n svc source isref ret p)))"

text \<open>An exception that reaches the entry of the service: it is handed to the caller (\<open>exc\<close> is its copy) and the
  service thread starts again at \<^verbatim>\<open>receive_portal_init\<close>.\<close>

definition reinit_service_thread :: "nat \<Rightarrow> portals \<Rightarrow> portals res" where
  "reinit_service_thread n p = (case mostRecentlyCalledBy (pt p (me p)) of
       None \<Rightarrow> Fault (AssertFail ''mostRecentlyCalledBy'')
     | Some source \<Rightarrow> on_sched (Sched_portal_destroy_handoff_to_sender n source)
         (upd_pt (me p) (\<lambda>x. x\<lparr>resume_at := RecvLoop\<rparr>) p))"

definition throw_in_portalcall :: "nat \<Rightarrow> u4 \<Rightarrow> portals \<Rightarrow> portals res" where
  "throw_in_portalcall n exc p =
     (if \<not> caller_alive p then reinit_service_thread n p
      else case mostRecentlyCalledBy (pt p (me p)) of None \<Rightarrow> Fault (AssertFail ''source'')
      | Some source \<Rightarrow> reinit_service_thread n
          (upd_pt source (\<lambda>x. x\<lparr>portalReturn := exc, portalReturnType := PORTAL_RETURN_TYPE_EXCEPTION\<rparr>) p))"

subsection \<open>The service table\<close>

text \<open>The search of \<^verbatim>\<open>createService\<close> for a free entry, from index \<open>i\<close>.\<close>

function free_entry :: "(nat \<Rightarrow> service_entry) \<Rightarrow> nat \<Rightarrow> nat" where
  "free_entry tab i = (if i < MAX_SERVICES then (if tab i = SERVICE_ENTRY_FREE then i else free_entry tab (i + 1)) else i)"
  by pat_completeness auto
termination by (relation "measure (\<lambda>(tab, i). MAX_SERVICES - i)") auto

declare free_entry.simps [simp del]

definition createService :: "did \<Rightarrow> u4 \<Rightarrow> nat \<Rightarrow> portals \<Rightarrow> (nat \<times> portals) res" where
  "createService d obj iface p = (let i = free_entry (services p d) 0 in
     if i = MAX_SERVICES then Fault (SysPanic ''domain can not create more services'')
     else Ok (i, set_service d i (Service \<lparr>firstWaitingSender = None, lastWaitingSender = None, receiver = None, dep_obj = obj,
       dep_interface = iface, dep_valid = 1, dep_refcount = 0, serviceIndex = i, abortFlag = 0\<rparr>) p))"

definition service_incRefcount :: "did \<Rightarrow> nat \<Rightarrow> portals \<Rightarrow> portals res" where
  "service_incRefcount d i p = rbind (get_service d i p) (\<lambda>dep.
     Ok (set_service d i (Service (dep\<lparr>dep_refcount := dep_refcount dep + 1\<rparr>)) p))"

text \<open>The search of \<^verbatim>\<open>portal_auto_promo\<close> for the service of an object: the entry at which the loop stopped, or the last one
  it looked at (\<open>found\<close>).\<close>

function promo_lookup :: "(nat \<Rightarrow> service_entry) \<Rightarrow> u4 \<Rightarrow> nat \<Rightarrow> DEPDesc option \<Rightarrow> DEPDesc option" where
  "promo_lookup tab obj i found = (if i < MAX_SERVICES then (case tab i of
       Service dep \<Rightarrow> if dep_obj dep = obj then Some dep else promo_lookup tab obj (i + 1) (Some dep)
     | _ \<Rightarrow> promo_lookup tab obj (i + 1) None) else found)"
  by pat_completeness auto
termination by (relation "measure (\<lambda>(tab, obj, i, found). MAX_SERVICES - i)") auto

declare promo_lookup.simps [simp del]

subsection \<open>What the scheduler does to thread states\<close>

definition states :: "sched \<Rightarrow> tid \<Rightarrow> u4" where
  "states s t = t_state (thr s t)"

text \<open>\<open>moves f s s'\<close>: the scheduler is consistent in \<open>s'\<close>, the threads are in the states \<open>f\<close>, and the threads and
  domains are those of \<open>s\<close>.\<close>

definition moves :: "(tid \<Rightarrow> u4) \<Rightarrow> sched \<Rightarrow> sched \<Rightarrow> bool" where
  "moves f s s' \<longleftrightarrow> (\<exists>a. sched_inv s' a) \<and> states s' = f \<and> (\<forall>t. t_domain (thr s' t) = t_domain (thr s t)) \<and>
     idle_thread s' = idle_thread s \<and> (\<forall>d. d_state (dom s' d) = d_state (dom s d))"

lemma movesI:
  assumes "sched_inv s' a" "erase s' = erase (switch_to x s1)" "erase s1 = erase s2"
    "\<And>t. t_state (thr s2 t) = f t" "\<And>t. t_domain (thr s2 t) = t_domain (thr s t)"
    "idle_thread s2 = idle_thread s" "\<And>d. d_state (dom s2 d) = d_state (dom s d)"
  shows "moves f s s'"
proof -
  have "d_state (dom s' d) = d_state (dom s1 d)" for d
    using erase_same(7) [OF assms(2), of d] by (simp add: switch_to_def)
  then show ?thesis
    using assms(1,4-7) erase_switch [OF assms(2)] erase_same [OF assms(3)]
    by (auto simp: moves_def states_def fun_eq_iff)
qed

text \<open>A call that returns with some fuel returns the same with enough fuel, where the step lemmas apply.\<close>

lemma moves_fuel:
  assumes "mono_fuel f" "f n = Ok s'" "sched_inv s a" "\<And>m. room m a \<Longrightarrow> \<exists>x. f m = Ok x \<and> moves g s x"
  shows "moves g s s'"
proof -
  obtain m where "f m = Ok s'" "room m a" using more_fuel [OF assms(1-3)] by blast
  with assms(4) [of m] show ?thesis by auto
qed

lemma moves_ok:
  assumes "mono_fuel f" "sched_inv s a" "\<And>m. room m a \<Longrightarrow> \<exists>x. f m = Ok x \<and> moves g s x"
  shows "\<exists>N. \<forall>n\<ge>N. is_ok (f n)"
proof -
  obtain k where "room k a" using room_exists [OF assms(2)] by blast
  then obtain x where "f k = Ok x" using assms(3) by blast
  then have "f n = Ok x" if "k \<le> n" for n using mono_fuelD [OF assms(1)] that by blast
  then show ?thesis by (intro exI [of _ k]) simp
qed

lemma block_step:
  assumes "sched_inv s a" "st \<noteq> STATE_RUNNABLE" "curthr s \<noteq> idle_thread s" "room m a"
  shows "\<exists>x. Sched_block m st s = Ok x \<and> moves ((states s)(curthr s := st)) s x"
proof -
  obtain x where x: "Sched_block m st s = Ok x" "sched_inv x (snd (pick (curdom s) a))"
    "erase x = erase (switch_to (next_thread s a) (set_state (curthr s) st s))"
    using Sched_block_step [OF assms(1,4,2,3)] by blast
  from movesI [OF x(2,3) refl] have "moves ((states s)(curthr s := st)) s x" by (auto simp: states_def)
  with x(1) show ?thesis by blast
qed

lemma receiver_step:
  assumes "sched_inv s a" "curthr s \<noteq> idle_thread s" "states s r \<noteq> STATE_RUNNABLE" "room m a"
  shows "\<exists>x. Sched_portal_handoff_to_receiver m r s = Ok x \<and>
    moves ((states s)(curthr s := STATE_PORTAL_WAIT_FOR_RET, r := STATE_RUNNABLE)) s x"
proof -
  obtain x where x: "Sched_portal_handoff_to_receiver m r s = Ok x"
    "sched_inv x (snd (pick (curdom s) (enqueue (curdom s) (t_domain (thr s r)) r a)))"
    "erase x = erase (switch_to (curthr x) (set_state r STATE_RUNNABLE (set_state (curthr s) STATE_PORTAL_WAIT_FOR_RET s)))"
    using handoff_to_receiver_step [OF assms(1,4,2), of r] assms(3) unfolding states_def by blast
  from movesI [OF x(2,3) refl] have "moves ((states s)(curthr s := STATE_PORTAL_WAIT_FOR_RET, r := STATE_RUNNABLE)) s x"
    by (auto simp: states_def)
  with x(1) show ?thesis by blast
qed

lemma sender_step:
  assumes "sched_inv s a" "curthr s \<noteq> idle_thread s" "states s r \<noteq> STATE_RUNNABLE" "room m a"
  shows "\<exists>x. Sched_portal_handoff_to_sender m r b s = Ok x \<and>
    moves ((states s)(curthr s := if b then STATE_RUNNABLE else STATE_PORTAL_WAIT_FOR_SND, r := STATE_RUNNABLE)) s x"
proof -
  let ?st = "if b then STATE_RUNNABLE else STATE_PORTAL_WAIT_FOR_SND"
  obtain x where x: "Sched_portal_handoff_to_sender m r b s = Ok x"
    "sched_inv x (snd (pick (curdom s) (enqueue (curdom s) (t_domain (thr s r)) r (sender_queues s b a))))"
    "\<exists>y s1. erase x = erase (switch_to y (set_state r STATE_RUNNABLE s1)) \<and> erase s1 = erase (set_state (curthr s) ?st s)"
    using handoff_to_sender_step [OF assms(1,4,2), of r b] assms(3) unfolding states_def by blast
  then obtain y s1 where y: "erase x = erase (switch_to y (set_state r STATE_RUNNABLE s1))"
    "erase s1 = erase (set_state (curthr s) ?st s)" by blast
  have "moves ((states s)(curthr s := ?st, r := STATE_RUNNABLE)) s x"
    by (rule movesI [OF x(2) y(1) refl]) (simp_all add: erase_same [OF y(2)] states_def)
  with x(1) show ?thesis by blast
qed

lemma destroy_handoff_eq:
  "states s (curthr s) = STATE_RUNNABLE \<Longrightarrow>
   Sched_portal_destroy_handoff_to_sender n r s = Sched_portal_handoff_to_sender n r True s"
  by (simp add: Sched_portal_destroy_handoff_to_sender_def Sched_portal_handoff_to_sender_def states_def destroy_switch_eq)

lemma yield_step: "sched_inv s a \<Longrightarrow> room m a \<Longrightarrow> \<exists>x. threadyield m s = Ok x \<and> moves (states s) s x"
  using threadyield_step [of s a m] movesI [OF _ _ refl, of _ _ _ s "states s" s] by (auto simp: states_def)

lemma preempt_step: "sched_inv s a \<Longrightarrow> room m a \<Longrightarrow> \<exists>x. reschedule m off s = Ok x \<and> moves (states s) s x"
  using Sched_reschedule_step [of s a m] movesI [OF _ _ refl, of _ _ _ s "states s" s]
  by (cases off) (auto simp: states_def reschedule_def switch_to_def moves_def)

lemma unblock_step:
  assumes "sched_inv s a" "states s t \<noteq> STATE_RUNNABLE" "room m a"
  shows "\<exists>x. threadunblock m t s = Ok x \<and> moves ((states s)(t := STATE_RUNNABLE)) s x"
proof -
  obtain x where x: "threadunblock m t s = Ok x" "sched_inv x (enqueue (curdom s) (t_domain (thr s t)) t a)"
    "erase x = erase (set_state t STATE_RUNNABLE s)"
    using threadunblock_step [OF assms(1,3)] assms(2) unfolding states_def by blast
  have "erase x = erase (switch_to (curthr s) (set_state t STATE_RUNNABLE s))"
    using x(3) by (simp add: switch_to_def upd_defs)
  from movesI [OF x(2) this refl] x(1) show ?thesis by (auto simp: states_def)
qed

text \<open>Marking a thread that is not runnable.\<close>

lemma mark_waiting:
  assumes "sched_inv s a" "states s t \<noteq> STATE_RUNNABLE" "st \<noteq> STATE_RUNNABLE"
  shows "sched_inv (set_state t st s) a" "states (set_state t st s) = (states s)(t := st)"
proof -
  have "t \<noteq> curthr s" "t \<noteq> idle_thread s" using assms(2) sched_invD(5,6) [OF assms(1)] by (auto simp: states_def)
  moreover have "t \<notin> set (ready a d)" for d using not_runnable_not_queued [OF assms(1)] assms(2) by (simp add: states_def)
  ultimately show "sched_inv (set_state t st s) a"
    using sched_invD [OF assms(1)] by (simp add: sched_inv_def rq_rel_set_state)
qed (simp add: states_def fun_eq_iff)

text \<open>The same for a call that has returned, with whatever fuel.\<close>

lemma block_moves:
  "Sched_block n st s = Ok s' \<Longrightarrow> sched_inv s a \<Longrightarrow> st \<noteq> STATE_RUNNABLE \<Longrightarrow> curthr s \<noteq> idle_thread s \<Longrightarrow>
   moves ((states s)(curthr s := st)) s s'"
  using moves_fuel [OF mono_fuel_ops(2)] block_step by blast

lemma receiver_moves:
  "Sched_portal_handoff_to_receiver n r s = Ok s' \<Longrightarrow> sched_inv s a \<Longrightarrow> curthr s \<noteq> idle_thread s \<Longrightarrow>
   states s r \<noteq> STATE_RUNNABLE \<Longrightarrow>
   moves ((states s)(curthr s := STATE_PORTAL_WAIT_FOR_RET, r := STATE_RUNNABLE)) s s'"
  using moves_fuel [OF mono_fuel_ops(4)] receiver_step by blast

lemma sender_moves:
  "Sched_portal_handoff_to_sender n r b s = Ok s' \<Longrightarrow> sched_inv s a \<Longrightarrow> curthr s \<noteq> idle_thread s \<Longrightarrow>
   states s r \<noteq> STATE_RUNNABLE \<Longrightarrow>
   moves ((states s)(curthr s := if b then STATE_RUNNABLE else STATE_PORTAL_WAIT_FOR_SND, r := STATE_RUNNABLE)) s s'"
  using moves_fuel [OF mono_fuel_ops(5)] sender_step by blast

lemma yield_moves: "threadyield n s = Ok s' \<Longrightarrow> sched_inv s a \<Longrightarrow> moves (states s) s s'"
  using moves_fuel [OF mono_fuel_ops(1)] yield_step by blast

lemma preempt_moves: "reschedule n off s = Ok s' \<Longrightarrow> sched_inv s a \<Longrightarrow> moves (states s) s s'"
  using moves_fuel [OF mono_fuel_ops(3)] preempt_step by blast

lemma unblock_moves:
  "threadunblock n t s = Ok s' \<Longrightarrow> sched_inv s a \<Longrightarrow> states s t \<noteq> STATE_RUNNABLE \<Longrightarrow>
   moves ((states s)(t := STATE_RUNNABLE)) s s'"
  using moves_fuel [OF mono_fuel_unblock] unblock_step by blast

subsection \<open>The queue of senders is a FIFO queue\<close>

lemma depq_next_link [simp]:
  "depq_next (upd_pt t (\<lambda>x. x\<lparr>nextInDEPQueue := v\<rparr>) p) = (depq_next p)(t := v)"
  by (auto simp: depq_next_def upd_pt_def)

lemma depq_next_same [simp]:
  "(\<And>x. nextInDEPQueue (f x) = nextInDEPQueue x) \<Longrightarrow> depq_next (upd_pt t f p) = depq_next p"
  "depq_next (set_service d i e p) = depq_next p" "depq_next (p\<lparr>sch := s\<rparr>) = depq_next p"
  by (auto simp: depq_next_def upd_pt_def set_service_def fun_eq_iff)

lemma scan_others_ok:
  "chain nx s xs \<Longrightarrow> t \<notin> set xs \<Longrightarrow> length xs < n \<Longrightarrow> i + length xs < 1000000 \<Longrightarrow>
   scan_others n nx t s i = Ok (i + length xs)"
proof (induction xs arbitrary: s n i)
  case Nil
  then show ?case by (cases n) auto
next
  case (Cons x xs)
  then obtain m where m: "n = Suc m" by (cases n) auto
  have "scan_others m nx t (nx x) (i + 1) = Ok (i + 1 + length xs)" using Cons.prems m by (intro Cons.IH) auto
  with Cons.prems m show ?case by auto
qed

lemma scan_senders_ok:
  "chain nx s xs \<Longrightarrow> distinct xs \<Longrightarrow> length xs < n \<Longrightarrow> i + length xs * (length xs - 1) div 2 < 1000000 \<Longrightarrow>
   scan_senders n nx s i = Ok ()"
proof (induction xs arbitrary: s n i)
  case Nil
  then show ?case by (cases n) auto
next
  case (Cons x xs)
  then obtain m where m: "n = Suc m" by (cases n) auto
  let ?k = "length xs"
  have "?k * Suc ?k div 2 = ?k + ?k * (?k - 1) div 2" by (cases ?k) auto
  then have "i + ?k + ?k * (?k - 1) div 2 < 1000000" using Cons.prems(4) by (simp add: mult.commute)
  moreover from this have "scan_others m nx x (nx x) i = Ok (i + ?k)" using Cons.prems m by (intro scan_others_ok) auto
  ultimately show ?case using Cons m by auto
qed

lemma small_queue: "k \<le> (1414::nat) \<Longrightarrow> k * (k - 1) div 2 < 1000000"
proof -
  assume "k \<le> 1414"
  then have "k * (k - 1) \<le> 1414 * 1413" by (intro mult_le_mono) auto
  then show ?thesis by simp
qed

lemma check_servicequeue_ok:
  "queue_of (depq_next p) (firstWaitingSender dep) l xs \<Longrightarrow> length xs < n \<Longrightarrow> length xs \<le> 1414 \<Longrightarrow>
   check_servicequeue n dep p = Ok ()"
  unfolding check_servicequeue_def queue_of_def using small_queue by (intro scan_senders_ok) auto

lemma check_notin_ok:
  "queue_of (depq_next p) (firstWaitingSender dep) l xs \<Longrightarrow> length xs < n \<Longrightarrow> t \<notin> set xs \<Longrightarrow>
   check_notin_servicequeue n dep t p = Ok ()"
  unfolding check_notin_servicequeue_def by (simp add: find_in_queue find_eq)

text \<open>Everything of the thread descriptors but the queue links.\<close>

definition unlinked :: "portals \<Rightarrow> tid \<Rightarrow> PortalThread" where
  "unlinked p t = (pt p t)\<lparr>nextInDEPQueue := None\<rparr>"

lemma upd_pt_simps [simp]:
  "sch (upd_pt t f p) = sch p" "services (upd_pt t f p) = services p" "domain_id (upd_pt t f p) = domain_id p"
  "pt (upd_pt t f p) = (pt p)(t := f (pt p t))"
  "sch (set_service d i e p) = sch p" "pt (set_service d i e p) = pt p" "domain_id (set_service d i e p) = domain_id p"
  "services (set_service d i e p) = (services p)(d := (services p d)(i := e))"
  by (simp_all add: upd_pt_def set_service_def)

lemma unlinked_same:
  assumes "unlinked p' = unlinked p"
  shows "blockedInDomain (pt p' t) = blockedInDomain (pt p t)"
    "blockedInServiceIndex (pt p' t) = blockedInServiceIndex (pt p t)"
    "blockedInServiceThread (pt p' t) = blockedInServiceThread (pt p t)"
    "processingDEP (pt p' t) = processingDEP (pt p t)"
    "mostRecentlyCalledBy (pt p' t) = mostRecentlyCalledBy (pt p t)"
    "callerDomain (pt p' t) = callerDomain (pt p t)" "callerDomainID (pt p' t) = callerDomainID (pt p t)"
    "portalReturn (pt p' t) = portalReturn (pt p t)" "portalReturnType (pt p' t) = portalReturnType (pt p t)"
    "resume_at (pt p' t) = resume_at (pt p t)"
proof -
  have "blockedInDomain (unlinked p' t) = blockedInDomain (unlinked p t)"
    "blockedInServiceIndex (unlinked p' t) = blockedInServiceIndex (unlinked p t)"
    "blockedInServiceThread (unlinked p' t) = blockedInServiceThread (unlinked p t)"
    "processingDEP (unlinked p' t) = processingDEP (unlinked p t)"
    "mostRecentlyCalledBy (unlinked p' t) = mostRecentlyCalledBy (unlinked p t)"
    "callerDomain (unlinked p' t) = callerDomain (unlinked p t)"
    "callerDomainID (unlinked p' t) = callerDomainID (unlinked p t)"
    "portalReturn (unlinked p' t) = portalReturn (unlinked p t)"
    "portalReturnType (unlinked p' t) = portalReturnType (unlinked p t)"
    "resume_at (unlinked p' t) = resume_at (unlinked p t)"
    by (simp_all only: assms)
  then show "blockedInDomain (pt p' t) = blockedInDomain (pt p t)"
    "blockedInServiceIndex (pt p' t) = blockedInServiceIndex (pt p t)"
    "blockedInServiceThread (pt p' t) = blockedInServiceThread (pt p t)"
    "processingDEP (pt p' t) = processingDEP (pt p t)"
    "mostRecentlyCalledBy (pt p' t) = mostRecentlyCalledBy (pt p t)"
    "callerDomain (pt p' t) = callerDomain (pt p t)"
    "callerDomainID (pt p' t) = callerDomainID (pt p t)"
    "portalReturn (pt p' t) = portalReturn (pt p t)"
    "portalReturnType (pt p' t) = portalReturnType (pt p t)"
    "resume_at (pt p' t) = resume_at (pt p t)"
    by (simp_all add: unlinked_def)
qed

text \<open>What the queue operations do, once the checks have passed.\<close>

lemma add_sender_effect:
  assumes "portal_add_sender n d i t p = Ok p'" "services p d i = Service dep"
    "queue_of (depq_next p) (firstWaitingSender dep) (lastWaitingSender dep) xs" "t \<notin> set xs"
  shows "\<exists>f l. services p' = (services p)(d := (services p d)(i := Service (dep\<lparr>firstWaitingSender := f, lastWaitingSender := l\<rparr>)))
      \<and> queue_of (depq_next p') f l (xs @ [t])"
    and "sch p' = sch p" "domain_id p' = domain_id p" "unlinked p' = unlinked p"
    and "x \<notin> set xs \<Longrightarrow> x \<noteq> t \<Longrightarrow> depq_next p' x = depq_next p x"
proof -
  have l: "lastWaitingSender dep = (if xs = [] then None else Some (last xs))" and
    f: "firstWaitingSender dep = (if xs = [] then None else Some (hd xs))"
    using queue_of_last [OF assms(3)] queue_of_first [OF assms(3)] .
  define p2 where "p2 = (if xs = [] then upd_pt t (\<lambda>x. x\<lparr>nextInDEPQueue := None\<rparr>) p
     else upd_pt (last xs) (\<lambda>x. x\<lparr>nextInDEPQueue := Some t\<rparr>) (upd_pt t (\<lambda>x. x\<lparr>nextInDEPQueue := None\<rparr>) p))"
  define fs where "fs = (if xs = [] then Some t else firstWaitingSender dep)"
  define dep2 where "dep2 = dep\<lparr>firstWaitingSender := fs, lastWaitingSender := Some t\<rparr>"
  have p': "p' = set_service d i (Service dep2) p2"
    using assms(1,2) l by (auto simp: portal_add_sender_def get_service_def Let_def p2_def dep2_def fs_def split: option.splits if_splits)
  have ne: "t \<noteq> last xs" if "xs \<noteq> []" using assms(4) that by auto
  have q: "queue_of (depq_next p2) fs (Some t) (xs @ [t])"
  proof (cases "xs = []")
    case True
    then show ?thesis using queue_of_append_Nil [of "depq_next p" t] by (simp add: p2_def fs_def)
  next
    case False
    with queue_of_append [OF assms(3) False assms(4)] show ?thesis by (simp add: p2_def fs_def)
  qed
  show "\<exists>f l. services p' = (services p)(d := (services p d)(i := Service (dep\<lparr>firstWaitingSender := f, lastWaitingSender := l\<rparr>)))
      \<and> queue_of (depq_next p') f l (xs @ [t])"
    using q by (intro exI [of _ fs] exI [of _ "Some t"]) (auto simp: p' dep2_def p2_def)
  show "sch p' = sch p" "domain_id p' = domain_id p" by (simp_all add: p' p2_def)
  show "unlinked p' = unlinked p" using ne by (auto simp: p' p2_def unlinked_def fun_eq_iff)
  show "depq_next p' x = depq_next p x" if "x \<notin> set xs" "x \<noteq> t" using that by (auto simp: p' p2_def)
qed

lemma dequeue_effect:
  assumes "portal_dequeue_sender d i p = Ok (r, p')" "services p d i = Service dep"
    "queue_of (depq_next p) (firstWaitingSender dep) (lastWaitingSender dep) xs"
  shows "r = None \<Longrightarrow> xs = [] \<and> p' = p"
    and "r = Some t \<Longrightarrow> \<exists>ys f l. xs = t # ys
      \<and> services p' = (services p)(d := (services p d)(i := Service (dep\<lparr>firstWaitingSender := f, lastWaitingSender := l\<rparr>)))
      \<and> queue_of (depq_next p') f l ys \<and> sch p' = sch p \<and> domain_id p' = domain_id p \<and> unlinked p' = unlinked p
      \<and> (\<forall>x. x \<noteq> t \<longrightarrow> depq_next p' x = depq_next p x)"
proof -
  have f: "firstWaitingSender dep = (if xs = [] then None else Some (hd xs))" by (rule queue_of_first [OF assms(3)])
  show "r = None \<Longrightarrow> xs = [] \<and> p' = p" using assms(1,2) f by (auto simp: portal_dequeue_sender_def get_service_def Let_def split: if_splits)
  assume r: "r = Some t"
  then obtain ys where xs: "xs = t # ys" using assms(1,2) f
    by (cases xs) (auto simp: portal_dequeue_sender_def get_service_def Let_def)
  from queue_of_remove [OF assms(3) [unfolded xs]]
  have q: "queue_of ((depq_next p)(t := None)) (depq_next p t) (if ys = [] then None else lastWaitingSender dep) ys" .
  have "depq_next p t = None \<longleftrightarrow> ys = []" using queue_of_first [OF q] by auto
  with q have "queue_of ((depq_next p)(t := None)) (depq_next p t) (if depq_next p t = None then None else lastWaitingSender dep) ys"
    by simp
  then show "\<exists>ys f l. xs = t # ys
      \<and> services p' = (services p)(d := (services p d)(i := Service (dep\<lparr>firstWaitingSender := f, lastWaitingSender := l\<rparr>)))
      \<and> queue_of (depq_next p') f l ys \<and> sch p' = sch p \<and> domain_id p' = domain_id p \<and> unlinked p' = unlinked p
      \<and> (\<forall>x. x \<noteq> t \<longrightarrow> depq_next p' x = depq_next p x)"
    using assms(1,2) f xs
    by (auto simp: portal_dequeue_sender_def get_service_def Let_def unlinked_def fun_eq_iff simp del: fun_upd_apply intro!: exI) auto
qed

text \<open>Threads \<open>0\<close> to \<open>N - 1\<close>, at most 1414 of them.\<close>

definition sender_queue :: "nat \<Rightarrow> did \<Rightarrow> nat \<Rightarrow> portals \<Rightarrow> tid list \<Rightarrow> bool" where
  "sender_queue N d i p xs \<longleftrightarrow> (\<exists>dep. services p d i = Service dep \<and>
     queue_of (depq_next p) (firstWaitingSender dep) (lastWaitingSender dep) xs) \<and> set xs \<subseteq> {..<N} \<and> N \<le> 1414"

lemma sender_queue_length: "sender_queue N d i p xs \<Longrightarrow> length xs \<le> N"
proof -
  assume q: "sender_queue N d i p xs"
  then have "distinct xs" using queue_of_distinct unfolding sender_queue_def by blast
  then have "length xs = card (set xs)" by (simp add: distinct_card)
  also have "\<dots> \<le> N" using q card_mono [of "{..<N}" "set xs"] by (simp add: sender_queue_def)
  finally show ?thesis .
qed

lemma add_sender_ok:
  assumes "services p d i = Service dep" "queue_of (depq_next p) (firstWaitingSender dep) (lastWaitingSender dep) xs"
    "t \<notin> set xs" "length xs + 1 < n" "length xs < 1414"
  shows "\<exists>p'. portal_add_sender n d i t p = Ok p'"
proof -
  define p2 where "p2 = (if xs = [] then upd_pt t (\<lambda>x. x\<lparr>nextInDEPQueue := None\<rparr>) p
     else upd_pt (last xs) (\<lambda>x. x\<lparr>nextInDEPQueue := Some t\<rparr>) (upd_pt t (\<lambda>x. x\<lparr>nextInDEPQueue := None\<rparr>) p))"
  define dep2 where "dep2 = dep\<lparr>firstWaitingSender := (if xs = [] then Some t else firstWaitingSender dep), lastWaitingSender := Some t\<rparr>"
  have "queue_of (depq_next (set_service d i (Service dep2) p2)) (firstWaitingSender dep2) (Some t) (xs @ [t])"
  proof (cases "xs = []")
    case True
    then show ?thesis using queue_of_append_Nil [of "depq_next p" t] by (simp add: p2_def dep2_def)
  next
    case False
    then show ?thesis using queue_of_append [OF assms(2) False assms(3)] by (simp add: p2_def dep2_def)
  qed
  then have "check_servicequeue n dep2 (set_service d i (Service dep2) p2) = Ok ()"
    using assms(4,5) by (intro check_servicequeue_ok) auto
  moreover have "check_servicequeue n dep p = Ok ()" "check_notin_servicequeue n dep t p = Ok ()"
    using check_servicequeue_ok [OF assms(2)] check_notin_ok [OF assms(2)] assms(3-5) by auto
  ultimately show ?thesis
    using assms(1) queue_of_last [OF assms(2)] unfolding p2_def dep2_def
    by (cases "xs = []") (auto simp: portal_add_sender_def get_service_def Let_def)
qed

interpretation sq: fifo_queue "sender_queue N d i" "\<lambda>p t. t < N" "portal_add_sender (N + 2) d i" "portal_dequeue_sender d i" for N d i
proof unfold_locales
  fix p xs t
  assume q: "sender_queue N d i p xs" "t \<notin> set xs" "t < N"
  then obtain dep where dep: "services p d i = Service dep"
    "queue_of (depq_next p) (firstWaitingSender dep) (lastWaitingSender dep) xs"
    by (auto simp: sender_queue_def)
  have "distinct (t # xs)" using queue_of_distinct [OF dep(2)] q(2) by simp
  then have "length (t # xs) = card (set (t # xs))" by (simp add: distinct_card)
  also have "\<dots> \<le> N" using q card_mono [of "{..<N}" "set (t # xs)"] by (simp add: sender_queue_def)
  finally obtain p' where p': "portal_add_sender (N + 2) d i t p = Ok p'"
    using add_sender_ok [OF dep q(2), of "N + 2"] q(1) by (auto simp: sender_queue_def)
  have "sender_queue N d i p' (xs @ [t])"
    using add_sender_effect(1) [OF p' dep q(2)] q unfolding sender_queue_def by auto
  with p' show "\<exists>s'. portal_add_sender (N + 2) d i t p = Ok s' \<and> sender_queue N d i s' (xs @ [t]) \<and> (\<lambda>t. t < N) = (\<lambda>t. t < N)"
    by blast
next
  fix p
  assume "sender_queue N d i p []"
  then show "portal_dequeue_sender d i p = Ok (None, p)"
    by (auto simp: sender_queue_def portal_dequeue_sender_def get_service_def)
next
  fix p t xs
  assume q: "sender_queue N d i p (t # xs)" "t < N"
  then obtain dep where dep: "services p d i = Service dep"
    "queue_of (depq_next p) (firstWaitingSender dep) (lastWaitingSender dep) (t # xs)"
    by (auto simp: sender_queue_def)
  obtain p' where p': "portal_dequeue_sender d i p = Ok (Some t, p')"
    using dep queue_of_first [OF dep(2)] by (auto simp: portal_dequeue_sender_def get_service_def Let_def)
  have "sender_queue N d i p' xs"
    using dequeue_effect(2) [OF p' dep] q(1) unfolding sender_queue_def by auto
  with p' show "\<exists>s'. portal_dequeue_sender d i p = Ok (Some t, s') \<and> sender_queue N d i s' xs \<and> (\<lambda>t. t < N) = (\<lambda>t. t < N)"
    by blast
qed

text \<open>Removing the last waiting sender leaves \<^verbatim>\<open>lastWaitingSender\<close> pointing at it.  When it was the only one, the next caller
  is linked behind the removed thread and no receiver will ever find it.\<close>

lemma remove_only_sender_loses_next:
  assumes "services p d i = Service dep" "queue_of (depq_next p) (firstWaitingSender dep) (lastWaitingSender dep) [t]"
    "u \<noteq> t" "0 < n"
  shows "\<exists>p1 p2. portal_remove_sender n d i t p = Ok p1 \<and> portal_add_sender n d i u p1 = Ok p2 \<and>
    depq_next p2 t = Some u \<and> portal_dequeue_sender d i p2 = Ok (None, p2)"
proof -
  have f: "firstWaitingSender dep = Some t" "lastWaitingSender dep = Some t" "depq_next p t = None"
    using assms(2) by (auto simp: queue_of_def)
  obtain m where n: "n = Suc m" using assms(4) by (cases n) auto
  define p1 where "p1 = set_service d i (Service (dep\<lparr>firstWaitingSender := None\<rparr>)) p"
  have "portal_remove_sender n d i t p = Ok p1"
    using assms(1) f by (simp add: portal_remove_sender_def get_service_def n p1_def)
  moreover define p2 where "p2 = set_service d i (Service (dep\<lparr>firstWaitingSender := None, lastWaitingSender := Some u\<rparr>))
    (upd_pt t (\<lambda>x. x\<lparr>nextInDEPQueue := Some u\<rparr>) (upd_pt u (\<lambda>x. x\<lparr>nextInDEPQueue := None\<rparr>) p1))"
  have "portal_add_sender n d i u p1 = Ok p2"
    using f by (simp add: portal_add_sender_def get_service_def Let_def p1_def p2_def n check_servicequeue_def check_notin_servicequeue_def)
  moreover have "depq_next p2 t = Some u" by (simp add: p2_def)
  moreover have "portal_dequeue_sender d i p2 = Ok (None, p2)"
    by (simp add: portal_dequeue_sender_def get_service_def p2_def)
  ultimately show ?thesis by blast
qed

subsection \<open>Service table: properties\<close>

lemma free_entry_spec:
  "i \<le> MAX_SERVICES \<Longrightarrow> free_entry tab i \<le> MAX_SERVICES \<and> (\<forall>j. i \<le> j \<and> j < free_entry tab i \<longrightarrow> tab j \<noteq> SERVICE_ENTRY_FREE) \<and>
   (free_entry tab i < MAX_SERVICES \<longrightarrow> tab (free_entry tab i) = SERVICE_ENTRY_FREE)"
proof (induction tab i rule: free_entry.induct)
  case (1 tab i)
  show ?case
  proof (cases "i < MAX_SERVICES \<and> tab i \<noteq> SERVICE_ENTRY_FREE")
    case True
    then have "free_entry tab i = free_entry tab (i + 1)" by (subst free_entry.simps) simp
    moreover have "j = i \<or> i + 1 \<le> j" if "i \<le> j" for j using that by auto
    ultimately show ?thesis using 1 True by (metis Suc_eq_plus1 Suc_leI)
  next
    case False
    then have "free_entry tab i = i" by (subst free_entry.simps) auto
    then show ?thesis using False 1(2) by auto
  qed
qed

text \<open>A new service takes the first free entry and changes no other; the kernel panics exactly when there is none.\<close>

lemma createService_spec:
  "createService d obj iface p = Ok (i, p') \<Longrightarrow> i < MAX_SERVICES \<and> services p d i = SERVICE_ENTRY_FREE \<and>
     (\<exists>dep. services p' = (services p)(d := (services p d)(i := Service dep)) \<and> dep_obj dep = obj \<and> serviceIndex dep = i \<and>
        queue_of (depq_next p') (firstWaitingSender dep) (lastWaitingSender dep) [])"
  "(\<exists>i < MAX_SERVICES. services p d i = SERVICE_ENTRY_FREE) \<longleftrightarrow> is_ok (createService d obj iface p)"
  using free_entry_spec [of 0 "services p d"]
  by (auto simp: createService_def Let_def le_less split: if_splits)

text \<open>When the last entry of the table is in use for another object, the search does not notice that it found nothing: an object
  without a service gets that other object's service.\<close>

lemma promo_lookup_last_entry:
  assumes "tab (MAX_SERVICES - 1) = Service ldep" "\<forall>j dep. i \<le> j \<and> j < MAX_SERVICES \<and> tab j = Service dep \<longrightarrow> dep_obj dep \<noteq> obj"
    "i < MAX_SERVICES"
  shows "promo_lookup tab obj i found = Some ldep"
  using assms
proof (induction tab obj i found rule: promo_lookup.induct)
  case (1 tab obj i found)
  show ?case
  proof (cases "i = MAX_SERVICES - 1")
    case True
    then show ?thesis using "1.prems" by (subst promo_lookup.simps) (auto simp: promo_lookup.simps [of tab obj 1500] MAX_SERVICES_def)
  next
    case False
    then have i: "i + 1 < MAX_SERVICES" using "1.prems"(3) by auto
    have nx: "\<forall>j dep. i + 1 \<le> j \<and> j < MAX_SERVICES \<and> tab j = Service dep \<longrightarrow> dep_obj dep \<noteq> obj" using "1.prems"(2) by (metis add_leD1)
    have here: "tab i = Service dep \<Longrightarrow> dep_obj dep \<noteq> obj" for dep using "1.prems"(2) [rule_format, of i dep] i by simp
    show ?thesis using "1.IH" "1.prems"(1) i nx here by (subst promo_lookup.simps) (auto split: service_entry.splits)
  qed
qed

end
