(* ===== verification/Portal_Runs.thy ===== *)
theory Portal_Runs
  imports Portals
begin

section \<open>Runs of portal calls\<close>

text \<open>
  The invariant of the portal mechanism together with the scheduler, its preservation by every portal operation
  and by the scheduling steps between them, and what follows for all reachable states.  Interrupts are left out
  of the interleavings; blocking stands for any wait a thread enters by itself.
\<close>

subsection \<open>The invariant of portal calls\<close>

definition calling :: "portals \<Rightarrow> tid \<Rightarrow> bool" where
  "calling p t \<longleftrightarrow> resume_at (pt p t) = SendBlock \<or> resume_at (pt p t) = SendHandoff"

definition in_loop :: "portals \<Rightarrow> tid \<Rightarrow> bool" where
  "in_loop p t \<longleftrightarrow> resume_at (pt p t) = RecvBlock \<or> resume_at (pt p t) = RecvLoop"

definition serving :: "portals \<Rightarrow> tid \<Rightarrow> tid \<Rightarrow> bool" where
  "serving p r t \<longleftrightarrow> \<not> in_loop p r \<and> mostRecentlyCalledBy (pt p r) = Some t"

definition receives :: "portals \<Rightarrow> tid \<Rightarrow> did \<Rightarrow> nat \<Rightarrow> bool" where
  "receives p r d i \<longleftrightarrow> (\<exists>svc. services p d i = Service svc \<and> receiver svc = Some r)"

abbreviation td :: "portals \<Rightarrow> tid \<Rightarrow> did" where
  "td p t \<equiv> t_domain (thr (sch p) t)"

abbreviation st :: "portals \<Rightarrow> tid \<Rightarrow> u4" where
  "st p t \<equiv> states (sch p) t"

text \<open>\<open>W d i\<close> lists the callers queued at service \<open>i\<close> of domain \<open>d\<close>.\<close>

definition queues_ok :: "portals \<Rightarrow> (did \<Rightarrow> nat \<Rightarrow> tid list) \<Rightarrow> bool" where
  "queues_ok p W \<longleftrightarrow> (\<forall>d i svc. services p d i = Service svc \<longrightarrow>
     queue_of (depq_next p) (firstWaitingSender svc) (lastWaitingSender svc) (W d i) \<and> dep_valid svc \<noteq> 0 \<and> abortFlag svc \<noteq> 1)"

definition waiting_ok :: "portals \<Rightarrow> (did \<Rightarrow> nat \<Rightarrow> tid list) \<Rightarrow> bool" where
  "waiting_ok p W \<longleftrightarrow> (\<forall>d i t. t \<in> set (W d i) \<longleftrightarrow> calling p t \<and> blockedInDomain (pt p t) = Some d
       \<and> blockedInServiceIndex (pt p t) = i \<and> blockedInServiceThread (pt p t) = None) \<and>
     (\<forall>d i t. t \<in> set (W d i) \<longrightarrow>
       st p t = (if resume_at (pt p t) = SendBlock then STATE_PORTAL_WAIT_FOR_RCV else STATE_PORTAL_WAIT_FOR_RET))"

definition callers_ok :: "portals \<Rightarrow> bool" where
  "callers_ok p \<longleftrightarrow> (\<forall>t. calling p t \<longrightarrow> (\<exists>d svc. blockedInDomain (pt p t) = Some d \<and> d \<noteq> td p t \<and>
     services p d (blockedInServiceIndex (pt p t)) = Service svc \<and>
     (\<forall>r. blockedInServiceThread (pt p t) = Some r \<longrightarrow> st p t = STATE_RUNNABLE \<or> serving p r t)))"

definition serving_calls_ok :: "portals \<Rightarrow> bool" where
  "serving_calls_ok p \<longleftrightarrow> (\<forall>r t. serving p r t \<longrightarrow> calling p t \<and> blockedInServiceThread (pt p t) = Some r \<and>
       st p t = STATE_PORTAL_WAIT_FOR_RET \<and> blockedInDomain (pt p t) = Some (td p r) \<and>
       processingDEP (pt p r) = Some (td p r, blockedInServiceIndex (pt p t)) \<and>
       receives p r (td p r) (blockedInServiceIndex (pt p t)) \<and>
       callerDomain (pt p r) = Some (td p t) \<and> callerDomainID (pt p r) = domain_id p (td p t)) \<and>
     (\<forall>r. \<not> in_loop p r \<longrightarrow> processingDEP (pt p r) \<noteq> None \<longrightarrow> mostRecentlyCalledBy (pt p r) \<noteq> None)"

definition receiver_ok :: "portals \<Rightarrow> tid list \<Rightarrow> did \<Rightarrow> tid \<Rightarrow> bool" where
  "receiver_ok p ws d r \<longleftrightarrow> td p r = d \<and> r \<noteq> idle_thread (sch p) \<and>
     (if in_loop p r then st p r = STATE_RUNNABLE \<or> st p r = STATE_PORTAL_WAIT_FOR_SND \<and> ws = []
      else st p r \<noteq> STATE_PORTAL_WAIT_FOR_SND \<and> mostRecentlyCalledBy (pt p r) \<noteq> None)"

definition receivers_ok :: "portals \<Rightarrow> (did \<Rightarrow> nat \<Rightarrow> tid list) \<Rightarrow> bool" where
  "receivers_ok p W \<longleftrightarrow> (\<forall>d i svc. services p d i = Service svc \<longrightarrow> (\<exists>r. receiver svc = Some r)) \<and>
     (\<forall>d i r. receives p r d i \<longrightarrow> receiver_ok p (W d i) d r) \<and>
     (\<forall>r d i d' i'. receives p r d i \<longrightarrow> receives p r d' i' \<longrightarrow> d = d' \<and> i = i') \<and>
     (\<forall>r. in_loop p r \<longrightarrow> (\<exists>d i. receives p r d i))"

definition threads_ok :: "portals \<Rightarrow> bool" where
  "threads_ok p \<longleftrightarrow> resume_at (pt p (idle_thread (sch p))) = InJava \<and>
     (\<forall>t. d_state (dom (sch p) (td p t)) = DOMAIN_STATE_ACTIVE) \<and>
     (\<forall>t. \<not> calling p t \<longrightarrow> blockedInServiceThread (pt p t) = None)"

definition portal_inv :: "portals \<Rightarrow> (did \<Rightarrow> nat \<Rightarrow> tid list) \<Rightarrow> bool" where
  "portal_inv p W \<longleftrightarrow> (\<exists>a. sched_inv (sch p) a) \<and> queues_ok p W \<and> waiting_ok p W \<and> callers_ok p \<and>
     serving_calls_ok p \<and> receivers_ok p W \<and> threads_ok p"

lemmas portal_inv_defs = queues_ok_def waiting_ok_def callers_ok_def serving_calls_ok_def receivers_ok_def threads_ok_def

lemma portal_invD:
  assumes "portal_inv p W"
  shows "\<exists>a. sched_inv (sch p) a" "queues_ok p W" "waiting_ok p W" "callers_ok p" "serving_calls_ok p"
    "receivers_ok p W" "threads_ok p"
  using assms by (simp_all add: portal_inv_def)

lemma me_runnable: "portal_inv p W \<Longrightarrow> st p (me p) = STATE_RUNNABLE"
  using portal_invD(1) sched_invD(5) unfolding states_def by blast

lemma waiting_not_runnable: "waiting_ok p W \<Longrightarrow> t \<in> set (W d i) \<Longrightarrow> st p t \<noteq> STATE_RUNNABLE"
  unfolding waiting_ok_def by (auto simp: thread_states)

lemma served_not_runnable: "serving_calls_ok p \<Longrightarrow> serving p r t \<Longrightarrow> st p t \<noteq> STATE_RUNNABLE"
  unfolding serving_calls_ok_def by (auto simp: thread_states)

lemma waiting_iff:
  "waiting_ok p W \<Longrightarrow> t \<in> set (W d i) \<longleftrightarrow> calling p t \<and> blockedInDomain (pt p t) = Some d
     \<and> blockedInServiceIndex (pt p t) = i \<and> blockedInServiceThread (pt p t) = None"
  unfolding waiting_ok_def by blast

lemma waiting_state:
  "waiting_ok p W \<Longrightarrow> t \<in> set (W d i) \<Longrightarrow>
   st p t = (if resume_at (pt p t) = SendBlock then STATE_PORTAL_WAIT_FOR_RCV else STATE_PORTAL_WAIT_FOR_RET)"
  unfolding waiting_ok_def by blast

lemma waiting_okI:
  assumes "\<And>d i t. t \<in> set (W d i) \<longleftrightarrow> calling p t \<and> blockedInDomain (pt p t) = Some d
     \<and> blockedInServiceIndex (pt p t) = i \<and> blockedInServiceThread (pt p t) = None"
    and "\<And>d i t. t \<in> set (W d i) \<Longrightarrow>
      st p t = (if resume_at (pt p t) = SendBlock then STATE_PORTAL_WAIT_FOR_RCV else STATE_PORTAL_WAIT_FOR_RET)"
  shows "waiting_ok p W"
  unfolding waiting_ok_def using assms by blast

lemma receiverD: "receivers_ok p W \<Longrightarrow> receives p r d i \<Longrightarrow> receiver_ok p (W d i) d r"
  unfolding receivers_ok_def by blast

text \<open>The receivers stay who they are.\<close>

lemma receivers_okI:
  assumes "receivers_ok p W" "receives q = receives p" "\<And>d i svc. services q d i = Service svc \<Longrightarrow> receiver svc \<noteq> None"
    "\<And>r. in_loop q r \<Longrightarrow> in_loop p r \<or> (\<exists>d i. receives p r d i)"
    "\<And>d i r. receives p r d i \<Longrightarrow> receiver_ok p (W d i) d r \<Longrightarrow> receiver_ok q (W' d i) d r"
  shows "receivers_ok q W'"
proof -
  note R = assms(1) [unfolded receivers_ok_def]
  have "\<exists>d i. receives p r d i" if "in_loop q r" for r using assms(4) [OF that] R by blast
  moreover have "\<exists>r. receiver svc = Some r" if "services q d i = Service svc" for d i svc using assms(3) [OF that] by blast
  moreover have "receiver_ok q (W' d i) d r" if "receives p r d i" for d i r using assms(5) [OF that] R that by blast
  moreover have "\<forall>r d i d' i'. receives p r d i \<longrightarrow> receives p r d' i' \<longrightarrow> d = d' \<and> i = i'" using R by (elim conjE)
  ultimately show ?thesis unfolding receivers_ok_def assms(2) by simp
qed

text \<open>The threads of different queues differ.\<close>

lemma queues_disjoint: "waiting_ok p W \<Longrightarrow> t \<in> set (W d i) \<Longrightarrow> t \<in> set (W e j) \<Longrightarrow> d = e \<and> i = j"
  unfolding waiting_ok_def by auto

text \<open>Steps of the scheduler that only change the states of threads outside portal calls.\<close>

lemma states_step:
  assumes inv: "portal_inv p W" and mv: "moves f (sch p) s'"
    and same: "\<And>t. t \<noteq> u \<Longrightarrow> f t = st p t" and u: "resume_at (pt p u) = InJava" "f u \<noteq> STATE_PORTAL_WAIT_FOR_SND"
  shows "portal_inv (p\<lparr>sch := s'\<rparr>) W"
proof -
  let ?p = "p\<lparr>sch := s'\<rparr>"
  note D = portal_invD [OF inv]
  have nc: "\<not> calling p u" "\<not> in_loop p u" using u by (simp_all add: calling_def in_loop_def)
  have eq: "calling ?p = calling p" "in_loop ?p = in_loop p" "serving ?p = serving p" "receives ?p = receives p"
    "depq_next ?p = depq_next p"
    by (auto simp: calling_def in_loop_def serving_def receives_def fun_eq_iff)
  have s: "states s' = f" "\<And>t. t_domain (thr s' t) = td p t" "idle_thread s' = idle_thread (sch p)"
    "\<And>d. d_state (dom s' d) = d_state (dom (sch p) d)" "\<exists>a. sched_inv s' a"
    using mv by (simp_all add: moves_def)
  have w: "f t = st p t" if "t \<in> set (W d i)" for t d i
  proof -
    have "calling p t" using D(3) that by (simp add: waiting_ok_def)
    then show ?thesis using nc same by metis
  qed
  have v: "f t = st p t" if "serving p r t" for r t
  proof -
    have "calling p t" using D(5) that by (simp add: serving_calls_ok_def)
    then show ?thesis using nc same by metis
  qed
  have c: "f t = st p t" if "calling p t" for t using nc same that by metis
  have l: "f t = st p t" if "in_loop p t" for t using nc same that by metis
  have n: "f t \<noteq> STATE_PORTAL_WAIT_FOR_SND" if "st p t \<noteq> STATE_PORTAL_WAIT_FOR_SND" for t
    using u same that by metis
  have "queues_ok ?p W" using D(2) by (simp add: queues_ok_def)
  moreover have "waiting_ok ?p W" using D(3) by (simp add: waiting_ok_def eq s w)
  moreover have "callers_ok ?p" using D(4) by (simp add: callers_ok_def eq s c)
  moreover have "serving_calls_ok ?p" using D(5) by (simp add: serving_calls_ok_def eq s v)
  moreover have "receivers_ok ?p W" using D(6) n by (auto simp: receivers_ok_def receiver_ok_def eq s l)
  moreover have "threads_ok ?p" using D(7) by (simp add: threads_ok_def eq s)
  ultimately show ?thesis using s(5) by (simp add: portal_inv_def)
qed

text \<open>A runnable caller leaves the call.\<close>

lemma leave_call:
  assumes inv: "portal_inv p W" and c: "st p c = STATE_RUNNABLE" "\<not> in_loop p c"
    and x: "resume_at x = InJava" "blockedInServiceThread x = None" "nextInDEPQueue x = nextInDEPQueue (pt p c)"
      "mostRecentlyCalledBy x = mostRecentlyCalledBy (pt p c)" "processingDEP x = processingDEP (pt p c)"
      "callerDomain x = callerDomain (pt p c)" "callerDomainID x = callerDomainID (pt p c)"
  shows "portal_inv (p\<lparr>pt := (pt p)(c := x)\<rparr>) W"
proof -
  let ?p = "p\<lparr>pt := (pt p)(c := x)\<rparr>"
  note D = portal_invD [OF inv]
  have w: "c \<notin> set (W d i)" for d i using waiting_not_runnable [OF D(3)] c by blast
  have v: "\<not> serving p r c" for r using served_not_runnable [OF D(5)] c by blast
  have eq: "in_loop ?p = in_loop p" "receives ?p = receives p" "depq_next ?p = depq_next p" "serving ?p = serving p"
    "\<And>t. calling ?p t \<longleftrightarrow> t \<noteq> c \<and> calling p t"
    using c x by (auto simp: in_loop_def receives_def depq_next_def serving_def calling_def fun_eq_iff)
  have "queues_ok ?p W" using D(2) by (simp add: queues_ok_def eq)
  moreover have "waiting_ok ?p W"
  proof (rule waiting_okI)
    fix d i t
    show "t \<in> set (W d i) \<longleftrightarrow> calling ?p t \<and> blockedInDomain (pt ?p t) = Some d
       \<and> blockedInServiceIndex (pt ?p t) = i \<and> blockedInServiceThread (pt ?p t) = None"
      using w waiting_iff [OF D(3), of t d i] by (cases "t = c") (simp_all add: eq)
    assume "t \<in> set (W d i)"
    moreover from this w have "t \<noteq> c" by auto
    ultimately show "st ?p t = (if resume_at (pt ?p t) = SendBlock then STATE_PORTAL_WAIT_FOR_RCV else STATE_PORTAL_WAIT_FOR_RET)"
      using waiting_state [OF D(3)] by simp
  qed
  moreover have "callers_ok ?p" using D(4) by (simp add: callers_ok_def eq)
  moreover have "serving_calls_ok ?p"
    unfolding serving_calls_ok_def
  proof (intro conjI allI impI)
    fix r t assume s: "serving ?p r t"
    then have "t \<noteq> c" using v eq by auto
    with s D(5) x show "calling ?p t" "blockedInServiceThread (pt ?p t) = Some r" "st ?p t = STATE_PORTAL_WAIT_FOR_RET"
      "blockedInDomain (pt ?p t) = Some (td ?p r)"
      "processingDEP (pt ?p r) = Some (td ?p r, blockedInServiceIndex (pt ?p t))"
      "receives ?p r (td ?p r) (blockedInServiceIndex (pt ?p t))"
      "callerDomain (pt ?p r) = Some (td ?p t)" "callerDomainID (pt ?p r) = domain_id ?p (td ?p t)"
      by (auto simp: serving_calls_ok_def eq)
  next
    fix r assume "\<not> in_loop ?p r" "processingDEP (pt ?p r) \<noteq> None"
    then show "mostRecentlyCalledBy (pt ?p r) \<noteq> None" using D(5) x unfolding serving_calls_ok_def eq by (cases "r = c") auto
  qed
  moreover have "receivers_ok ?p W"
    by (rule receivers_okI [OF D(6)]) (use D(6) x in \<open>auto simp: eq receiver_ok_def receivers_ok_def\<close>)
  moreover have "threads_ok ?p" using D(7) x by (auto simp: threads_ok_def eq)
  ultimately show ?thesis using D(1) by (simp add: portal_inv_def)
qed

lemma send_finished_inv:
  assumes "portal_inv p W" "\<not> in_loop p (me p)" "send_finished p = Ok (r, p')"
  shows "portal_inv p' W"
proof -
  note c = me_runnable [OF assms(1)]
  have "\<exists>x. p' = p\<lparr>pt := (pt p)(me p := x)\<rparr> \<and> resume_at x = InJava \<and> blockedInServiceThread x = None \<and>
    nextInDEPQueue x = nextInDEPQueue (pt p (me p)) \<and> mostRecentlyCalledBy x = mostRecentlyCalledBy (pt p (me p)) \<and>
    processingDEP x = processingDEP (pt p (me p)) \<and> callerDomain x = callerDomain (pt p (me p)) \<and>
    callerDomainID x = callerDomainID (pt p (me p))"
    using assms(3) by (auto simp: send_finished_def Let_def upd_pt_def split: if_splits)
  then show ?thesis using leave_call [OF assms(1) c assms(2)] by auto
qed

lemma resume_id: "portal_inv p W \<Longrightarrow> p\<lparr>sch := Sched_block_resume (sch p)\<rparr> = p"
  using portal_invD(1) Sched_block_resume_id by fastforce

lemma send_resume_inv:
  assumes "portal_inv p W" "calling p (me p)" "send_resume n p = Ok (r, p')"
  shows "portal_inv p' W"
proof -
  have "\<not> in_loop p (me p)" using assms(2) by (auto simp: calling_def in_loop_def)
  moreover have "send_finished p = Ok (r, p')"
    using assms(3) resume_id [OF assms(1)]
    by (auto simp: send_resume_def Let_def on_sched_def Sched_portal_handoff_resume_def split: if_splits option.splits)
  ultimately show ?thesis using send_finished_inv assms(1) by blast
qed

lemma fields_unlinked:
  "blockedInDomain (pt p t) = blockedInDomain (unlinked p t)"
  "blockedInServiceIndex (pt p t) = blockedInServiceIndex (unlinked p t)"
  "blockedInServiceThread (pt p t) = blockedInServiceThread (unlinked p t)"
  "processingDEP (pt p t) = processingDEP (unlinked p t)"
  "mostRecentlyCalledBy (pt p t) = mostRecentlyCalledBy (unlinked p t)"
  "callerDomain (pt p t) = callerDomain (unlinked p t)" "callerDomainID (pt p t) = callerDomainID (unlinked p t)"
  "portalReturn (pt p t) = portalReturn (unlinked p t)" "portalReturnType (pt p t) = portalReturnType (unlinked p t)"
  "resume_at (pt p t) = resume_at (unlinked p t)"
  by (simp_all add: unlinked_def)

text \<open>The other queues do not see a change of links outside them.\<close>

lemma queues_okI:
  assumes "queues_ok p W" "waiting_ok p W"
    and "services q = (services p)(d := (services p d)(i := Service (dep\<lparr>firstWaitingSender := f, lastWaitingSender := l\<rparr>)))"
    and "services p d i = Service dep" "queue_of (depq_next q) f l ws"
    and "\<And>e j x. (e, j) \<noteq> (d, i) \<Longrightarrow> x \<in> set (W e j) \<Longrightarrow> depq_next q x = depq_next p x"
  shows "queues_ok q (W(d := (W d)(i := ws)))" "receives q = receives p"
proof -
  have "queue_of (depq_next q) f' l' (W e j) = queue_of (depq_next p) f' l' (W e j)" if "(e, j) \<noteq> (d, i)" for e j f' l'
    using assms(6) [OF that] by (intro queue_of_cong)
  then show "queues_ok q (W(d := (W d)(i := ws)))"
    using assms(1,4,5) unfolding queues_ok_def assms(3) by (auto split: if_splits)
  show "receives q = receives p" using assms(4) unfolding receives_def assms(3) by (auto simp: fun_eq_iff)
qed

text \<open>The running thread \<open>c\<close> queues at service \<open>i\<close> of domain \<open>d\<close>; \<open>k\<close> is where it goes on, \<open>g\<close> the new thread states.\<close>

lemma enter_call:
  assumes inv: "portal_inv p W" and c: "resume_at (pt p c) = InJava" "d \<noteq> td p c" "c \<noteq> idle_thread (sch p)"
    and svc: "services p d i = Service dep"
      "services q = (services p)(d := (services p d)(i := Service (dep\<lparr>firstWaitingSender := f, lastWaitingSender := l\<rparr>)))"
    and lq: "queue_of (depq_next q) f l (W d i @ [c])"
      "\<And>x. x \<notin> set (W d i) \<Longrightarrow> x \<noteq> c \<Longrightarrow> depq_next q x = depq_next p x"
    and k: "k = SendBlock \<or> k = SendHandoff"
    and u: "unlinked q = (unlinked p)(c := (unlinked p c)\<lparr>blockedInDomain := Some d, blockedInDomainID := x1,
        blockedInServiceIndex := i, depMethodIndex := x2, resume_at := k\<rparr>)" "domain_id q = domain_id p"
    and mv: "moves g (sch p) (sch q)"
    and g: "g c = (if k = SendBlock then STATE_PORTAL_WAIT_FOR_RCV else STATE_PORTAL_WAIT_FOR_RET)"
      "\<And>t. t \<noteq> c \<Longrightarrow> g t = st p t \<or> st p t = STATE_PORTAL_WAIT_FOR_SND \<and> g t = STATE_RUNNABLE"
      "\<And>r. receives p r d i \<Longrightarrow> g r \<noteq> STATE_PORTAL_WAIT_FOR_SND"
  shows "portal_inv q (W(d := (W d)(i := W d i @ [c])))"
proof -
  let ?W = "W(d := (W d)(i := W d i @ [c]))"
  note D = portal_invD [OF inv]
  note uq = fields_unlinked [of q] and up = fields_unlinked [of p]
  have nc: "\<not> calling p c" "\<not> in_loop p c" using c by (simp_all add: calling_def in_loop_def)
  have w: "c \<notin> set (W e j)" for e j using nc waiting_iff [OF D(3)] by simp
  have s: "states (sch q) = g" "\<And>t. td q t = td p t" "idle_thread (sch q) = idle_thread (sch p)"
    "\<And>d. d_state (dom (sch q) d) = d_state (dom (sch p) d)" "\<exists>a. sched_inv (sch q) a"
    using mv by (simp_all add: moves_def)
  have eq: "in_loop q = in_loop p" "serving q = serving p" "\<And>t. calling q t \<longleftrightarrow> t = c \<or> calling p t"
    using nc k by (auto simp: in_loop_def serving_def calling_def uq up u fun_eq_iff)
  have qs: "queues_ok q ?W" "receives q = receives p"
    using queues_okI [OF D(2,3) svc(2,1) lq(1)] lq(2) w queues_disjoint [OF D(3)] by blast+
  have keep: "g t = st p t" if "t \<noteq> c" "st p t \<noteq> STATE_PORTAL_WAIT_FOR_SND" for t using g(2) [OF that(1)] that(2) by blast
  have "waiting_ok q ?W"
  proof (rule waiting_okI)
    fix e j t
    show "t \<in> set (?W e j) \<longleftrightarrow> calling q t \<and> blockedInDomain (pt q t) = Some e
       \<and> blockedInServiceIndex (pt q t) = j \<and> blockedInServiceThread (pt q t) = None"
    proof (cases "t = c")
      case True
      then show ?thesis using w D(7) nc(1) by (auto simp: eq uq up u threads_ok_def)
    next
      case False
      then show ?thesis using waiting_iff [OF D(3), of t e j] by (auto simp: eq uq up u)
    qed
    assume "t \<in> set (?W e j)"
    then have "t = c \<or> t \<noteq> c \<and> t \<in> set (W e j)" using w by (auto split: if_splits)
    then show "st q t = (if resume_at (pt q t) = SendBlock then STATE_PORTAL_WAIT_FOR_RCV else STATE_PORTAL_WAIT_FOR_RET)"
    proof (elim disjE conjE)
      assume t: "t \<noteq> c" "t \<in> set (W e j)"
      have "st p t \<noteq> STATE_PORTAL_WAIT_FOR_SND" using waiting_state [OF D(3) t(2)] by (simp add: thread_states)
      then show ?thesis using waiting_state [OF D(3) t(2)] keep t(1) by (simp add: s uq up u)
    qed (simp add: s g(1) uq u)
  qed
  moreover have "callers_ok q"
    unfolding callers_ok_def
  proof (intro allI impI)
    fix t assume t: "calling q t"
    show "\<exists>d svc. blockedInDomain (pt q t) = Some d \<and> d \<noteq> td q t \<and>
      services q d (blockedInServiceIndex (pt q t)) = Service svc \<and>
      (\<forall>r. blockedInServiceThread (pt q t) = Some r \<longrightarrow> st q t = STATE_RUNNABLE \<or> serving q r t)"
    proof (cases "t = c")
      case True
      then show ?thesis using D(7) nc(1) c svc by (auto simp: uq up u s threads_ok_def)
    next
      case False
      then have "calling p t" using t eq by simp
      then obtain e svc' where "blockedInDomain (pt p t) = Some e" "e \<noteq> td p t"
        "services p e (blockedInServiceIndex (pt p t)) = Service svc'"
        "\<And>r. blockedInServiceThread (pt p t) = Some r \<Longrightarrow> st p t = STATE_RUNNABLE \<or> serving p r t"
        using D(4) unfolding callers_ok_def by blast
      moreover have "g t = STATE_RUNNABLE" if "st p t = STATE_RUNNABLE" using keep [OF False] that by (simp add: thread_states)
      ultimately show ?thesis using False by (auto simp: uq up u s eq svc)
    qed
  qed
  moreover have "serving_calls_ok q"
    unfolding serving_calls_ok_def
  proof (intro conjI allI impI)
    fix r t assume sv: "serving q r t"
    then have t: "serving p r t" "calling p t" "t \<noteq> c" using D(5) nc by (auto simp: eq serving_calls_ok_def)
    have "g t = st p t" using D(5) t keep [OF t(3)] by (auto simp: serving_calls_ok_def thread_states)
    then show "calling q t" "blockedInServiceThread (pt q t) = Some r" "st q t = STATE_PORTAL_WAIT_FOR_RET"
      "blockedInDomain (pt q t) = Some (td q r)"
      "processingDEP (pt q r) = Some (td q r, blockedInServiceIndex (pt q t))"
      "receives q r (td q r) (blockedInServiceIndex (pt q t))"
      "callerDomain (pt q r) = Some (td q t)" "callerDomainID (pt q r) = domain_id q (td q t)"
      using t D(5) by (auto simp: serving_calls_ok_def eq uq up u s qs)
  next
    fix r assume "\<not> in_loop q r" "processingDEP (pt q r) \<noteq> None"
    then show "mostRecentlyCalledBy (pt q r) \<noteq> None" using D(5) by (auto simp: serving_calls_ok_def eq uq up u split: if_splits)
  qed
  moreover have "receivers_ok q ?W"
  proof (rule receivers_okI [OF D(6) qs(2)])
    show "receiver svc' \<noteq> None" if "services q e j = Service svc'" for e j svc'
      using that D(6) svc by (fastforce simp: receivers_ok_def split: if_splits)
    show "in_loop p r \<or> (\<exists>d i. receives p r d i)" if "in_loop q r" for r using that eq by simp
    fix e j r assume r: "receives p r e j" "receiver_ok p (W e j) e r"
    have "g r \<noteq> STATE_PORTAL_WAIT_FOR_SND \<or> st p r = STATE_PORTAL_WAIT_FOR_SND"
      using g(1) g(2) [of r] by (cases "r = c") (auto simp: thread_states)
    moreover have "(e, j) = (d, i) \<Longrightarrow> g r \<noteq> STATE_PORTAL_WAIT_FOR_SND" using g(3) r(1) by simp
    moreover have "in_loop p r \<Longrightarrow> g r = STATE_RUNNABLE \<or> g r = STATE_PORTAL_WAIT_FOR_SND \<and> st p r = STATE_PORTAL_WAIT_FOR_SND"
    proof -
      assume lp: "in_loop p r"
      then have "r \<noteq> c" using nc by auto
      with lp g(2) [of r] r(2) show ?thesis by (auto simp: receiver_ok_def)
    qed
    ultimately show "receiver_ok q (?W e j) e r"
      using r(2) by (auto simp: receiver_ok_def s eq uq up u split: if_splits)
  qed
  moreover have "threads_ok q" using D(7) k c(3)
    by (auto simp: threads_ok_def s eq uq up u)
  ultimately show ?thesis using qs(1) s(5) by (simp add: portal_inv_def)
qed

lemma receives_unique: "services p d i = Service dep \<Longrightarrow> receiver dep = Some t \<Longrightarrow> receives p r d i \<longleftrightarrow> r = t"
  by (auto simp: receives_def)

lemma unlinked_upd [simp]:
  "unlinked (set_service d i e p) = unlinked p" "unlinked (p\<lparr>sch := s\<rparr>) = unlinked p"
  by (simp_all add: unlinked_def fun_eq_iff)

lemma unlinked_upd_pt:
  assumes "\<And>x. (f x)\<lparr>nextInDEPQueue := None\<rparr> = f (x\<lparr>nextInDEPQueue := None\<rparr>)"
  shows "unlinked (upd_pt t f p) = (unlinked p)(t := f (unlinked p t))"
  using assms by (simp add: unlinked_def fun_eq_iff)

lemma unlinked_resume [simp]:
  "unlinked (upd_pt t (\<lambda>x. x\<lparr>resume_at := k\<rparr>) p) = (unlinked p)(t := (unlinked p t)\<lparr>resume_at := k\<rparr>)"
  by (rule unlinked_upd_pt) (simp add: PortalThread.equality)

lemma send_enqueued_inv:
  assumes inv: "portal_inv p W" and c: "resume_at (pt p (me p)) = InJava" "d \<noteq> curdom (sch p)" "me p \<noteq> idle_thread (sch p)"
    and add: "portal_add_sender n d i (me p) (upd_pt (me p) (\<lambda>x. x\<lparr>blockedInDomain := Some d,
             blockedInDomainID := x1, blockedInServiceIndex := i, depMethodIndex := x2\<rparr>) p) = Ok p1"
    and enq: "send_enqueued n d i p1 = Ok q"
  shows "portal_inv q (W(d := (W d)(i := W d i @ [me p])))"
proof -
  let ?c = "me p"
  let ?p0 = "upd_pt ?c (\<lambda>x. x\<lparr>blockedInDomain := Some d, blockedInDomainID := x1, blockedInServiceIndex := i, depMethodIndex := x2\<rparr>) p"
  note D = portal_invD [OF inv]
  obtain a where a: "sched_inv (sch p) a" using D(1) by blast
  obtain dep where dep: "services p d i = Service dep"
    using add by (auto simp: portal_add_sender_def get_service_def split: service_entry.splits)
  have nc: "?c \<notin> set (W d i)" using waiting_not_runnable [OF D(3)] me_runnable [OF inv] by blast
  have d0: "services ?p0 d i = Service dep" "depq_next ?p0 = depq_next p" by (simp_all add: dep)
  have "queue_of (depq_next ?p0) (firstWaitingSender dep) (lastWaitingSender dep) (W d i)"
    using D(2) dep unfolding d0(2) queues_ok_def by blast
  note E = add_sender_effect [OF add d0(1) this nc]
  obtain f l where fl: "services p1 = (services p)(d := (services p d)(i := Service (dep\<lparr>firstWaitingSender := f, lastWaitingSender := l\<rparr>)))"
    "queue_of (depq_next p1) f l (W d i @ [?c])" using E(1) by auto
  have p1: "sch p1 = sch p" "domain_id p1 = domain_id p" using E(2,3) by simp_all
  have u1: "unlinked p1 = (unlinked p)(?c := (unlinked p ?c)\<lparr>blockedInDomain := Some d, blockedInDomainID := x1,
      blockedInServiceIndex := i, depMethodIndex := x2\<rparr>)"
    using E(4) by (simp add: unlinked_def fun_eq_iff)
  obtain t where t: "receiver dep = Some t" using D(6) dep unfolding receivers_ok_def by blast
  have "get_service d i p1 = Ok (dep\<lparr>firstWaitingSender := f, lastWaitingSender := l\<rparr>)" by (simp add: get_service_def fl)
  then consider
    (blk) s' where "st p t \<noteq> STATE_PORTAL_WAIT_FOR_SND" "Sched_block n STATE_PORTAL_WAIT_FOR_RCV (sch p) = Ok s'"
      "q = (upd_pt ?c (\<lambda>x. x\<lparr>resume_at := SendBlock\<rparr>) p1)\<lparr>sch := s'\<rparr>"
  | (hand) s' where "st p t = STATE_PORTAL_WAIT_FOR_SND" "Sched_portal_handoff_to_receiver n t (sch p) = Ok s'"
      "q = (upd_pt ?c (\<lambda>x. x\<lparr>resume_at := SendHandoff\<rparr>) p1)\<lparr>sch := s'\<rparr>"
    using enq t p1 unfolding send_enqueued_def on_sched_def by (auto simp: states_def split: if_splits)
  then show ?thesis
  proof cases
    case blk
    have mv: "moves ((states (sch p))(?c := STATE_PORTAL_WAIT_FOR_RCV)) (sch p) (sch q)"
      using block_moves [OF blk(2) a _ c(3)] by (simp add: blk(3) thread_states)
    have u: "unlinked q = (unlinked p)(?c := (unlinked p ?c)\<lparr>blockedInDomain := Some d, blockedInDomainID := x1,
      blockedInServiceIndex := i, depMethodIndex := x2, resume_at := SendBlock\<rparr>)"
      by (simp add: blk(3) u1)
    show ?thesis
      by (rule enter_call [OF inv c(1,2,3) dep _ _ _ _ u _ mv])
        (use fl p1 E(5) receives_unique [OF dep t] blk(1) in \<open>auto simp: blk(3) thread_states\<close>)
  next
    case hand
    have mv: "moves ((states (sch p))(?c := STATE_PORTAL_WAIT_FOR_RET, t := STATE_RUNNABLE)) (sch p) (sch q)"
      using receiver_moves [OF hand(2) a c(3)] hand(1) by (simp add: hand(3) thread_states)
    have u: "unlinked q = (unlinked p)(?c := (unlinked p ?c)\<lparr>blockedInDomain := Some d, blockedInDomainID := x1,
      blockedInServiceIndex := i, depMethodIndex := x2, resume_at := SendHandoff\<rparr>)"
      by (simp add: hand(3) u1)
    have "t \<noteq> ?c" using hand(1) me_runnable [OF inv] by (auto simp: thread_states)
    then show ?thesis
      by (intro enter_call [OF inv c(1,2,3) dep _ _ _ _ u _ mv])
        (use fl p1 E(5) receives_unique [OF dep t] hand(1) in \<open>auto simp: hand(3) thread_states\<close>)
  qed
qed

lemma send_inv:
  assumes inv: "portal_inv p W" and c: "resume_at (pt p (me p)) = InJava" "me p \<noteq> idle_thread (sch p)"
    and call: "direct_send_portal n proxy m p = Ok (r, p')"
  shows "\<exists>W'. portal_inv p' W'"
proof -
  let ?d = "targetDomain proxy" and ?i = "px_index proxy"
  let ?exc = "targetDomainID proxy \<noteq> domain_id p ?d \<or> d_state (dom (sch p) ?d) \<noteq> DOMAIN_STATE_ACTIVE \<or> services p ?d ?i = SERVICE_ENTRY_CHANGING"
  consider (local) "?d = curdom (sch p)" "p' = p"
    | (exc) "send_finished (upd_pt (me p) (\<lambda>x. x\<lparr>portalReturnType := PORTAL_RETURN_TYPE_EXCEPTION\<rparr>) p) = Ok (r, p')"
    | (wait) p1 where "?d \<noteq> curdom (sch p)"
        "portal_add_sender n ?d ?i (me p) (upd_pt (me p) (\<lambda>x. x\<lparr>blockedInDomain := Some ?d,
           blockedInDomainID := domain_id p ?d, blockedInServiceIndex := ?i, depMethodIndex := m\<rparr>) p) = Ok p1"
        "send_enqueued n ?d ?i p1 = Ok p'"
    using call unfolding direct_send_portal_def Let_def by (auto split: if_splits)
  then show ?thesis
  proof cases
    case local
    then show ?thesis using inv by blast
  next
    case exc
    let ?q = "upd_pt (me p) (\<lambda>x. x\<lparr>portalReturnType := PORTAL_RETURN_TYPE_EXCEPTION\<rparr>) p"
    have nl: "\<not> in_loop p (me p)" using c(1) by (simp add: in_loop_def)
    have "blockedInServiceThread (pt p (me p)) = None" using portal_invD(7) [OF inv] c(1) by (simp add: threads_ok_def calling_def)
    then have "portal_inv ?q W"
      unfolding upd_pt_def using leave_call [OF inv me_runnable [OF inv] nl] c(1) by simp
    moreover have "\<not> in_loop ?q (me ?q)" using nl by (simp add: in_loop_def)
    ultimately show ?thesis using send_finished_inv exc by blast
  next
    case wait
    from send_enqueued_inv [OF inv c(1) wait(1) c(2) wait(2,3)] show ?thesis by blast
  qed
qed

text \<open>The receiver \<open>r\<close> goes (back) to its receive loop; the call it was serving, if any, is answered.\<close>

lemma to_loop:
  assumes inv: "portal_inv p W" and r: "\<not> calling p r" "receives p r d i"
    and x: "in_loop q r" "blockedInServiceThread (pt q r) = blockedInServiceThread (pt p r)"
    and same: "\<And>t. t \<noteq> r \<Longrightarrow> resume_at (pt q t) = resume_at (pt p t) \<and> blockedInDomain (pt q t) = blockedInDomain (pt p t)
      \<and> blockedInServiceIndex (pt q t) = blockedInServiceIndex (pt p t) \<and> blockedInServiceThread (pt q t) = blockedInServiceThread (pt p t)
      \<and> processingDEP (pt q t) = processingDEP (pt p t) \<and> mostRecentlyCalledBy (pt q t) = mostRecentlyCalledBy (pt p t)
      \<and> callerDomain (pt q t) = callerDomain (pt p t) \<and> callerDomainID (pt q t) = callerDomainID (pt p t)"
      "services q = services p" "domain_id q = domain_id p" "depq_next q = depq_next p"
    and mv: "moves g (sch p) (sch q)"
    and g: "g r = STATE_RUNNABLE \<or> g r = STATE_PORTAL_WAIT_FOR_SND \<and> W d i = []"
      "\<And>t. t \<noteq> r \<Longrightarrow> g t = st p t \<or> serving p r t \<and> g t = STATE_RUNNABLE"
      "\<And>t. serving p r t \<Longrightarrow> g t = STATE_RUNNABLE"
  shows "portal_inv q W"
proof -
  note D = portal_invD [OF inv]
  have s: "states (sch q) = g" "\<And>t. td q t = td p t" "idle_thread (sch q) = idle_thread (sch p)"
    "\<And>d. d_state (dom (sch q) d) = d_state (dom (sch p) d)" "\<exists>a. sched_inv (sch q) a"
    using mv by (simp_all add: moves_def)
  have nr: "\<not> calling q r" using x(1) by (auto simp: in_loop_def calling_def)
  have eq: "calling q = calling p" "receives q = receives p" "\<And>t. t \<noteq> r \<Longrightarrow> in_loop q t = in_loop p t"
    "\<And>u t. serving q u t \<longleftrightarrow> u \<noteq> r \<and> serving p u t"
  proof -
    show "calling q = calling p"
    proof
      fix t show "calling q t = calling p t" using same(1) [of t] nr r(1) by (cases "t = r") (auto simp: calling_def)
    qed
    show "receives q = receives p" by (simp add: receives_def same(2) fun_eq_iff)
    show l: "in_loop q t = in_loop p t" if "t \<noteq> r" for t using same(1) [OF that] by (simp add: in_loop_def)
    show "serving q u t \<longleftrightarrow> u \<noteq> r \<and> serving p u t" for u t
      using same(1) [of u] l [of u] x(1) by (cases "u = r") (auto simp: serving_def)
  qed
  have cr: "calling p t \<Longrightarrow> t \<noteq> r" for t using r(1) by auto
  have sv: "serving p u t \<Longrightarrow> calling p t \<and> blockedInServiceThread (pt p t) = Some u" for u t
    using D(5) by (simp add: serving_calls_ok_def)
  have wt: "t \<noteq> r \<and> g t = st p t" if "t \<in> set (W e j)" for t e j
    using waiting_iff [OF D(3), of t e j] that cr sv g(2) by fastforce
  have "queues_ok q W" using D(2) by (simp add: queues_ok_def same(2,4))
  moreover have "waiting_ok q W"
  proof (rule waiting_okI)
    fix e j t
    show "t \<in> set (W e j) \<longleftrightarrow> calling q t \<and> blockedInDomain (pt q t) = Some e
       \<and> blockedInServiceIndex (pt q t) = j \<and> blockedInServiceThread (pt q t) = None"
      using waiting_iff [OF D(3), of t e j] same(1) [of t] r(1) by (cases "t = r") (simp_all add: eq)
    assume "t \<in> set (W e j)"
    then show "st q t = (if resume_at (pt q t) = SendBlock then STATE_PORTAL_WAIT_FOR_RCV else STATE_PORTAL_WAIT_FOR_RET)"
      using waiting_state [OF D(3)] wt same(1) [of t] by (simp add: s)
  qed
  moreover have "callers_ok q"
    unfolding callers_ok_def
  proof (intro allI impI)
    fix t assume "calling q t"
    then have t: "calling p t" "t \<noteq> r" using cr by (auto simp: eq)
    then obtain e svc' where e: "blockedInDomain (pt p t) = Some e" "e \<noteq> td p t"
      "services p e (blockedInServiceIndex (pt p t)) = Service svc'"
      "\<And>u. blockedInServiceThread (pt p t) = Some u \<Longrightarrow> st p t = STATE_RUNNABLE \<or> serving p u t"
      using D(4) unfolding callers_ok_def by blast
    have "g t = STATE_RUNNABLE \<or> serving q u t" if "blockedInServiceThread (pt p t) = Some u" for u
      using e(4) [OF that] g(2) [OF t(2)] g(3) [of t] eq(4) by (cases "u = r") auto
    then show "\<exists>d svc. blockedInDomain (pt q t) = Some d \<and> d \<noteq> td q t \<and>
      services q d (blockedInServiceIndex (pt q t)) = Service svc \<and>
      (\<forall>r. blockedInServiceThread (pt q t) = Some r \<longrightarrow> st q t = STATE_RUNNABLE \<or> serving q r t)"
      using e(1-3) same(1) [OF t(2)] by (auto simp: s same(2))
  qed
  moreover have "serving_calls_ok q"
    unfolding serving_calls_ok_def
  proof (intro conjI allI impI)
    fix u t assume "serving q u t"
    then have u: "u \<noteq> r" "serving p u t" by (simp_all add: eq)
    have t: "t \<noteq> r" "\<not> serving p r t" using sv [OF u(2)] cr sv [of r t] u(1) by auto
    then have "g t = st p t" using g(2) by blast
    then show "calling q t" "blockedInServiceThread (pt q t) = Some u" "st q t = STATE_PORTAL_WAIT_FOR_RET"
      "blockedInDomain (pt q t) = Some (td q u)"
      "processingDEP (pt q u) = Some (td q u, blockedInServiceIndex (pt q t))"
      "receives q u (td q u) (blockedInServiceIndex (pt q t))"
      "callerDomain (pt q u) = Some (td q t)" "callerDomainID (pt q u) = domain_id q (td q t)"
      using D(5) u same(1) [OF u(1)] same(1) [OF t(1)] by (auto simp: serving_calls_ok_def eq s same(3))
  next
    fix u assume u: "\<not> in_loop q u" "processingDEP (pt q u) \<noteq> None"
    then have "u \<noteq> r" using x(1) by auto
    with u show "mostRecentlyCalledBy (pt q u) \<noteq> None" using D(5) same(1) [of u] by (simp add: serving_calls_ok_def eq)
  qed
  moreover have "receivers_ok q W"
  proof (rule receivers_okI [OF D(6) eq(2)])
    show "receiver svc' \<noteq> None" if "services q e j = Service svc'" for e j svc'
      using that D(6) unfolding receivers_ok_def same(2) by blast
    show "in_loop p u \<or> (\<exists>d i. receives p u d i)" if "in_loop q u" for u using that eq(3) r(2) by (cases "u = r") auto
    fix e j u assume u: "receives p u e j" "receiver_ok p (W e j) e u"
    show "receiver_ok q (W e j) e u"
    proof (cases "u = r")
      case True
      then have "e = d" "j = i" using D(6) u(1) r(2) unfolding receivers_ok_def by blast+
      then show ?thesis using u(2) x(1) g(1) True by (auto simp: receiver_ok_def s)
    next
      case False
      then show ?thesis using u(2) g(2) [OF False] same(1) [OF False] eq(3) [OF False]
        by (auto simp: receiver_ok_def s thread_states split: if_splits)
    qed
  qed
  moreover have "threads_ok q"
  proof -
    have "idle_thread (sch p) \<noteq> r" using receiverD [OF D(6) r(2)] by (auto simp: receiver_ok_def)
    moreover have "blockedInServiceThread (pt q t) = None" if "\<not> calling p t" for t
      using D(7) that x(2) same(1) [of t] by (cases "t = r") (simp_all add: threads_ok_def)
    ultimately show ?thesis using D(7) same(1) by (simp add: threads_ok_def s eq)
  qed
  ultimately show ?thesis using s(5) by (simp add: portal_inv_def)
qed

text \<open>The receiver \<open>r\<close> takes the first caller \<open>t\<close> out of its queue and starts to serve it.\<close>

lemma accept_call:
  assumes inv: "portal_inv p W" and r: "st p r = STATE_RUNNABLE" "in_loop p r" "receives p r d i"
    and svc: "services p d i = Service dep"
      "services q = (services p)(d := (services p d)(i := Service (dep\<lparr>firstWaitingSender := f, lastWaitingSender := l\<rparr>)))"
    and w: "W d i = t # ys" and lq: "queue_of (depq_next q) f l ys" "\<And>x. x \<noteq> t \<Longrightarrow> depq_next q x = depq_next p x"
    and u: "\<And>x. x \<noteq> r \<Longrightarrow> x \<noteq> t \<Longrightarrow> unlinked q x = unlinked p x"
      "unlinked q t = (unlinked p t)\<lparr>blockedInServiceThread := Some r\<rparr>"
      "resume_at (pt q r) = InJava" "mostRecentlyCalledBy (pt q r) = Some t" "processingDEP (pt q r) = Some (d, i)"
      "callerDomain (pt q r) = Some (td p t)" "callerDomainID (pt q r) = domain_id p (td p t)"
      "blockedInServiceThread (pt q r) = blockedInServiceThread (pt p r)"
      "domain_id q = domain_id p"
    and mv: "moves ((states (sch p))(t := STATE_PORTAL_WAIT_FOR_RET)) (sch p) (sch q)"
  shows "portal_inv q (W(d := (W d)(i := ys)))"
proof -
  let ?W = "W(d := (W d)(i := ys))"
  note D = portal_invD [OF inv]
  note uq = fields_unlinked [of q] and up = fields_unlinked [of p]
  have tW: "t \<in> set (W d i)" by (simp add: w)
  note t = tW [unfolded waiting_iff [OF D(3)]]
  have nt: "t \<noteq> r" using waiting_not_runnable [OF D(3) tW] r(1) by auto
  have nr: "\<not> calling p r" "\<not> calling q r" using r(2) u(3) by (auto simp: in_loop_def calling_def)
  have dist: "distinct (W d i)" using D(2) svc(1) queue_of_distinct unfolding queues_ok_def by blast
  have s: "states (sch q) = (states (sch p))(t := STATE_PORTAL_WAIT_FOR_RET)" "\<And>t. td q t = td p t"
    "idle_thread (sch q) = idle_thread (sch p)"
    "\<And>d. d_state (dom (sch q) d) = d_state (dom (sch p) d)" "\<exists>a. sched_inv (sch q) a"
    using mv by (simp_all add: moves_def)
  have tr: "td p r = d" "r \<noteq> idle_thread (sch p)" using receiverD [OF D(6) r(3)] by (simp_all add: receiver_ok_def)
  have same: "resume_at (pt q x) = resume_at (pt p x) \<and> blockedInDomain (pt q x) = blockedInDomain (pt p x)
      \<and> blockedInServiceIndex (pt q x) = blockedInServiceIndex (pt p x)
      \<and> processingDEP (pt q x) = processingDEP (pt p x) \<and> mostRecentlyCalledBy (pt q x) = mostRecentlyCalledBy (pt p x)
      \<and> callerDomain (pt q x) = callerDomain (pt p x) \<and> callerDomainID (pt q x) = callerDomainID (pt p x)
      \<and> blockedInServiceThread (pt q x) = (if x = t then Some r else blockedInServiceThread (pt p x))" if "x \<noteq> r" for x
    using u(1,2) that by (cases "x = t") (simp_all add: uq up)
  have eq: "calling q = calling p" "\<And>x. x \<noteq> r \<Longrightarrow> in_loop q x = in_loop p x" "\<not> in_loop q r"
    "\<And>v x. serving q v x \<longleftrightarrow> (if v = r then x = t else serving p v x)"
  proof -
    show "calling q = calling p"
    proof
      fix x show "calling q x = calling p x" using same [of x] nr by (cases "x = r") (auto simp: calling_def)
    qed
    show lo: "in_loop q x = in_loop p x" if "x \<noteq> r" for x using same [OF that] by (simp add: in_loop_def)
    show nl: "\<not> in_loop q r" using u(3) by (simp add: in_loop_def)
    show "serving q v x \<longleftrightarrow> (if v = r then x = t else serving p v x)" for v x
      using same [of v] lo [of v] nl u(4) by (cases "v = r") (auto simp: serving_def)
  qed
  have other: "depq_next q x = depq_next p x" if "(e, j) \<noteq> (d, i)" "x \<in> set (W e j)" for e j x
    using lq(2) queues_disjoint [OF D(3) tW] that by (cases "x = t") auto
  have qs: "queues_ok q ?W" "receives q = receives p"
    by (rule queues_okI [OF D(2,3) svc(2,1) lq(1)], erule (1) other)+
  have mem: "x \<in> set (?W e j) \<longleftrightarrow> x \<noteq> t \<and> x \<in> set (W e j)" for x e j
  proof (cases "e = d \<and> j = i")
    case True
    then show ?thesis using dist w by auto
  next
    case False
    then have "t \<notin> set (W e j)" using queues_disjoint [OF D(3) tW] by blast
    then show ?thesis using False by auto
  qed
  have "waiting_ok q ?W"
  proof (rule waiting_okI)
    fix e j x
    show "x \<in> set (?W e j) \<longleftrightarrow> calling q x \<and> blockedInDomain (pt q x) = Some e
       \<and> blockedInServiceIndex (pt q x) = j \<and> blockedInServiceThread (pt q x) = None"
      unfolding mem using waiting_iff [OF D(3), of x e j] same [of x] nr by (cases "x = r") (auto simp: eq)
    assume "x \<in> set (?W e j)"
    then have x: "x \<noteq> t" "x \<in> set (W e j)" using mem by auto
    moreover have "x \<noteq> r" using x(2) nr waiting_iff [OF D(3)] by auto
    ultimately show "st q x = (if resume_at (pt q x) = SendBlock then STATE_PORTAL_WAIT_FOR_RCV else STATE_PORTAL_WAIT_FOR_RET)"
      using waiting_state [OF D(3) x(2)] same [of x] by (simp add: s)
  qed
  moreover have "callers_ok q"
    unfolding callers_ok_def
  proof (intro allI impI)
    fix x assume "calling q x"
    then have x: "calling p x" "x \<noteq> r" using nr by (auto simp: eq)
    then obtain e svc' where e: "blockedInDomain (pt p x) = Some e" "e \<noteq> td p x"
      "services p e (blockedInServiceIndex (pt p x)) = Service svc'"
      "\<And>v. blockedInServiceThread (pt p x) = Some v \<Longrightarrow> st p x = STATE_RUNNABLE \<or> serving p v x"
      using D(4) unfolding callers_ok_def by blast
    have "st q x = STATE_RUNNABLE \<or> serving q v x" if "blockedInServiceThread (pt q x) = Some v" for v
    proof (cases "x = t")
      case True
      then show ?thesis using that same [OF x(2)] by (simp add: eq)
    next
      case False
      moreover from this have "blockedInServiceThread (pt p x) = Some v" using that same [OF x(2)] by simp
      moreover have "serving p v x \<Longrightarrow> v \<noteq> r" using r(2) by (auto simp: serving_def)
      ultimately show ?thesis using e(4) [of v] by (auto simp: s eq)
    qed
    then show "\<exists>d svc. blockedInDomain (pt q x) = Some d \<and> d \<noteq> td q x \<and>
      services q d (blockedInServiceIndex (pt q x)) = Service svc \<and>
      (\<forall>r. blockedInServiceThread (pt q x) = Some r \<longrightarrow> st q x = STATE_RUNNABLE \<or> serving q r x)"
      using e(1-3) same [OF x(2)] by (auto simp: s svc)
  qed
  moreover have "serving_calls_ok q"
    unfolding serving_calls_ok_def
  proof (intro conjI allI impI)
    fix v x assume "serving q v x"
    then consider "v = r" "x = t" | "v \<noteq> r" "serving p v x" by (auto simp: eq split: if_splits)
    then have "calling q x \<and> blockedInServiceThread (pt q x) = Some v \<and> st q x = STATE_PORTAL_WAIT_FOR_RET \<and>
      blockedInDomain (pt q x) = Some (td q v) \<and>
      processingDEP (pt q v) = Some (td q v, blockedInServiceIndex (pt q x)) \<and>
      receives q v (td q v) (blockedInServiceIndex (pt q x)) \<and>
      callerDomain (pt q v) = Some (td q x) \<and> callerDomainID (pt q v) = domain_id q (td q x)"
    proof cases
      case 1
      then show ?thesis using t tr u same [OF nt] r(3) by (simp add: eq s qs)
    next
      case 2
      note sv = D(5) [unfolded serving_calls_ok_def, THEN conjunct1, rule_format, OF 2(2)]
      have "x \<noteq> r" "x \<noteq> t" using sv t nr by auto
      then show ?thesis using sv same [of x] same [OF 2(1)] u(9) by (simp add: eq s qs)
    qed
    then show "calling q x" "blockedInServiceThread (pt q x) = Some v" "st q x = STATE_PORTAL_WAIT_FOR_RET"
      "blockedInDomain (pt q x) = Some (td q v)"
      "processingDEP (pt q v) = Some (td q v, blockedInServiceIndex (pt q x))"
      "receives q v (td q v) (blockedInServiceIndex (pt q x))"
      "callerDomain (pt q v) = Some (td q x)" "callerDomainID (pt q v) = domain_id q (td q x)" by simp_all
  next
    fix v assume "\<not> in_loop q v" "processingDEP (pt q v) \<noteq> None"
    then show "mostRecentlyCalledBy (pt q v) \<noteq> None"
      using D(5) same [of v] u(4) by (cases "v = r") (simp_all add: serving_calls_ok_def eq)
  qed
  moreover have "receivers_ok q ?W"
  proof (rule receivers_okI [OF D(6) qs(2)])
    show "receiver svc' \<noteq> None" if "services q e j = Service svc'" for e j svc'
      using that D(6) svc by (fastforce simp: receivers_ok_def split: if_splits)
    show "in_loop p v \<or> (\<exists>d i. receives p v d i)" if "in_loop q v" for v using that eq by (cases "v = r") auto
    fix e j v assume v: "receives p v e j" "receiver_ok p (W e j) e v"
    have "W e j = [] \<Longrightarrow> ?W e j = []" using w by (cases "e = d \<and> j = i") auto
    moreover have "\<not> in_loop p t" using t by (auto simp: calling_def in_loop_def)
    ultimately show "receiver_ok q (?W e j) e v"
      using v(2) same [of v] eq(2) [of v] eq(3) u(4) nt r(1)
      by (cases "v = r") (auto simp: receiver_ok_def s thread_states split: if_splits)
  qed
  moreover have "threads_ok q"
  proof -
    have "resume_at (pt q (idle_thread (sch p))) = InJava" using D(7) same tr(2) by (simp add: threads_ok_def)
    moreover have "blockedInServiceThread (pt q x) = None" if "\<not> calling p x" for x
      using D(7) that same [of x] u(8) t by (cases "x = r") (auto simp: threads_ok_def)
    ultimately show ?thesis using D(7) by (simp add: threads_ok_def s eq)
  qed
  ultimately show ?thesis using qs(1) s(5) by (simp add: portal_inv_def)
qed

lemma mark_moves:
  assumes "sched_inv s a" "states s t \<noteq> STATE_RUNNABLE" "st1 \<noteq> STATE_RUNNABLE" "st2 \<noteq> STATE_RUNNABLE"
  shows "moves ((states s)(t := st2)) s (set_state t st2 (set_state t st1 s))"
proof -
  note m = mark_waiting [OF assms(1-3)]
  have "states (set_state t st1 s) t \<noteq> STATE_RUNNABLE" using m(2) assms(3) by simp
  from mark_waiting [OF m(1) this assms(4)] m(2) show ?thesis
    unfolding moves_def by (auto simp: fun_eq_iff)
qed

text \<open>The state at the call of the service method.\<close>

lemma receive_start_effect:
  assumes "receive_start n t p = Ok q" "t \<noteq> me p"
  shows "sch q = set_state t STATE_PORTAL_WAIT_FOR_RET (set_state t STATE_PORTAL_WAIT_FOR_PARAMCOPY (sch p))"
    "services q = services p" "domain_id q = domain_id p" "depq_next q = depq_next p"
    "\<And>x. x \<noteq> me p \<Longrightarrow> x \<noteq> t \<Longrightarrow> unlinked q x = unlinked p x"
    "unlinked q t = (unlinked p t)\<lparr>blockedInServiceThread := Some (me p)\<rparr>"
    "resume_at (pt q (me p)) = InJava" "mostRecentlyCalledBy (pt q (me p)) = Some t"
    "processingDEP (pt q (me p)) = Some (curdom (sch p), blockedInServiceIndex (pt p t))"
    "callerDomain (pt q (me p)) = Some (td p t)" "callerDomainID (pt q (me p)) = domain_id p (td p t)"
    "blockedInServiceThread (pt q (me p)) = blockedInServiceThread (pt p (me p))"
proof -
  define r where "r = me p"
  define p3 where "p3 = upd_pt t (\<lambda>x. x\<lparr>blockedInServiceThread := Some r\<rparr>)
    (upd_pt r (\<lambda>x. x\<lparr>processingDEP := Some (curdom (sch p), blockedInServiceIndex (pt p t)), mostRecentlyCalledBy := Some t\<rparr>)
      (p\<lparr>sch := set_state t STATE_PORTAL_WAIT_FOR_PARAMCOPY (sch p)\<rparr>))"
  define p4 where "p4 = upd_pt r (\<lambda>x. x\<lparr>callerDomain := Some (td p t), callerDomainID := domain_id p (td p t), resume_at := InJava\<rparr>) p3"
  have q: "q = p4\<lparr>sch := set_state t STATE_PORTAL_WAIT_FOR_RET (sch p4)\<rparr>"
    using assms(1) unfolding receive_start_def receive_checked_def Let_def
    by (auto simp: p3_def p4_def r_def upd_defs(1,3) split: if_splits)
  note P = q p4_def p3_def r_def
  show "sch q = set_state t STATE_PORTAL_WAIT_FOR_RET (set_state t STATE_PORTAL_WAIT_FOR_PARAMCOPY (sch p))"
    "services q = services p" "domain_id q = domain_id p" "depq_next q = depq_next p" by (simp_all add: P)
  show "unlinked q x = unlinked p x" if "x \<noteq> me p" "x \<noteq> t" for x using that by (simp add: P unlinked_def)
  show "unlinked q t = (unlinked p t)\<lparr>blockedInServiceThread := Some (me p)\<rparr>"
    using assms(2) by (simp add: P unlinked_def PortalThread.equality)
  show "resume_at (pt q (me p)) = InJava" "mostRecentlyCalledBy (pt q (me p)) = Some t"
    "processingDEP (pt q (me p)) = Some (curdom (sch p), blockedInServiceIndex (pt p t))"
    "callerDomain (pt q (me p)) = Some (td p t)" "callerDomainID (pt q (me p)) = domain_id p (td p t)"
    "blockedInServiceThread (pt q (me p)) = blockedInServiceThread (pt p (me p))"
    using assms(2) by (simp_all add: P)
qed

lemma receive_inv:
  assumes inv: "portal_inv p W" and lp: "in_loop p (me p)" and rc: "receives p (me p) (curdom (sch p)) i"
    and call: "receive_portalcall n i p = Ok p'"
  shows "\<exists>W'. portal_inv p' W'"
proof -
  define r d where "r = me p" and "d = curdom (sch p)"
  note D = portal_invD [OF inv]
  obtain a where a: "sched_inv (sch p) a" using D(1) by blast
  have rc': "receives p r d i" and lp': "in_loop p r" using rc lp by (simp_all add: r_def d_def)
  obtain dep where dep: "services p d i = Service dep" using rc' by (auto simp: receives_def)
  define p0 where "p0 = (if resume_at (pt p r) = RecvBlock then p\<lparr>sch := Sched_block_resume (sch p)\<rparr>
    else upd_pt r (\<lambda>x. x\<lparr>processingDEP := None, mostRecentlyCalledBy := None\<rparr>) p)"
  have p0: "sch p0 = sch p" "services p0 = services p" "domain_id p0 = domain_id p" "depq_next p0 = depq_next p"
    using resume_id [OF inv] by (auto simp: p0_def)
  have x0: "\<And>t. t \<noteq> r \<Longrightarrow> pt p0 t = pt p t" "blockedInServiceThread (pt p0 r) = blockedInServiceThread (pt p r)"
    by (auto simp: p0_def)
  obtain src p1 where src: "portal_dequeue_sender d i p0 = Ok (src, p1)"
    and rest: "(case src of None \<Rightarrow> on_sched (Sched_block n STATE_PORTAL_WAIT_FOR_SND) (upd_pt r (\<lambda>x. x\<lparr>resume_at := RecvBlock\<rparr>) p1)
      | Some t \<Rightarrow> receive_start n t p1) = Ok p'"
    using call p0(1) unfolding receive_portalcall_def Let_def r_def [symmetric] p0_def [symmetric] by (auto simp: d_def r_def)
  have "queue_of (depq_next p0) (firstWaitingSender dep) (lastWaitingSender dep) (W d i)"
    using D(2) dep unfolding p0 queues_ok_def by blast
  note E = dequeue_effect [OF src _ this]
  have d0: "services p0 d i = Service dep" by (simp add: p0 dep)
  have nid: "r \<noteq> idle_thread (sch p)" using receiverD [OF D(6) rc] by (simp add: receiver_ok_def r_def)
  have rr: "st p r = STATE_RUNNABLE" using me_runnable [OF inv] by (simp add: r_def)
  show ?thesis
  proof (cases src)
    case None
    then have w: "W d i = []" "p1 = p0" using E(1) [OF d0] by auto
    obtain s' where s': "Sched_block n STATE_PORTAL_WAIT_FOR_SND (sch p) = Ok s'"
      "p' = (upd_pt r (\<lambda>x. x\<lparr>resume_at := RecvBlock\<rparr>) p0)\<lparr>sch := s'\<rparr>"
      using rest None w by (auto simp: on_sched_def p0)
    have "moves ((states (sch p))(r := STATE_PORTAL_WAIT_FOR_SND)) (sch p) s'"
      using block_moves [OF s'(1) a] nid by (simp add: thread_states r_def)
    then have "portal_inv p' W"
      using lp' rc' w p0 x0
      by (intro to_loop [OF inv, of r d i p' "(states (sch p))(r := STATE_PORTAL_WAIT_FOR_SND)"])
        (auto simp: s' serving_def calling_def in_loop_def)
    then show ?thesis by blast
  next
    case (Some t)
    then obtain ys f l where w: "W d i = t # ys" "services p1 = (services p)(d := (services p d)(i := Service (dep\<lparr>firstWaitingSender := f, lastWaitingSender := l\<rparr>)))"
      "queue_of (depq_next p1) f l ys" "sch p1 = sch p" "domain_id p1 = domain_id p" "unlinked p1 = unlinked p0"
      "\<And>x. x \<noteq> t \<Longrightarrow> depq_next p1 x = depq_next p x"
      using E(2) [OF d0, of t] p0 by auto
    have tw: "t \<in> set (W d i)" by (simp add: w)
    have tr: "st p t \<noteq> STATE_RUNNABLE" "t \<noteq> r" using waiting_not_runnable [OF D(3) tw] rr by auto
    note U = unlinked_same [OF w(6)]
    have ti: "blockedInServiceIndex (pt p1 t) = i" using tw waiting_iff [OF D(3)] U(2) x0(1) tr(2) by simp
    have u0: "unlinked p1 x = unlinked p x" if "x \<noteq> r" for x using x0(1) [OF that] w(6) by (simp add: unlinked_def fun_eq_iff)
    have st: "receive_start n t p1 = Ok p'" "t \<noteq> me p1" using rest Some tr w(4) by (simp_all add: r_def)
    note F = receive_start_effect [OF st, unfolded w(4), folded r_def d_def]
    have mv: "moves ((states (sch p))(t := STATE_PORTAL_WAIT_FOR_RET)) (sch p) (sch p')"
      unfolding F(1) by (rule mark_moves [OF a]) (use tr in \<open>simp_all add: portal_states\<close>)
    have "portal_inv p' (W(d := (W d)(i := ys)))"
      by (rule accept_call [OF inv rr _ _ dep _ w(1) _ _ _ _ F(7,8) _ _ _ _ _ mv])
        (use lp' rc' w F ti u0 tr U(3) x0 in \<open>simp_all\<close>)
    then show ?thesis by blast
  qed
qed

text \<open>A service thread has a living caller.\<close>

lemma serving_alive:
  assumes "portal_inv p W" "serving p (me p) t"
  shows "caller_alive p"
  using portal_invD(5,7) [OF assms(1)] assms(2) unfolding serving_calls_ok_def threads_ok_def
  by (auto simp: caller_alive_def Let_def)

lemma processing_serving:
  assumes "portal_inv p W" "resume_at (pt p (me p)) = InJava" "processingDEP (pt p (me p)) = Some (d, i)"
  obtains t where "serving p (me p) t" "d = curdom (sch p)" "receives p (me p) d i" "st p t = STATE_PORTAL_WAIT_FOR_RET" "t \<noteq> me p"
proof -
  note D = portal_invD [OF assms(1)]
  have nl: "\<not> in_loop p (me p)" using assms(2) by (simp add: in_loop_def)
  then obtain t where "mostRecentlyCalledBy (pt p (me p)) = Some t"
    using D(5) assms(3) by (auto simp: serving_calls_ok_def)
  then have t: "serving p (me p) t" using nl by (simp add: serving_def)
  note sv = D(5) [unfolded serving_calls_ok_def, THEN conjunct1, rule_format, OF t]
  have "t \<noteq> me p" using sv assms(2) by (auto simp: calling_def)
  with that t sv assms(3) show ?thesis by auto
qed

lemma return_inv:
  assumes inv: "portal_inv p W" and c: "resume_at (pt p (me p)) = InJava" "processingDEP (pt p (me p)) = Some (d, i)"
    and call: "receive_return n i isref ret p = Ok p'"
  shows "portal_inv p' W"
proof -
  define r where "r = me p"
  note D = portal_invD [OF inv]
  obtain a where a: "sched_inv (sch p) a" using D(1) by blast
  obtain t where t: "serving p r t" "d = curdom (sch p)" "receives p r d i" "st p t = STATE_PORTAL_WAIT_FOR_RET" "t \<noteq> r"
    using processing_serving [OF inv c] by (metis r_def)
  obtain svc where svc: "services p d i = Service svc" using t(3) by (auto simp: receives_def)
  have ok: "queue_of (depq_next p) (firstWaitingSender svc) (lastWaitingSender svc) (W d i)" "abortFlag svc \<noteq> 1"
    using D(2) svc by (auto simp: queues_ok_def)
  have mr: "mostRecentlyCalledBy (pt p r) = Some t" using t(1) by (simp add: serving_def)
  define s1 where "s1 = set_state t STATE_PORTAL_WAIT_FOR_RETCOPY (sch p)"
  define p3 where "p3 = upd_pt r (\<lambda>x. x\<lparr>resume_at := RecvLoop\<rparr>) (upd_pt r (\<lambda>x. x\<lparr>processingDEP := None, mostRecentlyCalledBy := None\<rparr>)
    (upd_pt t (\<lambda>x. x\<lparr>portalReturnType := (if isref then 1 else 0), portalReturn := ret\<rparr>) (p\<lparr>sch := s1\<rparr>)))"
  have dr: "td p r = d" by (simp add: t(2) r_def)
  have "on_sched (Sched_portal_handoff_to_sender n t (firstWaitingSender svc \<noteq> None)) p3 = Ok p'"
    using call serving_alive [OF inv t(1) [unfolded r_def]] mr svc ok(2)
    unfolding receive_return_def receive_reply_def Let_def r_def [symmetric] p3_def s1_def dr by (auto simp: get_service_def)
  then obtain s' where s': "Sched_portal_handoff_to_sender n t (firstWaitingSender svc \<noteq> None) s1 = Ok s'" "p' = p3\<lparr>sch := s'\<rparr>"
    by (auto simp: on_sched_def p3_def)
  let ?b = "firstWaitingSender svc \<noteq> None"
  define g where "g = (states (sch p))(r := if ?b then STATE_RUNNABLE else STATE_PORTAL_WAIT_FOR_SND, t := STATE_RUNNABLE)"
  have "st p t \<noteq> STATE_RUNNABLE" using t(4) by (simp add: thread_states)
  note m = mark_waiting [OF a this, of STATE_PORTAL_WAIT_FOR_RETCOPY, folded s1_def]
  have s1: "curthr s1 = r" "idle_thread s1 = idle_thread (sch p)" "\<And>x. t_domain (thr s1 x) = td p x" "dom s1 = dom (sch p)"
    by (simp_all add: s1_def r_def)
  have "r \<noteq> idle_thread (sch p)" using receiverD [OF D(6) t(3)] by (simp add: receiver_ok_def)
  then have "moves ((states s1)(r := if ?b then STATE_RUNNABLE else STATE_PORTAL_WAIT_FOR_SND, t := STATE_RUNNABLE)) s1 s'"
    using sender_moves [OF s'(1) m(1)] m(2) s1 by (simp add: portal_states)
  then have mv: "moves g (sch p) s'"
    using m(2) s1 t(5) by (auto simp: moves_def g_def portal_states fun_eq_iff)
  have one: "serving p r x \<longleftrightarrow> x = t" for x using t(1) by (auto simp: serving_def)
  have "firstWaitingSender svc = None \<Longrightarrow> W d i = []" using queue_of_first [OF ok(1)] by (auto split: if_splits)
  then show ?thesis
    using c(1) t p3_def mv one
    by (intro to_loop [OF inv, of r d i p' g]) (auto simp: s' g_def r_def [symmetric] calling_def in_loop_def)
qed

lemma throw_inv:
  assumes inv: "portal_inv p W" and c: "resume_at (pt p (me p)) = InJava" "processingDEP (pt p (me p)) = Some (d, i)"
    and call: "throw_in_portalcall n exc p = Ok p'"
  shows "portal_inv p' W"
proof -
  define r where "r = me p"
  note D = portal_invD [OF inv]
  obtain a where a: "sched_inv (sch p) a" using D(1) by blast
  obtain t where t: "serving p r t" "d = curdom (sch p)" "receives p r d i" "st p t = STATE_PORTAL_WAIT_FOR_RET" "t \<noteq> r"
    using processing_serving [OF inv c] by (metis r_def)
  have mr: "mostRecentlyCalledBy (pt p r) = Some t" using t(1) by (simp add: serving_def)
  define p1 where "p1 = upd_pt r (\<lambda>x. x\<lparr>resume_at := RecvLoop\<rparr>)
    (upd_pt t (\<lambda>x. x\<lparr>portalReturn := exc, portalReturnType := PORTAL_RETURN_TYPE_EXCEPTION\<rparr>) p)"
  have rr: "st p r = STATE_RUNNABLE" using me_runnable [OF inv] by (simp add: r_def)
  have "on_sched (Sched_portal_destroy_handoff_to_sender n t) p1 = Ok p'"
    using call serving_alive [OF inv t(1) [unfolded r_def]] mr t(5)
    unfolding throw_in_portalcall_def reinit_service_thread_def r_def [symmetric] p1_def by (auto simp: r_def)
  then obtain s' where s': "Sched_portal_handoff_to_sender n t True (sch p) = Ok s'" "p' = p1\<lparr>sch := s'\<rparr>"
    using destroy_handoff_eq [of "sch p"] rr by (auto simp: on_sched_def p1_def r_def)
  have "r \<noteq> idle_thread (sch p)" using receiverD [OF D(6) t(3)] by (simp add: receiver_ok_def)
  then have mv: "moves ((states (sch p))(r := STATE_RUNNABLE, t := STATE_RUNNABLE)) (sch p) s'"
    using sender_moves [OF s'(1) a] t(4) by (simp add: r_def thread_states)
  have one: "serving p r x \<longleftrightarrow> x = t" for x using t(1) by (auto simp: serving_def)
  show ?thesis
    using c(1) t p1_def mv one
    by (intro to_loop [OF inv, of r d i p' "(states (sch p))(r := STATE_RUNNABLE, t := STATE_RUNNABLE)"])
      (auto simp: s' r_def [symmetric] calling_def in_loop_def)
qed

subsection \<open>The operations return\<close>

lemma on_sched_ok: "f (sch p) = Ok s \<Longrightarrow> is_ok (on_sched f p)"
  by (simp add: on_sched_def)

lemma check_domain_ok: "sched_inv s a \<Longrightarrow> room n a \<Longrightarrow> check_domain_not_in_runq n (curdom s) s = Ok ()"
proof -
  assume a: "sched_inv s a" "room n a"
  have "curdom s \<notin> set (order a)" using sched_invD(2) [OF a(1)] by (simp add: order_ok_def)
  moreover have "find_in n (d_next s) (\<lambda>x. x = curdom s) (runq_first s) = Ok (find (\<lambda>x. x = curdom s) (order a))"
    using rq_relD(2) [OF sched_invD(1) [OF a(1)]] a(2) by (intro find_in_queue) (auto simp: room_def)
  ultimately show ?thesis by (simp add: check_domain_not_in_runq_def find_eq)
qed

lemma portal_queue:
  assumes "portal_inv p W" "services p d i = Service svc"
  shows "queue_of (depq_next p) (firstWaitingSender svc) (lastWaitingSender svc) (W d i)" "dep_valid svc \<noteq> 0" "abortFlag svc \<noteq> 1"
  using portal_invD(2) [OF assms(1)] assms(2) by (auto simp: queues_ok_def)

lemma send_ok:
  assumes inv: "portal_inv p W" and a: "sched_inv (sch p) a" "room n a"
    and c: "resume_at (pt p (me p)) = InJava" "me p \<noteq> idle_thread (sch p)"
    and px: "services p (targetDomain px) (px_index px) = Service dep" "targetDomainID px = domain_id p (targetDomain px)"
    and len: "length (W (targetDomain px) (px_index px)) + 2 < n" "length (W (targetDomain px) (px_index px)) < 1414"
  shows "is_ok (direct_send_portal n px m p)"
proof -
  define d i where "d = targetDomain px" and "i = px_index px"
  note D = portal_invD [OF inv]
  have svc: "services p d i = Service dep" using px(1) by (simp add: d_def i_def)
  have len': "length (W d i) + 2 < n" "length (W d i) < 1414" using len by (simp_all add: d_def i_def)
  let ?p0 = "upd_pt (me p) (\<lambda>x. x\<lparr>blockedInDomain := Some d, blockedInDomainID := domain_id p d, blockedInServiceIndex := i, depMethodIndex := m\<rparr>) p"
  have nc: "me p \<notin> set (W d i)" using waiting_not_runnable [OF D(3)] me_runnable [OF inv] by blast
  have q0: "queue_of (depq_next ?p0) (firstWaitingSender dep) (lastWaitingSender dep) (W d i)"
    using portal_queue(1) [OF inv svc] by simp
  have svc0: "services ?p0 d i = Service dep" using svc by simp
  obtain p1 where p1: "portal_add_sender n d i (me p) ?p0 = Ok p1"
    using add_sender_ok [OF svc0 q0 nc, of n] len' by auto
  note E = add_sender_effect [OF p1 svc0 q0 nc]
  obtain f l where fl: "services p1 d i = Service (dep\<lparr>firstWaitingSender := f, lastWaitingSender := l\<rparr>)"
    "queue_of (depq_next p1) f l (W d i @ [me p])" using E(1) by auto
  obtain t where t: "receiver dep = Some t" using D(6) svc unfolding receivers_ok_def by blast
  have s1: "sch p1 = sch p" using E(2) by simp
  have "check_servicequeue n (dep\<lparr>firstWaitingSender := f, lastWaitingSender := l\<rparr>) p1 = Ok ()"
    using fl(2) len' by (intro check_servicequeue_ok [where l = l and xs = "W d i @ [me p]"]) simp_all
  moreover have "\<exists>s. Sched_block n STATE_PORTAL_WAIT_FOR_RCV (sch p) = Ok s"
    using block_step [OF a(1) _ c(2) a(2), of STATE_PORTAL_WAIT_FOR_RCV] by (auto simp: thread_states)
  moreover have "st p t = STATE_PORTAL_WAIT_FOR_SND \<Longrightarrow> \<exists>s. Sched_portal_handoff_to_receiver n t (sch p) = Ok s"
    using receiver_step [OF a(1) c(2) _ a(2), of t] by (auto simp: thread_states)
  ultimately have "is_ok (send_enqueued n d i p1)"
    using fl(1) t s1 by (auto simp: send_enqueued_def get_service_def on_sched_def states_def)
  then obtain p2 where p2: "send_enqueued n d i p1 = Ok p2" by (auto simp: is_ok_iff)
  show ?thesis
  proof (cases "d = curdom (sch p) \<or> d_state (dom (sch p) d) \<noteq> DOMAIN_STATE_ACTIVE")
    case True
    then show ?thesis using px
      by (auto simp: direct_send_portal_def Let_def get_service_def send_finished_def d_def i_def)
  next
    case False
    then show ?thesis using p1 p2 px
      by (auto simp: direct_send_portal_def Let_def d_def i_def)
  qed
qed

lemma send_resume_ok:
  assumes inv: "portal_inv p W" and c: "calling p (me p)" and n: "\<And>d. blockedInDomain (pt p (me p)) = Some d \<Longrightarrow> length (W d (blockedInServiceIndex (pt p (me p)))) < n"
  shows "is_ok (send_resume n p)"
proof -
  note D = portal_invD [OF inv]
  let ?i = "blockedInServiceIndex (pt p (me p))"
  obtain d svc where d: "blockedInDomain (pt p (me p)) = Some d" "services p d ?i = Service svc"
    using D(4) c unfolding callers_ok_def by blast
  have nc: "me p \<notin> set (W d ?i)" using waiting_not_runnable [OF D(3)] me_runnable [OF inv] by blast
  have "check_notin_servicequeue n svc (me p) p = Ok ()" using check_notin_ok [OF portal_queue(1) [OF inv d(2)] n [OF d(1)] nc] .
  moreover have "t_state (thr (sch p) (me p)) = STATE_RUNNABLE" using me_runnable [OF inv] by (simp add: states_def)
  moreover have "is_ok (send_finished p)" by (simp add: send_finished_def Let_def)
  ultimately show ?thesis using d resume_id [OF inv]
    by (auto simp: send_resume_def Let_def get_service_def on_sched_def Sched_portal_handoff_resume_def)
qed

lemma receive_start_ok:
  assumes a: "sched_inv (sch p) a" "room n a" and t: "t \<noteq> me p"
    and svc: "services p (curdom (sch p)) (blockedInServiceIndex (pt p t)) = Service svc" "dep_valid svc \<noteq> 0"
    and q: "queue_of (depq_next p) (firstWaitingSender svc) l ys" "t \<notin> set ys" "length ys < n" "length ys \<le> 1414"
  shows "is_ok (receive_start n t p)"
proof -
  have c: "check_servicequeue n svc p' = Ok ()" "check_notin_servicequeue n svc t p' = Ok ()" if "depq_next p' = depq_next p" for p'
    using check_servicequeue_ok [of p' svc l ys n] check_notin_ok [of p' svc l ys n t] q that by simp_all
  have "t_state (thr (sch p) (me p)) = STATE_RUNNABLE" using sched_invD(5) [OF a(1)] .
  then show ?thesis using check_domain_ok [OF a] svc t
    unfolding receive_start_def receive_checked_def Let_def by (auto simp: get_service_def c)
qed

lemma receive_ok:
  assumes inv: "portal_inv p W" and a: "sched_inv (sch p) a" "room n a"
    and lp: "in_loop p (me p)" and rc: "receives p (me p) (curdom (sch p)) i"
    and len: "length (W (curdom (sch p)) i) < n" "length (W (curdom (sch p)) i) \<le> 1414"
  shows "is_ok (receive_portalcall n i p)"
proof -
  define r d where "r = me p" and "d = curdom (sch p)"
  note D = portal_invD [OF inv]
  have rc': "receives p r d i" and dr: "td p r = d" using rc by (simp_all add: r_def d_def)
  obtain dep where dep: "services p d i = Service dep" using rc' by (auto simp: receives_def)
  define p0 where "p0 = (if resume_at (pt p r) = RecvBlock then p\<lparr>sch := Sched_block_resume (sch p)\<rparr>
    else upd_pt r (\<lambda>x. x\<lparr>processingDEP := None, mostRecentlyCalledBy := None\<rparr>) p)"
  have p0: "sch p0 = sch p" "services p0 = services p" "depq_next p0 = depq_next p" "\<And>t. t \<noteq> r \<Longrightarrow> pt p0 t = pt p t"
    using resume_id [OF inv] by (auto simp: p0_def)
  have q0: "queue_of (depq_next p0) (firstWaitingSender dep) (lastWaitingSender dep) (W d i)"
    using portal_queue(1) [OF inv dep] by (simp add: p0)
  have d0: "services p0 d i = Service dep" by (simp add: p0 dep)
  obtain src p1 where src: "portal_dequeue_sender d i p0 = Ok (src, p1)"
    using d0 by (cases "firstWaitingSender dep") (auto simp: portal_dequeue_sender_def get_service_def Let_def)
  note E = dequeue_effect [OF src d0 q0]
  have "is_ok (case src of None \<Rightarrow> on_sched (Sched_block n STATE_PORTAL_WAIT_FOR_SND) (upd_pt r (\<lambda>x. x\<lparr>resume_at := RecvBlock\<rparr>) p1)
      | Some t \<Rightarrow> receive_start n t p1)"
  proof (cases src)
    case None
    have "r \<noteq> idle_thread (sch p)" using receiverD [OF D(6) rc'] by (simp add: receiver_ok_def)
    then have "\<exists>s. Sched_block n STATE_PORTAL_WAIT_FOR_SND (sch p) = Ok s"
      using block_step [OF a(1) _ _ a(2), of STATE_PORTAL_WAIT_FOR_SND] by (auto simp: thread_states r_def)
    then show ?thesis using None E(1) p0(1) by (auto simp: on_sched_def)
  next
    case (Some t)
    then obtain ys f l where w: "W d i = t # ys" "services p1 d i = Service (dep\<lparr>firstWaitingSender := f, lastWaitingSender := l\<rparr>)"
      "queue_of (depq_next p1) f l ys" "sch p1 = sch p" "unlinked p1 = unlinked p0"
      using E(2) [of t] p0 by auto
    have tw: "t \<in> set (W d i)" by (simp add: w)
    have tr: "t \<noteq> r" using waiting_not_runnable [OF D(3) tw] me_runnable [OF inv] by (auto simp: r_def)
    have ti: "blockedInServiceIndex (pt p1 t) = i"
      using tw waiting_iff [OF D(3)] unlinked_same(2) [OF w(5)] p0(4) tr by simp
    have "distinct (W d i)" using queue_of_distinct q0 by blast
    then have "t \<notin> set ys" by (simp add: w)
    then have "is_ok (receive_start n t p1)"
      using w ti tr a len portal_queue(2) [OF inv dep]
      by (intro receive_start_ok [of p1 a n t "dep\<lparr>firstWaitingSender := f, lastWaitingSender := l\<rparr>" l ys])
        (simp_all add: r_def [symmetric] dr)
    then show ?thesis using Some by simp
  qed
  then show ?thesis
    using src p0(1) unfolding receive_portalcall_def Let_def r_def [symmetric] p0_def [symmetric] by (simp add: d_def r_def)
qed

lemma return_ok:
  assumes inv: "portal_inv p W" and a: "sched_inv (sch p) a" "room n a"
    and c: "resume_at (pt p (me p)) = InJava" "processingDEP (pt p (me p)) = Some (d, i)" and len: "length (W d i) < n"
  shows "is_ok (receive_return n i isref ret p)" "is_ok (throw_in_portalcall n exc p)"
proof -
  define r where "r = me p"
  note D = portal_invD [OF inv]
  obtain t where t: "serving p r t" "d = curdom (sch p)" "receives p r d i" "st p t = STATE_PORTAL_WAIT_FOR_RET" "t \<noteq> r"
    using processing_serving [OF inv c] by (metis r_def)
  obtain svc where svc: "services p d i = Service svc" using t(3) by (auto simp: receives_def)
  have mr: "mostRecentlyCalledBy (pt p r) = Some t" using t(1) by (simp add: serving_def)
  have dr: "td p r = d" by (simp add: t(2) r_def)
  have rr: "st p r = STATE_RUNNABLE" using me_runnable [OF inv] by (simp add: r_def)
  have nid: "r \<noteq> idle_thread (sch p)" using receiverD [OF D(6) t(3)] by (simp add: receiver_ok_def)
  have "r \<notin> set (W d i)" using waiting_not_runnable [OF D(3)] rr by blast
  then have chk: "check_notin_servicequeue n svc r p = Ok ()"
    using check_notin_ok [OF portal_queue(1) [OF inv svc] len] by blast
  define s1 where "s1 = set_state t STATE_PORTAL_WAIT_FOR_RETCOPY (sch p)"
  have nt: "st p t \<noteq> STATE_RUNNABLE" using t(4) by (simp add: thread_states)
  note m = mark_waiting [OF a(1) nt, of STATE_PORTAL_WAIT_FOR_RETCOPY, folded s1_def]
  have "\<exists>s. Sched_portal_handoff_to_sender n t b s1 = Ok s" for b
    using sender_step [of s1 a t n b] m a(2) nid by (auto simp: portal_states s1_def r_def)
  then show "is_ok (receive_return n i isref ret p)"
    using serving_alive [OF inv t(1) [unfolded r_def]] mr svc portal_queue(3) [OF inv svc] chk
    unfolding receive_return_def receive_reply_def Let_def r_def [symmetric] dr by (auto simp: get_service_def on_sched_def s1_def is_ok_iff)
  have "\<exists>s. Sched_portal_handoff_to_sender n t True (sch p) = Ok s"
    using sender_step [OF a(1) _ nt a(2), of True] nid by (auto simp: r_def)
  then show "is_ok (throw_in_portalcall n exc p)"
    using serving_alive [OF inv t(1) [unfolded r_def]] mr t(5) destroy_handoff_eq [of "sch p" n t] rr
    unfolding throw_in_portalcall_def reinit_service_thread_def r_def [symmetric] by (auto simp: on_sched_def r_def is_ok_iff)
qed

subsection \<open>Interleavings\<close>

text \<open>
  The steps of the running thread, by the point where it stands.  Java code may make a portal call, yield, be
  preempted, block, or unblock a thread that blocked itself; Java code of a service may also return or
  throw.  A thread in the kernel goes on where it was interrupted.  A receiver serves the service it was
  created for.
\<close>

inductive pstep :: "portals \<Rightarrow> portals \<Rightarrow> bool" where
  p_send: "resume_at (pt p (me p)) = InJava \<Longrightarrow> me p \<noteq> idle_thread (sch p) \<Longrightarrow>
    direct_send_portal n proxy m p = Ok (r, p') \<Longrightarrow> pstep p p'"
| p_send_resume: "calling p (me p) \<Longrightarrow> send_resume n p = Ok (r, p') \<Longrightarrow> pstep p p'"
| p_receive: "in_loop p (me p) \<Longrightarrow> receives p (me p) (curdom (sch p)) i \<Longrightarrow>
    receive_portalcall n i p = Ok p' \<Longrightarrow> pstep p p'"
| p_return: "resume_at (pt p (me p)) = InJava \<Longrightarrow> processingDEP (pt p (me p)) = Some (d, i) \<Longrightarrow>
    receive_return n i isref ret p = Ok p' \<Longrightarrow> pstep p p'"
| p_throw: "resume_at (pt p (me p)) = InJava \<Longrightarrow> processingDEP (pt p (me p)) = Some (d, i) \<Longrightarrow>
    throw_in_portalcall n exc p = Ok p' \<Longrightarrow> pstep p p'"
| p_yield: "resume_at (pt p (me p)) = InJava \<Longrightarrow> on_sched (threadyield n) p = Ok p' \<Longrightarrow> pstep p p'"
| p_preempt: "resume_at (pt p (me p)) = InJava \<Longrightarrow> on_sched (reschedule n off) p = Ok p' \<Longrightarrow> pstep p p'"
| p_block: "resume_at (pt p (me p)) = InJava \<Longrightarrow> me p \<noteq> idle_thread (sch p) \<Longrightarrow>
    on_sched (threadblock n) p = Ok p' \<Longrightarrow> pstep p p'"
| p_unblock: "resume_at (pt p (me p)) = InJava \<Longrightarrow> t_state (thr (sch p) t) = STATE_BLOCKEDUSER \<Longrightarrow>
    on_sched (threadunblock n t) p = Ok p' \<Longrightarrow> pstep p p'"

inductive preach :: "portals \<Rightarrow> portals \<Rightarrow> bool" for p0 where
  preach_refl: "preach p0 p0"
| preach_step: "preach p0 p \<Longrightarrow> pstep p p' \<Longrightarrow> preach p0 p'"

text \<open>A thread that blocked itself is in Java code.\<close>

lemma blocked_in_java:
  assumes "portal_inv p W" "st p t = STATE_BLOCKEDUSER"
  shows "resume_at (pt p t) = InJava"
proof -
  note D = portal_invD [OF assms(1)]
  have "\<not> in_loop p t"
  proof
    assume l: "in_loop p t"
    then obtain d i where "receives p t d i" using D(6) unfolding receivers_ok_def by blast
    from receiverD [OF D(6) this] l assms(2) show False by (auto simp: receiver_ok_def thread_states)
  qed
  moreover have "\<not> calling p t"
  proof
    assume c: "calling p t"
    then obtain d where d: "blockedInDomain (pt p t) = Some d"
      "\<And>r. blockedInServiceThread (pt p t) = Some r \<Longrightarrow> st p t = STATE_RUNNABLE \<or> serving p r t"
      using D(4) unfolding callers_ok_def by blast
    show False
    proof (cases "blockedInServiceThread (pt p t)")
      case None
      then have "t \<in> set (W d (blockedInServiceIndex (pt p t)))" using c d(1) waiting_iff [OF D(3)] by simp
      from waiting_state [OF D(3) this] assms(2) show False by (auto simp: thread_states split: if_splits)
    next
      case (Some r)
      with d(2) assms(2) have "serving p r t" by (auto simp: thread_states)
      then show False using D(5) assms(2) by (auto simp: serving_calls_ok_def thread_states)
    qed
  qed
  ultimately show ?thesis by (cases "resume_at (pt p t)") (auto simp: in_loop_def calling_def)
qed

lemma pstep_inv: "pstep p p' \<Longrightarrow> portal_inv p W \<Longrightarrow> \<exists>W'. portal_inv p' W'"
proof (induction rule: pstep.induct)
  case (p_send p n proxy m r p')
  then show ?case using send_inv by blast
next
  case (p_send_resume p n r p')
  then show ?case using send_resume_inv by blast
next
  case (p_receive p i n p')
  then show ?case using receive_inv by blast
next
  case (p_return p d i n isref ret p')
  then show ?case using return_inv by blast
next
  case (p_throw p d i n exc p')
  then show ?case using throw_inv by blast
next
  case (p_yield p n p')
  then obtain a s' where s: "sched_inv (sch p) a" "threadyield n (sch p) = Ok s'" "p' = p\<lparr>sch := s'\<rparr>"
    using portal_invD(1) [of p W] by (auto simp: on_sched_def)
  have "portal_inv p' W" unfolding s(3)
    by (rule states_step [OF p_yield(3) yield_moves [OF s(2,1)] _ p_yield(1)])
      (use me_runnable [OF p_yield(3)] in \<open>simp_all add: thread_states\<close>)
  then show ?case by blast
next
  case (p_preempt p n off p')
  then obtain a s' where s: "sched_inv (sch p) a" "reschedule n off (sch p) = Ok s'" "p' = p\<lparr>sch := s'\<rparr>"
    using portal_invD(1) [of p W] by (auto simp: on_sched_def)
  have "portal_inv p' W" unfolding s(3)
    by (rule states_step [OF p_preempt(3) preempt_moves [OF s(2,1)] _ p_preempt(1)])
      (use me_runnable [OF p_preempt(3)] in \<open>simp_all add: thread_states\<close>)
  then show ?case by blast
next
  case (p_block p n p')
  then obtain a s' where s: "sched_inv (sch p) a" "Sched_block n STATE_BLOCKEDUSER (sch p) = Ok s'" "p' = p\<lparr>sch := s'\<rparr>"
    using portal_invD(1) [of p W] by (auto simp: on_sched_def threadblock_def)
  have "moves ((states (sch p))(me p := STATE_BLOCKEDUSER)) (sch p) s'"
    using block_moves [OF s(2,1) _ p_block(2)] by (simp add: thread_states)
  then have "portal_inv p' W" unfolding s(3)
    by (rule states_step [OF p_block(4) _ _ p_block(1)]) (simp_all add: thread_states)
  then show ?case by blast
next
  case (p_unblock p t n p')
  then obtain a s' where s: "sched_inv (sch p) a" "threadunblock n t (sch p) = Ok s'" "p' = p\<lparr>sch := s'\<rparr>"
    using portal_invD(1) [of p W] by (auto simp: on_sched_def)
  have st: "st p t = STATE_BLOCKEDUSER" using p_unblock(2) by (simp add: states_def)
  then have "moves ((states (sch p))(t := STATE_RUNNABLE)) (sch p) s'"
    using unblock_moves [OF s(2,1)] by (simp add: thread_states)
  then have "portal_inv p' W" unfolding s(3)
    by (rule states_step [OF p_unblock(4) _ _ blocked_in_java [OF p_unblock(4) st]]) (simp_all add: thread_states)
  then show ?case by blast
qed

lemma preach_inv: "preach p0 p \<Longrightarrow> portal_inv p0 W0 \<Longrightarrow> \<exists>W. portal_inv p W"
  by (induction rule: preach.induct) (auto dest: pstep_inv)

lemma served_by: "portal_inv p W \<Longrightarrow> serving p r t \<Longrightarrow> blockedInServiceThread (pt p t) = Some r"
  using portal_invD(5) [of p W] by (simp add: serving_calls_ok_def)

lemma call_somewhere:
  assumes inv: "portal_inv p W" and c: "calling p t" "st p t \<noteq> STATE_RUNNABLE"
  shows "(\<exists>d i. t \<in> set (W d i)) \<noteq> (\<exists>r. serving p r t)"
proof -
  note D = portal_invD [OF inv]
  obtain d where d: "blockedInDomain (pt p t) = Some d"
    "\<And>r. blockedInServiceThread (pt p t) = Some r \<Longrightarrow> serving p r t"
    using D(4) c unfolding callers_ok_def by blast
  note sv = served_by [OF inv, of _ t]
  show ?thesis
  proof (cases "blockedInServiceThread (pt p t)")
    case None
    then have "t \<in> set (W d (blockedInServiceIndex (pt p t)))" using c(1) d(1) waiting_iff [OF D(3)] by simp
    then show ?thesis using None sv by auto
  next
    case (Some r)
    then have "serving p r t" "t \<notin> set (W e j)" for e j using d(2) waiting_iff [OF D(3)] by auto
    then show ?thesis by blast
  qed
qed

lemma waiting_receiver_idle:
  assumes inv: "portal_inv p W" and r: "services p d i = Service svc" "receiver svc = Some r" "st p r = STATE_PORTAL_WAIT_FOR_SND"
  shows "firstWaitingSender svc = None"
proof -
  have "receives p r d i" using r by (simp add: receives_def)
  from receiverD [OF portal_invD(6) [OF inv] this] r(3) have "W d i = []"
    by (auto simp: receiver_ok_def thread_states split: if_splits)
  then show ?thesis using queue_of_first [OF portal_queue(1) [OF inv r(1)]] by simp
qed

subsection \<open>Properties\<close>

text \<open>C5: portal calls are not lost, however the threads interleave.  In every state reachable from a consistent one a caller
  whose call is not answered is at exactly one place: in the queue of a service, or being served; no two
  service threads serve the same caller; the threads linked in a service's queue are those callers that
  wait for it; and a receiver waits for callers only when its queue is empty.\<close>

theorem portal_calls_not_lost:
  assumes "portal_inv p0 W0" "preach p0 p"
  shows "\<exists>W. queues_ok p W \<and>
    (\<forall>t. calling p t \<and> st p t \<noteq> STATE_RUNNABLE \<longrightarrow> (\<exists>d i. t \<in> set (W d i)) \<noteq> (\<exists>r. serving p r t)) \<and>
    (\<forall>t r r'. serving p r t \<and> serving p r' t \<longrightarrow> r = r') \<and>
    (\<forall>t d i. t \<in> set (W d i) \<longrightarrow> blockedInDomain (pt p t) = Some d \<and> blockedInServiceIndex (pt p t) = i \<and> st p t \<noteq> STATE_RUNNABLE) \<and>
    (\<forall>d i svc r. services p d i = Service svc \<and> receiver svc = Some r \<and> st p r = STATE_PORTAL_WAIT_FOR_SND \<longrightarrow>
      firstWaitingSender svc = None)"
proof -
  obtain W where W: "portal_inv p W" using preach_inv [OF assms(2,1)] by blast
  note D = portal_invD [OF W]
  show ?thesis
  proof (intro exI [of _ W] conjI allI impI; (elim conjE)?)
    show "queues_ok p W" by (rule D(2))
    show "(\<exists>d i. t \<in> set (W d i)) \<noteq> (\<exists>r. serving p r t)" if "calling p t" "st p t \<noteq> STATE_RUNNABLE" for t
      using call_somewhere [OF W that] .
    show "r = r'" if "serving p r t" "serving p r' t" for t r r'
      using served_by [OF W that(1)] served_by [OF W that(2)] by simp
    show "blockedInDomain (pt p t) = Some d" "blockedInServiceIndex (pt p t) = i" "st p t \<noteq> STATE_RUNNABLE"
      if "t \<in> set (W d i)" for t d i
      using that waiting_iff [OF D(3)] waiting_not_runnable [OF D(3)] by auto
    show "firstWaitingSender svc = None"
      if "services p d i = Service svc" "receiver svc = Some r" "st p r = STATE_PORTAL_WAIT_FOR_SND" for d i svc r
      using waiting_receiver_idle [OF W that] .
  qed
qed

text \<open>The threads of \<open>demo\<close>; thread 3 of domain 1 receives the calls of service 1 of its domain.\<close>

definition demo_thread :: PortalThread where
  "demo_thread = \<lparr>nextInDEPQueue = None, blockedInDomain = None, blockedInDomainID = 0, blockedInServiceIndex = 0,
     blockedInServiceThread = None, depMethodIndex = 0, processingDEP = None, mostRecentlyCalledBy = None,
     callerDomain = None, callerDomainID = 0, portalReturn = 0, portalReturnType = 0, resume_at = InJava\<rparr>"

definition demo_service :: DEPDesc where
  "demo_service = \<lparr>firstWaitingSender = None, lastWaitingSender = None, receiver = Some 3, dep_obj = 0x2000,
     dep_interface = 0, dep_valid = 1, dep_refcount = 1, serviceIndex = 1, abortFlag = 0\<rparr>"

definition demo_portals :: portals where
  "demo_portals = \<lparr>sch = demo, pt = (\<lambda>_. demo_thread)(3 := demo_thread\<lparr>resume_at := RecvLoop\<rparr>),
     services = (\<lambda>_ _. SERVICE_ENTRY_FREE)(1 := (\<lambda>_. SERVICE_ENTRY_FREE)(1 := Service demo_service)), domain_id = of_nat\<rparr>"

definition demo_proxy :: Proxy where
  "demo_proxy = \<lparr>targetDomain = 1, targetDomainID = 1, px_index = 1\<rparr>"

lemma demo_portals_attrs:
  "resume_at (pt demo_portals t) = (if t = 3 then RecvLoop else InJava)" "mostRecentlyCalledBy (pt demo_portals t) = None"
  "processingDEP (pt demo_portals t) = None" "blockedInServiceThread (pt demo_portals t) = None"
  "sch demo_portals = demo" "domain_id demo_portals d = of_nat d"
  "services demo_portals d i = (if d = 1 \<and> i = 1 then Service demo_service else SERVICE_ENTRY_FREE)"
  by (simp_all add: demo_portals_def demo_thread_def)

lemma demo_portal_inv: "portal_inv demo_portals (\<lambda>_ _. [])"
proof -
  note A = demo_portals_attrs
  have v: "in_loop demo_portals t = (t = 3)" "\<not> calling demo_portals t" "\<not> serving demo_portals t u"
    "receives demo_portals r d i \<longleftrightarrow> d = 1 \<and> i = 1 \<and> r = 3" for t u r d i
    by (auto simp: in_loop_def calling_def serving_def receives_def A demo_service_def)
  have s: "st demo_portals 3 = STATE_RUNNABLE" "td demo_portals 3 = 1" by (simp_all add: states_def A demo_def thread0_def)
  have act: "d_state (dom demo d) = DOMAIN_STATE_ACTIVE" for d by (simp add: demo_def domain0_def)
  have "queues_ok demo_portals (\<lambda>_ _. [])" by (auto simp: queues_ok_def A demo_service_def split: if_splits)
  moreover have "waiting_ok demo_portals (\<lambda>_ _. [])" by (simp add: waiting_ok_def v)
  moreover have "callers_ok demo_portals" by (simp add: callers_ok_def v)
  moreover have "serving_calls_ok demo_portals" by (simp add: serving_calls_ok_def v A)
  moreover have "receivers_ok demo_portals (\<lambda>_ _. [])"
    using s by (auto simp: receivers_ok_def v receiver_ok_def A demo_service_def demo_attrs split: if_splits)
  moreover have "threads_ok demo_portals" by (simp add: threads_ok_def A demo_attrs act)
  ultimately show ?thesis using demo_inv by (auto simp: portal_inv_def A)
qed

lemma demo_send: "\<exists>r p'. direct_send_portal 5 demo_proxy 0 demo_portals = Ok (r, p')"
proof -
  have "is_ok (direct_send_portal 5 demo_proxy 0 demo_portals)"
    by (rule send_ok [OF demo_portal_inv, of demo_queues 5 demo_proxy demo_service])
      (use demo_inv demo_room in \<open>simp_all add: demo_portals_attrs demo_attrs demo_proxy_def\<close>)
  then show ?thesis by (auto simp: is_ok_iff)
qed

theorem portal_calls_not_lost_witness:
  "\<exists>r p W. direct_send_portal 5 demo_proxy 0 demo_portals = Ok (r, p) \<and> queues_ok p W"
proof -
  obtain r p where p: "direct_send_portal 5 demo_proxy 0 demo_portals = Ok (r, p)" using demo_send by blast
  then have "pstep demo_portals p"
    by (rule p_send [rotated 2]) (simp_all add: demo_portals_attrs demo_attrs)
  then have "preach demo_portals p" by (rule preach_step [OF preach_refl])
  from portal_calls_not_lost [OF demo_portal_inv this] p show ?thesis by blast
qed

text \<open>C6: in every reachable state every portal operation that the running thread can perform returns: a call through a valid
  proxy, the return from a call, the receive loop, a reply, and an exception in the service.  No assertion
  and no consistency check fails, as long as fewer than 1414 callers wait for one service.\<close>

theorem portal_operations_return:
  assumes "portal_inv p0 W0" "preach p0 p"
  shows "\<exists>W. queues_ok p W \<and>
    (\<forall>px m svc. resume_at (pt p (me p)) = InJava \<and> me p \<noteq> idle_thread (sch p) \<and>
       services p (targetDomain px) (px_index px) = Service svc \<and> targetDomainID px = domain_id p (targetDomain px) \<and>
       length (W (targetDomain px) (px_index px)) < 1414 \<longrightarrow> (\<exists>N. \<forall>n\<ge>N. is_ok (direct_send_portal n px m p))) \<and>
    (calling p (me p) \<longrightarrow> (\<exists>N. \<forall>n\<ge>N. is_ok (send_resume n p))) \<and>
    (\<forall>i. in_loop p (me p) \<and> receives p (me p) (curdom (sch p)) i \<and> length (W (curdom (sch p)) i) \<le> 1414 \<longrightarrow>
       (\<exists>N. \<forall>n\<ge>N. is_ok (receive_portalcall n i p))) \<and>
    (\<forall>d i isref ret exc. resume_at (pt p (me p)) = InJava \<and> processingDEP (pt p (me p)) = Some (d, i) \<longrightarrow>
       (\<exists>N. \<forall>n\<ge>N. is_ok (receive_return n i isref ret p) \<and> is_ok (throw_in_portalcall n exc p)))"
proof -
  obtain W where W: "portal_inv p W" using preach_inv [OF assms(2,1)] by blast
  obtain a k where a: "sched_inv (sch p) a" and k: "room k a" using portal_invD(1) [OF W] room_exists by blast
  have r: "room n a" if "k \<le> n" for n using room_mono [OF k that] .
  show ?thesis
  proof (intro exI [of _ W] conjI allI impI; (elim conjE)?)
    show "queues_ok p W" by (rule portal_invD(2) [OF W])
    show "\<exists>N. \<forall>n\<ge>N. is_ok (direct_send_portal n px m p)"
      if "resume_at (pt p (me p)) = InJava" "me p \<noteq> idle_thread (sch p)"
        "services p (targetDomain px) (px_index px) = Service svc" "targetDomainID px = domain_id p (targetDomain px)"
        "length (W (targetDomain px) (px_index px)) < 1414" for px m svc
      using send_ok [OF W a r that(1-4) _ that(5)]
      by (intro exI [of _ "max k (length (W (targetDomain px) (px_index px)) + 3)"]) auto
    show "\<exists>N. \<forall>n\<ge>N. is_ok (send_resume n p)" if "calling p (me p)"
      by (intro exI [of _ "length (W (the (blockedInDomain (pt p (me p)))) (blockedInServiceIndex (pt p (me p)))) + 1"]
          allI impI send_resume_ok [OF W that]) simp
    show "\<exists>N. \<forall>n\<ge>N. is_ok (receive_portalcall n i p)"
      if "in_loop p (me p)" "receives p (me p) (curdom (sch p)) i" "length (W (curdom (sch p)) i) \<le> 1414" for i
      using receive_ok [OF W a r that(1,2) _ that(3)]
      by (intro exI [of _ "max k (length (W (curdom (sch p)) i) + 1)"]) auto
    show "\<exists>N. \<forall>n\<ge>N. is_ok (receive_return n i isref ret p) \<and> is_ok (throw_in_portalcall n exc p)"
      if "resume_at (pt p (me p)) = InJava" "processingDEP (pt p (me p)) = Some (d, i)" for d i isref ret exc
      using return_ok [OF W a r that] by (intro exI [of _ "max k (length (W d i) + 1)"]) auto
  qed
qed

theorem portal_operations_return_witness:
  "\<exists>N. \<forall>n\<ge>N. is_ok (direct_send_portal n demo_proxy 0 demo_portals)"
proof -
  obtain W where W: "queues_ok demo_portals W"
    "\<forall>px m svc. resume_at (pt demo_portals (me demo_portals)) = InJava \<and> me demo_portals \<noteq> idle_thread (sch demo_portals) \<and>
       services demo_portals (targetDomain px) (px_index px) = Service svc \<and> targetDomainID px = domain_id demo_portals (targetDomain px) \<and>
       length (W (targetDomain px) (px_index px)) < 1414 \<longrightarrow> (\<exists>N. \<forall>n\<ge>N. is_ok (direct_send_portal n px m demo_portals))"
    using portal_operations_return [OF demo_portal_inv preach_refl] by blast
  have "queue_of (depq_next demo_portals) None None (W 1 1)"
    using W(1) [unfolded queues_ok_def, rule_format, of 1 1 demo_service] by (simp add: demo_portals_attrs demo_service_def)
  then have "W 1 1 = []" by (auto simp: queue_of_def)
  then show ?thesis using W(2) [rule_format, of demo_proxy demo_service 0]
    by (simp add: demo_portals_attrs demo_attrs demo_proxy_def)
qed

end
