(* ===== verification/Gc_Heap.thy ===== *)
theory Gc_Heap
  imports JX_Prelude
begin

section \<open>Heap objects and the copying collector (Memory/gc_new.c, gc_move_common.c, gc_move.c)\<close>

text \<open>
  Every domain has its own heap, two semispaces of words.  An object is a run of words: a flag word, the magic
  number, and then the structure the references point to, whose first word is the virtual table.  While the collector
  runs the flag word of a copied object holds the address of its copy with the lowest bit set.

  The memory is a function from word addresses to words; \<open>waddr\<close> is the word that a pointer (a byte address) refers
  to.  What the collector only reads outside the heaps, class descriptors and the identifiers of
  domains, is the record \<open>gc_env\<close>.  The build settings fix \<^verbatim>\<open>USE_MAGIC\<close>, \<^verbatim>\<open>ALL_ARRAYS_32BIT\<close> and \<^verbatim>\<open>DEBUG\<close>, and leave
  \<^verbatim>\<open>NEW_PORTALCALL\<close>, \<^verbatim>\<open>NEW_SCHED\<close> and \<^verbatim>\<open>STACK_ON_HEAP\<close> undefined.
\<close>

subsection \<open>Objects\<close>

type_synonym words = "nat \<Rightarrow> u4"

definition OBJFLAGS_OBJECT :: u4 where "OBJFLAGS_OBJECT = 0x02"
definition OBJFLAGS_PORTAL :: u4 where "OBJFLAGS_PORTAL = 0x04"
definition OBJFLAGS_MEMORY :: u4 where "OBJFLAGS_MEMORY = 0x06"
definition OBJFLAGS_ATOMVAR :: u4 where "OBJFLAGS_ATOMVAR = 0x0a"
definition OBJFLAGS_SERVICE :: u4 where "OBJFLAGS_SERVICE = 0x0c"
definition OBJFLAGS_CPUSTATE :: u4 where "OBJFLAGS_CPUSTATE = 0x0e"
definition OBJFLAGS_FOREIGN_CPUSTATE :: u4 where "OBJFLAGS_FOREIGN_CPUSTATE = 0x10"
definition OBJFLAGS_EXTERNAL_CPUDESC :: u4 where "OBJFLAGS_EXTERNAL_CPUDESC = 0x14"
definition OBJFLAGS_ARRAY :: u4 where "OBJFLAGS_ARRAY = 0x16"
definition OBJFLAGS_EXTERNAL_STRING :: u4 where "OBJFLAGS_EXTERNAL_STRING = 0x18"
definition OBJFLAGS_CAS :: u4 where "OBJFLAGS_CAS = 0x1a"
definition OBJFLAGS_EXTERNAL_METHOD :: u4 where "OBJFLAGS_EXTERNAL_METHOD = 0x1c"
definition OBJFLAGS_EXTERNAL_CLASS :: u4 where "OBJFLAGS_EXTERNAL_CLASS = 0x1e"
definition OBJFLAGS_DOMAIN :: u4 where "OBJFLAGS_DOMAIN = 0x28"
definition OBJFLAGS_SERVICE_POOL :: u4 where "OBJFLAGS_SERVICE_POOL = 0x2a"

lemmas objflags = OBJFLAGS_OBJECT_def OBJFLAGS_PORTAL_def OBJFLAGS_MEMORY_def OBJFLAGS_ATOMVAR_def OBJFLAGS_SERVICE_def
  OBJFLAGS_CPUSTATE_def OBJFLAGS_FOREIGN_CPUSTATE_def OBJFLAGS_EXTERNAL_CPUDESC_def OBJFLAGS_ARRAY_def
  OBJFLAGS_EXTERNAL_STRING_def OBJFLAGS_CAS_def OBJFLAGS_EXTERNAL_METHOD_def OBJFLAGS_EXTERNAL_CLASS_def OBJFLAGS_DOMAIN_def
  OBJFLAGS_SERVICE_POOL_def

definition MAGIC_OBJECT :: u4 where "MAGIC_OBJECT = 0xbebeceee"
definition FLAGS_MASK :: u4 where "FLAGS_MASK = 0xfe"
definition FORWARD_MASK :: u4 where "FORWARD_MASK = 1"
definition FORWARD_PTR_MASK :: u4 where "FORWARD_PTR_MASK = 0xfffffffe"
definition GC_FORWARD :: u4 where "GC_FORWARD = 1"

lemmas gc_masks = FLAGS_MASK_def FORWARD_MASK_def FORWARD_PTR_MASK_def GC_FORWARD_def

text \<open>\<open>waddr\<close>: the word of a pointer; \<open>obj_start\<close>: the flag word of the object a reference points to (\<^verbatim>\<open>ObjectDesc2ptr\<close>);
  \<open>obj_ref\<close>: the reference to the object that starts there (\<^verbatim>\<open>ptr2ObjectDesc\<close>).\<close>

definition waddr :: "u4 \<Rightarrow> nat" where
  "waddr v = unat v div 4"

definition obj_start :: "u4 \<Rightarrow> nat" where
  "obj_start v = waddr v - 2"

definition obj_ref :: "nat \<Rightarrow> u4" where
  "obj_ref ob = of_nat (4 * (ob + 2))"

record gc_class =
  instanceSize :: nat
  cl_map :: "u1 list"

text \<open>\<open>class_at\<close> is the class descriptor in front of a virtual table, \<open>array_elem\<close> the second character of the name of an array
  class, \<open>method_args\<close> number of arguments and argument map of a method of the class with the given virtual table, \<open>domain_ids\<close> the
  identifier stored in a domain descriptor, \<open>dz_refcount\<close> the reference count of a memory descriptor.  \<open>irq_vectors\<close>
  lists, for the vectors in use, the addresses of their entries in \<^verbatim>\<open>ifirstlevel_object\<close> and \<^verbatim>\<open>ithreads\<close>.\<close>

record gc_env =
  class_at :: "u4 \<Rightarrow> gc_class option"
  array_elem :: "u4 \<Rightarrow> char"
  method_args :: "u4 \<Rightarrow> u4 \<Rightarrow> nat \<times> u1 list"
  domain_ids :: "u4 \<Rightarrow> u4"
  own_domain :: u4
  dz_refcount :: "u4 \<Rightarrow> u4"
  irq_vectors :: "(nat \<times> nat) list"

datatype gc_event = MemoryDeleted nat | DecRefcount u4 u4

record gcheap =
  gmem :: words
  heap :: nat
  heapBorder :: nat
  heapTop :: nat
  heap2 :: nat
  heapBorder2 :: nat
  heapTop2 :: nat
  finalized :: "gc_event list"

definition gput :: "nat \<Rightarrow> u4 \<Rightarrow> gcheap \<Rightarrow> gcheap" where
  "gput a v s = s\<lparr>gmem := (gmem s)(a := v)\<rparr>"

text \<open>\<^verbatim>\<open>obj2ClassDesc\<close>, \<^verbatim>\<open>ASSERTOBJECT\<close>, \<^verbatim>\<open>ASSERTCLASSDESC\<close>.\<close>

definition has_class :: "words \<Rightarrow> nat \<Rightarrow> bool" where
  "has_class m ob \<longleftrightarrow> m (ob + 1) = MAGIC_OBJECT \<and> m (ob + 2) \<noteq> 0"

definition check_class :: "words \<Rightarrow> nat \<Rightarrow> 'a res \<Rightarrow> 'a res" where
  "check_class m ob k = (if has_class m ob then k else Fault (SysPanic ''obj2ClassDesc''))"

definition class_of :: "gc_env \<Rightarrow> words \<Rightarrow> nat \<Rightarrow> gc_class res" where
  "class_of env m ob = check_class m ob
     (case class_at env (m (ob + 2)) of Some c \<Rightarrow> Ok c | None \<Rightarrow> Fault (AssertFail ''ASSERTCLASSDESC''))"

definition assert_object :: "words \<Rightarrow> nat \<Rightarrow> 'a res \<Rightarrow> 'a res" where
  "assert_object m ob k = rassert (m (ob + 1) = MAGIC_OBJECT) ''ASSERTOBJECT'' k"

text \<open>Sizes in words.\<close>

definition OBJSIZE_OBJECT :: "nat \<Rightarrow> nat" where "OBJSIZE_OBJECT n = n + 4"
definition OBJSIZE_ARRAY :: "u4 \<Rightarrow> nat" where "OBJSIZE_ARRAY n = unat (n + 5)"
definition OBJSIZE_PORTAL :: nat where "OBJSIZE_PORTAL = 6"
definition OBJSIZE_MEMORY :: nat where "OBJSIZE_MEMORY = 8"
definition OBJSIZE_SERVICEDESC :: nat where "OBJSIZE_SERVICEDESC = 18"
definition OBJSIZE_SERVICEPOOL :: nat where "OBJSIZE_SERVICEPOOL = 9"
definition OBJSIZE_ATOMVAR :: nat where "OBJSIZE_ATOMVAR = 6"
definition OBJSIZE_CAS :: nat where "OBJSIZE_CAS = 4"
definition OBJSIZE_DOMAIN :: nat where "OBJSIZE_DOMAIN = 5"
definition OBJSIZE_THREADDESCPROXY :: nat where "OBJSIZE_THREADDESCPROXY = 73"

lemmas objsizes = OBJSIZE_OBJECT_def OBJSIZE_PORTAL_def OBJSIZE_MEMORY_def OBJSIZE_SERVICEDESC_def
  OBJSIZE_SERVICEPOOL_def OBJSIZE_ATOMVAR_def OBJSIZE_CAS_def OBJSIZE_DOMAIN_def OBJSIZE_THREADDESCPROXY_def

text \<open>The sizes of the kinds that do not depend on the object.\<close>

definition fixed_size :: "u4 \<Rightarrow> nat res" where
  "fixed_size k =
     (if k = OBJFLAGS_PORTAL then Ok OBJSIZE_PORTAL
      else if k = OBJFLAGS_MEMORY then Ok OBJSIZE_MEMORY
      else if k = OBJFLAGS_SERVICE then Ok OBJSIZE_SERVICEDESC
      else if k = OBJFLAGS_SERVICE_POOL then Ok OBJSIZE_SERVICEPOOL
      else if k = OBJFLAGS_ATOMVAR then Ok OBJSIZE_ATOMVAR
      else if k = OBJFLAGS_CAS then Ok OBJSIZE_CAS
      else if k = OBJFLAGS_DOMAIN then Ok OBJSIZE_DOMAIN
      else if k = OBJFLAGS_CPUSTATE then Ok OBJSIZE_THREADDESCPROXY
      else Fault (SysPanic ''WRONG HEAP DATA''))"

definition object_size :: "gc_env \<Rightarrow> words \<Rightarrow> nat \<Rightarrow> nat res" where
  "object_size env m ob = rbind (class_of env m ob) (\<lambda>c. Ok (OBJSIZE_OBJECT (instanceSize c)))"

definition gc_objSize2 :: "gc_env \<Rightarrow> words \<Rightarrow> nat \<Rightarrow> u4 \<Rightarrow> nat res" where
  "gc_objSize2 env m ob flags = assert_object m ob
     (let k = flags AND FLAGS_MASK in
      if k = OBJFLAGS_ARRAY then Ok (OBJSIZE_ARRAY (m (ob + 4)))
      else if k = OBJFLAGS_EXTERNAL_STRING \<or> k = OBJFLAGS_OBJECT then object_size env m ob
      else fixed_size k)"

text \<open>The size the walk over a heap uses: an array is measured with \<^verbatim>\<open>gc_objSize2\<close>, a foreign thread proxy like any other object, and
  external strings are only expected in domain zero.\<close>

definition walk_size :: "gc_env \<Rightarrow> words \<Rightarrow> nat \<Rightarrow> u4 \<Rightarrow> nat res" where
  "walk_size env m ob flags =
     (let k = flags AND FLAGS_MASK in
      if k = OBJFLAGS_ARRAY then gc_objSize2 env m ob flags
      else if k = OBJFLAGS_EXTERNAL_STRING then Fault (AssertFail ''domain == domainZero'')
      else if k = OBJFLAGS_FOREIGN_CPUSTATE \<or> k = OBJFLAGS_OBJECT then object_size env m ob
      else fixed_size k)"

subsection \<open>Walking over a heap\<close>

text \<open>\<^verbatim>\<open>gc_walkContinuesBlock\<close>.  The end of the block is read again in every round, because the handler may
  copy objects behind it.  The handler gets the flags and the start of the object.\<close>

fun gc_walkContinuesBlock ::
    "nat \<Rightarrow> gc_env \<Rightarrow> (gcheap \<Rightarrow> nat) \<Rightarrow> (u4 \<Rightarrow> nat \<Rightarrow> gcheap \<Rightarrow> gcheap res) \<Rightarrow> nat \<Rightarrow> gcheap \<Rightarrow> gcheap res" where
  "gc_walkContinuesBlock 0 env lim handle data s = Fault OutOfFuel"
| "gc_walkContinuesBlock (Suc n) env lim handle data s =
     (if data < lim s then
        let f0 = gmem s data;
            f = (if f0 AND FORWARD_MASK = GC_FORWARD then gmem s (obj_start (f0 AND FORWARD_PTR_MASK)) OR GC_FORWARD else f0) in
        rbind (walk_size env (gmem s) data f) (\<lambda>sz.
        rbind (handle f data s) (\<lambda>s1. gc_walkContinuesBlock n env lim handle (data + sz) s1))
      else Ok s)"

text \<open>\<^verbatim>\<open>FORBITMAP\<close>: the indices below \<^verbatim>\<open>mapsize\<close> whose bit is set; a byte is fetched every eight rounds and shifted.\<close>

function forbitmap :: "u1 list \<Rightarrow> nat \<Rightarrow> nat \<Rightarrow> u1 \<Rightarrow> nat list" where
  "forbitmap bytes mapsize index bits =
     (if index < mapsize then
        let b = (if index mod 8 = 0 then bytes ! (index div 8) else bits);
            rest = forbitmap bytes mapsize (index + 1) (drop_bit 1 b) in
        if b AND 1 \<noteq> 0 then index # rest else rest
      else [])"
  by pat_completeness auto

termination
  by (relation "measure (\<lambda>(_, n, i, _). n - i)") (auto simp: Let_def)

declare forbitmap.simps [simp del]

subsection \<open>Copying an object\<close>

definition copy_words :: "nat \<Rightarrow> nat \<Rightarrow> nat \<Rightarrow> words \<Rightarrow> words" where
  "copy_words dst src n m = (\<lambda>x. if dst \<le> x \<and> x < dst + n then m (src + (x - dst)) else m x)"

definition set_header :: "nat \<Rightarrow> u4 \<Rightarrow> words \<Rightarrow> words" where
  "set_header dst flags m = m(dst := flags, dst + 1 := MAGIC_OBJECT)"

definition gc_new_allocHeap2 :: "nat \<Rightarrow> gcheap \<Rightarrow> (nat \<times> gcheap) res" where
  "gc_new_allocHeap2 sz s =
     (if heapBorder2 s < heapTop2 s then Fault (SysPanic ''target heap too small????'')
      else Ok (heapTop2 s, s\<lparr>heapTop2 := heapTop2 s + sz\<rparr>))"

definition gc_new_isInHeap :: "nat \<Rightarrow> gcheap \<Rightarrow> bool" where
  "gc_new_isInHeap ob s \<longleftrightarrow> heap s \<le> ob + 2 \<and> ob + 2 < heapTop s"

text \<open>\<^verbatim>\<open>gc_impl_shallowCopyObject\<close> passes the size of the whole object as the number of data words.\<close>

definition gc_impl_shallowCopyObject :: "gc_env \<Rightarrow> nat \<Rightarrow> nat \<Rightarrow> words \<Rightarrow> words res" where
  "gc_impl_shallowCopyObject env dst ob m =
     (let m1 = set_header dst OBJFLAGS_OBJECT m; m2 = m1(dst + 2 := m1 (ob + 2)) in
      rbind (class_of env m2 ob) (\<lambda>c. Ok (copy_words (dst + 3) (ob + 3) (OBJSIZE_OBJECT (instanceSize c)) m2)))"

definition gc_impl_shallowCopyService :: "nat \<Rightarrow> nat \<Rightarrow> words \<Rightarrow> words" where
  "gc_impl_shallowCopyService dst ob m = copy_words (dst + 2) (ob + 2) 16 (set_header dst OBJFLAGS_SERVICE m)"

definition gc_impl_shallowCopyArray :: "nat \<Rightarrow> nat \<Rightarrow> words \<Rightarrow> words" where
  "gc_impl_shallowCopyArray dst ob m =
     (let m1 = set_header dst OBJFLAGS_ARRAY m;
          m2 = m1(dst + 2 := m1 (ob + 2));
          m3 = m2(dst + 3 := m2 (ob + 3));
          m4 = m3(dst + 4 := m3 (ob + 4)) in
      copy_words (dst + 5) (ob + 5) (unat (m4 (ob + 4))) m4)"

definition gc_impl_shallowCopyPortal :: "nat \<Rightarrow> nat \<Rightarrow> words \<Rightarrow> words" where
  "gc_impl_shallowCopyPortal dst ob m =
     (let m1 = set_header dst OBJFLAGS_PORTAL m in
      m1(dst + 2 := m1 (ob + 2), dst + 3 := m1 (ob + 3), dst + 4 := m1 (ob + 4), dst + 5 := m1 (ob + 5)))"

text \<open>With \<^verbatim>\<open>memory_copy_intradomain\<close>; the two dummy words of the proxy are not copied.\<close>

definition gc_impl_shallowCopyMemory :: "gc_env \<Rightarrow> nat \<Rightarrow> nat \<Rightarrow> words \<Rightarrow> words res" where
  "gc_impl_shallowCopyMemory env dst ob m =
     (let m1 = set_header dst OBJFLAGS_MEMORY m;
          m2 = m1(dst + 2 := m1 (ob + 2), dst + 3 := m1 (ob + 3), dst + 5 := m1 (ob + 5)) in
      rassert (m2 (dst + 5) \<noteq> 0) ''dz != NULL'' (
      rassert (dz_refcount env (m2 (dst + 5)) > 0) ''refcount > 0'' (
      Ok (m2(dst + 4 := m2 (ob + 4))))))"

definition gc_impl_shallowCopyCAS :: "nat \<Rightarrow> nat \<Rightarrow> words \<Rightarrow> words" where
  "gc_impl_shallowCopyCAS dst ob m =
     (let m1 = set_header dst OBJFLAGS_CAS m in m1(dst + 2 := m1 (ob + 2), dst + 3 := m1 (ob + 3)))"

definition gc_impl_shallowCopyDomain :: "nat \<Rightarrow> nat \<Rightarrow> words \<Rightarrow> words" where
  "gc_impl_shallowCopyDomain dst ob m =
     (let m1 = set_header dst OBJFLAGS_DOMAIN m in
      m1(dst + 2 := m1 (ob + 2), dst + 3 := m1 (ob + 3), dst + 4 := m1 (ob + 4)))"

definition gc_impl_shallowCopyCpuState :: "nat \<Rightarrow> nat \<Rightarrow> words \<Rightarrow> words" where
  "gc_impl_shallowCopyCpuState dst ob m =
     (let m1 = set_header dst OBJFLAGS_CPUSTATE (copy_words (dst + 3) (ob + 3) 68 m) in m1(dst + 2 := m1 (ob + 2)))"

text \<open>The list mode (word 5) of an atomic variable is not copied.\<close>

definition gc_impl_shallowCopyAtomVar :: "nat \<Rightarrow> nat \<Rightarrow> words \<Rightarrow> words" where
  "gc_impl_shallowCopyAtomVar dst ob m =
     (let m1 = set_header dst OBJFLAGS_ATOMVAR m in
      m1(dst + 2 := m1 (ob + 2), dst + 3 := m1 (ob + 3), dst + 4 := m1 (ob + 4)))"

text \<open>Reserve space in the second semispace and fill it; the result is the start of the copy.\<close>

definition copy_to_heap2 :: "nat \<Rightarrow> (nat \<Rightarrow> words \<Rightarrow> words res) \<Rightarrow> gcheap \<Rightarrow> (nat \<times> gcheap) res" where
  "copy_to_heap2 sz copy s = rbind (gc_new_allocHeap2 sz s) (\<lambda>(dst, s1).
     rbind (copy dst (gmem s1)) (\<lambda>m. Ok (dst, s1\<lparr>gmem := m\<rparr>)))"

definition gc_common_move_object :: "gc_env \<Rightarrow> nat \<Rightarrow> gcheap \<Rightarrow> (nat \<times> gcheap) res" where
  "gc_common_move_object env ob s = assert_object (gmem s) ob
     (if \<not> gc_new_isInHeap ob s then Fault (SysPanic ''not in heap'')
      else rbind (object_size env (gmem s) ob) (\<lambda>sz.
        copy_to_heap2 sz (\<lambda>dst. gc_impl_shallowCopyObject env dst ob) s))"

definition gc_common_move_service :: "nat \<Rightarrow> gcheap \<Rightarrow> (nat \<times> gcheap) res" where
  "gc_common_move_service ob s = assert_object (gmem s) ob
     (rassert (gmem s (ob + 15) > 1) ''obj->refcount > 1''
       (copy_to_heap2 OBJSIZE_SERVICEDESC (\<lambda>dst m. Ok (gc_impl_shallowCopyService dst ob m)) s))"

definition gc_common_move_array :: "gc_env \<Rightarrow> nat \<Rightarrow> gcheap \<Rightarrow> (nat \<times> gcheap) res" where
  "gc_common_move_array env ob s = assert_object (gmem s) ob
     (rbind (gc_objSize2 env (gmem s) ob (gmem s ob)) (\<lambda>sz.
       copy_to_heap2 sz (\<lambda>dst m. Ok (gc_impl_shallowCopyArray dst ob m)) s))"

definition gc_common_move_portal :: "nat \<Rightarrow> gcheap \<Rightarrow> (nat \<times> gcheap) res" where
  "gc_common_move_portal ob s = assert_object (gmem s) ob
     (copy_to_heap2 OBJSIZE_PORTAL (\<lambda>dst m. Ok (gc_impl_shallowCopyPortal dst ob m)) s)"

definition gc_common_move_memory :: "gc_env \<Rightarrow> nat \<Rightarrow> gcheap \<Rightarrow> (nat \<times> gcheap) res" where
  "gc_common_move_memory env ob s = assert_object (gmem s) ob
     (copy_to_heap2 OBJSIZE_MEMORY (\<lambda>dst. gc_impl_shallowCopyMemory env dst ob) s)"

definition gc_common_move_atomvar :: "nat \<Rightarrow> gcheap \<Rightarrow> (nat \<times> gcheap) res" where
  "gc_common_move_atomvar ob s = assert_object (gmem s) ob
     (copy_to_heap2 OBJSIZE_ATOMVAR (\<lambda>dst m. Ok (gc_impl_shallowCopyAtomVar dst ob m)) s)"

definition gc_common_move_cas :: "nat \<Rightarrow> gcheap \<Rightarrow> (nat \<times> gcheap) res" where
  "gc_common_move_cas ob s = assert_object (gmem s) ob
     (copy_to_heap2 OBJSIZE_CAS (\<lambda>dst m. Ok (gc_impl_shallowCopyCAS dst ob m)) s)"

definition gc_common_move_domain :: "nat \<Rightarrow> gcheap \<Rightarrow> (nat \<times> gcheap) res" where
  "gc_common_move_domain ob s = assert_object (gmem s) ob
     (copy_to_heap2 OBJSIZE_DOMAIN (\<lambda>dst m. Ok (gc_impl_shallowCopyDomain dst ob m)) s)"

definition gc_common_move_cpustate :: "nat \<Rightarrow> gcheap \<Rightarrow> (nat \<times> gcheap) res" where
  "gc_common_move_cpustate ob s = assert_object (gmem s) ob
     (copy_to_heap2 OBJSIZE_THREADDESCPROXY (\<lambda>dst m. Ok (gc_impl_shallowCopyCpuState dst ob m)) s)"

subsection \<open>Moving a reference\<close>

text \<open>The \<^verbatim>\<open>switch\<close> of \<^verbatim>\<open>gc_common_move_reference\<close>: \<open>None\<close> says that the object stays where it is.  Service pools and
  stacks are not objects of the heap without \<^verbatim>\<open>NEW_PORTALCALL\<close> and \<^verbatim>\<open>STACK_ON_HEAP\<close> (the routines that would copy them have no body); they
  are counted with the unknown kinds here.\<close>

definition move_by_kind :: "gc_env \<Rightarrow> u4 \<Rightarrow> nat \<Rightarrow> gcheap \<Rightarrow> (nat \<times> gcheap) option res" where
  "move_by_kind env k ob s =
     (let moved = (\<lambda>r. rbind r (\<lambda>x. Ok (Some x))) in
      if k = OBJFLAGS_FOREIGN_CPUSTATE \<or> k = OBJFLAGS_OBJECT then check_class (gmem s) ob (moved (gc_common_move_object env ob s))
      else if k = OBJFLAGS_PORTAL then check_class (gmem s) ob (moved (gc_common_move_portal ob s))
      else if k = OBJFLAGS_MEMORY then check_class (gmem s) ob (moved (gc_common_move_memory env ob s))
      else if k = OBJFLAGS_ARRAY then check_class (gmem s) ob (moved (gc_common_move_array env ob s))
      else if k = OBJFLAGS_SERVICE then moved (gc_common_move_service ob s)
      else if k = OBJFLAGS_ATOMVAR then moved (gc_common_move_atomvar ob s)
      else if k = OBJFLAGS_CAS then moved (gc_common_move_cas ob s)
      else if k = OBJFLAGS_DOMAIN then moved (gc_common_move_domain ob s)
      else if k = OBJFLAGS_CPUSTATE then moved (gc_common_move_cpustate ob s)
      else if k = OBJFLAGS_EXTERNAL_STRING \<or> k = OBJFLAGS_EXTERNAL_CPUDESC \<or> k = OBJFLAGS_EXTERNAL_CLASS
        \<or> k = OBJFLAGS_EXTERNAL_METHOD then Ok None
      else Fault (SysPanic ''UNKNOWN OBJECT TYPE''))"

text \<open>The new value of the reference \<open>ref\<close>; \<^verbatim>\<open>*refPtr\<close> is written with it.\<close>

definition gc_move_value :: "gc_env \<Rightarrow> u4 \<Rightarrow> gcheap \<Rightarrow> (u4 \<times> gcheap) res" where
  "gc_move_value env ref s =
     (if ref \<le> 0xfff then Ok (ref, s)
      else
        let ob = obj_start ref; flags = gmem s ob in
        if flags AND FORWARD_MASK = GC_FORWARD then Ok (flags AND FORWARD_PTR_MASK, s)
        else rbind (move_by_kind env (flags AND FLAGS_MASK) ob s) (\<lambda>r. case r of
            None \<Rightarrow> Ok (ref, s)
          | Some (dst, s1) \<Rightarrow> let forward = obj_ref dst in
              rassert (forward AND FORWARD_MASK = 0) ''FORWARD_MASK'' (Ok (forward, gput ob (forward OR GC_FORWARD) s1))))"

definition gc_common_move_reference :: "gc_env \<Rightarrow> nat \<Rightarrow> gcheap \<Rightarrow> gcheap res" where
  "gc_common_move_reference env p s = rbind (gc_move_value env (gmem s p) s) (\<lambda>(v, s1). Ok (gput p v s1))"

fun move_references :: "gc_env \<Rightarrow> nat list \<Rightarrow> gcheap \<Rightarrow> gcheap res" where
  "move_references env [] s = Ok s"
| "move_references env (p # ps) s = rbind (gc_common_move_reference env p s) (move_references env ps)"

text \<open>Pointers to thread descriptors point one word behind the reference to the proxy.  A foreign proxy does not
  come here: its copy has lost the flags of a foreign proxy.\<close>

definition cpuState2thread :: "u4 \<Rightarrow> words \<Rightarrow> u4 res" where
  "cpuState2thread obj m =
     (if obj = 0 then Ok 0
      else if m (obj_start obj) AND FLAGS_MASK = OBJFLAGS_CPUSTATE then Ok (obj + 4)
      else Fault (SysPanic ''cpustate object has wrong flags''))"

definition MOVETCB :: "gc_env \<Rightarrow> nat \<Rightarrow> gcheap \<Rightarrow> gcheap res" where
  "MOVETCB env p s =
     (if gmem s p = 0 then Ok s
      else rbind (gc_move_value env (gmem s p - 4) s) (\<lambda>(tpr, s1).
        rbind (cpuState2thread tpr (gmem s1)) (\<lambda>t. Ok (gput p t s1))))"

subsection \<open>The references in an object\<close>

definition gc_impl_walkContentObject :: "gc_env \<Rightarrow> nat \<Rightarrow> gcheap \<Rightarrow> gcheap res" where
  "gc_impl_walkContentObject env ob s =
     rassert (gmem s (ob + 2) \<noteq> 0) ''vtable != NULL''
       (case class_at env (gmem s (ob + 2)) of
          None \<Rightarrow> Fault (AssertFail ''ASSERTCLASSDESC'')
        | Some c \<Rightarrow> move_references env (map (\<lambda>i. ob + 3 + i) (forbitmap (cl_map c) (instanceSize c) 0 0)) s)"

definition gc_impl_walkContentArray :: "gc_env \<Rightarrow> nat \<Rightarrow> gcheap \<Rightarrow> gcheap res" where
  "gc_impl_walkContentArray env ob s =
     (if array_elem env (gmem s (ob + 3)) = CHR ''L'' \<or> array_elem env (gmem s (ob + 3)) = CHR ''[''
      then move_references env (map (\<lambda>i. ob + 5 + i) [0..<unat (gmem s (ob + 4))]) s
      else Ok s)"

definition gc_impl_walkContentService :: "gc_env \<Rightarrow> nat \<Rightarrow> gcheap \<Rightarrow> gcheap res" where
  "gc_impl_walkContentService env ob s =
     rbind (gc_common_move_reference env (ob + 11) s) (\<lambda>s1.
     rbind (gc_common_move_reference env (ob + 12) s1) (MOVETCB env (ob + 8)))"

definition gc_impl_walkContentAtomVar :: "gc_env \<Rightarrow> nat \<Rightarrow> gcheap \<Rightarrow> gcheap res" where
  "gc_impl_walkContentAtomVar env ob s = rbind (MOVETCB env (ob + 4) s) (gc_common_move_reference env (ob + 3))"

text \<open>Thread descriptors.  The numbers are the offsets of the fields in words: 0 \<^verbatim>\<open>contextPtr\<close>, 3 \<^verbatim>\<open>state\<close>, 4 \<^verbatim>\<open>domain\<close>,
  5 \<^verbatim>\<open>nextInRunQueue\<close>, 7 \<^verbatim>\<open>context\<close>, 21 \<^verbatim>\<open>depParams\<close>, 22 \<^verbatim>\<open>depMethodIndex\<close>, 24 \<^verbatim>\<open>isPortalThread\<close>, 25 \<^verbatim>\<open>processingDEP\<close>, 26 \<^verbatim>\<open>blockedInDomain\<close>,
  27 \<^verbatim>\<open>blockedInDomainID\<close>, 29 \<^verbatim>\<open>blockedInServiceThread\<close>, 30 \<^verbatim>\<open>mostRecentlyCalledBy\<close>, 33 \<^verbatim>\<open>nextInDomain\<close>, 34 \<^verbatim>\<open>prevInDomain\<close>, 35 \<^verbatim>\<open>next\<close>,
  57 \<^verbatim>\<open>portalParameter\<close>, 58 \<^verbatim>\<open>entry\<close>, 59 \<^verbatim>\<open>portalReturn\<close>, 60 \<^verbatim>\<open>portalReturnType\<close>, 64 \<^verbatim>\<open>isInterruptHandlerThread\<close>, 66 \<^verbatim>\<open>myparams\<close>, 67 \<^verbatim>\<open>id\<close>.\<close>

definition STATE_WAIT_FOR_RCV :: u4 where "STATE_WAIT_FOR_RCV = 7"

text \<open>The loop of \<^verbatim>\<open>gc_correct_irqHandlers\<close> over the vectors in use.\<close>

fun gc_correct_irqHandlers :: "gc_env \<Rightarrow> (nat \<times> nat) list \<Rightarrow> nat \<Rightarrow> gcheap \<Rightarrow> gcheap res" where
  "gc_correct_irqHandlers env [] t s = Fault (SysPanic ''marked as interrupt handler but not listed in ithreads'')"
| "gc_correct_irqHandlers env ((obj, th) # vs) t s =
     (let x = waddr (gmem s th) in
      if gmem s obj \<noteq> 0 \<and> gmem s (x + 67) = gmem s (t + 67)
        \<and> domain_ids env (gmem s (x + 4)) = domain_ids env (gmem s (t + 4))
      then MOVETCB env th s
      else gc_correct_irqHandlers env vs t s)"

text \<open>The links to other threads, and the threads that call or are called by this one.\<close>

definition walk_tcb_links :: "gc_env \<Rightarrow> nat \<Rightarrow> gcheap \<Rightarrow> gcheap res" where
  "walk_tcb_links env t s =
     rbind (MOVETCB env (t + 33) (gput t (of_nat (4 * (t + 7))) s)) (\<lambda>s1.
     rbind (MOVETCB env (t + 34) s1) (\<lambda>s2.
     rbind (MOVETCB env (t + 5) s2) (\<lambda>s3.
     rbind (if gmem s3 (t + 29) \<noteq> 0 then MOVETCB env (waddr (gmem s3 (t + 29)) + 30) s3 else Ok s3) (\<lambda>s4.
       if gmem s4 (t + 30) \<noteq> 0 then MOVETCB env (waddr (gmem s4 (t + 30)) + 29) s4 else Ok s4))))"

definition move_if_set :: "gc_env \<Rightarrow> nat \<Rightarrow> gcheap \<Rightarrow> gcheap res" where
  "move_if_set env p s = (if gmem s p \<noteq> 0 then gc_common_move_reference env p s else Ok s)"

text \<open>\<^verbatim>\<open>isRef\<close> of \<^verbatim>\<open>gc_common.c\<close>.\<close>

definition isRef :: "u1 list \<Rightarrow> nat \<Rightarrow> nat \<Rightarrow> bool" where
  "isRef bytes n num \<longleftrightarrow> num \<in> set (forbitmap bytes n 0 0)"

text \<open>The parameters of the call that a service thread executes.\<close>

definition walk_in_parameters :: "gc_env \<Rightarrow> nat \<Rightarrow> gcheap \<Rightarrow> gcheap res" where
  "walk_in_parameters env t s =
     (let source = waddr (gmem s (t + 30));
          obj = obj_start (gmem s (waddr (gmem s (t + 25)) + 9));
          (numberArgs, argTypeMap) = method_args env (gmem s (obj + 2)) (gmem s (source + 22));
          myparams = waddr (gmem s (t + 66)); depParams = waddr (gmem s (t + 21)) in
      check_class (gmem s) obj (
      rbind (gc_common_move_reference env myparams s) (\<lambda>s1.
        if gmem s1 (t + 21) \<noteq> 0 then
          move_references env (map (\<lambda>i. myparams + i)
            (filter (\<lambda>i. isRef argTypeMap numberArgs (i - 1) \<and> gmem s1 (depParams + i) \<noteq> 0) [1..<numberArgs + 1])) s1
        else Ok s1)))"

definition walk_portal_fields :: "gc_env \<Rightarrow> nat \<Rightarrow> gcheap \<Rightarrow> gcheap res" where
  "walk_portal_fields env t s =
     rbind (move_if_set env (t + 57) s) (\<lambda>s1.
     rbind (move_if_set env (t + 58) s1) (\<lambda>s2.
     rbind (if gmem s2 (t + 60) AND 1 \<noteq> 0 then move_if_set env (t + 59) s2 else Ok s2) (\<lambda>s3.
     rbind (if gmem s3 (t + 24) \<noteq> 0 then (if gmem s3 (t + 30) \<noteq> 0 then walk_in_parameters env t s3 else Ok s3)
            else rassert (gmem s3 (t + 30) = 0) ''mostRecentlyCalledBy == NULL'' (Ok s3)) (\<lambda>s4.
       if gmem s4 (t + 25) \<noteq> 0 then
         (if gmem s4 (waddr (gmem s4 (t + 25)) + 13) > 1 then gc_common_move_reference env (t + 25) s4
          else Ok (gput (t + 25) 0 s4))
       else Ok s4))))"

definition gc_impl_walkContentCPUState :: "gc_env \<Rightarrow> nat \<Rightarrow> gcheap \<Rightarrow> gcheap res" where
  "gc_impl_walkContentCPUState env ob s =
     (let t = ob + 3 in
      rbind (walk_tcb_links env t s) (\<lambda>s1.
        if gmem s1 (t + 3) = STATE_WAIT_FOR_RCV \<and> domain_ids env (gmem s1 (t + 26)) = gmem s1 (t + 27)
        then Fault (SysPanic ''move TCB in wait queue NYI'')
        else
          let s2 = gput t (of_nat (4 * (t + 7))) s1 in
          rbind (if gmem s2 (t + 64) \<noteq> 0 then gc_correct_irqHandlers env (irq_vectors env) t s2 else Ok s2)
            (walk_portal_fields env t)))"

text \<open>The handlers that \<^verbatim>\<open>gc_new_gc\<close> passes to the walk over the second semispace; kinds without a handler have no references.\<close>

definition gc_new_scan_heap2 :: "gc_env \<Rightarrow> u4 \<Rightarrow> nat \<Rightarrow> gcheap \<Rightarrow> gcheap res" where
  "gc_new_scan_heap2 env flags ob s =
     (let k = flags AND FLAGS_MASK in
      if k = OBJFLAGS_ARRAY then gc_impl_walkContentArray env ob s
      else if k = OBJFLAGS_OBJECT \<or> k = OBJFLAGS_FOREIGN_CPUSTATE then gc_impl_walkContentObject env ob s
      else if k = OBJFLAGS_SERVICE then gc_impl_walkContentService env ob s
      else if k = OBJFLAGS_ATOMVAR then gc_impl_walkContentAtomVar env ob s
      else if k = OBJFLAGS_CPUSTATE then gc_impl_walkContentCPUState env ob s
      else Ok s)"

subsection \<open>The root set\<close>

text \<open>Addresses of the words of a domain that hold references from outside its heap: the slots of the thread stacks
  that the stack maps mark as references into the heap (\<^verbatim>\<open>gc_stack.c\<close>), map, number and address of the static fields of each class, the service table,
  the registered objects, the references and thread pointers in the domain descriptor, \<^verbatim>\<open>switchBackTo\<close>, the
  current thread, and the entries of \<^verbatim>\<open>ifirstlevel_object\<close> with those of \<^verbatim>\<open>idomains\<close>.\<close>

record gc_roots =
  stack_slots :: "nat list"
  statics :: "(u1 list \<times> nat \<times> nat) list"
  service_table :: nat
  registered :: nat
  special_refs :: "nat list"
  special_tcbs :: "nat list"
  switchBackTo :: nat
  curthrP :: nat
  irq_objects :: "(nat \<times> nat) list"

definition MAX_SERVICE_ENTRIES :: nat where "MAX_SERVICE_ENTRIES = 1500"
definition MAX_REGISTERED :: nat where "MAX_REGISTERED = 50"

fun walkStatics :: "gc_env \<Rightarrow> (u1 list \<times> nat \<times> nat) list \<Rightarrow> gcheap \<Rightarrow> gcheap res" where
  "walkStatics env [] s = Ok s"
| "walkStatics env ((map_bytes, n, base) # cs) s =
     rbind (move_references env (map (\<lambda>i. base + i) (forbitmap map_bytes n 0 0)) s) (walkStatics env cs)"

fun walkPortals :: "gc_env \<Rightarrow> nat list \<Rightarrow> gcheap \<Rightarrow> gcheap res" where
  "walkPortals env [] s = Ok s"
| "walkPortals env (p # ps) s =
     (if gmem s p = 0 \<or> gmem s p = 0xffffffff then walkPortals env ps s
      else rassert (gmem s (waddr (gmem s p) + 13) > 1) ''refcount > 1''
        (rbind (gc_common_move_reference env p s) (walkPortals env ps)))"

fun move_set_references :: "gc_env \<Rightarrow> nat list \<Rightarrow> gcheap \<Rightarrow> gcheap res" where
  "move_set_references env [] s = Ok s"
| "move_set_references env (p # ps) s = rbind (move_if_set env p s) (move_set_references env ps)"

fun move_tcbs :: "gc_env \<Rightarrow> nat list \<Rightarrow> gcheap \<Rightarrow> gcheap res" where
  "move_tcbs env [] s = Ok s"
| "move_tcbs env (p # ps) s = rbind (MOVETCB env p s) (move_tcbs env ps)"

definition walkSpecials :: "gc_env \<Rightarrow> gc_roots \<Rightarrow> gcheap \<Rightarrow> gcheap res" where
  "walkSpecials env r s =
     rbind (move_set_references env (special_refs r) s) (\<lambda>s1.
     rbind (move_tcbs env (special_tcbs r) s1) (\<lambda>s2.
     rbind (if gmem s2 (switchBackTo r) \<noteq> 0 \<and> gmem s2 (waddr (gmem s2 (switchBackTo r)) + 4) = own_domain env
            then MOVETCB env (switchBackTo r) s2 else Ok s2) (\<lambda>s3.
     rbind (gc_move_value env (gmem s3 (curthrP r) - 4) s3) (\<lambda>(tpr, s4).
     rbind (cpuState2thread tpr (gmem s4)) (\<lambda>t. Ok (gput (curthrP r) t s4))))))"

fun walkInterrupHandlers :: "gc_env \<Rightarrow> (nat \<times> nat) list \<Rightarrow> gcheap \<Rightarrow> gcheap res" where
  "walkInterrupHandlers env [] s = Ok s"
| "walkInterrupHandlers env ((obj, dm) # vs) s =
     (if gmem s obj \<noteq> 0 \<and> gmem s dm = own_domain env
      then rbind (gc_common_move_reference env obj s) (walkInterrupHandlers env vs)
      else walkInterrupHandlers env vs s)"

definition walkRootSet :: "gc_env \<Rightarrow> gc_roots \<Rightarrow> gcheap \<Rightarrow> gcheap res" where
  "walkRootSet env r s =
     rbind (move_references env (stack_slots r) s) (\<lambda>s1.
     rbind (walkStatics env (statics r) s1) (\<lambda>s2.
     rbind (walkPortals env (map (\<lambda>i. service_table r + i) [0..<MAX_SERVICE_ENTRIES]) s2) (\<lambda>s3.
     rbind (move_set_references env (map (\<lambda>i. registered r + i) [0..<MAX_REGISTERED]) s3) (\<lambda>s4.
     rbind (walkSpecials env r s4) (walkInterrupHandlers env (irq_objects r))))))"

subsection \<open>Finalization and the collection\<close>

definition gc_new_finalizeMemoryCB :: "u4 \<Rightarrow> nat \<Rightarrow> gcheap \<Rightarrow> gcheap res" where
  "gc_new_finalizeMemoryCB flags ob s =
     (if flags AND FLAGS_MASK \<noteq> OBJFLAGS_MEMORY \<or> flags AND FORWARD_MASK = GC_FORWARD then Ok s
      else assert_object (gmem s) ob (Ok (s\<lparr>finalized := finalized s @ [MemoryDeleted ob]\<rparr>)))"

definition gc_new_finalizePortalsCB :: "gc_env \<Rightarrow> u4 \<Rightarrow> nat \<Rightarrow> gcheap \<Rightarrow> gcheap res" where
  "gc_new_finalizePortalsCB env flags ob s =
     (if flags AND FLAGS_MASK \<noteq> OBJFLAGS_PORTAL \<or> flags AND FORWARD_MASK = GC_FORWARD then Ok s
      else
        let target = gmem s (ob + 3) in
        if target \<noteq> 0 \<and> domain_ids env target = gmem s (ob + 4) \<and> target \<noteq> own_domain env
        then Ok (s\<lparr>finalized := finalized s @ [DecRefcount target (gmem s (ob + 5))]\<rparr>) else Ok s)"

definition gc_new_finalizeMemory :: "nat \<Rightarrow> gc_env \<Rightarrow> gcheap \<Rightarrow> gcheap res" where
  "gc_new_finalizeMemory n env s = gc_walkContinuesBlock n env heapTop gc_new_finalizeMemoryCB (heap s) s"

definition gc_new_finalizePortals :: "nat \<Rightarrow> gc_env \<Rightarrow> gcheap \<Rightarrow> gcheap res" where
  "gc_new_finalizePortals n env s = gc_walkContinuesBlock n env heapTop (gc_new_finalizePortalsCB env) (heap s) s"

definition swap_heaps :: "gcheap \<Rightarrow> gcheap" where
  "swap_heaps s = s\<lparr>heap := heap2 s, heap2 := heap s, heapBorder := heapBorder2 s, heapBorder2 := heapBorder s,
     heapTop := heapTop2 s, heapTop2 := heap s\<rparr>"

text \<open>The collector thread of the domain runs this routine.  The state is the one after \<^verbatim>\<open>freezeThreads\<close>, which lets every other
  thread run on to a position with a stack map.\<close>

definition gc_new_gc :: "nat \<Rightarrow> gc_env \<Rightarrow> gc_roots \<Rightarrow> gcheap \<Rightarrow> gcheap res" where
  "gc_new_gc n env r s =
     rbind (walkRootSet env r s) (\<lambda>s1.
     rbind (gc_walkContinuesBlock n env heapTop2 (gc_new_scan_heap2 env) (heap2 s1) s1) (\<lambda>s2.
     rbind (gc_new_finalizeMemory n env s2) (\<lambda>s3.
     rbind (gc_new_finalizePortals n env s3) (\<lambda>s4. Ok (swap_heaps s4)))))"

subsection \<open>Allocation\<close>

definition HEAP_RESERVE :: nat where "HEAP_RESERVE = 10 * 1024"

text \<open>\<^verbatim>\<open>nonatomic_registerObject\<close>: the first empty entry; the result is its address.\<close>

fun registerObject :: "nat list \<Rightarrow> u4 \<Rightarrow> gcheap \<Rightarrow> (nat \<times> gcheap) res" where
  "registerObject [] obj s = Fault (SysPanic ''maximal number of registered objects reached for this domain'')"
| "registerObject (p # ps) obj s = (if gmem s p = 0 then Ok (p, gput p obj s) else registerObject ps obj s)"

definition unregisterObject :: "nat \<Rightarrow> gcheap \<Rightarrow> u4 \<times> gcheap" where
  "unregisterObject handle s = (gmem s handle, gput handle 0 s)"

text \<open>\<open>pointer\<close>: the address of a word.  \<open>nextObj\<close>: the pointer behind the new object; the size in words is an \<^verbatim>\<open>int\<close>, and the
  sum wraps around like the addresses.\<close>

definition pointer :: "nat \<Rightarrow> u4" where
  "pointer w = of_nat (4 * w)"

definition nextObj :: "jint \<Rightarrow> gcheap \<Rightarrow> u4" where
  "nextObj objSize s = pointer (heapTop s) + 4 * objSize"

text \<open>\<^verbatim>\<open>memset(data, 0, objSize * 4)\<close>: the number of bytes is computed with 32 bits, and the range may wrap around.\<close>

definition clear_words :: "nat \<Rightarrow> jint \<Rightarrow> words \<Rightarrow> words" where
  "clear_words data objSize m =
     (\<lambda>x. if x < 2 ^ 30 \<and> unat (pointer x - pointer data) < unat (4 * objSize) then 0 else m x)"

text \<open>From the label \<^verbatim>\<open>do_alloc\<close> to the end.\<close>

definition gc_new_do_alloc :: "gc_roots \<Rightarrow> jint \<Rightarrow> u4 \<Rightarrow> gcheap \<Rightarrow> (nat \<times> gcheap) res" where
  "gc_new_do_alloc r objSize flags s =
     (let data = heapTop s; s1 = s\<lparr>heapTop := waddr (nextObj objSize s)\<rparr> in
      rassert (data \<noteq> 0) ''data != NULL'' (
        let s2 = s1\<lparr>gmem := set_header data flags (clear_words data objSize (gmem s1))\<rparr> in
        registerObject (map (\<lambda>i. registered r + i) [0..<MAX_REGISTERED]) (obj_ref data) s2))"

text \<open>\<open>irq\<close>: the allocation is made by an interrupt handler thread; \<open>gcThread\<close>: the domain has a collector thread.  The
  border minus the reserve is computed on pointers to words.\<close>

definition no_room :: "jint \<Rightarrow> gcheap \<Rightarrow> bool" where
  "no_room objSize s \<longleftrightarrow> pointer (heapBorder s) - pointer HEAP_RESERVE < nextObj objSize s"

definition gc_new_allocDataInDomain ::
    "nat \<Rightarrow> gc_env \<Rightarrow> gc_roots \<Rightarrow> bool \<Rightarrow> bool \<Rightarrow> jint \<Rightarrow> u4 \<Rightarrow> gcheap \<Rightarrow> (nat \<times> gcheap) res" where
  "gc_new_allocDataInDomain n env r irq gcThread objSize flags s =
     (if no_room objSize s then
        if irq then
          (if pointer (heapBorder s) < nextObj objSize s then Fault (SysPanic ''no GC in interrupt handler possible!'')
           else gc_new_do_alloc r objSize flags s)
        else if \<not> gcThread then Fault (DomainPanic ''GC but no GC thread availabke'')
        else rbind (gc_new_gc n env r s) (\<lambda>s1.
          if no_room objSize s1 then Fault (JavaThrow ''RuntimeException'')
          else gc_new_do_alloc r objSize flags s1)
      else gc_new_do_alloc r objSize flags s)"

text \<open>\<^verbatim>\<open>gc_new_init\<close> after the two calls of \<^verbatim>\<open>jxmalloc\<close> returned \<open>a1\<close> and \<open>a2\<close>.\<close>

definition gc_new_init :: "nat \<Rightarrow> nat \<Rightarrow> nat \<Rightarrow> words \<Rightarrow> gcheap res" where
  "gc_new_init heap_bytes a1 a2 m =
     (if heap_bytes = 0 then Fault (SysPanic ''gc_new is not suitable for domain Zero'')
      else if heap_bytes \<le> HEAP_RESERVE + 1000 then Fault (SysPanic ''heap too small'')
      else if heap_bytes div 4 * 4 < HEAP_RESERVE then Fault (SysPanic ''HEAP TOO SMALL'')
      else Ok \<lparr>gmem = m, heap = a1, heapBorder = a1 + heap_bytes div 4, heapTop = a1,
        heap2 = a2, heapBorder2 = a2 + heap_bytes div 4, heapTop2 = a2, finalized = []\<rparr>)"

definition gc_new_freeWords :: "gcheap \<Rightarrow> nat" where
  "gc_new_freeWords s = heapBorder s - heapTop s"

definition gc_new_totalWords :: "gcheap \<Rightarrow> nat" where
  "gc_new_totalWords s = heapBorder s - heap s"

end
