(* ===== verification/Gc_Copy.thy ===== *)
theory Gc_Copy
  imports Gc_Heap
begin

section \<open>Correctness of the copying collector\<close>

text \<open>
  What a collection does: the objects reachable from the roots are copied to the second semispace, references are
  replaced by references to the copies, and nothing else in memory changes.  The invariant relates the memory
  during the collection to the memory \<open>m0\<close> before it through the list \<open>cs\<close> of the objects copied so far, in the order
  of their copies.
\<close>

subsection \<open>References\<close>

lemma waddr_of_nat: "k < 1073741824 \<Longrightarrow> waddr (of_nat (4 * k)) = k"
proof -
  assume "k < 1073741824"
  then have "unat (of_nat (4 * k) :: u4) = 4 * k" unfolding unat_of_nat by simp
  then show ?thesis by (simp add: waddr_def)
qed

lemma waddr_obj_ref [simp]: "n + 2 < 1073741824 \<Longrightarrow> waddr (obj_ref n) = n + 2"
  unfolding obj_ref_def by (rule waddr_of_nat)

lemma obj_start_ref [simp]: "n + 2 < 1073741824 \<Longrightarrow> obj_start (obj_ref n) = n"
  by (simp add: obj_start_def)

lemma obj_ref_inj: "n + 2 < 1073741824 \<Longrightarrow> k + 2 < 1073741824 \<Longrightarrow> obj_ref n = obj_ref k \<longleftrightarrow> n = k"
  by (metis obj_start_ref)

lemma unat_obj_ref: "n + 2 < 1073741824 \<Longrightarrow> unat (obj_ref n) = 4 * (n + 2)"
  unfolding obj_ref_def unat_of_nat by simp

lemma obj_ref_large: "1022 \<le> n \<Longrightarrow> n + 2 < 1073741824 \<Longrightarrow> \<not> obj_ref n \<le> 0xfff"
  by (simp add: word_le_nat_alt unat_obj_ref)

lemma obj_ref_push: "obj_ref n = push_bit 2 (of_nat (n + 2))"
  by (simp add: obj_ref_def push_bit_eq_mult)

lemma forward_word:
  "(obj_ref n OR GC_FORWARD) AND FORWARD_MASK = GC_FORWARD"
  "(obj_ref n OR GC_FORWARD) AND FORWARD_PTR_MASK = obj_ref n"
  "obj_ref n AND FORWARD_MASK = 0"
proof -
  have m: "FORWARD_PTR_MASK = NOT 1" by (simp add: gc_masks)
  have b: "0 < k" if "bit (obj_ref n) k" for k using that by (simp add: obj_ref_push bit_push_bit_iff)
  show "(obj_ref n OR GC_FORWARD) AND FORWARD_MASK = GC_FORWARD"
    by (rule bit_word_eqI) (auto simp: gc_masks bit_simps)
  show "(obj_ref n OR GC_FORWARD) AND FORWARD_PTR_MASK = obj_ref n"
    unfolding m by (rule bit_word_eqI) (use b in \<open>auto simp: gc_masks bit_simps\<close>)
  show "obj_ref n AND FORWARD_MASK = 0"
    by (rule bit_word_eqI) (use b in \<open>auto simp: gc_masks bit_simps\<close>)
qed

text \<open>The kinds that live in the heap of a domain.\<close>

definition heap_kinds :: "u4 list" where
  "heap_kinds = [OBJFLAGS_OBJECT, OBJFLAGS_PORTAL, OBJFLAGS_MEMORY, OBJFLAGS_ARRAY, OBJFLAGS_SERVICE, OBJFLAGS_ATOMVAR,
     OBJFLAGS_CAS, OBJFLAGS_DOMAIN, OBJFLAGS_CPUSTATE]"

lemma heap_kindE:
  assumes "k \<in> set heap_kinds"
  obtains "k = OBJFLAGS_OBJECT" | "k = OBJFLAGS_PORTAL" | "k = OBJFLAGS_MEMORY" | "k = OBJFLAGS_ARRAY" | "k = OBJFLAGS_SERVICE"
    | "k = OBJFLAGS_ATOMVAR" | "k = OBJFLAGS_CAS" | "k = OBJFLAGS_DOMAIN" | "k = OBJFLAGS_CPUSTATE"
  using assms by (auto simp: heap_kinds_def)

lemma heap_kind_masks:
  assumes "k \<in> set heap_kinds"
  shows "k AND FLAGS_MASK = k" "k AND FORWARD_MASK \<noteq> GC_FORWARD" "(k OR GC_FORWARD) AND FLAGS_MASK = k"
    "(k OR GC_FORWARD) AND FORWARD_MASK = GC_FORWARD"
  using assms by (auto simp: heap_kinds_def objflags gc_masks)

subsection \<open>Well-formed heaps\<close>

text \<open>Where the references of an object are (offsets from its flag word) and how far the pointer in that word is from the reference to the
  object it belongs to: 0 for references, 4 for pointers to thread descriptors, 32 for the pointer of a thread descriptor to its own context.\<close>

definition obj_slots :: "gc_env \<Rightarrow> words \<Rightarrow> nat \<Rightarrow> (nat \<times> u4) list" where
  "obj_slots env m a =
     (let k = m a in
      if k = OBJFLAGS_OBJECT then (case class_at env (m (a + 2)) of None \<Rightarrow> []
        | Some c \<Rightarrow> map (\<lambda>i. (3 + i, 0)) (forbitmap (cl_map c) (instanceSize c) 0 0))
      else if k = OBJFLAGS_ARRAY then
        (if array_elem env (m (a + 3)) = CHR ''L'' \<or> array_elem env (m (a + 3)) = CHR ''[''
         then map (\<lambda>i. (5 + i, 0)) [0..<unat (m (a + 4))] else [])
      else if k = OBJFLAGS_SERVICE then [(11, 0), (12, 0), (8, 4)]
      else if k = OBJFLAGS_ATOMVAR then [(4, 4), (3, 0)]
      else if k = OBJFLAGS_CPUSTATE then [(3, 32), (36, 4), (37, 4), (8, 4), (60, 0), (61, 0)]
        @ (if m (a + 63) AND 1 \<noteq> 0 then [(62, 0)] else []) @ [(28, 0)]
      else [])"

text \<open>Words 2 up to this one are the same in the copy, apart from the references.\<close>

definition kept_end :: "gc_env \<Rightarrow> words \<Rightarrow> nat \<Rightarrow> nat" where
  "kept_end env m a =
     (let k = m a in
      if k = OBJFLAGS_OBJECT then (case class_at env (m (a + 2)) of None \<Rightarrow> 3 | Some c \<Rightarrow> instanceSize c + 4)
      else if k = OBJFLAGS_ARRAY then unat (m (a + 4)) + 5
      else if k = OBJFLAGS_SERVICE then 18 else if k = OBJFLAGS_CPUSTATE then 71
      else if k = OBJFLAGS_PORTAL \<or> k = OBJFLAGS_MEMORY then 6
      else if k = OBJFLAGS_CAS then 4 else 5)"

text \<open>A thread outside portal calls.\<close>

definition tcb_quiet :: "gc_env \<Rightarrow> words \<Rightarrow> nat \<Rightarrow> bool" where
  "tcb_quiet env m a \<longleftrightarrow> m (a + 3) = obj_ref a + 32 \<and> m (a + 32) = 0 \<and> m (a + 33) = 0 \<and> m (a + 67) = 0 \<and>
     \<not> (m (a + 6) = STATE_WAIT_FOR_RCV \<and> domain_ids env (m (a + 29)) = m (a + 30))"

definition obj_ok :: "gc_env \<Rightarrow> words \<Rightarrow> nat \<Rightarrow> bool" where
  "obj_ok env m a \<longleftrightarrow> m a \<in> set heap_kinds \<and> m (a + 1) = MAGIC_OBJECT \<and>
     (m a \<in> {OBJFLAGS_OBJECT, OBJFLAGS_PORTAL, OBJFLAGS_MEMORY, OBJFLAGS_ARRAY} \<longrightarrow> m (a + 2) \<noteq> 0) \<and>
     (m a = OBJFLAGS_OBJECT \<longrightarrow> class_at env (m (a + 2)) \<noteq> None) \<and>
     (m a = OBJFLAGS_MEMORY \<longrightarrow> m (a + 5) \<noteq> 0 \<and> dz_refcount env (m (a + 5)) > 0) \<and>
     (m a = OBJFLAGS_ARRAY \<longrightarrow> unat (m (a + 4)) < 1073741824) \<and>
     (m a = OBJFLAGS_SERVICE \<longrightarrow> m (a + 15) > 1) \<and>
     (m a = OBJFLAGS_CPUSTATE \<longrightarrow> tcb_quiet env m a)"

definition obj_size :: "gc_env \<Rightarrow> words \<Rightarrow> nat \<Rightarrow> nat" where
  "obj_size env m a = (case walk_size env m a (m a) of Ok n \<Rightarrow> n | Fault _ \<Rightarrow> 0)"

lemma obj_size_kind:
  assumes "obj_ok env m a"
  shows "walk_size env m a (m a) = Ok (obj_size env m a)" "kept_end env m a \<le> obj_size env m a" "4 \<le> obj_size env m a"
proof -
  note ok = assms [unfolded obj_ok_def]
  have arr: "m a = OBJFLAGS_ARRAY \<Longrightarrow> unat (m (a + 4) + 5) = unat (m (a + 4)) + 5" using ok by (simp add: unat_word_ariths)
  have "m a \<in> set heap_kinds" using ok by simp
  then have "\<exists>n. walk_size env m a (m a) = Ok n \<and> kept_end env m a \<le> n \<and> 4 \<le> n"
    unfolding walk_size_def Let_def heap_kind_masks(1) [OF \<open>m a \<in> set heap_kinds\<close>]
    by (cases rule: heap_kindE) (use ok arr in \<open>auto simp: object_size_def class_of_def check_class_def has_class_def fixed_size_def
      gc_objSize2_def assert_object_def OBJSIZE_ARRAY_def objsizes kept_end_def objflags gc_masks\<close>)
  then show "walk_size env m a (m a) = Ok (obj_size env m a)" "kept_end env m a \<le> obj_size env m a" "4 \<le> obj_size env m a"
    by (auto simp: obj_size_def)
qed

text \<open>A collection: environment and memory at its start, the objects of the heap from \<open>hbeg\<close> to \<open>hend\<close>, the start of the second
  semispace, and the words outside that hold references, with their displacements.\<close>

record collection =
  cenv :: gc_env
  m0 :: words
  objs :: "nat list"
  hbeg :: nat
  hend :: nat
  base :: nat
  rts :: "(nat \<times> u4) list"

abbreviation osize :: "collection \<Rightarrow> nat \<Rightarrow> nat" where
  "osize c \<equiv> obj_size (cenv c) (m0 c)"

abbreviation slots :: "collection \<Rightarrow> nat \<Rightarrow> (nat \<times> u4) list" where
  "slots c \<equiv> obj_slots (cenv c) (m0 c)"

text \<open>The words the collector may write in the second semispace; copying an object writes three words more than it reserves.\<close>

definition target_space :: "collection \<Rightarrow> nat set" where
  "target_space c = {base c ..< base c + (hend c - hbeg c) + 3}"

text \<open>The heap with the three words behind its last object, into which that copy would run after the next collection.\<close>

definition from_space :: "collection \<Rightarrow> nat set" where
  "from_space c = {hbeg c ..< hend c + 3}"

lemma from_spaceD: "x \<notin> from_space c \<Longrightarrow> x \<notin> {hbeg c ..< hend c}"
  by (auto simp: from_space_def)

primrec laid_out :: "(nat \<Rightarrow> nat) \<Rightarrow> nat \<Rightarrow> nat list \<Rightarrow> nat \<Rightarrow> bool" where
  "laid_out sz a [] b = (a = b)"
| "laid_out sz a (x # xs) b = (x = a \<and> 0 < sz x \<and> laid_out sz (a + sz x) xs b)"

definition external :: "collection \<Rightarrow> u4 \<Rightarrow> bool" where
  "external c v \<longleftrightarrow> (let x = obj_start v in \<not> v \<le> 0xfff \<and> x \<notin> from_space c \<and> x \<notin> target_space c \<and> x \<notin> fst ` set (rts c) \<and>
     m0 c x AND FORWARD_MASK \<noteq> GC_FORWARD \<and> m0 c x AND FLAGS_MASK \<in> {OBJFLAGS_EXTERNAL_STRING, OBJFLAGS_EXTERNAL_CPUDESC,
       OBJFLAGS_EXTERNAL_CLASS, OBJFLAGS_EXTERNAL_METHOD})"

definition points :: "collection \<Rightarrow> u4 \<Rightarrow> u4 \<Rightarrow> nat \<Rightarrow> bool" where
  "points c d v ob \<longleftrightarrow> ob \<in> set (objs c) \<and> v = obj_ref ob + d"

definition slot_ok :: "collection \<Rightarrow> u4 \<Rightarrow> u4 \<Rightarrow> bool" where
  "slot_ok c d v \<longleftrightarrow> v = 0 \<or> d = 0 \<and> (v \<le> 0xfff \<or> external c v) \<or>
     (\<exists>ob. points c d v ob \<and> (d = 4 \<longrightarrow> m0 c ob = OBJFLAGS_CPUSTATE))"

definition gc_wf :: "collection \<Rightarrow> bool" where
  "gc_wf c \<longleftrightarrow> laid_out (osize c) (hbeg c) (objs c) (hend c) \<and> 1022 \<le> hbeg c \<and> 1022 \<le> base c \<and> hend c + 5 < 1073741824 \<and>
     base c + (hend c - hbeg c) + 5 < 1073741824 \<and> from_space c \<inter> target_space c = {} \<and>
     (\<forall>a \<in> set (objs c). obj_ok (cenv c) (m0 c) a \<and> (\<forall>(k, d) \<in> set (slots c a). slot_ok c d (m0 c (a + k))) \<and>
        (m0 c a = OBJFLAGS_CPUSTATE \<longrightarrow> m0 c (a + 28) = 0 \<or>
           (\<exists>ob. points c 0 (m0 c (a + 28)) ob \<and> m0 c ob = OBJFLAGS_SERVICE))) \<and>
     (\<forall>(p, d) \<in> set (rts c). (d = 0 \<or> d = 4) \<and> slot_ok c d (m0 c p) \<and> p \<notin> from_space c \<and> p \<notin> target_space c) \<and>
     distinct (map fst (rts c))"

inductive reachable :: "collection \<Rightarrow> nat \<Rightarrow> bool" for c where
  reach_root: "(p, d) \<in> set (rts c) \<Longrightarrow> points c d (m0 c p) ob \<Longrightarrow> reachable c ob"
| reach_obj: "reachable c a \<Longrightarrow> (k, d) \<in> set (slots c a) \<Longrightarrow> points c d (m0 c (a + k)) ob \<Longrightarrow> reachable c ob"

lemma reachable_objs: "reachable c a \<Longrightarrow> a \<in> set (objs c)"
  by (induction rule: reachable.induct) (auto simp: points_def)

subsection \<open>The places of the copies\<close>

primrec place :: "(nat \<Rightarrow> nat) \<Rightarrow> nat \<Rightarrow> nat list \<Rightarrow> nat \<Rightarrow> nat option" where
  "place sz b [] a = None"
| "place sz b (x # xs) a = (if a = x then Some b else place sz (b + sz x) xs a)"

lemma place_None: "place sz b cs a = None \<longleftrightarrow> a \<notin> set cs"
  by (induction cs arbitrary: b) auto

lemma place_notin [simp]: "a \<notin> set cs \<Longrightarrow> place sz b cs a = None"
  by (simp add: place_None)

lemma place_Some: "a \<in> set cs \<Longrightarrow> \<exists>n. place sz b cs a = Some n"
  by (metis place_None option.exhaust)

lemma place_range: "place sz b cs a = Some n \<Longrightarrow> b \<le> n \<and> n + sz a \<le> b + sum_list (map sz cs)"
  by (induction cs arbitrary: b) (fastforce split: if_splits)+

lemma place_apart:
  "place sz b cs a = Some n \<Longrightarrow> place sz b cs a' = Some n' \<Longrightarrow> a \<noteq> a' \<Longrightarrow> n + sz a \<le> n' \<or> n' + sz a' \<le> n"
proof (induction cs arbitrary: b)
  case (Cons x xs)
  then show ?case using place_range [of sz "b + sz x" xs a n] place_range [of sz "b + sz x" xs a' n']
    by (auto split: if_splits)
qed simp

lemma place_append: "a \<in> set cs \<Longrightarrow> place sz b (cs @ ys) a = place sz b cs a"
  by (induction cs arbitrary: b) auto

lemma place_last: "y \<notin> set cs \<Longrightarrow> place sz b (cs @ [y]) y = Some (b + sum_list (map sz cs))"
  by (induction cs arbitrary: b) (auto simp: add.assoc)

lemma place_nth: "distinct cs \<Longrightarrow> j < length cs \<Longrightarrow> place sz b cs (cs ! j) = Some (b + sum_list (map sz (take j cs)))"
proof (induction cs arbitrary: b j)
  case (Cons x xs)
  then show ?case by (cases j) (auto simp: add.assoc)
qed simp

lemma laid_out_sum: "laid_out sz a xs b \<Longrightarrow> a + sum_list (map sz xs) = b"
proof (induction xs arbitrary: a)
  case (Cons x xs)
  then have "x = a" "laid_out sz (a + sz a) xs b" by auto
  then show ?case using Cons.IH [of "a + sz a"] by (simp add: add.assoc)
qed simp

lemma laid_out_range: "laid_out sz a xs b \<Longrightarrow> x \<in> set xs \<Longrightarrow> a \<le> x \<and> x + sz x \<le> b"
proof (induction xs arbitrary: a)
  case (Cons y ys)
  then show ?case using laid_out_sum [of sz "a + sz y" ys b] by fastforce
qed simp

lemma laid_out_apart: "laid_out sz a xs b \<Longrightarrow> x \<in> set xs \<Longrightarrow> y \<in> set xs \<Longrightarrow> x < y \<Longrightarrow> x + sz x \<le> y"
proof (induction xs arbitrary: a)
  case (Cons z zs)
  then show ?case using laid_out_range [of sz "a + sz z" zs b] by fastforce
qed simp

lemma laid_out_distinct: "laid_out sz a xs b \<Longrightarrow> distinct xs"
proof (induction xs arbitrary: a)
  case (Cons x xs)
  then show ?case using laid_out_range [of sz "a + sz x" xs b x] by auto
qed simp

lemma sum_list_subset: "distinct xs \<Longrightarrow> distinct ys \<Longrightarrow> set xs \<subseteq> set ys \<Longrightarrow> sum_list (map f xs) \<le> sum_list (map f ys)" for f :: "'a \<Rightarrow> nat"
  by (simp add: sum_list_distinct_conv_sum_set sum_mono2)

lemma gc_wfD:
  assumes "gc_wf c"
  shows "laid_out (osize c) (hbeg c) (objs c) (hend c)" "1022 \<le> hbeg c" "hend c + 2 < 1073741824"
    "base c + (hend c - hbeg c) + 5 < 1073741824" "{hbeg c ..< hend c} \<inter> target_space c = {}" "distinct (map fst (rts c))"
    "a \<in> set (objs c) \<Longrightarrow> obj_ok (cenv c) (m0 c) a"
    "a \<in> set (objs c) \<Longrightarrow> (k, d) \<in> set (slots c a) \<Longrightarrow> slot_ok c d (m0 c (a + k))"
    "a \<in> set (objs c) \<Longrightarrow> m0 c a = OBJFLAGS_CPUSTATE \<Longrightarrow> m0 c (a + 28) \<noteq> 0 \<Longrightarrow>
       \<exists>ob. points c 0 (m0 c (a + 28)) ob \<and> m0 c ob = OBJFLAGS_SERVICE"
    "(p, d) \<in> set (rts c) \<Longrightarrow> (d = 0 \<or> d = 4) \<and> slot_ok c d (m0 c p) \<and> p \<notin> {hbeg c ..< hend c} \<and> p \<notin> target_space c"
proof -
  note w = assms [unfolded gc_wf_def]
  show "laid_out (osize c) (hbeg c) (objs c) (hend c)" "1022 \<le> hbeg c"
    "base c + (hend c - hbeg c) + 5 < 1073741824" "distinct (map fst (rts c))"
    using w by - (elim conjE, assumption)+
  have "hend c + 5 < 1073741824" using w by (elim conjE)
  then show "hend c + 2 < 1073741824" by simp
  have "from_space c \<inter> target_space c = {}" using w by (elim conjE)
  then show "{hbeg c ..< hend c} \<inter> target_space c = {}" using from_spaceD by blast
  from w have r: "\<forall>(p, d) \<in> set (rts c). (d = 0 \<or> d = 4) \<and> slot_ok c d (m0 c p) \<and> p \<notin> from_space c \<and> p \<notin> target_space c"
    by (elim conjE)
  show "(p, d) \<in> set (rts c) \<Longrightarrow> (d = 0 \<or> d = 4) \<and> slot_ok c d (m0 c p) \<and> p \<notin> {hbeg c ..< hend c} \<and> p \<notin> target_space c"
    using bspec [OF r, of "(p, d)"] from_spaceD by simp
  have ok: "obj_ok (cenv c) (m0 c) a \<and> (\<forall>(k, d) \<in> set (slots c a). slot_ok c d (m0 c (a + k))) \<and>
      (m0 c a = OBJFLAGS_CPUSTATE \<longrightarrow> m0 c (a + 28) = 0 \<or> (\<exists>ob. points c 0 (m0 c (a + 28)) ob \<and> m0 c ob = OBJFLAGS_SERVICE))"
    if "a \<in> set (objs c)" using w that by (elim conjE) (drule (1) bspec)
  show "a \<in> set (objs c) \<Longrightarrow> obj_ok (cenv c) (m0 c) a"
    "a \<in> set (objs c) \<Longrightarrow> (k, d) \<in> set (slots c a) \<Longrightarrow> slot_ok c d (m0 c (a + k))"
    "a \<in> set (objs c) \<Longrightarrow> m0 c a = OBJFLAGS_CPUSTATE \<Longrightarrow> m0 c (a + 28) \<noteq> 0 \<Longrightarrow>
       \<exists>ob. points c 0 (m0 c (a + 28)) ob \<and> m0 c ob = OBJFLAGS_SERVICE"
    using ok by blast+
qed

lemma obj_bounds:
  assumes "gc_wf c" "a \<in> set (objs c)"
  shows "hbeg c \<le> a" "a + osize c a \<le> hend c" "1022 \<le> a" "a + 2 < 1073741824" "4 \<le> osize c a"
    "kept_end (cenv c) (m0 c) a \<le> osize c a"
  using laid_out_range [OF gc_wfD(1) [OF assms(1)] assms(2)] gc_wfD(2,3) [OF assms(1)]
    obj_size_kind [OF gc_wfD(7) [OF assms]] by auto

lemma target_sum:
  assumes "gc_wf c" "distinct cs" "set cs \<subseteq> set (objs c)"
  shows "sum_list (map (osize c) cs) \<le> hend c - hbeg c"
  using sum_list_subset [OF assms(2) laid_out_distinct [OF gc_wfD(1) [OF assms(1)]] assms(3), of "osize c"]
    laid_out_sum [OF gc_wfD(1) [OF assms(1)]] by linarith

subsection \<open>Copying one object\<close>

text \<open>\<open>m'\<close> holds a copy of the object \<open>ob\<close> of \<open>m\<close> at \<open>dst\<close>: the words from 2 to \<open>e\<close> agree, and only the \<open>w\<close> words from \<open>dst\<close> were written.\<close>

definition is_copy :: "words \<Rightarrow> words \<Rightarrow> nat \<Rightarrow> nat \<Rightarrow> u4 \<Rightarrow> nat \<Rightarrow> nat \<Rightarrow> bool" where
  "is_copy m m' ob dst k e w \<longleftrightarrow> m' dst = k \<and> m' (dst + 1) = MAGIC_OBJECT \<and>
     (\<forall>i. 2 \<le> i \<and> i < e \<longrightarrow> m' (dst + i) = m (ob + i)) \<and> (\<forall>x. x < dst \<or> dst + w \<le> x \<longrightarrow> m' x = m x)"

lemma is_copy_mono: "is_copy m m' ob dst k e w \<Longrightarrow> w \<le> w' \<Longrightarrow> is_copy m m' ob dst k e w'"
  unfolding is_copy_def by auto

lemma below6: "2 \<le> i \<and> i < (6::nat) \<longleftrightarrow> i = 2 \<or> i = 3 \<or> i = 4 \<or> i = 5"
  "2 \<le> i \<and> i < (5::nat) \<longleftrightarrow> i = 2 \<or> i = 3 \<or> i = 4" "2 \<le> i \<and> i < (4::nat) \<longleftrightarrow> i = 2 \<or> i = 3"
  by auto

lemma is_copy_small:
  shows "ob + 6 \<le> dst \<or> dst + 6 \<le> ob \<Longrightarrow> is_copy m (gc_impl_shallowCopyPortal dst ob m) ob dst OBJFLAGS_PORTAL 6 6"
    "ob + 4 \<le> dst \<or> dst + 4 \<le> ob \<Longrightarrow> is_copy m (gc_impl_shallowCopyCAS dst ob m) ob dst OBJFLAGS_CAS 4 4"
    "ob + 5 \<le> dst \<or> dst + 5 \<le> ob \<Longrightarrow> is_copy m (gc_impl_shallowCopyDomain dst ob m) ob dst OBJFLAGS_DOMAIN 5 5"
    "ob + 5 \<le> dst \<or> dst + 5 \<le> ob \<Longrightarrow> is_copy m (gc_impl_shallowCopyAtomVar dst ob m) ob dst OBJFLAGS_ATOMVAR 5 5"
  unfolding is_copy_def gc_impl_shallowCopyPortal_def gc_impl_shallowCopyCAS_def gc_impl_shallowCopyDomain_def
    gc_impl_shallowCopyAtomVar_def set_header_def Let_def below6
  by auto

lemma Suc_Suc_diff: "2 \<le> i \<Longrightarrow> Suc (Suc (j + i - 2)) = j + i"
  by simp

lemma is_copy_service:
  "ob + 18 \<le> dst \<or> dst + 18 \<le> ob \<Longrightarrow> is_copy m (gc_impl_shallowCopyService dst ob m) ob dst OBJFLAGS_SERVICE 18 18"
  unfolding is_copy_def gc_impl_shallowCopyService_def set_header_def copy_words_def by (auto simp: Suc_Suc_diff)

lemma is_copy_cpustate:
  "ob + 73 \<le> dst \<or> dst + 73 \<le> ob \<Longrightarrow> is_copy m (gc_impl_shallowCopyCpuState dst ob m) ob dst OBJFLAGS_CPUSTATE 71 73"
  unfolding is_copy_def gc_impl_shallowCopyCpuState_def set_header_def copy_words_def Let_def by auto

lemma is_copy_array:
  assumes "ob + (n + 5) \<le> dst \<or> dst + (n + 5) \<le> ob" "n = unat (m (ob + 4))"
  shows "is_copy m (gc_impl_shallowCopyArray dst ob m) ob dst OBJFLAGS_ARRAY (n + 5) (n + 5)"
proof -
  define m4 where "m4 = m(dst := OBJFLAGS_ARRAY, dst + 1 := MAGIC_OBJECT, dst + 2 := m (ob + 2), dst + 3 := m (ob + 3), dst + 4 := m (ob + 4))"
  have "gc_impl_shallowCopyArray dst ob m = copy_words (dst + 5) (ob + 5) n m4"
    using assms by (auto simp: gc_impl_shallowCopyArray_def set_header_def Let_def m4_def)
  moreover have "m4 (ob + i) = m (ob + i)" if "i < n + 5" for i using assms that by (auto simp: m4_def)
  moreover have "copy_words (dst + 5) (ob + 5) n m4 (dst + i) = m (ob + i)"
    if "2 \<le> i" "i < n + 5" "\<And>i. i < n + 5 \<Longrightarrow> m4 (ob + i) = m (ob + i)" for i
  proof -
    note h = that
    consider "i = 2" | "i = 3" | "i = 4" | "5 \<le> i" using h(1) by linarith
    then show ?thesis using h(2) h(3) [of i] by cases (simp_all add: copy_words_def m4_def)
  qed
  ultimately show ?thesis unfolding is_copy_def by (auto simp: copy_words_def m4_def)
qed

lemma is_copy_object:
  assumes "class_of env m ob = Ok cl" "n = instanceSize cl + 4" "ob + n \<le> dst \<or> dst + (n + 3) \<le> ob"
  shows "\<exists>m'. gc_impl_shallowCopyObject env dst ob m = Ok m' \<and> is_copy m m' ob dst OBJFLAGS_OBJECT n (n + 3)"
proof -
  define m2 where "m2 = m(dst := OBJFLAGS_OBJECT, dst + 1 := MAGIC_OBJECT, dst + 2 := m (ob + 2))"
  have same: "m2 (ob + i) = m (ob + i)" if "i < n" for i using assms(3) that by (auto simp: m2_def)
  have "class_of env m2 ob = class_of env m ob"
    using same [of 1] same [of 2] assms(2) by (simp add: class_of_def check_class_def has_class_def)
  then have "gc_impl_shallowCopyObject env dst ob m = Ok (copy_words (dst + 3) (ob + 3) n m2)"
    using assms by (auto simp: gc_impl_shallowCopyObject_def set_header_def Let_def m2_def OBJSIZE_OBJECT_def)
  moreover have "copy_words (dst + 3) (ob + 3) n m2 (dst + i) = m (ob + i)" if "2 \<le> i" "i < n" for i
  proof -
    note h = that
    consider "i = 2" | "3 \<le> i" using h(1) by linarith
    then show ?thesis using h(2) same [of i] by cases (simp_all add: copy_words_def m2_def)
  qed
  then have "is_copy m (copy_words (dst + 3) (ob + 3) n m2) ob dst OBJFLAGS_OBJECT n (n + 3)"
    unfolding is_copy_def by (auto simp: copy_words_def m2_def)
  ultimately show ?thesis by blast
qed

lemma is_copy_memory:
  assumes "ob + 8 \<le> dst \<or> dst + 8 \<le> ob" "m (ob + 5) \<noteq> 0" "dz_refcount env (m (ob + 5)) > 0"
  shows "\<exists>m'. gc_impl_shallowCopyMemory env dst ob m = Ok m' \<and> is_copy m m' ob dst OBJFLAGS_MEMORY 6 8"
  using assms unfolding is_copy_def gc_impl_shallowCopyMemory_def set_header_def Let_def below6
  by (auto simp: rassert_def)

lemma copy_to_heap2_ok:
  "heapTop2 s \<le> heapBorder2 s \<Longrightarrow> copy (heapTop2 s) (gmem s) = Ok m' \<Longrightarrow>
   copy_to_heap2 n copy s = Ok (heapTop2 s, s\<lparr>gmem := m', heapTop2 := heapTop2 s + n\<rparr>)"
  by (simp add: copy_to_heap2_def gc_new_allocHeap2_def)

text \<open>The \<^verbatim>\<open>switch\<close> copies every object of a well-formed heap.\<close>

definition movable :: "gc_env \<Rightarrow> gcheap \<Rightarrow> nat \<Rightarrow> nat \<Rightarrow> bool" where
  "movable env s ob n \<longleftrightarrow> obj_ok env (gmem s) ob \<and> heapTop2 s \<le> heapBorder2 s \<and> gc_new_isInHeap ob s \<and>
     n = obj_size env (gmem s) ob \<and> (ob + n \<le> heapTop2 s \<or> heapTop2 s + (n + 3) \<le> ob)"

lemma movableD:
  assumes "movable env s ob n"
  shows "obj_ok env (gmem s) ob" "heapTop2 s \<le> heapBorder2 s" "gc_new_isInHeap ob s" "ob + n \<le> heapTop2 s \<or> heapTop2 s + (n + 3) \<le> ob"
    "gmem s (ob + 1) = MAGIC_OBJECT"
    "(if gmem s ob = OBJFLAGS_ARRAY then gc_objSize2 env (gmem s) ob (gmem s ob)
      else if gmem s ob = OBJFLAGS_EXTERNAL_STRING then Fault (AssertFail ''domain == domainZero'')
      else if gmem s ob = OBJFLAGS_FOREIGN_CPUSTATE \<or> gmem s ob = OBJFLAGS_OBJECT then object_size env (gmem s) ob
      else fixed_size (gmem s ob)) = Ok n"
proof -
  show ok: "obj_ok env (gmem s) ob" and "heapTop2 s \<le> heapBorder2 s" "gc_new_isInHeap ob s"
    "ob + n \<le> heapTop2 s \<or> heapTop2 s + (n + 3) \<le> ob" using assms unfolding movable_def by blast+
  show "gmem s (ob + 1) = MAGIC_OBJECT" using ok by (simp add: obj_ok_def)
  have kind: "gmem s ob \<in> set heap_kinds" and n: "n = obj_size env (gmem s) ob" using assms by (simp_all add: movable_def obj_ok_def)
  show "(if gmem s ob = OBJFLAGS_ARRAY then gc_objSize2 env (gmem s) ob (gmem s ob)
      else if gmem s ob = OBJFLAGS_EXTERNAL_STRING then Fault (AssertFail ''domain == domainZero'')
      else if gmem s ob = OBJFLAGS_FOREIGN_CPUSTATE \<or> gmem s ob = OBJFLAGS_OBJECT then object_size env (gmem s) ob
      else fixed_size (gmem s ob)) = Ok n"
    unfolding n by (rule obj_size_kind(1) [OF ok, unfolded walk_size_def Let_def heap_kind_masks(1) [OF kind]])
qed

lemma move_object_kind:
  assumes mv: "movable env s ob n" and kind: "gmem s ob = OBJFLAGS_OBJECT"
  shows "\<exists>m'. move_by_kind env (gmem s ob) ob s = Ok (Some (heapTop2 s, s\<lparr>gmem := m', heapTop2 := heapTop2 s + n\<rparr>)) \<and>
     is_copy (gmem s) m' ob (heapTop2 s) (gmem s ob) (kept_end env (gmem s) ob) (n + 3)"
proof -
  let ?m = "gmem s" and ?dst = "heapTop2 s"
  note D = movableD [OF mv] and k = movableD(1) [OF mv, unfolded obj_ok_def]
  note top = D(2) and inh = D(3) and apart = D(4) and mag = D(5) and sz' = D(6)
  obtain cl where cl: "class_at env (?m (ob + 2)) = Some cl" "?m (ob + 2) \<noteq> 0" using k kind by (auto simp: objflags)
  then have c: "class_of env ?m ob = Ok cl" using mag by (simp add: class_of_def check_class_def has_class_def)
  then have n4: "n = instanceSize cl + 4" using sz' kind by (simp add: objflags object_size_def OBJSIZE_OBJECT_def)
  obtain m' where m': "gc_impl_shallowCopyObject env ?dst ob ?m = Ok m'" "is_copy ?m m' ob ?dst OBJFLAGS_OBJECT n (n + 3)"
    using is_copy_object [OF c n4 apart] by blast
  moreover have "kept_end env ?m ob = n" using kind cl n4 by (simp add: kept_end_def)
  ultimately show ?thesis using kind c n4 mag cl inh copy_to_heap2_ok [OF top, where copy = "\<lambda>dst. gc_impl_shallowCopyObject env dst ob", OF m'(1)]
    by (intro exI [of _ m']) (simp add: move_by_kind_def check_class_def has_class_def gc_common_move_object_def
        assert_object_def object_size_def OBJSIZE_OBJECT_def)
qed

lemma move_memory_kind:
  assumes mv: "movable env s ob n" and kind: "gmem s ob = OBJFLAGS_MEMORY"
  shows "\<exists>m'. move_by_kind env (gmem s ob) ob s = Ok (Some (heapTop2 s, s\<lparr>gmem := m', heapTop2 := heapTop2 s + n\<rparr>)) \<and>
     is_copy (gmem s) m' ob (heapTop2 s) (gmem s ob) (kept_end env (gmem s) ob) (n + 3)"
proof -
  let ?m = "gmem s" and ?dst = "heapTop2 s"
  note D = movableD [OF mv] and k = movableD(1) [OF mv, unfolded obj_ok_def]
  note top = D(2) and inh = D(3) and apart = D(4) and mag = D(5) and sz' = D(6)
  have n8: "n = 8" using sz' kind by (simp add: objflags fixed_size_def objsizes)
  obtain m' where m': "gc_impl_shallowCopyMemory env ?dst ob ?m = Ok m'" "is_copy ?m m' ob ?dst OBJFLAGS_MEMORY 6 8"
    using is_copy_memory [of ob ?dst ?m env] apart n8 k kind by auto
  from is_copy_mono [OF m'(2), of "n + 3"] show ?thesis
    using k kind mag n8 m'(1) copy_to_heap2_ok [OF top, where copy = "\<lambda>dst. gc_impl_shallowCopyMemory env dst ob", OF m'(1)]
    by (auto simp: move_by_kind_def check_class_def has_class_def gc_common_move_memory_def assert_object_def
        objsizes kept_end_def objflags)
qed

lemma move_array_kind:
  assumes mv: "movable env s ob n" and kind: "gmem s ob = OBJFLAGS_ARRAY"
  shows "\<exists>m'. move_by_kind env (gmem s ob) ob s = Ok (Some (heapTop2 s, s\<lparr>gmem := m', heapTop2 := heapTop2 s + n\<rparr>)) \<and>
     is_copy (gmem s) m' ob (heapTop2 s) (gmem s ob) (kept_end env (gmem s) ob) (n + 3)"
proof -
  let ?m = "gmem s" and ?dst = "heapTop2 s"
  note D = movableD [OF mv] and k = movableD(1) [OF mv, unfolded obj_ok_def]
  note top = D(2) and inh = D(3) and apart = D(4) and mag = D(5) and sz' = D(6)
  define l where "l = unat (?m (ob + 4))"
  have "unat (?m (ob + 4) + 5) = l + 5" using k kind by (simp add: unat_word_ariths l_def)
  then have sz4: "gc_objSize2 env ?m ob (?m ob) = Ok n" "n = l + 5"
    using sz' kind mag by (simp_all add: gc_objSize2_def assert_object_def OBJSIZE_ARRAY_def objflags gc_masks)
  then have "is_copy ?m (gc_impl_shallowCopyArray ?dst ob ?m) ob ?dst OBJFLAGS_ARRAY (l + 5) (l + 5)"
    using is_copy_array [of ob l ?dst ?m] apart l_def by auto
  from is_copy_mono [OF this, of "n + 3"] show ?thesis using k kind mag sz4 top l_def
    by (auto simp: move_by_kind_def check_class_def has_class_def gc_common_move_array_def assert_object_def
        copy_to_heap2_ok kept_end_def objflags)
qed

lemma move_by_kind_ok:
  assumes mv: "movable env s ob n"
  shows "\<exists>m'. move_by_kind env (gmem s ob) ob s = Ok (Some (heapTop2 s, s\<lparr>gmem := m', heapTop2 := heapTop2 s + n\<rparr>)) \<and>
     is_copy (gmem s) m' ob (heapTop2 s) (gmem s ob) (kept_end env (gmem s) ob) (n + 3)"
proof -
  let ?m = "gmem s" and ?dst = "heapTop2 s"
  note D = movableD [OF mv] and k = movableD(1) [OF mv, unfolded obj_ok_def]
  note top = D(2) and apart = D(4) and mag = D(5) and sz' = D(6)
  have "?m ob \<in> set heap_kinds" using k by simp
  then show ?thesis
  proof (cases rule: heap_kindE)
    case 1
    show ?thesis by (rule move_object_kind [OF mv 1])
  next
    case 2
    then have n6: "n = 6" using sz' by (simp add: objflags fixed_size_def objsizes)
    then have "is_copy ?m (gc_impl_shallowCopyPortal ?dst ob ?m) ob ?dst OBJFLAGS_PORTAL 6 6" using is_copy_small(1) apart by auto
    from is_copy_mono [OF this, of "n + 3"] show ?thesis using 2 k mag n6 top
      by (auto simp: move_by_kind_def check_class_def has_class_def gc_common_move_portal_def assert_object_def
          copy_to_heap2_ok objsizes kept_end_def objflags)
  next
    case 3
    show ?thesis by (rule move_memory_kind [OF mv 3])
  next
    case 4
    show ?thesis by (rule move_array_kind [OF mv 4])
  next
    case 5
    then have n18: "n = 18" using sz' by (simp add: objflags fixed_size_def objsizes)
    then have "is_copy ?m (gc_impl_shallowCopyService ?dst ob ?m) ob ?dst OBJFLAGS_SERVICE 18 18" using is_copy_service apart by auto
    from is_copy_mono [OF this, of "n + 3"] show ?thesis using 5 k mag n18 top
      by (auto simp: move_by_kind_def gc_common_move_service_def assert_object_def copy_to_heap2_ok objsizes kept_end_def objflags)
  next
    case 6
    then have n6: "n = 6" using sz' by (simp add: objflags fixed_size_def objsizes)
    then have "is_copy ?m (gc_impl_shallowCopyAtomVar ?dst ob ?m) ob ?dst OBJFLAGS_ATOMVAR 5 5" using is_copy_small(4) apart by auto
    from is_copy_mono [OF this, of "n + 3"] show ?thesis using 6 k mag n6 top
      by (auto simp: move_by_kind_def gc_common_move_atomvar_def assert_object_def copy_to_heap2_ok objsizes kept_end_def objflags)
  next
    case 7
    then have n4: "n = 4" using sz' by (simp add: objflags fixed_size_def objsizes)
    then have "is_copy ?m (gc_impl_shallowCopyCAS ?dst ob ?m) ob ?dst OBJFLAGS_CAS 4 4" using is_copy_small(2) apart by auto
    from is_copy_mono [OF this, of "n + 3"] show ?thesis using 7 k mag n4 top
      by (auto simp: move_by_kind_def gc_common_move_cas_def assert_object_def copy_to_heap2_ok objsizes kept_end_def objflags)
  next
    case 8
    then have n5: "n = 5" using sz' by (simp add: objflags fixed_size_def objsizes)
    then have "is_copy ?m (gc_impl_shallowCopyDomain ?dst ob ?m) ob ?dst OBJFLAGS_DOMAIN 5 5" using is_copy_small(3) apart by auto
    from is_copy_mono [OF this, of "n + 3"] show ?thesis using 8 k mag n5 top
      by (auto simp: move_by_kind_def gc_common_move_domain_def assert_object_def copy_to_heap2_ok objsizes kept_end_def objflags)
  next
    case 9
    then have n73: "n = 73" using sz' by (simp add: objflags fixed_size_def objsizes)
    then have "is_copy ?m (gc_impl_shallowCopyCpuState ?dst ob ?m) ob ?dst OBJFLAGS_CPUSTATE 71 73" using is_copy_cpustate apart by auto
    from is_copy_mono [OF this, of "n + 3"] show ?thesis using 9 k mag n73 top
      by (auto simp: move_by_kind_def gc_common_move_cpustate_def assert_object_def copy_to_heap2_ok objsizes kept_end_def objflags)
  qed
qed

subsection \<open>The slots of an object\<close>

text \<open>The macro \<^verbatim>\<open>FORBITMAP\<close>, which shifts a byte to the right in every round, visits the indices whose bit is set.\<close>

lemma forbitmap_bits:
  "i mod 8 = 0 \<or> bits = drop_bit (i mod 8) (bytes ! (i div 8)) \<Longrightarrow>
   forbitmap bytes n i bits = filter (\<lambda>j. bit (bytes ! (j div 8)) (j mod 8)) [i..<n]"
proof (induction bytes n i bits rule: forbitmap.induct)
  case (1 bytes n i bits)
  show ?case
  proof (cases "i < n")
    case True
    define b where "b = drop_bit (i mod 8) (bytes ! (i div 8))"
    have b': "(if i mod 8 = 0 then bytes ! (i div 8) else bits) = b" using "1.prems" by (auto simp: b_def)
    have nxt: "(i + 1) mod 8 = 0 \<or> drop_bit 1 b = drop_bit ((i + 1) mod 8) (bytes ! ((i + 1) div 8))"
    proof (cases "(i + 1) mod 8 = 0")
      case False
      then have "(i + 1) mod 8 = Suc (i mod 8)" "(i + 1) div 8 = i div 8" by (simp_all add: mod_Suc div_Suc split: if_splits)
      then show ?thesis by (simp add: b_def drop_bit_drop_bit)
    qed simp
    have "forbitmap bytes n i bits = (if b AND 1 \<noteq> 0 then i # forbitmap bytes n (i + 1) (drop_bit 1 b) else forbitmap bytes n (i + 1) (drop_bit 1 b))"
      using True b' by (subst forbitmap.simps) (simp add: Let_def)
    moreover have "b AND 1 \<noteq> 0 \<longleftrightarrow> bit (bytes ! (i div 8)) (i mod 8)"
      by (simp add: b_def and_one_eq odd_iff_mod_2_eq_one [symmetric] bit_iff_odd_drop_bit)
    ultimately show ?thesis using "1.IH" [OF True refl] nxt True b' by (simp add: upt_conv_Cons)
  next
    case False
    then show ?thesis by (subst forbitmap.simps) simp
  qed
qed

lemma isRef_bit: "isRef bytes n num \<longleftrightarrow> num < n \<and> bit (bytes ! (num div 8)) (num mod 8)"
  by (simp add: isRef_def forbitmap_bits)

lemma forbitmap_less: "j \<in> set (forbitmap bytes n 0 0) \<Longrightarrow> j < n"
  by (simp add: forbitmap_bits)

lemma forbitmap_distinct: "distinct (forbitmap bytes n 0 0)"
  by (simp add: forbitmap_bits)

lemma slots_distinct: "distinct (map fst (obj_slots env m a))"
proof -
  have d: "distinct (map (\<lambda>i. j + i) xs) \<longleftrightarrow> distinct xs" for j :: nat and xs by (simp add: distinct_map)
  show ?thesis using forbitmap_distinct by (auto simp: obj_slots_def Let_def comp_def d split: option.splits)
qed

lemma slots_range:
  assumes "obj_ok env m a" "(k, d) \<in> set (obj_slots env m a)"
  shows "3 \<le> k" "k < kept_end env m a"
  using assms by (auto dest!: forbitmap_less simp: obj_slots_def kept_end_def Let_def obj_ok_def objflags split: if_splits option.splits)

text \<open>The displacement of the slot at offset \<open>k\<close>.\<close>

definition disp :: "collection \<Rightarrow> nat \<Rightarrow> nat \<Rightarrow> u4" where
  "disp c a k = (case map_of (slots c a) k of Some d \<Rightarrow> d | None \<Rightarrow> 0)"

lemma disp_eq: "(k, d) \<in> set (slots c a) \<Longrightarrow> disp c a k = d"
  using map_of_is_SomeI [OF slots_distinct] by (simp add: disp_def)

subsection \<open>The invariant of a collection\<close>

abbreviation fwd :: "collection \<Rightarrow> nat list \<Rightarrow> nat \<Rightarrow> nat option" where
  "fwd c cs \<equiv> place (osize c) (base c) cs"

text \<open>The reference \<open>v\<close> after the collection.\<close>

definition tr :: "(nat \<Rightarrow> nat option) \<Rightarrow> u4 \<Rightarrow> u4 \<Rightarrow> u4" where
  "tr f d v = (if v = 0 \<or> v - d \<le> 0xfff then v
     else case f (obj_start (v - d)) of None \<Rightarrow> v | Some n \<Rightarrow> obj_ref n + d)"

text \<open>The pointers of the two semispaces, and the memory outside the second one: only the flag words of copied objects have changed.\<close>

definition spaces_ok :: "collection \<Rightarrow> nat list \<Rightarrow> gcheap \<Rightarrow> bool" where
  "spaces_ok c cs s \<longleftrightarrow> heap s = hbeg c \<and> heapTop s = hend c \<and> heap2 s = base c \<and>
     heapTop2 s = base c + sum_list (map (osize c) cs) \<and> base c + (hend c - hbeg c) \<le> heapBorder2 s \<and>
     (\<forall>x \<in> {hbeg c ..< hend c}. gmem s x = (case fwd c cs x of None \<Rightarrow> m0 c x | Some n \<Rightarrow> obj_ref n OR GC_FORWARD)) \<and>
     (\<forall>x. x \<notin> {hbeg c ..< hend c} \<and> x \<notin> target_space c \<and> x \<notin> fst ` set (rts c) \<longrightarrow> gmem s x = m0 c x)"

text \<open>The copies; \<open>D\<close> are the slots (object and offset) that have been updated.\<close>

definition copies_ok :: "collection \<Rightarrow> nat list \<Rightarrow> (nat \<times> nat) set \<Rightarrow> gcheap \<Rightarrow> bool" where
  "copies_ok c cs D s \<longleftrightarrow> D \<subseteq> {(a, k). a \<in> set cs \<and> k \<in> fst ` set (slots c a)} \<and>
     (\<forall>a n. fwd c cs a = Some n \<longrightarrow> gmem s n = m0 c a \<and> gmem s (n + 1) = MAGIC_OBJECT \<and>
       (\<forall>k. 2 \<le> k \<and> k < kept_end (cenv c) (m0 c) a \<longrightarrow>
         gmem s (n + k) = (if (a, k) \<in> D then tr (fwd c cs) (disp c a k) (m0 c (a + k)) else m0 c (a + k))))"

definition roots_ok :: "collection \<Rightarrow> nat list \<Rightarrow> nat set \<Rightarrow> gcheap \<Rightarrow> bool" where
  "roots_ok c cs R s \<longleftrightarrow> R \<subseteq> fst ` set (rts c) \<and>
     (\<forall>(p, d) \<in> set (rts c). gmem s p = (if p \<in> R then tr (fwd c cs) d (m0 c p) else m0 c p))"

text \<open>The objects of updated slots have been copied, and what has been copied is reachable.\<close>

definition closed_ok :: "collection \<Rightarrow> nat list \<Rightarrow> (nat \<times> nat) set \<Rightarrow> nat set \<Rightarrow> bool" where
  "closed_ok c cs D R \<longleftrightarrow> distinct cs \<and> (\<forall>a \<in> set cs. reachable c a) \<and>
     (\<forall>a k ob. (a, k) \<in> D \<and> points c (disp c a k) (m0 c (a + k)) ob \<longrightarrow> ob \<in> set cs) \<and>
     (\<forall>p d ob. (p, d) \<in> set (rts c) \<and> p \<in> R \<and> points c d (m0 c p) ob \<longrightarrow> ob \<in> set cs)"

definition gc_inv :: "collection \<Rightarrow> nat list \<Rightarrow> (nat \<times> nat) set \<Rightarrow> nat set \<Rightarrow> gcheap \<Rightarrow> bool" where
  "gc_inv c cs D R s \<longleftrightarrow> spaces_ok c cs s \<and> copies_ok c cs D s \<and> roots_ok c cs R s \<and> closed_ok c cs D R"

lemma gc_invD:
  assumes "gc_inv c cs D R s"
  shows "spaces_ok c cs s" "copies_ok c cs D s" "roots_ok c cs R s" "closed_ok c cs D R" "distinct cs" "set cs \<subseteq> set (objs c)"
  using assms reachable_objs by (auto simp: gc_inv_def closed_ok_def)

lemma copies_okD:
  assumes "copies_ok c cs D s" "fwd c cs a = Some n"
  shows "gmem s n = m0 c a" "gmem s (n + 1) = MAGIC_OBJECT"
    "2 \<le> k \<Longrightarrow> k < kept_end (cenv c) (m0 c) a \<Longrightarrow>
       gmem s (n + k) = (if (a, k) \<in> D then tr (fwd c cs) (disp c a k) (m0 c (a + k)) else m0 c (a + k))"
  using assms unfolding copies_ok_def by blast+

text \<open>A slot whose object has been copied keeps its value when more objects are copied.\<close>

lemma points_start:
  assumes "gc_wf c" "points c d v ob"
  shows "obj_start (v - d) = ob" "\<not> v - d \<le> 0xfff"
  using assms obj_bounds [OF assms(1), of ob] obj_ref_large [of ob] by (auto simp: points_def)

lemma tr_extend:
  assumes wf: "gc_wf c" and ok: "slot_ok c d v" and closed: "\<And>ob. points c d v ob \<Longrightarrow> ob \<in> set cs" and ys: "set ys \<subseteq> set (objs c)"
  shows "tr (fwd c (cs @ ys)) d v = tr (fwd c cs) d v"
proof -
  consider "v = 0 \<or> v - d \<le> 0xfff" | "d = 0" "external c v" | ob where "points c d v ob"
    using ok by (auto simp: slot_ok_def)
  then show ?thesis
  proof cases
    case 2
    then have "obj_start v \<notin> set (objs c)" using laid_out_range [OF gc_wfD(1) [OF wf]] obj_bounds(5) [OF wf]
      by (fastforce simp: external_def Let_def from_space_def)
    then have "obj_start v \<notin> set ys" using ys by blast
    then have "fwd c (cs @ ys) (obj_start v) = fwd c cs (obj_start v)"
      by (cases "obj_start v \<in> set cs") (auto simp: place_append)
    then show ?thesis using 2 by (simp add: tr_def)
  next
    case 3
    then show ?thesis using closed points_start [OF wf] by (simp add: tr_def place_append)
  qed (simp add: tr_def)
qed


subsection \<open>One object more\<close>

text \<open>The shape of an object depends on its own words only.\<close>

lemma obj_cong:
  assumes ok: "obj_ok env m a" and same: "\<And>i. i < obj_size env m a \<Longrightarrow> m' (a + i) = m (a + i)"
  shows "obj_ok env m' a" "obj_size env m' a = obj_size env m a" "kept_end env m' a = kept_end env m a"
    "obj_slots env m' a = obj_slots env m a"
proof -
  note k = ok [unfolded obj_ok_def]
  have kind: "m a \<in> set heap_kinds" and mag: "m (a + 1) = MAGIC_OBJECT" using k by simp_all
  have sz: "walk_size env m a (m a) = Ok (obj_size env m a)" and n4: "4 \<le> obj_size env m a" using obj_size_kind [OF ok] by simp_all
  note sz' = sz [unfolded walk_size_def Let_def heap_kind_masks(1) [OF kind]]
  have e: "m' a = m a" "m' (a + 1) = m (a + 1)" "m' (a + 2) = m (a + 2)" "m' (a + 3) = m (a + 3)"
    using same [of 0] same [of 1] same [of 2] same [of 3] n4 by simp_all
  have e4: "m' (a + 4) = m (a + 4)" if "m a = OBJFLAGS_ARRAY"
  proof -
    have "unat (m (a + 4) + 5) = unat (m (a + 4)) + 5" using k that by (simp add: unat_word_ariths)
    then have "5 \<le> obj_size env m a" using sz' that mag
      by (auto simp: gc_objSize2_def assert_object_def OBJSIZE_ARRAY_def objflags gc_masks)
    then show ?thesis using same [of 4] by simp
  qed
  have e5: "m' (a + 5) = m (a + 5)" if "m a = OBJFLAGS_MEMORY"
    using same [of 5] sz' that by (simp add: fixed_size_def objflags objsizes)
  have e15: "m' (a + 15) = m (a + 15)" if "m a = OBJFLAGS_SERVICE"
    using same [of 15] sz' that by (simp add: fixed_size_def objflags objsizes)
  have t: "m' (a + i) = m (a + i)" if "m a = OBJFLAGS_CPUSTATE" "i < 73" for i
    using same [of i] sz' that by (simp add: fixed_size_def objflags objsizes)
  show "obj_ok env m' a"
    unfolding obj_ok_def tcb_quiet_def using k e e4 e5 e15 t unfolding tcb_quiet_def by auto
  show "kept_end env m' a = kept_end env m a" using e e4 by (simp add: kept_end_def Let_def)
  have "object_size env m' a = object_size env m a"
    using e by (simp add: object_size_def class_of_def check_class_def has_class_def)
  moreover have "gc_objSize2 env m' a (m a) = gc_objSize2 env m a (m a)" if "m a = OBJFLAGS_ARRAY"
    using e e4 that by (simp add: gc_objSize2_def assert_object_def objflags gc_masks)
  ultimately have "walk_size env m' a (m' a) = walk_size env m a (m a)"
    unfolding walk_size_def Let_def e(1) heap_kind_masks(1) [OF kind] by simp
  then show "obj_size env m' a = obj_size env m a" by (simp add: obj_size_def)
  show "obj_slots env m' a = obj_slots env m a" using e e4 t by (simp add: obj_slots_def Let_def)
qed

definition same_rest :: "gcheap \<Rightarrow> gcheap \<Rightarrow> bool" where
  "same_rest s s' \<longleftrightarrow> finalized s' = finalized s \<and> heapBorder s' = heapBorder s \<and> heapBorder2 s' = heapBorder2 s"

lemma same_rest_refl [simp]: "same_rest s s"
  by (simp add: same_rest_def)

lemma same_rest_trans [trans]: "same_rest s t \<Longrightarrow> same_rest t u \<Longrightarrow> same_rest s u"
  by (simp add: same_rest_def)

text \<open>The words of an object that has not been copied.\<close>

lemma uncopied_words:
  assumes wf: "gc_wf c" and inv: "spaces_ok c cs s" "set cs \<subseteq> set (objs c)" and ob: "ob \<in> set (objs c)" "ob \<notin> set cs" and i: "i < osize c ob"
  shows "gmem s (ob + i) = m0 c (ob + i)"
proof -
  have "ob + i \<notin> set cs"
  proof (cases "i = 0")
    case False
    have "ob + i \<notin> set (objs c)"
      using laid_out_apart [OF gc_wfD(1) [OF wf] ob(1), of "ob + i"] False i by auto
    then show ?thesis using inv(2) by blast
  qed (use ob in simp)
  then have "fwd c cs (ob + i) = None" by simp
  moreover have "ob + i \<in> {hbeg c ..< hend c}" using obj_bounds [OF wf ob(1)] i by auto
  ultimately show ?thesis using inv(1) unfolding spaces_ok_def by simp
qed

lemma spaces_okD:
  assumes "spaces_ok c cs s"
  shows "heap s = hbeg c" "heapTop s = hend c" "heap2 s = base c" "heapTop2 s = base c + sum_list (map (osize c) cs)"
    "base c + (hend c - hbeg c) \<le> heapBorder2 s"
    "x \<in> {hbeg c ..< hend c} \<Longrightarrow> gmem s x = (case fwd c cs x of None \<Rightarrow> m0 c x | Some n \<Rightarrow> obj_ref n OR GC_FORWARD)"
    "x \<notin> {hbeg c ..< hend c} \<Longrightarrow> x \<notin> target_space c \<Longrightarrow> x \<notin> fst ` set (rts c) \<Longrightarrow> gmem s x = m0 c x"
  using assms unfolding spaces_ok_def by blast+

text \<open>The state after the copy of one more object \<open>ob\<close> to \<open>dst\<close>, the end of the second semispace.\<close>

definition copied_more :: "collection \<Rightarrow> nat list \<Rightarrow> nat \<Rightarrow> gcheap \<Rightarrow> gcheap \<Rightarrow> bool" where
  "copied_more c cs ob s s' \<longleftrightarrow> (let dst = heapTop2 s; n = osize c ob in
     same_rest s s' \<and> heap s' = heap s \<and> heapTop s' = heapTop s \<and> heap2 s' = heap2 s \<and> heapTop2 s' = dst + n \<and>
     gmem s' ob = obj_ref dst OR GC_FORWARD \<and> gmem s' dst = m0 c ob \<and> gmem s' (dst + 1) = MAGIC_OBJECT \<and>
     (\<forall>k. 2 \<le> k \<and> k < kept_end (cenv c) (m0 c) ob \<longrightarrow> gmem s' (dst + k) = m0 c (ob + k)) \<and>
     (\<forall>x. x \<noteq> ob \<and> (x < dst \<or> dst + n + 3 \<le> x) \<longrightarrow> gmem s' x = gmem s x))"

lemma more_in_target:
  assumes "gc_wf c" "gc_inv c cs D R s" "ob \<in> set (objs c)" "ob \<notin> set cs"
  shows "heapTop2 s + osize c ob \<le> base c + (hend c - hbeg c)" "{heapTop2 s ..< heapTop2 s + osize c ob + 3} \<subseteq> target_space c"
proof -
  note D = gc_invD [OF assms(2)]
  have "sum_list (map (osize c) (cs @ [ob])) \<le> hend c - hbeg c"
    using target_sum [OF assms(1), of "cs @ [ob]"] D(5,6) assms(3,4) by auto
  then show "heapTop2 s + osize c ob \<le> base c + (hend c - hbeg c)" using spaces_okD(4) [OF D(1)] by simp
  then show "{heapTop2 s ..< heapTop2 s + osize c ob + 3} \<subseteq> target_space c"
    using spaces_okD(4) [OF D(1)] by (auto simp: target_space_def)
qed

lemma move_fresh:
  assumes wf: "gc_wf c" and inv: "gc_inv c cs D R s" and ob: "ob \<in> set (objs c)" "ob \<notin> set cs"
  shows "\<exists>s'. gc_move_value (cenv c) (obj_ref ob) s = Ok (obj_ref (heapTop2 s), s') \<and> copied_more c cs ob s s'"
proof -
  note D = gc_invD [OF inv] and B = obj_bounds [OF wf ob(1)]
  note S = spaces_okD [OF D(1)]
  let ?e = "cenv c" and ?dst = "heapTop2 s" and ?n = "osize c ob"
  have words: "gmem s (ob + i) = m0 c (ob + i)" if "i < ?n" for i by (rule uncopied_words [OF wf D(1,6) ob that])
  note ok = gc_wfD(7) [OF wf ob(1)]
  note C = obj_cong [OF ok, of "gmem s", OF words]
  have fl: "gmem s ob = m0 c ob" using words [of 0] B by simp
  have kind: "m0 c ob \<in> set heap_kinds" using ok by (simp add: obj_ok_def)
  have t: "?dst + ?n \<le> base c + (hend c - hbeg c)" by (rule more_in_target [OF wf inv ob])
  have sep: "ob + ?n \<le> ?dst \<or> ?dst + (?n + 3) \<le> ob"
  proof (rule ccontr)
    assume "\<not> ?thesis"
    then have "max ob ?dst \<in> {hbeg c ..< hend c}" "max ob ?dst \<in> {?dst ..< ?dst + ?n + 3}" using B by auto
    moreover from this(2) have "max ob ?dst \<in> target_space c" using more_in_target(2) [OF wf inv ob] by (rule subsetD [rotated])
    ultimately show False using gc_wfD(5) [OF wf] disjoint_iff by metis
  qed
  have top2: "?dst \<le> heapBorder2 s" using t S(5) by linarith
  have inh: "gc_new_isInHeap ob s" using S(1,2) B by (simp add: gc_new_isInHeap_def)
  obtain m' where m': "move_by_kind ?e (gmem s ob) ob s = Ok (Some (?dst, s\<lparr>gmem := m', heapTop2 := ?dst + ?n\<rparr>))"
    "is_copy (gmem s) m' ob ?dst (gmem s ob) (kept_end ?e (gmem s) ob) (?n + 3)"
    using move_by_kind_ok [of ?e s ob ?n] C(1,2) top2 inh sep unfolding movable_def by auto
  let ?s' = "gput ob (obj_ref ?dst OR GC_FORWARD) (s\<lparr>gmem := m', heapTop2 := ?dst + ?n\<rparr>)"
  have mv: "gc_move_value ?e (obj_ref ob) s = Ok (obj_ref ?dst, ?s')"
    using obj_ref_large [OF B(3,4)] heap_kind_masks(1,2) [OF kind] m'(1) B(4) forward_word(3) [of ?dst]
    by (simp add: gc_move_value_def Let_def fl)
  have "m' ?dst = m0 c ob" "m' (?dst + 1) = MAGIC_OBJECT" "\<And>x. x < ?dst \<or> ?dst + ?n + 3 \<le> x \<Longrightarrow> m' x = gmem s x"
    using m'(2) fl unfolding is_copy_def by (auto simp: add.assoc)
  moreover have "m' (?dst + k) = m0 c (ob + k)" if "2 \<le> k" "k < kept_end ?e (m0 c) ob" for k
    using m'(2) C(3) words [of k] B(6) that unfolding is_copy_def by simp
  moreover have ne: "?dst + k \<noteq> ob" if "k < ?n" for k using sep that by linarith
  ultimately have "copied_more c cs ob s ?s'"
    using B(5,6) less_le_trans [OF _ B(6)] ne ne [of 0] ne [of 1] unfolding copied_more_def Let_def by (simp add: gput_def same_rest_def)
  with mv show ?thesis by blast
qed


text \<open>The invariant after that copy, one part after the other.\<close>

lemma copied_moreD:
  assumes "copied_more c cs ob s s'"
  shows "same_rest s s'" "heap s' = heap s" "heapTop s' = heapTop s" "heap2 s' = heap2 s" "heapTop2 s' = heapTop2 s + osize c ob"
    "gmem s' ob = obj_ref (heapTop2 s) OR GC_FORWARD" "gmem s' (heapTop2 s) = m0 c ob" "gmem s' (heapTop2 s + 1) = MAGIC_OBJECT"
    "2 \<le> k \<Longrightarrow> k < kept_end (cenv c) (m0 c) ob \<Longrightarrow> gmem s' (heapTop2 s + k) = m0 c (ob + k)"
    "x \<noteq> ob \<Longrightarrow> x < heapTop2 s \<or> heapTop2 s + osize c ob + 3 \<le> x \<Longrightarrow> gmem s' x = gmem s x"
  using assms unfolding copied_more_def Let_def by blast+

lemma outside_target:
  assumes "gc_wf c" "gc_inv c cs D R s" "ob \<in> set (objs c)" "ob \<notin> set cs" "copied_more c cs ob s s'" "x \<notin> target_space c" "x \<noteq> ob"
  shows "gmem s' x = gmem s x"
proof -
  have "x \<notin> {heapTop2 s ..< heapTop2 s + osize c ob + 3}" using more_in_target(2) [OF assms(1-4)] assms(6) by blast
  then show ?thesis by (intro copied_moreD(10) [OF assms(5,7)]) auto
qed

lemma more_spaces:
  assumes wf: "gc_wf c" and inv: "gc_inv c cs D R s" and ob: "ob \<in> set (objs c)" "ob \<notin> set cs" and m: "copied_more c cs ob s s'"
  shows "spaces_ok c (cs @ [ob]) s'"
proof -
  note D = gc_invD [OF inv] and M = copied_moreD [OF m] and out = outside_target [OF wf inv ob m]
  note S = spaces_okD [OF D(1)]
  have "gmem s' x = (case fwd c (cs @ [ob]) x of None \<Rightarrow> m0 c x | Some n \<Rightarrow> obj_ref n OR GC_FORWARD)"
    if x: "x \<in> {hbeg c ..< hend c}" for x
  proof (cases "x = ob")
    case True
    then show ?thesis using M(6) S(4) ob(2) by (simp add: place_last)
  next
    case False
    have "x \<notin> target_space c" using x gc_wfD(5) [OF wf] disjoint_iff by metis
    moreover have "fwd c (cs @ [ob]) x = fwd c cs x" using False by (cases "x \<in> set cs") (simp_all add: place_append)
    ultimately show ?thesis using S(6) [OF x] out False by simp
  qed
  moreover have "gmem s' x = m0 c x" if "x \<notin> {hbeg c ..< hend c}" "x \<notin> target_space c" "x \<notin> fst ` set (rts c)" for x
  proof -
    have "x \<noteq> ob" using that(1) obj_bounds [OF wf ob(1)] by auto
    then show ?thesis using S(7) [OF that] out that(2) by simp
  qed
  ultimately show ?thesis using M(1-5) S(1-5) unfolding spaces_ok_def same_rest_def by simp
qed

text \<open>The values of updated slots stay right.\<close>

lemma slot_value_more:
  assumes wf: "gc_wf c" and inv: "gc_inv c cs D R s" and ak: "(a, k) \<in> D" and ob: "ob \<in> set (objs c)"
  shows "tr (fwd c (cs @ [ob])) (disp c a k) (m0 c (a + k)) = tr (fwd c cs) (disp c a k) (m0 c (a + k))"
proof (rule tr_extend [OF wf])
  note D = gc_invD [OF inv]
  have a: "a \<in> set cs" "k \<in> fst ` set (slots c a)" using D(2) ak by (auto simp: copies_ok_def)
  then obtain d where d: "(k, d) \<in> set (slots c a)" by auto
  then show "slot_ok c (disp c a k) (m0 c (a + k))" using gc_wfD(8) [OF wf _ d] a(1) D(6) by (auto simp: disp_eq)
  show "ob' \<in> set cs" if "points c (disp c a k) (m0 c (a + k)) ob'" for ob'
    using D(4) ak that unfolding closed_ok_def by blast
qed (use ob in simp)

lemma more_copies:
  assumes wf: "gc_wf c" and inv: "gc_inv c cs D R s" and ob: "ob \<in> set (objs c)" "ob \<notin> set cs" and m: "copied_more c cs ob s s'"
  shows "copies_ok c (cs @ [ob]) D s'"
proof -
  note D = gc_invD [OF inv] and M = copied_moreD [OF m]
  note S = spaces_okD [OF D(1)]
  have "gmem s' n = m0 c a \<and> gmem s' (n + 1) = MAGIC_OBJECT \<and> (\<forall>k. 2 \<le> k \<and> k < kept_end (cenv c) (m0 c) a \<longrightarrow>
         gmem s' (n + k) = (if (a, k) \<in> D then tr (fwd c (cs @ [ob])) (disp c a k) (m0 c (a + k)) else m0 c (a + k)))"
    if n: "fwd c (cs @ [ob]) a = Some n" for a n
  proof (cases "a = ob")
    case True
    then have "n = heapTop2 s" using n S(4) ob(2) by (simp add: place_last)
    moreover have "(a, k) \<notin> D" for k using D(2) True ob(2) by (auto simp: copies_ok_def)
    ultimately show ?thesis using M(7-9) True by simp
  next
    case False
    have a: "a \<in> set cs" using n False place_None [of "osize c" "base c" "cs @ [ob]" a] by (auto simp: place_None)
    then have n': "fwd c cs a = Some n" using n by (simp add: place_append)
    have ao: "a \<in> set (objs c)" using a D(6) by blast
    have nb: "n + osize c a \<le> heapTop2 s" using place_range [OF n'] S(4) by simp
    have same: "gmem s' (n + k) = gmem s (n + k)" if "k < osize c a" for k
    proof (rule M(10))
      show "n + k < heapTop2 s \<or> heapTop2 s + osize c ob + 3 \<le> n + k" using nb that by linarith
      have "n + k \<in> target_space c" using place_range [OF n'] target_sum [OF wf D(5,6)] that by (auto simp: target_space_def)
      then show "n + k \<noteq> ob" using gc_wfD(5) [OF wf] obj_bounds [OF wf ob(1)] by fastforce
    qed
    note C = copies_okD [OF D(2) n'] and B = obj_bounds [OF wf ao]
    show ?thesis using same [of 0] same [of 1] same C B(5) less_le_trans [OF _ B(6)] slot_value_more [OF wf inv _ ob(1)]
      by (auto split: if_splits)
  qed
  moreover have "D \<subseteq> {(a, k). a \<in> set (cs @ [ob]) \<and> k \<in> fst ` set (slots c a)}" using D(2) unfolding copies_ok_def by auto
  ultimately show ?thesis unfolding copies_ok_def by blast
qed

lemma more_roots:
  assumes wf: "gc_wf c" and inv: "gc_inv c cs D R s" and ob: "ob \<in> set (objs c)" "ob \<notin> set cs" and m: "copied_more c cs ob s s'"
  shows "roots_ok c (cs @ [ob]) R s'"
proof -
  note D = gc_invD [OF inv]
  have "gmem s' p = (if p \<in> R then tr (fwd c (cs @ [ob])) d (m0 c p) else m0 c p)" if p: "(p, d) \<in> set (rts c)" for p d
  proof -
    note r = gc_wfD(10) [OF wf p]
    have "p \<noteq> ob" using r obj_bounds [OF wf ob(1)] by auto
    then have "gmem s' p = gmem s p" using outside_target [OF wf inv ob m] r by blast
    moreover have "gmem s p = (if p \<in> R then tr (fwd c cs) d (m0 c p) else m0 c p)" using D(3) p unfolding roots_ok_def by blast
    moreover have "tr (fwd c (cs @ [ob])) d (m0 c p) = tr (fwd c cs) d (m0 c p)" if "p \<in> R"
      by (rule tr_extend [OF wf]) (use r D(4) p that ob in \<open>auto simp: closed_ok_def\<close>)
    ultimately show ?thesis by simp
  qed
  then show ?thesis using D(3) unfolding roots_ok_def by blast
qed

lemma copied_more_inv:
  assumes wf: "gc_wf c" and inv: "gc_inv c cs D R s" and ob: "reachable c ob" "ob \<notin> set cs" and m: "copied_more c cs ob s s'"
  shows "gc_inv c (cs @ [ob]) D R s'"
proof -
  note obj = reachable_objs [OF ob(1)]
  have "closed_ok c (cs @ [ob]) D R" using gc_invD(4) [OF inv] ob unfolding closed_ok_def by auto
  then show ?thesis
    using more_spaces [OF wf inv obj ob(2) m] more_copies [OF wf inv obj ob(2) m] more_roots [OF wf inv obj ob(2) m]
    by (simp add: gc_inv_def)
qed

text \<open>Moving a reference to an object of the heap.\<close>

lemma move_object:
  assumes wf: "gc_wf c" and inv: "gc_inv c cs D R s" and ob: "reachable c ob"
  shows "\<exists>cs' s' n. gc_move_value (cenv c) (obj_ref ob) s = Ok (obj_ref n, s') \<and> gc_inv c cs' D R s' \<and> fwd c cs' ob = Some n \<and>
    (\<exists>ys. cs' = cs @ ys) \<and> same_rest s s'"
proof (cases "ob \<in> set cs")
  case True
  note obj = reachable_objs [OF ob] and D = gc_invD [OF inv]
  note B = obj_bounds [OF wf obj]
  obtain n where n: "fwd c cs ob = Some n" using place_Some [OF True] by blast
  have "ob \<in> {hbeg c ..< hend c}" using B by auto
  then have "gmem s ob = obj_ref n OR GC_FORWARD" using spaces_okD(6) [OF D(1)] n by simp
  then have "gc_move_value (cenv c) (obj_ref ob) s = Ok (obj_ref n, s)"
    using obj_ref_large [OF B(3,4)] B(4) forward_word [of n] by (simp add: gc_move_value_def Let_def)
  then show ?thesis using inv n by force
next
  case False
  obtain s' where s': "gc_move_value (cenv c) (obj_ref ob) s = Ok (obj_ref (heapTop2 s), s')" "copied_more c cs ob s s'"
    using move_fresh [OF wf inv reachable_objs [OF ob] False] by blast
  have "fwd c (cs @ [ob]) ob = Some (heapTop2 s)" using spaces_okD(4) [OF gc_invD(1) [OF inv]] False by (simp add: place_last)
  then show ?thesis using s' copied_more_inv [OF wf inv ob False s'(2)] copied_moreD(1) [OF s'(2)] by blast
qed

end
