(* ===== verification/Gc_Scan.thy ===== *)
theory Gc_Scan
  imports Gc_Copy
begin

section \<open>The references of the copies\<close>

text \<open>
  The second half of a collection: references are replaced one slot after the other, first those of the roots, then
  those of the copies in the order of the second semispace, until the walk has caught up with the copies it makes.  The
  walk ends because an object is copied at most once.
\<close>

subsection \<open>Updating one slot\<close>

text \<open>A slot with displacement 0 is moved as a reference, one with displacement 4 as a thread pointer.\<close>

definition move_slot :: "gc_env \<Rightarrow> nat \<times> u4 \<Rightarrow> gcheap \<Rightarrow> gcheap res" where
  "move_slot env x s = (if snd x = 0 then gc_common_move_reference env (fst x) s else MOVETCB env (fst x) s)"

fun move_slots :: "gc_env \<Rightarrow> (nat \<times> u4) list \<Rightarrow> gcheap \<Rightarrow> gcheap res" where
  "move_slots env [] s = Ok s"
| "move_slots env (x # xs) s = rbind (move_slot env x s) (move_slots env xs)"

lemma move_slots_references: "move_references env ps s = move_slots env (map (\<lambda>p. (p, 0)) ps) s"
proof (induction ps arbitrary: s)
  case (Cons p ps)
  then have "move_references env ps = move_slots env (map (\<lambda>p. (p, 0)) ps)" by blast
  then show ?case by (simp add: move_slot_def)
qed simp

lemma gput_same [simp]: "gput p (gmem s p) s = s"
  by (simp add: gput_def)

lemma gput_simps [simp]:
  "gmem (gput p v s) = (gmem s)(p := v)" "heap (gput p v s) = heap s" "heapTop (gput p v s) = heapTop s"
  "heap2 (gput p v s) = heap2 s" "heapTop2 (gput p v s) = heapTop2 s" "heapBorder2 (gput p v s) = heapBorder2 s"
  "same_rest (gput p v s) s' \<longleftrightarrow> same_rest s s'" "same_rest s (gput p v s') \<longleftrightarrow> same_rest s s'"
  by (auto simp: gput_def same_rest_def)

text \<open>The result \<open>r\<close> of an operation that starts with the copies \<open>cs\<close>: it succeeds, the invariant holds again and objects have only been added.\<close>

definition goes :: "collection \<Rightarrow> nat list \<Rightarrow> gcheap \<Rightarrow> (nat \<times> nat) set \<Rightarrow> nat set \<Rightarrow> gcheap res \<Rightarrow> bool" where
  "goes c cs s D R r \<longleftrightarrow> (\<exists>cs' s'. r = Ok s' \<and> gc_inv c cs' D R s' \<and> (\<exists>ys. cs' = cs @ ys) \<and> same_rest s s')"

lemma goes_Ok: "gc_inv c cs D R s \<Longrightarrow> goes c cs s D R (Ok s)"
  unfolding goes_def using same_rest_refl by (metis append_Nil2)

lemma goes_rbind:
  assumes "goes c cs s D R r" and "\<And>cs' s'. gc_inv c cs' D R s' \<Longrightarrow> \<exists>ys. cs' = cs @ ys \<Longrightarrow> goes c cs' s' D' R' (f s')"
  shows "goes c cs s D' R' (rbind r f)"
proof -
  obtain cs' s' where a: "r = Ok s'" "gc_inv c cs' D R s'" "\<exists>ys. cs' = cs @ ys" "same_rest s s'" using assms(1) unfolding goes_def by blast
  then obtain cs2 s2 where b: "f s' = Ok s2" "gc_inv c cs2 D' R' s2" "\<exists>ys. cs2 = cs' @ ys" "same_rest s' s2"
    using assms(2) [OF a(2,3)] unfolding goes_def by blast
  have "\<exists>ys. cs2 = cs @ ys" using a(3) b(3) by auto
  then show ?thesis unfolding goes_def using a(1) b(1,2) same_rest_trans [OF a(4) b(4)] by auto
qed

lemma fwd_prefix: "\<exists>ys. cs' = cs @ ys \<Longrightarrow> fwd c cs a = Some n \<Longrightarrow> fwd c cs' a = Some n"
  using place_append [of a cs "osize c" "base c"] place_None [of "osize c" "base c" cs a] by auto

subsection \<open>The new value of a slot\<close>

definition slot_value :: "gc_env \<Rightarrow> u4 \<Rightarrow> u4 \<Rightarrow> gcheap \<Rightarrow> (u4 \<times> gcheap) res" where
  "slot_value env d v s = (if d = 0 then gc_move_value env v s else if v = 0 then Ok (0, s)
     else rbind (gc_move_value env (v - 4) s) (\<lambda>(t, s1). rbind (cpuState2thread t (gmem s1)) (\<lambda>t'. Ok (t', s1))))"

lemma move_slot_value: "move_slot env (p, d) s = rbind (slot_value env d (gmem s p) s) (\<lambda>(v, s1). Ok (gput p v s1))"
proof -
  have "gput p 0 s = s" if "gmem s p = 0" using gput_same [of p s] that by simp
  then show ?thesis
    by (auto simp: move_slot_def gc_common_move_reference_def MOVETCB_def slot_value_def split: rbind_split)
qed

lemma move_external:
  assumes wf: "gc_wf c" and inv: "gc_inv c cs D R s" and ext: "external c v"
  shows "gc_move_value (cenv c) v s = Ok (v, s)"
proof -
  note e = ext [unfolded external_def Let_def]
  have x: "gmem s (obj_start v) = m0 c (obj_start v)" using spaces_okD(7) [OF gc_invD(1) [OF inv]] e from_spaceD by blast
  have k: "m0 c (obj_start v) AND FLAGS_MASK \<in> {OBJFLAGS_EXTERNAL_STRING, OBJFLAGS_EXTERNAL_CPUDESC, OBJFLAGS_EXTERNAL_CLASS, OBJFLAGS_EXTERNAL_METHOD}"
    using e by blast
  then have "move_by_kind (cenv c) (gmem s (obj_start v) AND FLAGS_MASK) (obj_start v) s = Ok None"
    unfolding x by (auto simp: move_by_kind_def objflags)
  then show ?thesis using e x by (simp add: gc_move_value_def Let_def)
qed

lemma tr_points: "gc_wf c \<Longrightarrow> points c d v ob \<Longrightarrow> v \<noteq> 0 \<Longrightarrow> fwd c cs ob = Some n \<Longrightarrow> tr (fwd c cs) d v = obj_ref n + d"
  using points_start [of c d v ob] by (simp add: tr_def)

lemma fwd_bounds:
  assumes wf: "gc_wf c" and cs: "distinct cs" "set cs \<subseteq> set (objs c)" and n: "fwd c cs a = Some n"
  shows "a \<in> set cs" "n + 2 < 1073741824" "base c \<le> n" "n + osize c a \<le> base c + (hend c - hbeg c)" "n + 4 \<le> base c + (hend c - hbeg c)"
proof -
  show a: "a \<in> set cs" using n place_None [of "osize c" "base c" cs a] by auto
  have "4 \<le> osize c a" using obj_bounds(5) [OF wf] a cs(2) by blast
  then show "n + 2 < 1073741824" "base c \<le> n" "n + osize c a \<le> base c + (hend c - hbeg c)" "n + 4 \<le> base c + (hend c - hbeg c)"
    using place_range [OF n] target_sum [OF wf cs] gc_wfD(4) [OF wf] by auto
qed

lemma obj_ref_nonzero:
  assumes "n + 3 < 1073741824" "d = 0 \<or> d = 4"
  shows "obj_ref n + d \<noteq> 0"
proof -
  have "obj_ref n + 4 = obj_ref (n + 1)" by (simp add: obj_ref_def)
  then have "unat (obj_ref n + d) = 4 * (n + 2) \<or> unat (obj_ref n + d) = 4 * (n + 3)"
    using assms unat_obj_ref [of n] unat_obj_ref [of "n + 1"] by auto
  then show ?thesis by auto
qed

lemma points_nonzero:
  assumes "gc_wf c" "points c d v ob" "d = 0 \<or> d = 4"
  shows "v \<noteq> 0"
  using assms(2) obj_ref_nonzero [OF _ assms(3), of ob] obj_bounds(2,5) [OF assms(1), of ob] gc_wfD(3) [OF assms(1)] by (auto simp: points_def)

lemma slot_value_ok:
  assumes wf: "gc_wf c" and inv: "gc_inv c cs D R s" and ok: "slot_ok c d v" and d: "d = 0 \<or> d = 4"
    and re: "\<And>ob. points c d v ob \<Longrightarrow> reachable c ob"
  shows "\<exists>cs' s'. slot_value (cenv c) d v s = Ok (tr (fwd c cs') d v, s') \<and> gc_inv c cs' D R s' \<and> (\<exists>ys. cs' = cs @ ys) \<and> same_rest s s' \<and>
    (\<forall>ob. points c d v ob \<longrightarrow> ob \<in> set cs')"
proof -
  have tiny: "v = 0 \<Longrightarrow> \<not> points c d v ob" "d = 0 \<Longrightarrow> v \<le> 0xfff \<Longrightarrow> \<not> points c d v ob" for ob
    using points_nonzero [OF wf _ d, of v ob] points_start(2) [OF wf, of d v ob] by auto
  consider "v = 0" | "d = 0" "v \<noteq> 0" "v \<le> 0xfff" | "d = 0" "external c v" | ob where "v \<noteq> 0" "points c d v ob" "d = 4 \<longrightarrow> m0 c ob = OBJFLAGS_CPUSTATE"
    using ok unfolding slot_ok_def by blast
  then show ?thesis
  proof cases
    case 1
    then have "slot_value (cenv c) d v s = Ok (tr (fwd c cs) d v, s)" using d by (auto simp: slot_value_def gc_move_value_def tr_def)
    then show ?thesis using 1 inv tiny by force
  next
    case 2
    then have "slot_value (cenv c) d v s = Ok (tr (fwd c cs) d v, s)" by (simp add: slot_value_def gc_move_value_def tr_def)
    then show ?thesis using 2 inv tiny by force
  next
    case 3
    then have "obj_start v \<notin> {hbeg c ..< hend c}" using from_spaceD by (simp add: external_def Let_def)
    then have no: "obj_start v \<notin> set (objs c)" using obj_bounds(1,2,5) [OF wf, of "obj_start v"] by fastforce
    then have "obj_start v \<notin> set cs" using gc_invD(6) [OF inv] by blast
    then have "slot_value (cenv c) d v s = Ok (tr (fwd c cs) d v, s)"
      using 3 move_external [OF wf inv 3(2)] by (simp add: slot_value_def tr_def)
    moreover have "\<not> points c d v ob" for ob using no points_start(1) [OF wf, of d v ob] 3(1) by (auto simp: points_def)
    ultimately show ?thesis using inv by force
  next
    case 4
    obtain cs' s' n where m: "gc_move_value (cenv c) (obj_ref ob) s = Ok (obj_ref n, s')" "gc_inv c cs' D R s'" "fwd c cs' ob = Some n"
      "\<exists>ys. cs' = cs @ ys" "same_rest s s'" using move_object [OF wf inv re [OF 4(2)]] by blast
    note D = gc_invD [OF m(2)]
    note B = fwd_bounds [OF wf D(5,6) m(3)]
    have t: "tr (fwd c cs') d v = obj_ref n + d" using tr_points [OF wf 4(2,1) m(3)] .
    have v: "v = obj_ref ob + d" using 4(2) by (simp add: points_def)
    have "slot_value (cenv c) d v s = Ok (tr (fwd c cs') d v, s')"
    proof (cases "d = 0")
      case True
      then show ?thesis using m(1) t v by (simp add: slot_value_def)
    next
      case False
      then have d4: "d = 4" using d by simp
      have "1022 \<le> n \<or> obj_ref n \<noteq> 0" using unat_obj_ref [OF B(2)] by auto
      moreover have "obj_ref n \<noteq> 0" using unat_obj_ref [OF B(2)] by auto
      moreover have "gmem s' n = OBJFLAGS_CPUSTATE" using copies_okD(1) [OF D(2) m(3)] 4(3) d4 by simp
      moreover have "OBJFLAGS_CPUSTATE AND FLAGS_MASK = OBJFLAGS_CPUSTATE" by (simp add: objflags gc_masks)
      ultimately have "cpuState2thread (obj_ref n) (gmem s') = Ok (obj_ref n + 4)" using B(2) by (simp add: cpuState2thread_def)
      then show ?thesis using m(1) t v d4 4(1) by (simp add: slot_value_def)
    qed
    moreover have "ob' = ob" if "points c d v ob'" for ob'
      using points_start(1) [OF wf that] points_start(1) [OF wf 4(2)] by simp
    ultimately show ?thesis using m(2,4,5) B(1) by blast
  qed
qed

subsection \<open>Storing the new value\<close>

lemma copy_word_in_target:
  assumes "gc_wf c" "gc_inv c cs D R s" "fwd c cs a = Some n" "k < osize c a"
  shows "n + k \<in> target_space c" "n + k \<notin> {hbeg c ..< hend c}" "(p, d) \<in> set (rts c) \<Longrightarrow> p \<noteq> n + k"
proof -
  note D = gc_invD [OF assms(2)]
  show t: "n + k \<in> target_space c" using fwd_bounds [OF assms(1) D(5,6) assms(3)] assms(4) by (auto simp: target_space_def)
  then show "n + k \<notin> {hbeg c ..< hend c}" using gc_wfD(5) [OF assms(1)] by blast
  show "(p, d) \<in> set (rts c) \<Longrightarrow> p \<noteq> n + k" using gc_wfD(10) [OF assms(1)] t by blast
qed

lemma copy_words_apart:
  assumes "fwd c cs a = Some n" "fwd c cs a' = Some n'" "k < osize c a" "k' < osize c a'" "n + k = n' + k'"
  shows "a = a' \<and> k = k'"
  using place_apart [OF assms(1,2)] assms by (cases "a = a'") auto

lemma spaces_put:
  assumes "spaces_ok c cs s" "q \<notin> {hbeg c ..< hend c}" "q \<in> target_space c \<or> q \<in> fst ` set (rts c)"
  shows "spaces_ok c cs (gput q v s)"
  using assms unfolding spaces_ok_def gput_simps by (auto simp del: atLeastLessThan_iff)

lemma store_copies:
  assumes wf: "gc_wf c" and inv: "gc_inv c cs D R s" and n: "fwd c cs a = Some n" and k: "(k, d) \<in> set (slots c a)"
  shows "copies_ok c cs (insert (a, k) D) (gput (n + k) (tr (fwd c cs) d (m0 c (a + k))) s)" (is "copies_ok c cs _ ?s")
proof -
  note D = gc_invD [OF inv]
  note a = fwd_bounds(1) [OF wf D(5,6) n]
  have sz: "i < osize c b" if "i < kept_end (cenv c) (m0 c) b" "b \<in> set cs" for i b
    using that obj_bounds(6) [OF wf, of b] D(6) by fastforce
  note sl = slots_range [OF gc_wfD(7) [OF wf subsetD [OF D(6) a]] k]
  have k': "k < osize c a" using sz [OF sl(2) a] .
  have "gmem ?s n' = m0 c b \<and> gmem ?s (n' + 1) = MAGIC_OBJECT \<and> (\<forall>i. 2 \<le> i \<and> i < kept_end (cenv c) (m0 c) b \<longrightarrow>
      gmem ?s (n' + i) = (if (b, i) \<in> insert (a, k) D then tr (fwd c cs) (disp c b i) (m0 c (b + i)) else m0 c (b + i)))"
    if n': "fwd c cs b = Some n'" for b n'
  proof -
    note b = fwd_bounds(1) [OF wf D(5,6) n']
    note C = copies_okD [OF D(2) n']
    have ap: "n' + i = n + k \<longleftrightarrow> b = a \<and> i = k" if "i < osize c b" for i
      using copy_words_apart [OF n' n that k'] n n' by auto
    have "4 \<le> osize c b" using obj_bounds(5) [OF wf] b D(6) by blast
    then have "gmem ?s n' = m0 c b" "gmem ?s (n' + 1) = MAGIC_OBJECT" using ap [of 0] ap [of 1] sl(1) C(1,2) by auto
    moreover have "gmem ?s (n' + i) = (if (b, i) \<in> insert (a, k) D then tr (fwd c cs) (disp c b i) (m0 c (b + i)) else m0 c (b + i))"
      if i: "2 \<le> i" "i < kept_end (cenv c) (m0 c) b" for i
      using ap [OF sz [OF i(2) b]] C(3) [OF i] disp_eq [OF k] by auto
    ultimately show ?thesis by blast
  qed
  moreover have "insert (a, k) D \<subseteq> {(a, k). a \<in> set cs \<and> k \<in> fst ` set (slots c a)}"
    using D(2) a k unfolding copies_ok_def by force
  ultimately show ?thesis unfolding copies_ok_def by blast
qed

lemma store_slot:
  assumes wf: "gc_wf c" and inv: "gc_inv c cs D R s" and n: "fwd c cs a = Some n" and k: "(k, d) \<in> set (slots c a)"
    and cl: "\<forall>ob. points c d (m0 c (a + k)) ob \<longrightarrow> ob \<in> set cs"
  shows "gc_inv c cs (insert (a, k) D) R (gput (n + k) (tr (fwd c cs) d (m0 c (a + k))) s)"
proof -
  note D = gc_invD [OF inv]
  note ao = subsetD [OF D(6) fwd_bounds(1) [OF wf D(5,6) n]]
  have "k < osize c a" using slots_range(2) [OF gc_wfD(7) [OF wf ao] k] obj_bounds(6) [OF wf ao] by linarith
  note T = copy_word_in_target [OF wf inv n this]
  have "spaces_ok c cs (gput (n + k) v s)" for v by (rule spaces_put [OF D(1)]) (use T in auto)
  moreover have "roots_ok c cs R (gput (n + k) v s)" for v using D(3) T(3) unfolding roots_ok_def gput_simps by fastforce
  moreover have "closed_ok c cs (insert (a, k) D) R" using D(4) cl disp_eq [OF k] unfolding closed_ok_def by auto
  ultimately show ?thesis using store_copies [OF wf inv n k] by (simp add: gc_inv_def)
qed

lemma store_root:
  assumes wf: "gc_wf c" and inv: "gc_inv c cs D R s" and p: "(p, d) \<in> set (rts c)" and cl: "\<forall>ob. points c d (m0 c p) ob \<longrightarrow> ob \<in> set cs"
  shows "gc_inv c cs D (insert p R) (gput p (tr (fwd c cs) d (m0 c p)) s)" (is "gc_inv c cs D _ ?s")
proof -
  note D = gc_invD [OF inv] and P = gc_wfD(10) [OF wf p]
  have uniq: "d' = d" if "(p, d') \<in> set (rts c)" for d' using eq_key_imp_eq_value [OF gc_wfD(6) [OF wf] that p] .
  have "p \<in> fst ` set (rts c)" using p by force
  then have "spaces_ok c cs ?s" using spaces_put [OF D(1)] P by blast
  moreover have "copies_ok c cs D ?s"
  proof -
    have ne: "n + i \<noteq> p" if n: "fwd c cs a = Some n" and i: "i < osize c a" for a n i
      using copy_word_in_target(3) [OF wf inv n i p] by blast
    have same: "gmem ?s n = gmem s n" "gmem ?s (n + 1) = gmem s (n + 1)" "i < kept_end (cenv c) (m0 c) a \<Longrightarrow> gmem ?s (n + i) = gmem s (n + i)"
      if n: "fwd c cs a = Some n" for a n i
      using ne [OF n, of 0] ne [OF n, of 1] ne [OF n, of i] obj_bounds(5,6) [OF wf subsetD [OF D(6) fwd_bounds(1) [OF wf D(5,6) n]]] by auto
    have "gmem ?s n = m0 c a \<and> gmem ?s (n + 1) = MAGIC_OBJECT \<and> (\<forall>k. 2 \<le> k \<and> k < kept_end (cenv c) (m0 c) a \<longrightarrow>
        gmem ?s (n + k) = (if (a, k) \<in> D then tr (fwd c cs) (disp c a k) (m0 c (a + k)) else m0 c (a + k)))"
      if n: "fwd c cs a = Some n" for a n
      unfolding same(1,2) [OF n] using copies_okD [OF D(2) n] same(3) [OF n] by simp
    then show ?thesis using D(2) unfolding copies_ok_def by blast
  qed
  moreover have "roots_ok c cs (insert p R) ?s"
  proof -
    have "gmem ?s q = (if q \<in> insert p R then tr (fwd c cs) e (m0 c q) else m0 c q)" if q: "(q, e) \<in> set (rts c)" for q e
    proof (cases "q = p")
      case True
      then show ?thesis using uniq q by simp
    next
      case False
      then show ?thesis using D(3) q unfolding roots_ok_def by fastforce
    qed
    moreover have "insert p R \<subseteq> fst ` set (rts c)" using D(3) p unfolding roots_ok_def by force
    ultimately show ?thesis unfolding roots_ok_def by blast
  qed
  moreover have "closed_ok c cs D (insert p R)" using D(4) cl uniq unfolding closed_ok_def by blast
  ultimately show ?thesis by (simp add: gc_inv_def)
qed

subsection \<open>Slots, one after the other\<close>

lemma goes_slot:
  assumes wf: "gc_wf c" and inv: "gc_inv c cs D R s" and n: "fwd c cs a = Some n" and k: "(k, d) \<in> set (slots c a)" "(a, k) \<notin> D"
    and d: "d = 0 \<or> d = 4"
  shows "goes c cs s (insert (a, k) D) R (move_slot (cenv c) (n + k, d) s)"
proof -
  note I = gc_invD [OF inv]
  note a = fwd_bounds(1) [OF wf I(5,6) n]
  note ao = subsetD [OF I(6) a]
  note sl = slots_range [OF gc_wfD(7) [OF wf ao] k(1)]
  have v: "gmem s (n + k) = m0 c (a + k)" using copies_okD(3) [OF I(2) n] sl k(2) by simp
  have "reachable c a" using I(4) a by (simp add: closed_ok_def)
  then have re: "reachable c ob" if "points c d (m0 c (a + k)) ob" for ob using k(1) that by (rule reach_obj)
  obtain cs' s' where m: "slot_value (cenv c) d (m0 c (a + k)) s = Ok (tr (fwd c cs') d (m0 c (a + k)), s')" "gc_inv c cs' D R s'"
    "\<exists>ys. cs' = cs @ ys" "same_rest s s'" "\<forall>ob. points c d (m0 c (a + k)) ob \<longrightarrow> ob \<in> set cs'"
    using slot_value_ok [OF wf inv gc_wfD(8) [OF wf ao k(1)] d re] by blast
  have "gc_inv c cs' (insert (a, k) D) R (gput (n + k) (tr (fwd c cs') d (m0 c (a + k))) s')"
    by (rule store_slot [OF wf m(2) fwd_prefix [OF m(3) n] k(1) m(5)])
  then show ?thesis unfolding goes_def move_slot_value v using m by auto
qed

lemma goes_root:
  assumes wf: "gc_wf c" and inv: "gc_inv c cs D R s" and p: "(p, d) \<in> set (rts c)" "p \<notin> R"
  shows "goes c cs s D (insert p R) (move_slot (cenv c) (p, d) s)"
proof -
  note I = gc_invD [OF inv] and P = gc_wfD(10) [OF wf p(1)]
  have v: "gmem s p = m0 c p" using I(3) p unfolding roots_ok_def by fastforce
  have re: "reachable c ob" if "points c d (m0 c p) ob" for ob using p(1) that by (rule reach_root)
  obtain cs' s' where m: "slot_value (cenv c) d (m0 c p) s = Ok (tr (fwd c cs') d (m0 c p), s')" "gc_inv c cs' D R s'"
    "\<exists>ys. cs' = cs @ ys" "same_rest s s'" "\<forall>ob. points c d (m0 c p) ob \<longrightarrow> ob \<in> set cs'"
    using slot_value_ok [OF wf inv _ _ re] P by blast
  have "gc_inv c cs' D (insert p R) (gput p (tr (fwd c cs') d (m0 c p)) s')" by (rule store_root [OF wf m(2) p(1) m(5)])
  then show ?thesis unfolding goes_def move_slot_value v using m by auto
qed

definition of_slots :: "nat \<Rightarrow> (nat \<times> u4) list \<Rightarrow> (nat \<times> nat) set" where
  "of_slots a xs = (\<lambda>x. (a, fst x)) ` set xs"

lemma of_slots_simps [simp]: "of_slots a [] = {}" "of_slots a (x # xs) = insert (a, fst x) (of_slots a xs)"
  by (auto simp: of_slots_def)

lemma goes_slots:
  assumes wf: "gc_wf c"
  shows "gc_inv c cs D R s \<Longrightarrow> fwd c cs a = Some n \<Longrightarrow> set xs \<subseteq> set (slots c a) \<Longrightarrow> distinct (map fst xs) \<Longrightarrow> D \<inter> of_slots a xs = {} \<Longrightarrow>
    (\<forall>x \<in> set xs. snd x = 0 \<or> snd x = 4) \<Longrightarrow> goes c cs s (D \<union> of_slots a xs) R (move_slots (cenv c) (map (\<lambda>(k, d). (n + k, d)) xs) s)"
proof (induction xs arbitrary: cs D s)
  case Nil
  then show ?case by (simp add: goes_Ok)
next
  case (Cons x xs)
  obtain k d where x: "x = (k, d)" by fastforce
  have "goes c cs s (insert (a, k) D) R (move_slot (cenv c) (n + k, d) s)"
    by (rule goes_slot [OF wf Cons.prems(1,2)]) (use Cons.prems x in auto)
  moreover have "goes c cs' s' (D \<union> of_slots a (x # xs)) R (move_slots (cenv c) (map (\<lambda>(k, d). (n + k, d)) xs) s')"
    if "gc_inv c cs' (insert (a, k) D) R s'" "\<exists>ys. cs' = cs @ ys" for cs' s'
  proof -
    have eq: "D \<union> of_slots a (x # xs) = insert (a, k) D \<union> of_slots a xs" by (simp add: x)
    show ?thesis unfolding eq
    proof (rule Cons.IH [OF that(1) fwd_prefix [OF that(2) Cons.prems(2)]])
      show "insert (a, k) D \<inter> of_slots a xs = {}" using Cons.prems(4,5) x by (auto simp: of_slots_def)
    qed (use Cons.prems in auto)
  qed
  ultimately have "goes c cs s (D \<union> of_slots a (x # xs)) R (rbind (move_slot (cenv c) (n + k, d) s) (move_slots (cenv c) (map (\<lambda>(k, d). (n + k, d)) xs)))"
    by (rule goes_rbind)
  then show ?case by (simp add: x)
qed

lemma goes_roots:
  assumes wf: "gc_wf c"
  shows "gc_inv c cs D R s \<Longrightarrow> set xs \<subseteq> set (rts c) \<Longrightarrow> distinct (map fst xs) \<Longrightarrow> R \<inter> fst ` set xs = {} \<Longrightarrow>
    goes c cs s D (R \<union> fst ` set xs) (move_slots (cenv c) xs s)"
proof (induction xs arbitrary: cs R s)
  case Nil
  then show ?case by (simp add: goes_Ok)
next
  case (Cons x xs)
  have "goes c cs s D (insert (fst x) R) (move_slot (cenv c) x s)"
    using goes_root [OF wf Cons.prems(1), of "fst x" "snd x"] Cons.prems by simp
  moreover have "goes c cs' s' D (R \<union> fst ` set (x # xs)) (move_slots (cenv c) xs s')"
    if "gc_inv c cs' D (insert (fst x) R) s'" "\<exists>ys. cs' = cs @ ys" for cs' s'
    using Cons.IH [OF that(1)] Cons.prems by auto
  ultimately show ?case unfolding move_slots.simps by (rule goes_rbind)
qed

subsection \<open>The references in a copy\<close>

text \<open>The words of the copy of \<open>a\<close> that have not been updated.\<close>

lemma copy_word:
  assumes "gc_inv c cs D R s" "fwd c cs a = Some n" "2 \<le> k" "k < kept_end (cenv c) (m0 c) a" "(a, k) \<notin> D \<or> k \<notin> fst ` set (slots c a)"
  shows "gmem s (n + k) = m0 c (a + k)"
proof -
  note D = gc_invD [OF assms(1)]
  have "(a, k) \<notin> D" using assms(5) D(2) unfolding copies_ok_def by blast
  then show ?thesis using copies_okD(3) [OF D(2) assms(2-4)] by simp
qed

text \<open>The values of updated slots.\<close>

lemma done_word:
  assumes "gc_inv c cs D R s" "fwd c cs a = Some n" "2 \<le> k" "k < kept_end (cenv c) (m0 c) a" "(a, k) \<in> D"
  shows "gmem s (n + k) = tr (fwd c cs) (disp c a k) (m0 c (a + k))"
  using copies_okD(3) [OF gc_invD(2) [OF assms(1)] assms(2-4)] assms(5) by simp

lemma move_slot_cases: "gc_common_move_reference env p s = move_slot env (p, 0) s" "MOVETCB env p s = move_slot env (p, 4) s"
  by (simp_all add: move_slot_def)

lemma move_if_set_slot: "move_if_set env p s = move_slot env (p, 0) s"
proof -
  have "gput p 0 s = s" if "gmem s p = 0" using gput_same [of p s] that by simp
  then show ?thesis by (simp add: move_if_set_def move_slot_def gc_common_move_reference_def gc_move_value_def)
qed

text \<open>All objects but thread descriptors.\<close>

lemma slots_disp: "m a \<noteq> OBJFLAGS_CPUSTATE \<Longrightarrow> x \<in> set (obj_slots env m a) \<Longrightarrow> snd x = 0 \<or> snd x = 4"
  by (auto simp: obj_slots_def Let_def split: if_splits option.splits)

lemma walk_plain:
  assumes wf: "gc_wf c" and inv: "gc_inv c cs D R s" and n: "fwd c cs a = Some n" and new: "D \<inter> of_slots a (slots c a) = {}"
    and k: "m0 c a \<noteq> OBJFLAGS_CPUSTATE"
  shows "goes c cs s (D \<union> of_slots a (slots c a)) R (gc_new_scan_heap2 (cenv c) (gmem s n) n s)"
proof -
  note I = gc_invD [OF inv]
  note ao = subsetD [OF I(6) fwd_bounds(1) [OF wf I(5,6) n]]
  note ok = gc_wfD(7) [OF wf ao]
  have kind: "m0 c a \<in> set heap_kinds" using ok by (simp add: obj_ok_def)
  have low: "gmem s n = m0 c a" "2 < kept_end (cenv c) (m0 c) a \<Longrightarrow> gmem s (n + 2) = m0 c (a + 2)"
    using copies_okD(1) [OF I(2) n] copy_word [OF inv n, of 2] slots_range(1) [OF ok, of 2] by force+
  have all: "goes c cs s (D \<union> of_slots a (slots c a)) R (move_slots (cenv c) (map (\<lambda>(k, d). (n + k, d)) (slots c a)) s)"
    by (rule goes_slots [OF wf inv n _ _ new]) (use slots_distinct slots_disp [of "m0 c" a, OF k] in auto)
  from kind show ?thesis
  proof (cases rule: heap_kindE)
    case 1
    then obtain cl where cl: "class_at (cenv c) (m0 c (a + 2)) = Some cl" "m0 c (a + 2) \<noteq> 0" using ok by (auto simp: obj_ok_def)
    then have sl: "slots c a = map (\<lambda>i. (3 + i, 0)) (forbitmap (cl_map cl) (instanceSize cl) 0 0)" using 1 by (simp add: obj_slots_def)
    have "gmem s (n + 2) = m0 c (a + 2)" using low(2) 1 cl by (simp add: kept_end_def)
    then have "gc_new_scan_heap2 (cenv c) (gmem s n) n s = move_slots (cenv c) (map (\<lambda>(k, d). (n + k, d)) (slots c a)) s"
      using cl 1 low(1) unfolding sl by (simp add: gc_new_scan_heap2_def Let_def heap_kind_masks(1) [OF kind] gc_impl_walkContentObject_def
        move_slots_references comp_def objflags gc_masks add.assoc)
    then show ?thesis using all by simp
  next
    case 4
    have w: "gmem s (n + 3) = m0 c (a + 3)" "gmem s (n + 4) = m0 c (a + 4)"
      by (rule copy_word [OF inv n], use 4 in \<open>auto simp: obj_slots_def kept_end_def objflags split: if_splits\<close>)+
    have "gc_new_scan_heap2 (cenv c) (gmem s n) n s = move_slots (cenv c) (map (\<lambda>(k, d). (n + k, d)) (slots c a)) s"
      using 4 low(1) w by (simp add: gc_new_scan_heap2_def Let_def gc_impl_walkContentArray_def obj_slots_def
        move_slots_references comp_def objflags gc_masks add.assoc)
    then show ?thesis using all by simp
  next
    case 5
    have "gc_new_scan_heap2 (cenv c) (gmem s n) n s = move_slots (cenv c) (map (\<lambda>(k, d). (n + k, d)) (slots c a)) s"
      using 5 low(1) by (simp add: gc_new_scan_heap2_def Let_def gc_impl_walkContentService_def obj_slots_def move_slot_cases objflags gc_masks
        split: rbind_split)
    then show ?thesis using all by simp
  next
    case 6
    have "gc_new_scan_heap2 (cenv c) (gmem s n) n s = move_slots (cenv c) (map (\<lambda>(k, d). (n + k, d)) (slots c a)) s"
      using 6 low(1) by (simp add: gc_new_scan_heap2_def Let_def gc_impl_walkContentAtomVar_def obj_slots_def move_slot_cases objflags gc_masks
        split: rbind_split)
    then show ?thesis using all by simp
  qed (use all low(1) k in \<open>simp_all add: gc_new_scan_heap2_def obj_slots_def objflags gc_masks\<close>)
qed

text \<open>A thread descriptor.\<close>

lemma tcb_shape:
  assumes "gc_wf c" "a \<in> set (objs c)" "m0 c a = OBJFLAGS_CPUSTATE"
  shows "m0 c (a + 3) = obj_ref a + 32" "m0 c (a + 32) = 0" "m0 c (a + 33) = 0" "m0 c (a + 67) = 0"
    "\<not> (m0 c (a + 6) = STATE_WAIT_FOR_RCV \<and> domain_ids (cenv c) (m0 c (a + 29)) = m0 c (a + 30))"
    "kept_end (cenv c) (m0 c) a = 71"
    "slots c a = [(3, 32), (36, 4), (37, 4), (8, 4), (60, 0), (61, 0)] @ (if m0 c (a + 63) AND 1 \<noteq> 0 then [(62, 0)] else []) @ [(28, 0)]"
proof -
  have "tcb_quiet (cenv c) (m0 c) a" using gc_wfD(7) [OF assms(1,2)] assms(3) by (simp add: obj_ok_def)
  then show "m0 c (a + 3) = obj_ref a + 32" "m0 c (a + 32) = 0" "m0 c (a + 33) = 0" "m0 c (a + 67) = 0"
    "\<not> (m0 c (a + 6) = STATE_WAIT_FOR_RCV \<and> domain_ids (cenv c) (m0 c (a + 29)) = m0 c (a + 30))" unfolding tcb_quiet_def by blast+
  show "kept_end (cenv c) (m0 c) a = 71" using assms(3) by (simp add: kept_end_def objflags)
  show "slots c a = [(3, 32), (36, 4), (37, 4), (8, 4), (60, 0), (61, 0)] @ (if m0 c (a + 63) AND 1 \<noteq> 0 then [(62, 0)] else []) @ [(28, 0)]"
    using assms(3) by (simp add: obj_slots_def objflags)
qed

lemma context_nonzero:
  assumes wf: "gc_wf c" and a: "a \<in> set (objs c)" and k: "m0 c a = OBJFLAGS_CPUSTATE"
  shows "m0 c (a + 3) \<noteq> 0"
proof -
  note T = tcb_shape [OF wf a k]
  have "a + 10 < 1073741824" using obj_bounds(2,6) [OF wf a] T(6) gc_wfD(3) [OF wf] by simp
  then have "unat (obj_ref (a + 8)) \<noteq> 0" using unat_obj_ref [of "a + 8"] by simp
  moreover have "m0 c (a + 3) = obj_ref (a + 8)" using T(1) by (simp add: obj_ref_def)
  ultimately show ?thesis by force
qed

lemma context_pointer:
  assumes wf: "gc_wf c" and inv: "gc_inv c cs D R s" and n: "fwd c cs a = Some n" and k: "m0 c a = OBJFLAGS_CPUSTATE"
  shows "tr (fwd c cs) 32 (m0 c (a + 3)) = of_nat (4 * (n + 3 + 7))"
    "gc_inv c cs (insert (a, 3) D) R (gput (n + 3) (of_nat (4 * (n + 3 + 7))) s)"
    "(a, 3) \<in> D \<Longrightarrow> gmem s (n + 3) = of_nat (4 * (n + 3 + 7))"
proof -
  note I = gc_invD [OF inv]
  note a = fwd_bounds(1) [OF wf I(5,6) n]
  note ao = subsetD [OF I(6) a]
  note T = tcb_shape [OF wf ao k]
  have p: "points c 32 (m0 c (a + 3)) a" using T(1) ao by (simp add: points_def)
  have eq: "obj_ref n + 32 = of_nat (4 * (n + 3 + 7))" by (simp add: obj_ref_def)
  have "m0 c (a + 3) \<noteq> 0" by (rule context_nonzero [OF wf ao k])
  then show tr: "tr (fwd c cs) 32 (m0 c (a + 3)) = of_nat (4 * (n + 3 + 7))" using tr_points [OF wf p _ n] eq by simp
  have sl: "(3, 32) \<in> set (slots c a)" unfolding T(7) by simp
  have "ob = a" if "points c 32 (m0 c (a + 3)) ob" for ob using points_start(1) [OF wf that] points_start(1) [OF wf p] by simp
  then have "\<forall>ob. points c 32 (m0 c (a + 3)) ob \<longrightarrow> ob \<in> set cs" using a by blast
  from store_slot [OF wf inv n sl this]
  show "gc_inv c cs (insert (a, 3) D) R (gput (n + 3) (of_nat (4 * (n + 3 + 7))) s)" unfolding tr .
  show "(a, 3) \<in> D \<Longrightarrow> gmem s (n + 3) = of_nat (4 * (n + 3 + 7))" using done_word [OF inv n, of 3] T(6) disp_eq [OF sl] tr by simp
qed

lemma goes_gput [simp]: "goes c cs (gput p v s) D R r \<longleftrightarrow> goes c cs s D R r"
  by (simp add: goes_def)

lemma tcb_word:
  assumes wf: "gc_wf c" and inv: "gc_inv c cs D R s" and n: "fwd c cs a = Some n" and k: "m0 c a = OBJFLAGS_CPUSTATE"
    and i: "2 \<le> i" "i < 71" "i \<notin> {3, 8, 28, 36, 37, 60, 61, 62}"
  shows "gmem s (n + i) = m0 c (a + i)"
proof -
  note ao = subsetD [OF gc_invD(6) [OF inv] fwd_bounds(1) [OF wf gc_invD(5,6) [OF inv] n]]
  note T = tcb_shape [OF wf ao k]
  have "i \<notin> fst ` set (slots c a)" unfolding T(7) using i(3) by auto
  then show ?thesis using copy_word [OF inv n i(1)] i(2) T(6) by simp
qed

lemma walk_links:
  assumes wf: "gc_wf c" and inv: "gc_inv c cs D R s" and n: "fwd c cs a = Some n" and k: "m0 c a = OBJFLAGS_CPUSTATE"
    and new: "D \<inter> of_slots a (slots c a) = {}"
  shows "goes c cs s (insert (a, 8) (insert (a, 37) (insert (a, 36) (insert (a, 3) D)))) R (walk_tcb_links (cenv c) (n + 3) s)"
    (is "goes c cs s ?D R _")
proof -
  note ao = subsetD [OF gc_invD(6) [OF inv] fwd_bounds(1) [OF wf gc_invD(5,6) [OF inv] n]]
  note T = tcb_shape [OF wf ao k] and fw = fwd_prefix [OF _ n]
  have sl: "(36, 4) \<in> set (slots c a)" "(37, 4) \<in> set (slots c a)" "(8, 4) \<in> set (slots c a)" unfolding T(7) by simp_all
  have nd: "(a, 36) \<notin> D" "(a, 37) \<notin> D" "(a, 8) \<notin> D" using new unfolding T(7) by (auto simp: of_slots_def)
  have zero: "gmem s' (n + 32) = 0" "gmem s' (n + 33) = 0" if "gc_inv c cs' ?D R s'" "\<exists>ys. cs' = cs @ ys" for cs' s'
    using tcb_word [OF wf that(1) fw [OF that(2)] k, of 32] tcb_word [OF wf that(1) fw [OF that(2)] k, of 33] T(2,3) by simp_all
  have "goes c cs s ?D R (rbind (move_slot (cenv c) (n + 36, 4) (gput (n + 3) (of_nat (4 * (n + 3 + 7))) s)) (\<lambda>s1.
     rbind (move_slot (cenv c) (n + 37, 4) s1) (\<lambda>s2.
     rbind (move_slot (cenv c) (n + 8, 4) s2) (\<lambda>s3.
     rbind (if gmem s3 (n + 32) \<noteq> 0 then MOVETCB (cenv c) (waddr (gmem s3 (n + 32)) + 30) s3 else Ok s3) (\<lambda>s4.
       if gmem s4 (n + 33) \<noteq> 0 then MOVETCB (cenv c) (waddr (gmem s4 (n + 33)) + 29) s4 else Ok s4)))))"
  proof (rule goes_rbind [where D = "insert (a, 36) (insert (a, 3) D)" and R = R], goal_cases)
    case 1
    show ?case using goes_slot [OF wf context_pointer(2) [OF wf inv n k] n sl(1)] nd by simp
  next
    case (2 cs1 s1)
    show ?case
    proof (rule goes_rbind [where D = "insert (a, 37) (insert (a, 36) (insert (a, 3) D))" and R = R], goal_cases)
      case 1
      show ?case using goes_slot [OF wf 2(1) fw [OF 2(2)] sl(2)] nd by simp
    next
      case (2 cs2 s2)
      have p2: "\<exists>ys. cs2 = cs @ ys" using 2(2) \<open>\<exists>ys. cs1 = cs @ ys\<close> by auto
      show ?case
      proof (rule goes_rbind [where D = ?D and R = R], goal_cases)
        case 1
        show ?case using goes_slot [OF wf 2(1) fw [OF p2] sl(3)] nd by simp
      next
        case (2 cs3 s3)
        have "\<exists>ys. cs3 = cs @ ys" using 2(2) p2 by auto
        then show ?case using zero [OF 2(1)] goes_Ok [OF 2(1)] by simp
      qed
    qed
  qed
  then show ?thesis by (simp add: walk_tcb_links_def move_slot_cases ac_simps cong: if_cong)
qed

text \<open>The service that the thread works for is still at its old place.\<close>

lemma service_refcount:
  assumes wf: "gc_wf c" and inv: "gc_inv c cs D R s" and p: "points c 0 v ob" "m0 c ob = OBJFLAGS_SERVICE"
  shows "gmem s (waddr v + 13) > 1"
proof -
  note I = gc_invD [OF inv]
  have ob: "ob \<in> set (objs c)" "v = obj_ref ob" using p by (auto simp: points_def)
  note B = obj_bounds [OF wf ob(1)] and ok = gc_wfD(7) [OF wf ob(1)]
  have sz: "18 \<le> osize c ob" using B(6) p(2) by (simp add: kept_end_def objflags)
  have "ob + 15 \<notin> set (objs c)" using laid_out_apart [OF gc_wfD(1) [OF wf] ob(1), of "ob + 15"] sz by auto
  then have "ob + 15 \<notin> set cs" using I(6) by blast
  moreover have "ob + 15 \<in> {hbeg c ..< hend c}" using B sz by auto
  ultimately have "gmem s (ob + 15) = m0 c (ob + 15)" using spaces_okD(6) [OF I(1)] by simp
  moreover have "waddr v + 13 = ob + 15" using ob(2) B(4) by simp
  ultimately show ?thesis using ok p(2) unfolding obj_ok_def by (simp add: ac_simps)
qed

lemma walk_dep:
  assumes wf: "gc_wf c" and inv: "gc_inv c cs D R s" and n: "fwd c cs a = Some n" and k: "m0 c a = OBJFLAGS_CPUSTATE" and new: "(a, 28) \<notin> D"
  shows "goes c cs s (insert (a, 28) D) R (if gmem s (n + 28) \<noteq> 0 then
         (if gmem s (waddr (gmem s (n + 28)) + 13) > 1 then gc_common_move_reference (cenv c) (n + 28) s
          else Ok (gput (n + 28) 0 s)) else Ok s)"
proof -
  note ao = subsetD [OF gc_invD(6) [OF inv] fwd_bounds(1) [OF wf gc_invD(5,6) [OF inv] n]]
  note T = tcb_shape [OF wf ao k]
  have w: "gmem s (n + 28) = m0 c (a + 28)" using copy_word [OF inv n, of 28] new T(6) by simp
  have "(28, 0) \<in> set (slots c a)" unfolding T(7) by simp
  note g = goes_slot [OF wf inv n this new]
  show ?thesis
  proof (cases "m0 c (a + 28) = 0")
    case True
    then have "gmem s (n + 28) = 0" using w by simp
    then show ?thesis using g move_if_set_slot [of "cenv c" "n + 28" s] by (simp add: move_if_set_def)
  next
    case False
    then obtain ob where "points c 0 (m0 c (a + 28)) ob" "m0 c ob = OBJFLAGS_SERVICE" using gc_wfD(9) [OF wf ao k] by blast
    then show ?thesis using service_refcount [OF wf inv] False w g by (simp add: move_slot_cases)
  qed
qed

lemma walk_portal:
  assumes wf: "gc_wf c" and inv: "gc_inv c cs D R s" and n: "fwd c cs a = Some n" and k: "m0 c a = OBJFLAGS_CPUSTATE"
    and new: "(a, 60) \<notin> D" "(a, 61) \<notin> D" "(a, 62) \<notin> D" "(a, 28) \<notin> D"
  shows "goes c cs s (insert (a, 28) ((if m0 c (a + 63) AND 1 \<noteq> 0 then insert (a, 62) else id) (insert (a, 61) (insert (a, 60) D)))) R
     (walk_portal_fields (cenv c) (n + 3) s)"
    (is "goes c cs s (insert _ ?D) R _")
proof -
  note ao = subsetD [OF gc_invD(6) [OF inv] fwd_bounds(1) [OF wf gc_invD(5,6) [OF inv] n]]
  note T = tcb_shape [OF wf ao k] and fw = fwd_prefix [OF _ n]
  have sl: "(60, 0) \<in> set (slots c a)" "(61, 0) \<in> set (slots c a)" "m0 c (a + 63) AND 1 \<noteq> 0 \<Longrightarrow> (62, 0) \<in> set (slots c a)"
    unfolding T(7) by auto
  have fld: "gmem s' (n + 33) = 0" "gmem s' (n + 63) = m0 c (a + 63)" if "gc_inv c cs' D' R s'" "\<exists>ys. cs' = cs @ ys" for cs' s' D'
    using tcb_word [OF wf that(1) fw [OF that(2)] k, of 33] tcb_word [OF wf that(1) fw [OF that(2)] k, of 63] T(3) by simp_all
  have "goes c cs s (insert (a, 28) ?D) R (rbind (move_slot (cenv c) (n + 60, 0) s) (\<lambda>s1.
     rbind (move_slot (cenv c) (n + 61, 0) s1) (\<lambda>s2.
     rbind (if gmem s2 (n + 63) AND 1 \<noteq> 0 then move_slot (cenv c) (n + 62, 0) s2 else Ok s2) (\<lambda>s3.
     rbind (if gmem s3 (n + 27) \<noteq> 0 then (if gmem s3 (n + 33) \<noteq> 0 then walk_in_parameters (cenv c) (n + 3) s3 else Ok s3)
            else rassert (gmem s3 (n + 33) = 0) ''mostRecentlyCalledBy == NULL'' (Ok s3)) (\<lambda>s4.
       if gmem s4 (n + 28) \<noteq> 0 then
         (if gmem s4 (waddr (gmem s4 (n + 28)) + 13) > 1 then gc_common_move_reference (cenv c) (n + 28) s4
          else Ok (gput (n + 28) 0 s4)) else Ok s4)))))"
  proof (rule goes_rbind [where D = "insert (a, 60) D" and R = R], goal_cases)
    case 1
    show ?case using goes_slot [OF wf inv n sl(1) new(1)] by simp
  next
    case (2 cs1 s1)
    show ?case
    proof (rule goes_rbind [where D = "insert (a, 61) (insert (a, 60) D)" and R = R], goal_cases)
      case 1
      show ?case using goes_slot [OF wf 2(1) fw [OF 2(2)] sl(2)] new by simp
    next
      case (2 cs2 s2)
      have p2: "\<exists>ys. cs2 = cs @ ys" using 2(2) \<open>\<exists>ys. cs1 = cs @ ys\<close> by auto
      show ?case
      proof (rule goes_rbind [where D = ?D and R = R], goal_cases)
        case 1
        show ?case using goes_slot [OF wf 2(1) fw [OF p2] sl(3)] new goes_Ok [OF 2(1)] fld(2) [OF 2(1) p2] by auto
      next
        case (2 cs3 s3)
        have p3: "\<exists>ys. cs3 = cs @ ys" using 2(2) p2 by auto
        show ?case using walk_dep [OF wf 2(1) fw [OF p3] k] new fld(1) [OF 2(1) p3] by (cases "gmem s3 (n + 27) = 0") auto
      qed
    qed
  qed
  then show ?thesis by (simp add: walk_portal_fields_def move_if_set_slot ac_simps cong: if_cong)
qed

lemma walk_tcb:
  assumes wf: "gc_wf c" and inv: "gc_inv c cs D R s" and n: "fwd c cs a = Some n" and k: "m0 c a = OBJFLAGS_CPUSTATE"
    and new: "D \<inter> of_slots a (slots c a) = {}"
  shows "goes c cs s (D \<union> of_slots a (slots c a)) R (gc_new_scan_heap2 (cenv c) (gmem s n) n s)"
proof -
  note ao = subsetD [OF gc_invD(6) [OF inv] fwd_bounds(1) [OF wf gc_invD(5,6) [OF inv] n]]
  note T = tcb_shape [OF wf ao k] and fw = fwd_prefix [OF _ n]
  let ?D = "insert (a, 8) (insert (a, 37) (insert (a, 36) (insert (a, 3) D)))"
  have D': "D \<union> of_slots a (slots c a) = insert (a, 28) ((if m0 c (a + 63) AND 1 \<noteq> 0 then insert (a, 62) else id) (insert (a, 61) (insert (a, 60) ?D)))"
    unfolding T(7) by (auto simp: of_slots_def)
  have nd: "(a, 60) \<notin> ?D" "(a, 61) \<notin> ?D" "(a, 28) \<notin> ?D" using new unfolding T(7) by (auto simp: of_slots_def)
  have "(a, 62) \<notin> D"
    using new T(7) gc_invD(2) [OF inv] unfolding copies_ok_def by (cases "m0 c (a + 63) AND 1 = 0") (auto simp: of_slots_def)
  then have nd62: "(a, 62) \<notin> ?D" by simp
  have "goes c cs s (D \<union> of_slots a (slots c a)) R (gc_impl_walkContentCPUState (cenv c) n s)"
    unfolding gc_impl_walkContentCPUState_def Let_def
  proof (rule goes_rbind [OF walk_links [OF wf inv n k new]], goal_cases)
    case (1 cs1 s1)
    note n1 = fw [OF 1(2)]
    have "gmem s1 (n + 6) = m0 c (a + 6)" "gmem s1 (n + 29) = m0 c (a + 29)" "gmem s1 (n + 30) = m0 c (a + 30)" "gmem s1 (n + 67) = m0 c (a + 67)"
      by (rule tcb_word [OF wf 1(1) n1 k], simp_all)+
    moreover have "gput (n + 3) (of_nat (4 * (n + 3 + 7))) s1 = s1"
      using context_pointer(3) [OF wf 1(1) n1 k] gput_same [of "n + 3" s1] by simp
    ultimately show ?case using walk_portal [OF wf 1(1) n1 k nd(1,2) nd62 nd(3)] T(4,5) unfolding D' by (auto simp: ac_simps)
  qed
  moreover have "gc_new_scan_heap2 (cenv c) (gmem s n) n s = gc_impl_walkContentCPUState (cenv c) n s"
    using copies_okD(1) [OF gc_invD(2) [OF inv] n] k by (simp add: gc_new_scan_heap2_def objflags gc_masks)
  ultimately show ?thesis by simp
qed

subsection \<open>The walk over the second semispace\<close>

text \<open>The slots of the objects \<open>xs\<close>.\<close>

definition slots_of :: "collection \<Rightarrow> nat list \<Rightarrow> (nat \<times> nat) set" where
  "slots_of c xs = (\<Union>a \<in> set xs. of_slots a (slots c a))"

lemma scan_copy:
  assumes "gc_wf c" "gc_inv c cs D R s" "fwd c cs a = Some n" "D \<inter> of_slots a (slots c a) = {}"
  shows "goes c cs s (D \<union> of_slots a (slots c a)) R (gc_new_scan_heap2 (cenv c) (gmem s n) n s)"
  using walk_plain [OF assms] walk_tcb [OF assms(1-3) _ assms(4)] by (cases "m0 c a = OBJFLAGS_CPUSTATE") auto

lemma walk_size_cong:
  assumes k: "k \<in> set heap_kinds" and "m' (a' + 1) = m (a + 1)" "k = OBJFLAGS_OBJECT \<Longrightarrow> m' (a' + 2) = m (a + 2)"
    "k = OBJFLAGS_ARRAY \<Longrightarrow> m' (a' + 4) = m (a + 4)"
  shows "walk_size env m' a' k = walk_size env m a k"
  using k by (cases rule: heap_kindE) (use assms in \<open>simp_all add: walk_size_def heap_kind_masks(1) objflags gc_masks object_size_def
    class_of_def check_class_def has_class_def gc_objSize2_def assert_object_def\<close>)

lemma copy_size:
  assumes wf: "gc_wf c" and inv: "gc_inv c cs D R s" and n: "fwd c cs a = Some n"
  shows "walk_size (cenv c) (gmem s) n (m0 c a) = Ok (osize c a)"
proof -
  note I = gc_invD [OF inv]
  note ao = subsetD [OF I(6) fwd_bounds(1) [OF wf I(5,6) n]]
  note ok = gc_wfD(7) [OF wf ao]
  have kind: "m0 c a \<in> set heap_kinds" using ok by (simp add: obj_ok_def)
  have nosl: "2 \<notin> fst ` set (slots c a)" using slots_range(1) [OF ok, of 2] by force
  have mag: "gmem s (n + 1) = MAGIC_OBJECT" "m0 c (a + 1) = MAGIC_OBJECT" using copies_okD(2) [OF I(2) n] ok by (auto simp: obj_ok_def)
  have two: "gmem s (n + 2) = m0 c (a + 2)" if "m0 c a = OBJFLAGS_OBJECT"
    using copy_word [OF inv n, of 2] nosl that by (simp add: kept_end_def split: option.splits)
  have four: "gmem s (n + 4) = m0 c (a + 4)" if "m0 c a = OBJFLAGS_ARRAY"
    by (rule copy_word [OF inv n]) (use that in \<open>auto simp: kept_end_def obj_slots_def objflags split: if_splits\<close>)
  have "walk_size (cenv c) (gmem s) n (m0 c a) = walk_size (cenv c) (m0 c) a (m0 c a)"
    by (rule walk_size_cong [OF kind _ two four]) (use mag in simp_all)
  then show ?thesis using obj_size_kind(1) [OF ok] by simp
qed

lemma slots_of_snoc: "slots_of c (xs @ [a]) = slots_of c xs \<union> of_slots a (slots c a)"
  by (auto simp: slots_of_def)

lemma slots_of_disjoint: "a \<notin> set xs \<Longrightarrow> slots_of c xs \<inter> of_slots a (slots c a) = {}"
  by (auto simp: slots_of_def of_slots_def)

lemma scan_position:
  assumes wf: "gc_wf c" and inv: "gc_inv c cs D R s" and j: "j \<le> length cs"
  shows "base c + sum_list (map (osize c) (take j cs)) < heapTop2 s \<longleftrightarrow> j < length cs"
proof -
  note I = gc_invD [OF inv]
  have "sum_list (map (osize c) cs) = sum_list (map (osize c) (take j cs)) + sum_list (map (osize c) (drop j cs))"
    by (metis append_take_drop_id map_append sum_list_append)
  moreover have "0 < sum_list (map (osize c) (drop j cs))" if "j < length cs"
  proof -
    have "cs ! j \<in> set (objs c)" using that I(6) by auto
    then have "4 \<le> osize c (cs ! j)" using obj_bounds(5) [OF wf] by blast
    then show ?thesis using that by (simp add: Cons_nth_drop_Suc [symmetric])
  qed
  ultimately show ?thesis using spaces_okD(4) [OF I(1)] j by (cases "j = length cs") auto
qed

lemma copied_length:
  assumes "gc_inv c cs D R s"
  shows "length cs \<le> length (objs c)"
  using gc_invD(5,6) [OF assms] by (metis List.finite_set card_length card_mono distinct_card le_trans)

lemma scan_loop:
  assumes wf: "gc_wf c"
  shows "gc_inv c cs (slots_of c (take j cs)) R s \<Longrightarrow> j \<le> length cs \<Longrightarrow> length (objs c) < N + j \<Longrightarrow>
    \<exists>cs' s'. gc_walkContinuesBlock N (cenv c) heapTop2 (gc_new_scan_heap2 (cenv c)) (base c + sum_list (map (osize c) (take j cs))) s = Ok s' \<and>
      gc_inv c cs' (slots_of c cs') R s' \<and> same_rest s s'"
proof (induction N arbitrary: j cs s)
  case 0
  then show ?case using copied_length [OF "0.prems"(1)] by simp
next
  case (Suc N)
  note inv = Suc.prems(1) and pos = scan_position [OF wf Suc.prems(1,2)]
  let ?data = "base c + sum_list (map (osize c) (take j cs))" and ?h = "gc_new_scan_heap2 (cenv c)"
  show ?case
  proof (cases "j < length cs")
    case False
    then have "take j cs = cs" "\<not> ?data < heapTop2 s" using Suc.prems(2) pos by auto
    then show ?thesis using inv by auto
  next
    case True
    define a where "a = cs ! j"
    note I = gc_invD [OF inv]
    have n: "fwd c cs a = Some ?data" unfolding a_def by (rule place_nth [OF I(5) True])
    have tk: "take (Suc j) cs = take j cs @ [a]" unfolding a_def by (rule take_Suc_conv_app_nth [OF True])
    have "a \<notin> set (take j cs)" using distinct_take [OF I(5), of "Suc j"] tk by simp
    note g = scan_copy [OF wf inv n slots_of_disjoint [OF this]]
    have g: "goes c cs s (slots_of c (take (Suc j) cs)) R (?h (gmem s ?data) ?data s)" using g unfolding tk slots_of_snoc .
    then obtain cs1 s1 where s1: "?h (gmem s ?data) ?data s = Ok s1" "gc_inv c cs1 (slots_of c (take (Suc j) cs)) R s1" "\<exists>ys. cs1 = cs @ ys" "same_rest s s1"
      unfolding goes_def by blast
    have tk1: "take (Suc j) cs1 = take (Suc j) cs" "Suc j \<le> length cs1" using s1(3) True by auto
    have fl: "gmem s ?data = m0 c a" by (rule copies_okD(1) [OF I(2) n])
    have "m0 c a \<in> set heap_kinds" using gc_wfD(7) [OF wf subsetD [OF I(6) fwd_bounds(1) [OF wf I(5,6) n]]] by (simp add: obj_ok_def)
    then have nf: "m0 c a AND FORWARD_MASK \<noteq> GC_FORWARD" by (rule heap_kind_masks(2))
    have nxt: "?data + osize c a = base c + sum_list (map (osize c) (take (Suc j) cs1))" unfolding tk1 tk by simp
    have step: "gc_walkContinuesBlock (Suc N) (cenv c) heapTop2 ?h ?data s =
        gc_walkContinuesBlock N (cenv c) heapTop2 ?h (base c + sum_list (map (osize c) (take (Suc j) cs1))) s1"
      using True pos s1(1) nf copy_size [OF wf inv n] fl unfolding nxt [symmetric] by (simp add: Let_def)
    have "\<exists>cs' s'. gc_walkContinuesBlock (Suc N) (cenv c) heapTop2 ?h ?data s = Ok s' \<and> gc_inv c cs' (slots_of c cs') R s' \<and> same_rest s1 s'"
      unfolding step by (rule Suc.IH) (use s1(2) tk1 Suc.prems(3) in simp_all)
    then show ?thesis using same_rest_trans [OF s1(4)] by blast
  qed
qed

end
