(* ===== verification/Gc_Collect.thy ===== *)
theory Gc_Collect
  imports Gc_Scan
begin

section \<open>Collections and allocation\<close>

text \<open>
  The walk over the root set, finalization, the collection as a whole, and allocation.  A well-formed collection (\<open>gc_wf\<close>, \<open>roots_wf\<close>) has
  threads outside portal calls only; stack maps are given as the list of stack slots.
\<close>

subsection \<open>The root set\<close>

text \<open>The words that \<open>walkRootSet\<close> updates.\<close>

definition static_slots :: "(u1 list \<times> nat \<times> nat) list \<Rightarrow> nat list" where
  "static_slots cls = concat (map (\<lambda>(bytes, n, b). map (\<lambda>i. b + i) (forbitmap bytes n 0 0)) cls)"

abbreviation table :: "nat \<Rightarrow> nat \<Rightarrow> nat list" where
  "table b n \<equiv> map (\<lambda>i. b + i) [0..<n]"

definition portal_slots :: "words \<Rightarrow> nat list \<Rightarrow> nat list" where
  "portal_slots m ps = filter (\<lambda>p. m p \<noteq> 0 \<and> m p \<noteq> 0xffffffff) ps"

definition irq_slots :: "gc_env \<Rightarrow> words \<Rightarrow> (nat \<times> nat) list \<Rightarrow> nat list" where
  "irq_slots env m vs = map fst (filter (\<lambda>(p, dm). m p \<noteq> 0 \<and> m dm = own_domain env) vs)"

definition switch_slots :: "gc_env \<Rightarrow> words \<Rightarrow> nat \<Rightarrow> nat list" where
  "switch_slots env m p = (if m p \<noteq> 0 \<and> m (waddr (m p) + 4) = own_domain env then [p] else [])"

definition ref_slots :: "u4 \<Rightarrow> nat list \<Rightarrow> (nat \<times> u4) list" where
  "ref_slots d ps = map (\<lambda>p. (p, d)) ps"

definition root_slots :: "gc_env \<Rightarrow> words \<Rightarrow> gc_roots \<Rightarrow> (nat \<times> u4) list" where
  "root_slots env m r =
     ref_slots 0 (stack_slots r) @ ref_slots 0 (static_slots (statics r)) @
     ref_slots 0 (portal_slots m (table (service_table r) MAX_SERVICE_ENTRIES)) @ ref_slots 0 (table (registered r) MAX_REGISTERED) @
     ref_slots 0 (special_refs r) @ ref_slots 4 (special_tcbs r) @ ref_slots 4 (switch_slots env m (switchBackTo r)) @
     ref_slots 4 [curthrP r] @ ref_slots 0 (irq_slots env m (irq_objects r))"

text \<open>A word that the collector only reads.\<close>

definition outside :: "collection \<Rightarrow> nat \<Rightarrow> bool" where
  "outside c p \<longleftrightarrow> p \<notin> from_space c \<and> p \<notin> target_space c \<and> p \<notin> fst ` set (rts c)"

text \<open>What the collector assumes of the words it reads outside the heap: the services of the table are in the heap, the
  current thread belongs to the domain, the thread in \<^verbatim>\<open>switchBackTo\<close> is one of the domain or outside its heap.\<close>

definition roots_wf :: "collection \<Rightarrow> gc_roots \<Rightarrow> bool" where
  "roots_wf c r \<longleftrightarrow> rts c = root_slots (cenv c) (m0 c) r \<and>
     (\<forall>p \<in> set (table (service_table r) MAX_SERVICE_ENTRIES). if m0 c p = 0 \<or> m0 c p = 0xffffffff then outside c p
        else \<exists>ob. points c 0 (m0 c p) ob \<and> m0 c ob = OBJFLAGS_SERVICE) \<and>
     (if m0 c (switchBackTo r) = 0 then outside c (switchBackTo r)
      else if m0 c (waddr (m0 c (switchBackTo r)) + 4) = own_domain (cenv c)
        then \<exists>ob. points c 4 (m0 c (switchBackTo r)) ob \<and> m0 c ob = OBJFLAGS_CPUSTATE
        else outside c (switchBackTo r) \<and> outside c (waddr (m0 c (switchBackTo r)) + 4)) \<and>
     m0 c (curthrP r) \<noteq> 0 \<and>
     (\<forall>(p, dm) \<in> set (irq_objects r). outside c dm \<and> (m0 c p = 0 \<or> m0 c dm \<noteq> own_domain (cenv c) \<longrightarrow> outside c p))"

lemma ref_slots_fst [simp]: "fst ` set (ref_slots d ps) = set ps" "map fst (ref_slots d ps) = ps"
  by (force simp: ref_slots_def comp_def)+

lemma ref_slots_mem [simp]: "(p, e) \<in> set (ref_slots d ps) \<longleftrightarrow> e = d \<and> p \<in> set ps"
  by (auto simp: ref_slots_def)

lemma outside_word: "gc_inv c cs D R s \<Longrightarrow> outside c p \<Longrightarrow> gmem s p = m0 c p"
  using spaces_okD(7) [OF gc_invD(1)] from_spaceD unfolding outside_def by blast

lemma root_word: "gc_inv c cs D R s \<Longrightarrow> (p, d) \<in> set (rts c) \<Longrightarrow> p \<notin> R \<Longrightarrow> gmem s p = m0 c p"
  using gc_invD(3) unfolding roots_ok_def by fastforce

lemma goes_list:
  assumes "gc_wf c" "gc_inv c cs D R s" "set (ref_slots d ps) \<subseteq> set (rts c)" "distinct ps" "R \<inter> set ps = {}"
  shows "goes c cs s D (R \<union> set ps) (move_slots (cenv c) (ref_slots d ps) s)"
  using goes_roots [OF assms(1-3)] assms(4,5) by simp

subsection \<open>The phases of the walk over the root set\<close>

lemma move_slots_append: "move_slots env (xs @ ys) s = rbind (move_slots env xs s) (move_slots env ys)"
  by (induction xs arbitrary: s) (auto split: rbind_split)

lemma walkStatics_slots: "walkStatics env cls s = move_slots env (ref_slots 0 (static_slots cls)) s"
proof (induction cls arbitrary: s)
  case (Cons x cls)
  then have "walkStatics env cls = move_slots env (ref_slots 0 (static_slots cls))" by blast
  then show ?case by (cases x) (simp add: static_slots_def ref_slots_def move_slots_append move_slots_references)
qed (simp add: static_slots_def ref_slots_def)

lemma move_set_references_slots: "move_set_references env ps s = move_slots env (ref_slots 0 ps) s"
  by (induction ps arbitrary: s) (auto simp: ref_slots_def move_if_set_slot split: rbind_split)

lemma move_tcbs_slots: "move_tcbs env ps s = move_slots env (ref_slots 4 ps) s"
  by (induction ps arbitrary: s) (auto simp: ref_slots_def move_slot_cases split: rbind_split)

lemma walkPortals_goes:
  assumes wf: "gc_wf c"
  shows "gc_inv c cs D R s \<Longrightarrow> set (ref_slots 0 (portal_slots (m0 c) ps)) \<subseteq> set (rts c) \<Longrightarrow> distinct ps \<Longrightarrow>
    R \<inter> set (portal_slots (m0 c) ps) = {} \<Longrightarrow>
    (\<forall>p \<in> set ps. if m0 c p = 0 \<or> m0 c p = 0xffffffff then outside c p else \<exists>ob. points c 0 (m0 c p) ob \<and> m0 c ob = OBJFLAGS_SERVICE) \<Longrightarrow>
    goes c cs s D (R \<union> set (portal_slots (m0 c) ps)) (walkPortals (cenv c) ps s)"
proof (induction ps arbitrary: cs R s)
  case Nil
  then show ?case by (simp add: goes_Ok portal_slots_def)
next
  case (Cons p ps)
  show ?case
  proof (cases "m0 c p = 0 \<or> m0 c p = 0xffffffff")
    case True
    then have "outside c p" using Cons.prems(5) by simp
    then have "gmem s p = m0 c p" using outside_word [OF Cons.prems(1)] by blast
    moreover have "portal_slots (m0 c) (p # ps) = portal_slots (m0 c) ps" using True by (auto simp: portal_slots_def)
    ultimately show ?thesis using Cons.IH [OF Cons.prems(1)] Cons.prems(2-5) True by simp
  next
    case False
    then obtain ob where ob: "points c 0 (m0 c p) ob" "m0 c ob = OBJFLAGS_SERVICE" using Cons.prems(5) by auto
    have ps: "portal_slots (m0 c) (p # ps) = p # portal_slots (m0 c) ps" using False by (simp add: portal_slots_def)
    have p: "(p, 0) \<in> set (rts c)" "p \<notin> R" using Cons.prems(2,4) ps by (auto simp: ref_slots_def)
    have w: "gmem s p = m0 c p" by (rule root_word [OF Cons.prems(1) p])
    have "p \<notin> set (portal_slots (m0 c) ps)" using Cons.prems(3) by (auto simp: portal_slots_def)
    then have "goes c cs' s' D (insert p R \<union> set (portal_slots (m0 c) ps)) (walkPortals (cenv c) ps s')"
      if "gc_inv c cs' D (insert p R) s'" for cs' s'
      using Cons.IH [OF that] Cons.prems(2-5) ps by (simp add: ref_slots_def)
    then have "goes c cs s D (insert p R \<union> set (portal_slots (m0 c) ps)) (rbind (move_slot (cenv c) (p, 0) s) (walkPortals (cenv c) ps))"
      using goes_rbind [OF goes_root [OF wf Cons.prems(1) p]] by blast
    then show ?thesis using False w service_refcount [OF wf Cons.prems(1) ob] ps by (simp add: move_slot_cases)
  qed
qed

lemma walkInterrupHandlers_goes:
  assumes wf: "gc_wf c"
  shows "gc_inv c cs D R s \<Longrightarrow> set (ref_slots 0 (irq_slots (cenv c) (m0 c) vs)) \<subseteq> set (rts c) \<Longrightarrow> distinct (irq_slots (cenv c) (m0 c) vs) \<Longrightarrow>
    R \<inter> set (irq_slots (cenv c) (m0 c) vs) = {} \<Longrightarrow>
    (\<forall>(p, dm) \<in> set vs. outside c dm \<and> (m0 c p = 0 \<or> m0 c dm \<noteq> own_domain (cenv c) \<longrightarrow> outside c p)) \<Longrightarrow>
    goes c cs s D (R \<union> set (irq_slots (cenv c) (m0 c) vs)) (walkInterrupHandlers (cenv c) vs s)"
proof (induction vs arbitrary: cs R s)
  case Nil
  then show ?case by (simp add: goes_Ok irq_slots_def)
next
  case (Cons v vs)
  obtain p dm where v: "v = (p, dm)" by fastforce
  have dm: "gmem s dm = m0 c dm" using Cons.prems(5) v outside_word [OF Cons.prems(1)] by auto
  show ?case
  proof (cases "m0 c p = 0 \<or> m0 c dm \<noteq> own_domain (cenv c)")
    case True
    then have "outside c p" using Cons.prems(5) v by auto
    then have "gmem s p = m0 c p" using outside_word [OF Cons.prems(1)] by blast
    moreover have "irq_slots (cenv c) (m0 c) (v # vs) = irq_slots (cenv c) (m0 c) vs" using True v by (auto simp: irq_slots_def)
    ultimately show ?thesis using Cons.IH [OF Cons.prems(1)] Cons.prems(2-5) True v dm by auto
  next
    case False
    have vs: "irq_slots (cenv c) (m0 c) (v # vs) = p # irq_slots (cenv c) (m0 c) vs" using False v by (simp add: irq_slots_def)
    have p: "(p, 0) \<in> set (rts c)" "p \<notin> R" using Cons.prems(2,4) vs by (auto simp: ref_slots_def)
    have w: "gmem s p = m0 c p" by (rule root_word [OF Cons.prems(1) p])
    have "goes c cs' s' D (insert p R \<union> set (irq_slots (cenv c) (m0 c) vs)) (walkInterrupHandlers (cenv c) vs s')"
      if "gc_inv c cs' D (insert p R) s'" for cs' s'
      using Cons.IH [OF that] Cons.prems(2-5) vs by (simp add: ref_slots_def)
    then have "goes c cs s D (insert p R \<union> set (irq_slots (cenv c) (m0 c) vs)) (rbind (move_slot (cenv c) (p, 0) s) (walkInterrupHandlers (cenv c) vs))"
      using goes_rbind [OF goes_root [OF wf Cons.prems(1) p]] by blast
    then show ?thesis using False w dm v vs by (simp add: move_slot_cases)
  qed
qed

lemma old_word:
  assumes wf: "gc_wf c" and inv: "gc_inv c cs D R s" and ob: "ob \<in> set (objs c)" and i: "0 < i" "i < osize c ob"
  shows "gmem s (ob + i) = m0 c (ob + i)"
proof -
  note I = gc_invD [OF inv]
  have "ob + i \<notin> set (objs c)" using laid_out_apart [OF gc_wfD(1) [OF wf] ob, of "ob + i"] i by auto
  then have "ob + i \<notin> set cs" using I(6) by blast
  moreover have "ob + i \<in> {hbeg c ..< hend c}" using obj_bounds [OF wf ob] i by auto
  ultimately show ?thesis using spaces_okD(6) [OF I(1)] by simp
qed

lemma switch_word:
  assumes wf: "gc_wf c" and inv: "gc_inv c cs D R s" and p: "points c 4 v ob" "m0 c ob = OBJFLAGS_CPUSTATE"
  shows "gmem s (waddr v + 4) = m0 c (waddr v + 4)"
proof -
  have ob: "ob \<in> set (objs c)" "v = obj_ref (ob + 1)" using p(1) by (auto simp: points_def obj_ref_def)
  note B = obj_bounds [OF wf ob(1)]
  have sz: "71 \<le> osize c ob" using B(6) p(2) by (simp add: kept_end_def objflags)
  then have "waddr v + 4 = ob + 7" using waddr_obj_ref [of "ob + 1"] B(2) gc_wfD(3) [OF wf] ob(2) by simp
  then show ?thesis using old_word [OF wf inv ob(1), of 7] sz by (simp add: ac_simps)
qed

lemma walk_switchBack:
  assumes wf: "gc_wf c" and inv: "gc_inv c cs D R s" and r: "roots_wf c r" and sl: "set (ref_slots 4 (switch_slots (cenv c) (m0 c) (switchBackTo r))) \<subseteq> set (rts c)"
    and new: "R \<inter> set (switch_slots (cenv c) (m0 c) (switchBackTo r)) = {}"
  shows "goes c cs s D (R \<union> set (switch_slots (cenv c) (m0 c) (switchBackTo r)))
    (if gmem s (switchBackTo r) \<noteq> 0 \<and> gmem s (waddr (gmem s (switchBackTo r)) + 4) = own_domain (cenv c)
     then MOVETCB (cenv c) (switchBackTo r) s else Ok s)"
proof -
  let ?p = "switchBackTo r"
  have sw: "if m0 c ?p = 0 then outside c ?p else if m0 c (waddr (m0 c ?p) + 4) = own_domain (cenv c)
    then \<exists>ob. points c 4 (m0 c ?p) ob \<and> m0 c ob = OBJFLAGS_CPUSTATE
    else outside c ?p \<and> outside c (waddr (m0 c ?p) + 4)" using r unfolding roots_wf_def by blast
  consider "m0 c ?p = 0" | "m0 c ?p \<noteq> 0" "m0 c (waddr (m0 c ?p) + 4) = own_domain (cenv c)"
    | "m0 c ?p \<noteq> 0" "m0 c (waddr (m0 c ?p) + 4) \<noteq> own_domain (cenv c)" by blast
  then show ?thesis
  proof cases
    case 1
    then show ?thesis using outside_word [OF inv, of ?p] sw goes_Ok [OF inv] by (simp add: switch_slots_def)
  next
    case 2
    then have p: "(?p, 4) \<in> set (rts c)" "?p \<notin> R" using sl new by (auto simp: switch_slots_def ref_slots_def)
    have "gmem s ?p = m0 c ?p" by (rule root_word [OF inv p])
    moreover have "gmem s (waddr (m0 c ?p) + 4) = m0 c (waddr (m0 c ?p) + 4)" using 2 sw switch_word [OF wf inv] by auto
    ultimately show ?thesis using 2 goes_root [OF wf inv p] by (simp add: switch_slots_def move_slot_cases)
  next
    case 3
    then have "gmem s ?p = m0 c ?p" "gmem s (waddr (m0 c ?p) + 4) = m0 c (waddr (m0 c ?p) + 4)" using sw outside_word [OF inv] by auto
    then show ?thesis using 3 goes_Ok [OF inv] by (simp add: switch_slots_def)
  qed
qed

lemma walk_current:
  assumes wf: "gc_wf c" and inv: "gc_inv c cs D R s" and r: "roots_wf c r" and p: "(curthrP r, 4) \<in> set (rts c)" "curthrP r \<notin> R"
  shows "goes c cs s D (insert (curthrP r) R) (rbind (gc_move_value (cenv c) (gmem s (curthrP r) - 4) s) (\<lambda>(tpr, s4).
     rbind (cpuState2thread tpr (gmem s4)) (\<lambda>t. Ok (gput (curthrP r) t s4))))"
proof -
  have "gmem s (curthrP r) \<noteq> 0" using root_word [OF inv p] r by (simp add: roots_wf_def)
  then show ?thesis using goes_root [OF wf inv p] by (simp add: move_slot_def MOVETCB_def)
qed

text \<open>The phases follow each other on disjoint lists of roots.\<close>

lemma walkSpecials_goes:
  assumes wf: "gc_wf c" and inv: "gc_inv c cs D R s" and r: "roots_wf c r"
    and sl: "set (ref_slots 0 (special_refs r)) \<subseteq> set (rts c)" "set (ref_slots 4 (special_tcbs r)) \<subseteq> set (rts c)"
      "set (ref_slots 4 (switch_slots (cenv c) (m0 c) (switchBackTo r))) \<subseteq> set (rts c)" "(curthrP r, 4) \<in> set (rts c)"
    and dist: "distinct (special_refs r @ special_tcbs r @ switch_slots (cenv c) (m0 c) (switchBackTo r) @ [curthrP r])"
    and new: "R \<inter> set (special_refs r @ special_tcbs r @ switch_slots (cenv c) (m0 c) (switchBackTo r) @ [curthrP r]) = {}"
  shows "goes c cs s D (insert (curthrP r) (R \<union> set (special_refs r) \<union> set (special_tcbs r) \<union> set (switch_slots (cenv c) (m0 c) (switchBackTo r))))
    (walkSpecials (cenv c) r s)" (is "goes c cs s D (insert _ (R \<union> set ?a \<union> set ?b \<union> set ?c)) _")
  unfolding walkSpecials_def move_set_references_slots move_tcbs_slots
proof (rule goes_rbind [where D = D and R = "R \<union> set ?a"], goal_cases)
  case 1
  show ?case by (rule goes_list [OF wf inv sl(1)]) (use dist new in auto)
next
  case (2 cs1 s1)
  show ?case
  proof (rule goes_rbind [where D = D and R = "R \<union> set ?a \<union> set ?b"], goal_cases)
    case 1
    show ?case by (rule goes_list [OF wf 2(1) sl(2)]) (use dist new in auto)
  next
    case (2 cs2 s2)
    show ?case
    proof (rule goes_rbind [where D = D and R = "R \<union> set ?a \<union> set ?b \<union> set ?c"], goal_cases)
      case 1
      show ?case by (rule walk_switchBack [OF wf 2(1) r sl(3)]) (use dist new in auto)
    next
      case (2 cs3 s3)
      show ?case by (rule walk_current [OF wf 2(1) r sl(4)]) (use dist new in auto)
    qed
  qed
qed

lemma phases_apart:
  assumes "distinct (A @ B @ P @ G @ X @ Q)"
  shows "distinct A" "distinct B" "distinct G" "distinct X" "distinct Q" "set A \<inter> set B = {}" "(set A \<union> set B) \<inter> set P = {}"
    "(set A \<union> set B \<union> set P) \<inter> set G = {}" "(set A \<union> set B \<union> set P \<union> set G) \<inter> set X = {}"
    "(set A \<union> set B \<union> set P \<union> set G \<union> set X) \<inter> set Q = {}"
  using assms by auto

lemma walkRootSet_goes:
  assumes wf: "gc_wf c" and inv: "gc_inv c cs D {} s" and r: "roots_wf c r"
  shows "goes c cs s D (fst ` set (rts c)) (walkRootSet (cenv c) r s)"
proof -
  let ?e = "cenv c" and ?m = "m0 c"
  let ?A = "stack_slots r" and ?B = "static_slots (statics r)" and ?T = "table (service_table r) MAX_SERVICE_ENTRIES"
    and ?G = "table (registered r) MAX_REGISTERED" and ?S = "switch_slots ?e ?m (switchBackTo r)"
    and ?Q = "irq_slots ?e ?m (irq_objects r)"
  let ?P = "portal_slots ?m ?T" and ?E = "special_refs r" and ?F = "special_tcbs r"
  have rts: "rts c = root_slots ?e ?m r" using r by (simp add: roots_wf_def)
  have all: "fst ` set (rts c) = insert (curthrP r) (set ?A \<union> set ?B \<union> set ?P \<union> set ?G \<union> set ?E \<union> set ?F \<union> set ?S) \<union> set ?Q"
    unfolding rts root_slots_def set_append image_Un ref_slots_fst by auto
  have d: "distinct (?A @ ?B @ ?P @ ?G @ ?E @ ?F @ ?S @ [curthrP r] @ ?Q)"
    using gc_wfD(6) [OF wf] unfolding rts root_slots_def map_append ref_slots_fst .
  have sub: "set (ref_slots 0 ?A) \<subseteq> set (rts c)" "set (ref_slots 0 ?B) \<subseteq> set (rts c)" "set (ref_slots 0 ?P) \<subseteq> set (rts c)"
    "set (ref_slots 0 ?G) \<subseteq> set (rts c)" "set (ref_slots 0 ?E) \<subseteq> set (rts c)" "set (ref_slots 4 ?F) \<subseteq> set (rts c)"
    "set (ref_slots 4 ?S) \<subseteq> set (rts c)" "(curthrP r, 4) \<in> set (rts c)" "set (ref_slots 0 ?Q) \<subseteq> set (rts c)"
    unfolding rts root_slots_def by auto
  have mv: "move_references ?e ?A s = move_slots ?e (ref_slots 0 ?A) s" by (simp add: move_slots_references ref_slots_def)
  let ?X = "?E @ ?F @ ?S @ [curthrP r]"
  have d': "distinct (?A @ ?B @ ?P @ ?G @ ?X @ ?Q)" using d unfolding append_assoc .
  note ph = phases_apart [OF d']
  have X: "insert (curthrP r) (set ?A \<union> set ?B \<union> set ?P \<union> set ?G \<union> set ?E \<union> set ?F \<union> set ?S) = set ?A \<union> set ?B \<union> set ?P \<union> set ?G \<union> set ?X"
    unfolding set_append by auto
  have last: "insert (curthrP r) (set ?A \<union> set ?B \<union> set ?P \<union> set ?G \<union> set ?E \<union> set ?F \<union> set ?S) \<inter> set ?Q = {}"
    unfolding X by (rule ph(10))
  have tab: "distinct ?T" by (simp add: distinct_map)
  have svc: "\<forall>p \<in> set ?T. if m0 c p = 0 \<or> m0 c p = 0xffffffff then outside c p else \<exists>ob. points c 0 (m0 c p) ob \<and> m0 c ob = OBJFLAGS_SERVICE"
    and irq: "\<forall>(p, dm) \<in> set (irq_objects r). outside c dm \<and> (m0 c p = 0 \<or> m0 c dm \<noteq> own_domain (cenv c) \<longrightarrow> outside c p)"
    using r unfolding roots_wf_def by blast+
  show ?thesis unfolding walkRootSet_def all mv walkStatics_slots move_set_references_slots
  proof (rule goes_rbind [where D = D and R = "set ?A"], goal_cases)
    case 1
    show ?case using goes_list [OF wf inv sub(1) ph(1)] by simp
  next
    case (2 cs1 s1)
    show ?case
    proof (rule goes_rbind [where D = D and R = "set ?A \<union> set ?B"], goal_cases)
      case 1
      show ?case by (rule goes_list [OF wf 2(1) sub(2) ph(2,6)])
    next
      case (2 cs2 s2)
      show ?case
      proof (rule goes_rbind [where D = D and R = "set ?A \<union> set ?B \<union> set ?P"], goal_cases)
        case 1
        show ?case by (rule walkPortals_goes [OF wf 2(1) sub(3) tab ph(7) svc])
      next
        case (2 cs3 s3)
        show ?case
        proof (rule goes_rbind [where D = D and R = "set ?A \<union> set ?B \<union> set ?P \<union> set ?G"], goal_cases)
          case 1
          show ?case by (rule goes_list [OF wf 2(1) sub(4) ph(3,8)])
        next
          case (2 cs4 s4)
          show ?case
          proof (rule goes_rbind [where D = D and R = "insert (curthrP r) (set ?A \<union> set ?B \<union> set ?P \<union> set ?G \<union> set ?E \<union> set ?F \<union> set ?S)"], goal_cases)
            case 1
            show ?case by (rule walkSpecials_goes [OF wf 2(1) r sub(5-8) ph(4,9)])
          next
            case (2 cs5 s5)
            show ?case by (rule walkInterrupHandlers_goes [OF wf 2(1) sub(9) ph(5) last irq])
          qed
        qed
      qed
    qed
  qed
qed

subsection \<open>The objects that are copied\<close>

text \<open>When all slots of the copies and all roots have been updated, exactly the reachable objects have been copied.\<close>

lemma copied_reachable:
  assumes inv: "gc_inv c cs (slots_of c cs) (fst ` set (rts c)) s"
  shows "a \<in> set cs \<longleftrightarrow> reachable c a"
proof
  note C = gc_invD(4) [OF inv, unfolded closed_ok_def]
  show "a \<in> set cs \<Longrightarrow> reachable c a" using C by blast
  show "reachable c a \<Longrightarrow> a \<in> set cs"
  proof (induction rule: reachable.induct)
    case (reach_root p d ob)
    then show ?case using C by force
  next
    case (reach_obj a k d ob)
    have "(a, k) \<in> slots_of c cs" using reach_obj by (force simp: slots_of_def of_slots_def)
    then show ?case using C reach_obj disp_eq [OF reach_obj(2)] by metis
  qed
qed

text \<open>The state at the start of a collection.\<close>

definition gc_start :: "collection \<Rightarrow> gcheap \<Rightarrow> bool" where
  "gc_start c s \<longleftrightarrow> gmem s = m0 c \<and> heap s = hbeg c \<and> heapTop s = hend c \<and> heap2 s = base c \<and> heapTop2 s = base c \<and>
     base c + (hend c - hbeg c) \<le> heapBorder2 s"

lemma gc_start_inv: "gc_start c s \<Longrightarrow> gc_inv c [] {} {} s"
  by (auto simp: gc_start_def gc_inv_def spaces_ok_def copies_ok_def roots_ok_def closed_ok_def)

lemma trace_ok:
  assumes wf: "gc_wf c" and r: "roots_wf c r" and s: "gc_start c s" and N: "length (objs c) < N"
  shows "\<exists>cs s1 s2. walkRootSet (cenv c) r s = Ok s1 \<and>
    gc_walkContinuesBlock N (cenv c) heapTop2 (gc_new_scan_heap2 (cenv c)) (heap2 s1) s1 = Ok s2 \<and>
    gc_inv c cs (slots_of c cs) (fst ` set (rts c)) s2 \<and> same_rest s s2"
proof -
  obtain cs1 s1 where 1: "walkRootSet (cenv c) r s = Ok s1" "gc_inv c cs1 {} (fst ` set (rts c)) s1" "same_rest s s1"
    using walkRootSet_goes [OF wf gc_start_inv [OF s] r] unfolding goes_def by blast
  have e: "slots_of c (take 0 cs1) = {}" by (simp add: slots_of_def)
  have h: "base c + sum_list (map (osize c) (take 0 cs1)) = heap2 s1" using spaces_okD(3) [OF gc_invD(1) [OF 1(2)]] by simp
  have "\<exists>cs s2. gc_walkContinuesBlock N (cenv c) heapTop2 (gc_new_scan_heap2 (cenv c)) (heap2 s1) s1 = Ok s2 \<and>
      gc_inv c cs (slots_of c cs) (fst ` set (rts c)) s2 \<and> same_rest s1 s2"
    unfolding h [symmetric] by (rule scan_loop [OF wf]) (use 1(2) N e in simp_all)
  then show ?thesis using 1(1) same_rest_trans [OF 1(3)] by blast
qed

subsection \<open>Finalization\<close>

text \<open>A walk over the old heap whose handler only reports events.\<close>

lemma forwarded_size:
  assumes "k \<in> set heap_kinds"
  shows "walk_size env m a (k OR GC_FORWARD) = walk_size env m a k"
  unfolding walk_size_def gc_objSize2_def Let_def heap_kind_masks(1,3) [OF assms] ..

definition old_flags :: "collection \<Rightarrow> nat list \<Rightarrow> nat \<Rightarrow> u4" where
  "old_flags c cs a = (if a \<in> set cs then m0 c a OR GC_FORWARD else m0 c a)"

lemma old_flags_read:
  assumes wf: "gc_wf c" and inv: "gc_inv c cs D R s" and a: "a \<in> set (objs c)"
  shows "(let f0 = gmem s a in if f0 AND FORWARD_MASK = GC_FORWARD then gmem s (obj_start (f0 AND FORWARD_PTR_MASK)) OR GC_FORWARD else f0) = old_flags c cs a"
    "walk_size (cenv c) (gmem s) a (old_flags c cs a) = Ok (osize c a)"
proof -
  note I = gc_invD [OF inv] and B = obj_bounds [OF wf a] and ok = gc_wfD(7) [OF wf a]
  have kind: "m0 c a \<in> set heap_kinds" using ok by (simp add: obj_ok_def)
  have range: "a \<in> {hbeg c ..< hend c}" using B by auto
  show "(let f0 = gmem s a in if f0 AND FORWARD_MASK = GC_FORWARD then gmem s (obj_start (f0 AND FORWARD_PTR_MASK)) OR GC_FORWARD else f0) = old_flags c cs a"
  proof (cases "a \<in> set cs")
    case True
    then obtain n where n: "fwd c cs a = Some n" using place_Some by blast
    have "gmem s a = obj_ref n OR GC_FORWARD" using spaces_okD(6) [OF I(1) range] n by simp
    then show ?thesis using True forward_word [of n] fwd_bounds(2) [OF wf I(5,6) n] copies_okD(1) [OF I(2) n] by (simp add: old_flags_def Let_def)
  next
    case False
    then show ?thesis using spaces_okD(6) [OF I(1) range] heap_kind_masks(2) [OF kind] by (simp add: old_flags_def Let_def)
  qed
  have "walk_size (cenv c) (gmem s) a (m0 c a) = walk_size (cenv c) (m0 c) a (m0 c a)"
  proof (rule walk_size_cong [OF kind])
    show "gmem s (a + 1) = m0 c (a + 1)" "gmem s (a + 2) = m0 c (a + 2)"
      using old_word [OF wf inv a, of 1] old_word [OF wf inv a, of 2] B(5) by simp_all
    show "gmem s (a + 4) = m0 c (a + 4)" if "m0 c a = OBJFLAGS_ARRAY"
      using old_word [OF wf inv a, of 4] B(6) that by (simp add: kept_end_def objflags)
  qed
  then show "walk_size (cenv c) (gmem s) a (old_flags c cs a) = Ok (osize c a)"
    using forwarded_size [OF kind] obj_size_kind(1) [OF ok] by (simp add: old_flags_def)
qed

lemma inv_finalized [simp]: "gc_inv c cs D R (s\<lparr>finalized := l\<rparr>) \<longleftrightarrow> gc_inv c cs D R s"
  by (simp add: gc_inv_def spaces_ok_def copies_ok_def roots_ok_def)

lemma report_walk:
  assumes wf: "gc_wf c" and inv: "gc_inv c cs D R s"
    and h: "\<And>a l. a \<in> set (objs c) \<Longrightarrow> handle (old_flags c cs a) a (s\<lparr>finalized := l\<rparr>) = Ok (s\<lparr>finalized := l @ ev a\<rparr>)"
  shows "laid_out (osize c) x xs (hend c) \<Longrightarrow> set xs \<subseteq> set (objs c) \<Longrightarrow> length xs < N \<Longrightarrow>
    gc_walkContinuesBlock N (cenv c) heapTop handle x (s\<lparr>finalized := l\<rparr>) = Ok (s\<lparr>finalized := l @ concat (map ev xs)\<rparr>)"
proof (induction xs arbitrary: x l N)
  case Nil
  then obtain N' where "N = Suc N'" by (cases N) auto
  then show ?case using Nil spaces_okD(2) [OF gc_invD(1) [OF inv]] by simp
next
  case (Cons a xs)
  then obtain N' where N': "N = Suc N'" by (cases N) auto
  have a: "a \<in> set (objs c)" "x = a" using Cons.prems(1,2) by auto
  have lt: "a < heapTop s" using obj_bounds(2,5) [OF wf a(1)] spaces_okD(2) [OF gc_invD(1) [OF inv]] by linarith
  have step: "gc_walkContinuesBlock N (cenv c) heapTop handle x (s\<lparr>finalized := l\<rparr>) =
      gc_walkContinuesBlock N' (cenv c) heapTop handle (a + osize c a) (s\<lparr>finalized := l @ ev a\<rparr>)"
    using old_flags_read [OF wf inv a(1)] h [OF a(1)] lt a(2) by (cases "gmem s a AND FORWARD_MASK = GC_FORWARD") (simp_all add: N' Let_def)
  have "laid_out (osize c) (a + osize c a) xs (hend c)" using Cons.prems(1) a(2) by simp
  then show ?case unfolding step using Cons.IH [of "a + osize c a" N' "l @ ev a"] Cons.prems(2,3) N' by simp
qed

text \<open>What the two walks report.\<close>

definition memory_events :: "collection \<Rightarrow> nat list \<Rightarrow> nat \<Rightarrow> gc_event list" where
  "memory_events c cs a = (if m0 c a = OBJFLAGS_MEMORY \<and> a \<notin> set cs then [MemoryDeleted a] else [])"

definition portal_events :: "collection \<Rightarrow> nat list \<Rightarrow> nat \<Rightarrow> gc_event list" where
  "portal_events c cs a = (let target = m0 c (a + 3) in
     if m0 c a = OBJFLAGS_PORTAL \<and> a \<notin> set cs \<and> target \<noteq> 0 \<and> domain_ids (cenv c) target = m0 c (a + 4) \<and> target \<noteq> own_domain (cenv c)
     then [DecRefcount target (m0 c (a + 5))] else [])"

lemma old_flags_masks:
  assumes "gc_wf c" "a \<in> set (objs c)"
  shows "old_flags c cs a AND FLAGS_MASK = m0 c a" "old_flags c cs a AND FORWARD_MASK = GC_FORWARD \<longleftrightarrow> a \<in> set cs"
  using heap_kind_masks [of "m0 c a"] gc_wfD(7) [OF assms] by (auto simp: old_flags_def obj_ok_def)

lemma finalize_ok:
  assumes wf: "gc_wf c" and inv: "gc_inv c cs D R s" and N: "length (objs c) < N"
  shows "gc_new_finalizeMemory N (cenv c) s = Ok (s\<lparr>finalized := finalized s @ concat (map (memory_events c cs) (objs c))\<rparr>)"
    "gc_new_finalizePortals N (cenv c) s = Ok (s\<lparr>finalized := finalized s @ concat (map (portal_events c cs) (objs c))\<rparr>)"
proof -
  note lay = gc_wfD(1) [OF wf] and h = spaces_okD(1) [OF gc_invD(1) [OF inv]]
  have s: "s\<lparr>finalized := finalized s\<rparr> = s" by simp
  have "gc_new_finalizeMemoryCB (old_flags c cs a) a (s\<lparr>finalized := l\<rparr>) = Ok (s\<lparr>finalized := l @ memory_events c cs a\<rparr>)"
    if a: "a \<in> set (objs c)" for a l
  proof -
    have "gmem s (a + 1) = MAGIC_OBJECT" using old_word [OF wf inv a, of 1] obj_bounds(5) [OF wf a] gc_wfD(7) [OF wf a]
      by (simp add: obj_ok_def)
    then show ?thesis using old_flags_masks [OF wf a]
      by (simp add: gc_new_finalizeMemoryCB_def memory_events_def assert_object_def)
  qed
  from report_walk [where handle = gc_new_finalizeMemoryCB, OF wf inv this lay _ N, of "finalized s"]
  show "gc_new_finalizeMemory N (cenv c) s = Ok (s\<lparr>finalized := finalized s @ concat (map (memory_events c cs) (objs c))\<rparr>)"
    unfolding gc_new_finalizeMemory_def h s by blast
  have "gc_new_finalizePortalsCB (cenv c) (old_flags c cs a) a (s\<lparr>finalized := l\<rparr>) = Ok (s\<lparr>finalized := l @ portal_events c cs a\<rparr>)"
    if a: "a \<in> set (objs c)" for a l
  proof -
    have "gmem s (a + 3) = m0 c (a + 3)" "gmem s (a + 4) = m0 c (a + 4)" "gmem s (a + 5) = m0 c (a + 5)" if "m0 c a = OBJFLAGS_PORTAL"
      by (rule old_word [OF wf inv a], use obj_bounds(6) [OF wf a] that in \<open>auto simp: kept_end_def objflags\<close>)+
    then show ?thesis using old_flags_masks [OF wf a] by (simp add: gc_new_finalizePortalsCB_def portal_events_def Let_def)
  qed
  from report_walk [where handle = "gc_new_finalizePortalsCB (cenv c)", OF wf inv this lay _ N, of "finalized s"]
  show "gc_new_finalizePortals N (cenv c) s = Ok (s\<lparr>finalized := finalized s @ concat (map (portal_events c cs) (objs c))\<rparr>)"
    unfolding gc_new_finalizePortals_def h s by blast
qed

subsection \<open>The collection\<close>

lemma collection_ok:
  assumes wf: "gc_wf c" and r: "roots_wf c r" and s: "gc_start c s" and N: "length (objs c) < N"
  obtains cs s2 where "gc_inv c cs (slots_of c cs) (fst ` set (rts c)) s2" "same_rest s s2"
    "gc_new_gc N (cenv c) r s = Ok (swap_heaps (s2\<lparr>finalized := finalized s @
       concat (map (memory_events c cs) (objs c)) @ concat (map (portal_events c cs) (objs c))\<rparr>))"
proof -
  obtain cs s1 s2 where 1: "walkRootSet (cenv c) r s = Ok s1"
    "gc_walkContinuesBlock N (cenv c) heapTop2 (gc_new_scan_heap2 (cenv c)) (heap2 s1) s1 = Ok s2"
    "gc_inv c cs (slots_of c cs) (fst ` set (rts c)) s2" "same_rest s s2" using trace_ok [OF assms] by blast
  have f: "finalized s2 = finalized s" using 1(4) by (simp add: same_rest_def)
  let ?s3 = "s2\<lparr>finalized := finalized s2 @ concat (map (memory_events c cs) (objs c))\<rparr>"
  have "gc_inv c cs (slots_of c cs) (fst ` set (rts c)) ?s3" using 1(3) by simp
  then have "gc_new_gc N (cenv c) r s = Ok (swap_heaps (s2\<lparr>finalized := finalized s @
       concat (map (memory_events c cs) (objs c)) @ concat (map (portal_events c cs) (objs c))\<rparr>))"
    using 1(1,2) finalize_ok(1) [OF wf 1(3) N] finalize_ok(2) [OF wf _ N] f by (simp add: gc_new_gc_def)
  with 1(3,4) show ?thesis by (rule that)
qed

subsection \<open>The heap after the collection\<close>

text \<open>Specification of the memory after a collection of \<open>c\<close> that copied \<open>cs\<close>.\<close>

definition heap_copied :: "collection \<Rightarrow> nat list \<Rightarrow> words \<Rightarrow> bool" where
  "heap_copied c cs m' \<longleftrightarrow>
     (\<forall>a n. fwd c cs a = Some n \<longrightarrow> m' n = m0 c a \<and> m' (n + 1) = MAGIC_OBJECT \<and>
       (\<forall>k. 2 \<le> k \<and> k < kept_end (cenv c) (m0 c) a \<longrightarrow>
         m' (n + k) = (if k \<in> fst ` set (slots c a) then tr (fwd c cs) (disp c a k) (m0 c (a + k)) else m0 c (a + k)))) \<and>
     (\<forall>(p, d) \<in> set (rts c). m' p = tr (fwd c cs) d (m0 c p)) \<and>
     (\<forall>x. outside c x \<longrightarrow> m' x = m0 c x)"

lemma heap_copied_inv:
  assumes "gc_inv c cs (slots_of c cs) (fst ` set (rts c)) s"
  shows "heap_copied c cs (gmem s)"
proof -
  note I = gc_invD [OF assms]
  have "(a, k) \<in> slots_of c cs \<longleftrightarrow> k \<in> fst ` set (slots c a)" if "fwd c cs a = Some n" for a k n
    using place_None [of "osize c" "base c" cs a] that by (force simp: slots_of_def of_slots_def)
  then have "gmem s n = m0 c a \<and> gmem s (n + 1) = MAGIC_OBJECT \<and> (\<forall>k. 2 \<le> k \<and> k < kept_end (cenv c) (m0 c) a \<longrightarrow>
      gmem s (n + k) = (if k \<in> fst ` set (slots c a) then tr (fwd c cs) (disp c a k) (m0 c (a + k)) else m0 c (a + k)))"
    if "fwd c cs a = Some n" for a n using copies_okD [OF I(2) that] that by simp
  moreover have "\<forall>(p, d) \<in> set (rts c). gmem s p = tr (fwd c cs) d (m0 c p)" using I(3) unfolding roots_ok_def by force
  ultimately show ?thesis using outside_word [OF assms] unfolding heap_copied_def by blast
qed

lemma heap_copiedD:
  assumes "heap_copied c cs m'"
  shows "fwd c cs a = Some n \<Longrightarrow> m' n = m0 c a" "fwd c cs a = Some n \<Longrightarrow> m' (n + 1) = MAGIC_OBJECT"
    "fwd c cs a = Some n \<Longrightarrow> 2 \<le> k \<Longrightarrow> k < kept_end (cenv c) (m0 c) a \<Longrightarrow> k \<notin> fst ` set (slots c a) \<Longrightarrow> m' (n + k) = m0 c (a + k)"
    "fwd c cs a = Some n \<Longrightarrow> 2 \<le> k \<Longrightarrow> k < kept_end (cenv c) (m0 c) a \<Longrightarrow> (k, d) \<in> set (slots c a) \<Longrightarrow> m' (n + k) = tr (fwd c cs) d (m0 c (a + k))"
    "(p, d) \<in> set (rts c) \<Longrightarrow> m' p = tr (fwd c cs) d (m0 c p)"
    "outside c x \<Longrightarrow> m' x = m0 c x"
proof -
  show "fwd c cs a = Some n \<Longrightarrow> m' n = m0 c a" "fwd c cs a = Some n \<Longrightarrow> m' (n + 1) = MAGIC_OBJECT"
    "fwd c cs a = Some n \<Longrightarrow> 2 \<le> k \<Longrightarrow> k < kept_end (cenv c) (m0 c) a \<Longrightarrow> k \<notin> fst ` set (slots c a) \<Longrightarrow> m' (n + k) = m0 c (a + k)"
    "(p, d) \<in> set (rts c) \<Longrightarrow> m' p = tr (fwd c cs) d (m0 c p)" "outside c x \<Longrightarrow> m' x = m0 c x"
    using assms unfolding heap_copied_def by fastforce+
  assume k: "fwd c cs a = Some n" "2 \<le> k" "k < kept_end (cenv c) (m0 c) a" "(k, d) \<in> set (slots c a)"
  then have "k \<in> fst ` set (slots c a)" by force
  then have "m' (n + k) = tr (fwd c cs) (disp c a k) (m0 c (a + k))" using assms k(1-3) unfolding heap_copied_def by presburger
  then show "m' (n + k) = tr (fwd c cs) d (m0 c (a + k))" using disp_eq [OF k(4)] by simp
qed

text \<open>The next collection finds the copies in the order in which they were made.\<close>

definition after :: "collection \<Rightarrow> nat list \<Rightarrow> words \<Rightarrow> collection" where
  "after c cs m' = c\<lparr>m0 := m', objs := map (\<lambda>a. the (fwd c cs a)) cs, hbeg := base c,
     hend := base c + sum_list (map (osize c) cs), base := hbeg c\<rparr>"

lemma after_simps [simp]:
  "cenv (after c cs m') = cenv c" "m0 (after c cs m') = m'" "objs (after c cs m') = map (\<lambda>a. the (fwd c cs a)) cs"
  "hbeg (after c cs m') = base c" "hend (after c cs m') = base c + sum_list (map (osize c) cs)" "base (after c cs m') = hbeg c"
  "rts (after c cs m') = rts c"
  by (simp_all add: after_def)

lemma copy_shape:
  assumes wf: "gc_wf c" and cs: "distinct cs" "set cs \<subseteq> set (objs c)" and h: "heap_copied c cs m'" and n: "fwd c cs a = Some n"
  shows "obj_ok (cenv c) m' n" "obj_size (cenv c) m' n = osize c a" "obj_slots (cenv c) m' n = slots c a"
proof -
  note ao = subsetD [OF cs(2) fwd_bounds(1) [OF wf cs n]] and H = heap_copiedD [OF h]
  note ok = gc_wfD(7) [OF wf ao]
  note ok' = ok [unfolded obj_ok_def]
  have kind: "m0 c a \<in> set heap_kinds" using ok' by simp
  have nosl: "2 \<notin> fst ` set (slots c a)" using slots_range(1) [OF ok, of 2] by force
  have low: "m' n = m0 c a" "m' (n + 1) = MAGIC_OBJECT" "m0 c (a + 1) = MAGIC_OBJECT" using H(1,2) [OF n] ok' by simp_all
  have "2 < kept_end (cenv c) (m0 c) a" by (simp add: kept_end_def Let_def split: option.split)
  then have two: "m' (n + 2) = m0 c (a + 2)" using H(3) [OF n _ _ nosl] by simp
  have ar: "m' (n + 3) = m0 c (a + 3)" "m' (n + 4) = m0 c (a + 4)" if "m0 c a = OBJFLAGS_ARRAY"
    by (rule H(3) [OF n], use that in \<open>auto simp: obj_slots_def kept_end_def objflags split: if_splits\<close>)+
  have me: "m' (n + 5) = m0 c (a + 5)" if "m0 c a = OBJFLAGS_MEMORY"
    by (rule H(3) [OF n]) (use that in \<open>auto simp: obj_slots_def kept_end_def objflags\<close>)
  have se: "m' (n + 15) = m0 c (a + 15)" if "m0 c a = OBJFLAGS_SERVICE"
    by (rule H(3) [OF n]) (use that in \<open>auto simp: obj_slots_def kept_end_def objflags\<close>)
  have th: "m' (n + i) = m0 c (a + i)" if k: "m0 c a = OBJFLAGS_CPUSTATE" and i: "i \<in> {6, 29, 30, 32, 33, 63, 67}" for i
    by (rule H(3) [OF n]) (use tcb_shape(6,7) [OF wf ao k] i in auto)
  have quiet: "tcb_quiet (cenv c) m' n" if k: "m0 c a = OBJFLAGS_CPUSTATE"
  proof -
    note T = tcb_shape [OF wf ao k]
    have p: "points c 32 (m0 c (a + 3)) a" "(3, 32) \<in> set (slots c a)" using T(1,7) ao by (simp_all add: points_def)
    have "m0 c (a + 3) \<noteq> 0" by (rule context_nonzero [OF wf ao k])
    then have "m' (n + 3) = obj_ref n + 32" using H(4) [OF n _ _ p(2)] tr_points [OF wf p(1) _ n] T(6) by simp
    then show ?thesis using th [OF k] T(2-5) by (simp add: tcb_quiet_def)
  qed
  show "obj_ok (cenv c) m' n" unfolding obj_ok_def low(1) two using ok' low ar me se quiet by auto
  have "walk_size (cenv c) m' n (m0 c a) = walk_size (cenv c) (m0 c) a (m0 c a)"
    by (rule walk_size_cong [OF kind]) (use low two ar in simp_all)
  then show "obj_size (cenv c) m' n = osize c a" by (simp add: obj_size_def low(1))
  show "obj_slots (cenv c) m' n = slots c a" unfolding obj_slots_def Let_def low(1) two using ar th by simp
qed

lemma laid_out_places:
  "distinct cs \<Longrightarrow> (\<forall>a \<in> set cs. 0 < sz a \<and> sz' (the (place sz b cs a)) = sz a) \<Longrightarrow>
   laid_out sz' b (map (\<lambda>a. the (place sz b cs a)) cs) (b + sum_list (map sz cs))"
proof (induction cs arbitrary: b)
  case (Cons x xs)
  have eq: "map (\<lambda>a. the (place sz b (x # xs) a)) xs = map (\<lambda>a. the (place sz (b + sz x) xs a)) xs"
    using Cons.prems(1) by auto
  have "\<forall>a \<in> set xs. 0 < sz a \<and> sz' (the (place sz (b + sz x) xs a)) = sz a"
  proof
    fix a assume a: "a \<in> set xs"
    then have "a \<noteq> x" using Cons.prems(1) by auto
    then show "0 < sz a \<and> sz' (the (place sz (b + sz x) xs a)) = sz a" using bspec [OF Cons.prems(2), of a] a by simp
  qed
  then have "laid_out sz' (b + sz x) (map (\<lambda>a. the (place sz b (x # xs) a)) xs) (b + sz x + sum_list (map sz xs))"
    unfolding eq using Cons.IH Cons.prems(1) by simp
  then show ?case using Cons.prems(2) by (simp add: add.assoc)
qed simp

definition collected :: "collection \<Rightarrow> nat list \<Rightarrow> words \<Rightarrow> bool" where
  "collected c cs m' \<longleftrightarrow> distinct cs \<and> (\<forall>a. a \<in> set cs \<longleftrightarrow> reachable c a) \<and> heap_copied c cs m'"

lemma collectedD:
  assumes "collected c cs m'"
  shows "distinct cs" "set cs \<subseteq> set (objs c)" "heap_copied c cs m'" "reachable c a \<Longrightarrow> a \<in> set cs" "a \<in> set cs \<Longrightarrow> reachable c a"
  using assms reachable_objs unfolding collected_def by blast+

lemma after_spaces:
  assumes wf: "gc_wf c" and col: "collected c cs m'"
  shows "from_space (after c cs m') \<subseteq> target_space c" "target_space (after c cs m') \<subseteq> from_space c"
  using target_sum [OF wf collectedD(1,2) [OF col]] laid_out_sum [OF gc_wfD(1) [OF wf]] by (auto simp: from_space_def target_space_def)

lemma after_outside: "gc_wf c \<Longrightarrow> collected c cs m' \<Longrightarrow> outside c x \<Longrightarrow> outside (after c cs m') x"
  using after_spaces [of c cs m'] by (auto simp: outside_def)

lemma outside_after: "gc_wf c \<Longrightarrow> collected c cs m' \<Longrightarrow> outside c x \<Longrightarrow> m' x = m0 c x"
  using heap_copiedD(6) [OF collectedD(3)] by blast

lemma after_external:
  assumes wf: "gc_wf c" and col: "collected c cs m'" and e: "external c v"
  shows "external (after c cs m') v" "tr (fwd c cs) 0 v = v"
proof -
  note E = e [unfolded external_def Let_def]
  have o': "outside c (obj_start v)" using E unfolding outside_def by blast
  show "external (after c cs m') v"
    using E after_outside [OF wf col o'] outside_after [OF wf col o'] unfolding external_def Let_def outside_def by simp
  have "obj_start v \<notin> set cs" using o' collectedD(2) [OF col] obj_bounds(1,2,5) [OF wf, of "obj_start v"]
    by (fastforce simp: outside_def from_space_def)
  then show "tr (fwd c cs) 0 v = v" by (simp add: tr_def)
qed

lemma after_points:
  assumes wf: "gc_wf c" and col: "collected c cs m'" and p: "points c d v ob" "v \<noteq> 0" and re: "reachable c ob"
  obtains n where "fwd c cs ob = Some n" "points (after c cs m') d (tr (fwd c cs) d v) n" "m' n = m0 c ob" "tr (fwd c cs) d v = obj_ref n + d"
proof -
  have ob: "ob \<in> set cs" using collectedD(4) [OF col re] .
  obtain n where n: "fwd c cs ob = Some n" using place_Some [OF ob] by blast
  have "n \<in> set (objs (after c cs m'))" using ob n by force
  then show ?thesis using that n tr_points [OF wf p n] heap_copiedD(1) [OF collectedD(3) [OF col] n] by (simp add: points_def)
qed

lemma after_slot:
  assumes wf: "gc_wf c" and col: "collected c cs m'" and ok: "slot_ok c d v" and re: "\<And>ob. points c d v ob \<Longrightarrow> reachable c ob"
  shows "slot_ok (after c cs m') d (tr (fwd c cs) d v)"
proof -
  consider "v = 0" | "d = 0" "v \<le> 0xfff" | "d = 0" "external c v"
    | ob where "v \<noteq> 0" "points c d v ob" "d = 4 \<longrightarrow> m0 c ob = OBJFLAGS_CPUSTATE" using ok unfolding slot_ok_def by blast
  then show ?thesis
  proof cases
    case 3
    then show ?thesis using after_external [OF wf col] by (simp add: slot_ok_def)
  next
    case 4
    obtain n where "points (after c cs m') d (tr (fwd c cs) d v) n" "m' n = m0 c ob"
      using after_points [OF wf col 4(2,1) re [OF 4(2)]] by blast
    then show ?thesis unfolding slot_ok_def after_simps using 4(3) by metis
  qed (simp_all add: slot_ok_def tr_def)
qed

lemma after_obj:
  assumes wf: "gc_wf c" and col: "collected c cs m'" and n: "n \<in> set (objs (after c cs m'))"
  obtains a where "fwd c cs a = Some n" "a \<in> set cs" "reachable c a" "a \<in> set (objs c)" "obj_ok (cenv c) m' n"
    "obj_size (cenv c) m' n = osize c a" "obj_slots (cenv c) m' n = slots c a" "m' n = m0 c a"
proof -
  note C = collectedD [OF col]
  obtain a where a: "a \<in> set cs" "n = the (fwd c cs a)" using n by auto
  then have "fwd c cs a = Some n" using place_Some by fastforce
  then show ?thesis using that a(1) C(2) C(5) [OF a(1)] copy_shape [OF wf C(1-3)] heap_copiedD(1) [OF C(3)] by blast
qed

lemma after_layout:
  assumes wf: "gc_wf c" and col: "collected c cs m'"
  shows "laid_out (osize (after c cs m')) (base c) (objs (after c cs m')) (hend (after c cs m'))"
  unfolding after_simps
proof (rule laid_out_places)
  note C = collectedD [OF col]
  show "distinct cs" by (rule C(1))
  show "\<forall>a \<in> set cs. 0 < osize c a \<and> obj_size (cenv c) m' (the (fwd c cs a)) = osize c a"
  proof
    fix a assume a: "a \<in> set cs"
    then obtain n where n: "fwd c cs a = Some n" using place_Some by blast
    have "4 \<le> osize c a" using obj_bounds(5) [OF wf] a C(2) by blast
    then show "0 < osize c a \<and> obj_size (cenv c) m' (the (fwd c cs a)) = osize c a" using copy_shape(2) [OF wf C(1-3) n] n by simp
  qed
qed

text \<open>The new heap is well-formed: its objects, then the rest.\<close>

lemma after_obj_wf:
  assumes wf: "gc_wf c" and col: "collected c cs m'" and n: "n \<in> set (objs (after c cs m'))"
  shows "obj_ok (cenv c) m' n" "(k, d) \<in> set (obj_slots (cenv c) m' n) \<Longrightarrow> slot_ok (after c cs m') d (m' (n + k))"
    "m' n = OBJFLAGS_CPUSTATE \<Longrightarrow> m' (n + 28) = 0 \<or> (\<exists>ob. points (after c cs m') 0 (m' (n + 28)) ob \<and> m' ob = OBJFLAGS_SERVICE)"
proof -
  note H = heap_copiedD [OF collectedD(3) [OF col]]
  obtain a where a: "fwd c cs a = Some n" "a \<in> set cs" "reachable c a" "a \<in> set (objs c)" "obj_ok (cenv c) m' n"
    "obj_slots (cenv c) m' n = slots c a" "m' n = m0 c a" by (rule after_obj [OF wf col n])
  show "obj_ok (cenv c) m' n" by (rule a(5))
  have val: "m' (n + k) = tr (fwd c cs) d (m0 c (a + k))" if "(k, d) \<in> set (slots c a)" for k d
    using H(4) [OF a(1) _ _ that] slots_range [OF gc_wfD(7) [OF wf a(4)] that] by simp
  show "slot_ok (after c cs m') d (m' (n + k))" if "(k, d) \<in> set (obj_slots (cenv c) m' n)"
  proof -
    have k: "(k, d) \<in> set (slots c a)" using that a(6) by simp
    show ?thesis unfolding val [OF k] by (rule after_slot [OF wf col gc_wfD(8) [OF wf a(4) k]]) (rule reach_obj [OF a(3) k])
  qed
  show "m' (n + 28) = 0 \<or> (\<exists>ob. points (after c cs m') 0 (m' (n + 28)) ob \<and> m' ob = OBJFLAGS_SERVICE)" if "m' n = OBJFLAGS_CPUSTATE"
  proof -
    have k: "m0 c a = OBJFLAGS_CPUSTATE" using that a(7) by simp
    have sl: "(28, 0) \<in> set (slots c a)" unfolding tcb_shape(7) [OF wf a(4) k] by simp
    show ?thesis
    proof (cases "m0 c (a + 28) = 0")
      case True
      then show ?thesis using val [OF sl] by (simp add: tr_def)
    next
      case False
      obtain ob where ob: "points c 0 (m0 c (a + 28)) ob" "m0 c ob = OBJFLAGS_SERVICE" using gc_wfD(9) [OF wf a(4) k False] by blast
      obtain n' where "points (after c cs m') 0 (tr (fwd c cs) 0 (m0 c (a + 28))) n'" "m' n' = m0 c ob"
        by (rule after_points [OF wf col ob(1) False reach_obj [OF a(3) sl ob(1)]])
      then show ?thesis using val [OF sl] ob(2) by auto
    qed
  qed
qed

lemma after_wf:
  assumes wf: "gc_wf c" and col: "collected c cs m'"
  shows "gc_wf (after c cs m')"
proof -
  note C = collectedD [OF col] and w = wf [unfolded gc_wf_def]
  note H = heap_copiedD [OF C(3)]
  have sum: "sum_list (map (osize c) cs) \<le> hend c - hbeg c" by (rule target_sum [OF wf C(1,2)])
  have "1022 \<le> base c" "hend c + 5 < 1073741824" using w by - (elim conjE, assumption)+
  moreover have "from_space c \<inter> target_space c = {}" using w by (elim conjE)
  then have "from_space (after c cs m') \<inter> target_space (after c cs m') = {}" using after_spaces [OF wf col] by blast
  moreover have "\<forall>n \<in> set (objs (after c cs m')). obj_ok (cenv c) m' n \<and> (\<forall>(k, d) \<in> set (obj_slots (cenv c) m' n). slot_ok (after c cs m') d (m' (n + k))) \<and>
      (m' n = OBJFLAGS_CPUSTATE \<longrightarrow> m' (n + 28) = 0 \<or> (\<exists>ob. points (after c cs m') 0 (m' (n + 28)) ob \<and> m' ob = OBJFLAGS_SERVICE))"
    using after_obj_wf [OF wf col] by blast
  moreover have "(d = 0 \<or> d = 4) \<and> slot_ok (after c cs m') d (m' p) \<and> p \<notin> from_space (after c cs m') \<and> p \<notin> target_space (after c cs m')"
    if p: "(p, d) \<in> set (rts c)" for p d
  proof -
    have P: "(d = 0 \<or> d = 4) \<and> slot_ok c d (m0 c p) \<and> p \<notin> from_space c \<and> p \<notin> target_space c"
      using w p by (elim conjE) (drule (1) bspec, simp)
    have "slot_ok (after c cs m') d (m' p)" unfolding H(5) [OF p] by (rule after_slot [OF wf col]) (use P reach_root [OF p] in auto)
    then show ?thesis using P after_spaces [OF wf col] by blast
  qed
  then have "\<forall>(p, d) \<in> set (rts c). (d = 0 \<or> d = 4) \<and> slot_ok (after c cs m') d (m' p) \<and> p \<notin> from_space (after c cs m') \<and> p \<notin> target_space (after c cs m')"
    by blast
  moreover have "base c + sum_list (map (osize c) cs) + 5 < 1073741824" "hbeg c + (base c + sum_list (map (osize c) cs) - base c) + 5 < 1073741824"
    using sum gc_wfD(4) [OF wf] laid_out_sum [OF gc_wfD(1) [OF wf]] \<open>hend c + 5 < 1073741824\<close> by simp_all
  ultimately show ?thesis
    using after_layout [OF wf col] gc_wfD(2,6) [OF wf] unfolding gc_wf_def after_simps by (intro conjI) assumption+
qed

lemma obj_ref_not_all_ones: "obj_ref n \<noteq> 0xffffffff"
proof -
  have "\<not> bit (obj_ref n) 0" by (simp add: obj_ref_push bit_push_bit_iff)
  then show ?thesis by (metis bit_numeral_Bit1_0)
qed

lemma after_root:
  assumes wf: "gc_wf c" and col: "collected c cs m'" and p: "(p, d) \<in> set (rts c)" and q: "points c d (m0 c p) ob" "m0 c p \<noteq> 0"
  obtains n where "fwd c cs ob = Some n" "m' p = obj_ref n + d" "points (after c cs m') d (m' p) n" "m' n = m0 c ob" "m' p \<noteq> 0"
proof -
  obtain n where n: "fwd c cs ob = Some n" "points (after c cs m') d (tr (fwd c cs) d (m0 c p)) n" "m' n = m0 c ob"
    "tr (fwd c cs) d (m0 c p) = obj_ref n + d" by (rule after_points [OF wf col q reach_root [OF p q(1)]])
  have "n + 4 \<le> base c + (hend c - hbeg c)" by (rule fwd_bounds(5) [OF wf collectedD(1,2) [OF col] n(1)])
  then have "n + 3 < 1073741824" using gc_wfD(4) [OF wf] by simp
  then have "obj_ref n + d \<noteq> 0" using obj_ref_nonzero gc_wfD(10) [OF wf p] by blast
  then show ?thesis using that n heap_copiedD(5) [OF collectedD(3) [OF col] p] by simp
qed

lemma after_portals:
  assumes wf: "gc_wf c" and col: "collected c cs m'" and r: "roots_wf c r" and p: "p \<in> set (table (service_table r) MAX_SERVICE_ENTRIES)"
  shows "m' p = 0 \<or> m' p = 0xffffffff \<longleftrightarrow> m0 c p = 0 \<or> m0 c p = 0xffffffff"
    "if m' p = 0 \<or> m' p = 0xffffffff then outside (after c cs m') p else \<exists>ob. points (after c cs m') 0 (m' p) ob \<and> m' ob = OBJFLAGS_SERVICE"
proof -
  have P: "if m0 c p = 0 \<or> m0 c p = 0xffffffff then outside c p else \<exists>ob. points c 0 (m0 c p) ob \<and> m0 c ob = OBJFLAGS_SERVICE"
    using r p unfolding roots_wf_def by blast
  have *: "(m' p = 0 \<or> m' p = 0xffffffff \<longleftrightarrow> m0 c p = 0 \<or> m0 c p = 0xffffffff) \<and>
    (if m' p = 0 \<or> m' p = 0xffffffff then outside (after c cs m') p else \<exists>ob. points (after c cs m') 0 (m' p) ob \<and> m' ob = OBJFLAGS_SERVICE)"
  proof (cases "m0 c p = 0 \<or> m0 c p = 0xffffffff")
    case True
    then have "outside c p" using P by simp
    then show ?thesis using True outside_after [OF wf col] after_outside [OF wf col] by simp
  next
    case False
    then obtain ob where ob: "points c 0 (m0 c p) ob" "m0 c ob = OBJFLAGS_SERVICE" using P by auto
    have "rts c = root_slots (cenv c) (m0 c) r" using r by (simp add: roots_wf_def)
    then have "(p, 0) \<in> set (rts c)" using p False unfolding root_slots_def portal_slots_def set_append ref_slots_mem by simp
    then obtain n where "m' p = obj_ref n + 0" "points (after c cs m') 0 (m' p) n" "m' n = m0 c ob" "m' p \<noteq> 0"
      by (rule after_root [OF wf col _ ob(1)]) (use False in simp)
    then show ?thesis using False ob(2) obj_ref_not_all_ones by auto
  qed
  then show "m' p = 0 \<or> m' p = 0xffffffff \<longleftrightarrow> m0 c p = 0 \<or> m0 c p = 0xffffffff"
    "if m' p = 0 \<or> m' p = 0xffffffff then outside (after c cs m') p else \<exists>ob. points (after c cs m') 0 (m' p) ob \<and> m' ob = OBJFLAGS_SERVICE"
    by blast+
qed

lemma after_switch:
  assumes wf: "gc_wf c" and col: "collected c cs m'" and r: "roots_wf c r"
  shows "switch_slots (cenv c) m' (switchBackTo r) = switch_slots (cenv c) (m0 c) (switchBackTo r)"
    "if m' (switchBackTo r) = 0 then outside (after c cs m') (switchBackTo r)
      else if m' (waddr (m' (switchBackTo r)) + 4) = own_domain (cenv c)
        then \<exists>ob. points (after c cs m') 4 (m' (switchBackTo r)) ob \<and> m' ob = OBJFLAGS_CPUSTATE
        else outside (after c cs m') (switchBackTo r) \<and> outside (after c cs m') (waddr (m' (switchBackTo r)) + 4)"
proof -
  let ?p = "switchBackTo r" and ?c' = "after c cs m'"
  have P: "if m0 c ?p = 0 then outside c ?p else if m0 c (waddr (m0 c ?p) + 4) = own_domain (cenv c)
    then \<exists>ob. points c 4 (m0 c ?p) ob \<and> m0 c ob = OBJFLAGS_CPUSTATE
    else outside c ?p \<and> outside c (waddr (m0 c ?p) + 4)" using r unfolding roots_wf_def by blast
  have rts: "rts c = root_slots (cenv c) (m0 c) r" using r by (simp add: roots_wf_def)
  have *: "switch_slots (cenv c) m' ?p = switch_slots (cenv c) (m0 c) ?p \<and>
    (if m' ?p = 0 then outside ?c' ?p else if m' (waddr (m' ?p) + 4) = own_domain (cenv c)
        then \<exists>ob. points ?c' 4 (m' ?p) ob \<and> m' ob = OBJFLAGS_CPUSTATE else outside ?c' ?p \<and> outside ?c' (waddr (m' ?p) + 4))"
  proof (cases "m0 c ?p \<noteq> 0 \<and> m0 c (waddr (m0 c ?p) + 4) = own_domain (cenv c)")
    case False
    then have "outside c ?p" "m0 c ?p \<noteq> 0 \<Longrightarrow> outside c (waddr (m0 c ?p) + 4)" using P by (auto split: if_splits)
    then show ?thesis using False outside_after [OF wf col] after_outside [OF wf col] by (auto simp: switch_slots_def)
  next
    case True
    then obtain ob where ob: "points c 4 (m0 c ?p) ob" "m0 c ob = OBJFLAGS_CPUSTATE" using P by auto
    have "(?p, 4) \<in> set (rts c)" using True unfolding rts root_slots_def switch_slots_def set_append by simp
    then obtain n where n: "fwd c cs ob = Some n" "m' ?p = obj_ref n + 4" "points ?c' 4 (m' ?p) n" "m' n = m0 c ob" "m' ?p \<noteq> 0"
      by (rule after_root [OF wf col _ ob(1)]) (use True in simp)
    have obj: "ob \<in> set (objs c)" using ob(1) by (simp add: points_def)
    note T = tcb_shape [OF wf obj ob(2)] and B = obj_bounds [OF wf obj]
    have "waddr (m0 c ?p) + 4 = ob + 7"
      using ob(1) waddr_obj_ref [of "ob + 1"] B(2,6) T(6) gc_wfD(3) [OF wf] by (simp add: points_def obj_ref_def)
    moreover have "n + 4 \<le> base c + (hend c - hbeg c)" by (rule fwd_bounds(5) [OF wf collectedD(1,2) [OF col] n(1)])
    then have "waddr (m' ?p) + 4 = n + 7" using n(2) waddr_obj_ref [of "n + 1"] gc_wfD(4) [OF wf] by (simp add: obj_ref_def)
    moreover have "m' (n + 7) = m0 c (ob + 7)" by (rule heap_copiedD(3) [OF collectedD(3) [OF col] n(1)]) (use T(6,7) in auto)
    ultimately have "m' (waddr (m' ?p) + 4) = m0 c (waddr (m0 c ?p) + 4)" by metis
    then show ?thesis using True n(3-5) ob(2) by (auto simp: switch_slots_def)
  qed
  then show "switch_slots (cenv c) m' ?p = switch_slots (cenv c) (m0 c) ?p"
    "if m' ?p = 0 then outside ?c' ?p else if m' (waddr (m' ?p) + 4) = own_domain (cenv c)
        then \<exists>ob. points ?c' 4 (m' ?p) ob \<and> m' ob = OBJFLAGS_CPUSTATE else outside ?c' ?p \<and> outside ?c' (waddr (m' ?p) + 4)"
    by blast+
qed

lemma after_root_set:
  assumes wf: "gc_wf c" and col: "collected c cs m'" and p: "(p, d) \<in> set (rts c)" "m0 c p \<noteq> 0"
  shows "m' p \<noteq> 0"
proof -
  have P: "slot_ok c d (m0 c p)" using gc_wfD(10) [OF wf p(1)] by blast
  consider "d = 0" "m0 c p \<le> 0xfff" | "d = 0" "external c (m0 c p)" | ob where "points c d (m0 c p) ob"
    using P p(2) unfolding slot_ok_def by blast
  then show ?thesis
  proof cases
    case 1
    then show ?thesis using heap_copiedD(5) [OF collectedD(3) [OF col] p(1)] p(2) by (simp add: tr_def)
  next
    case 2
    then show ?thesis using heap_copiedD(5) [OF collectedD(3) [OF col] p(1)] after_external(2) [OF wf col] p(2) by simp
  next
    case 3
    then show ?thesis using after_root [OF wf col p(1) _ p(2)] by blast
  qed
qed

lemma after_irq:
  assumes wf: "gc_wf c" and col: "collected c cs m'" and r: "roots_wf c r" and v: "(p, dm) \<in> set (irq_objects r)"
  shows "m' dm = m0 c dm" "m' p \<noteq> 0 \<and> m' dm = own_domain (cenv c) \<longleftrightarrow> m0 c p \<noteq> 0 \<and> m0 c dm = own_domain (cenv c)"
    "outside (after c cs m') dm" "m' p = 0 \<or> m' dm \<noteq> own_domain (cenv c) \<Longrightarrow> outside (after c cs m') p"
proof -
  have P: "outside c dm \<and> (m0 c p = 0 \<or> m0 c dm \<noteq> own_domain (cenv c) \<longrightarrow> outside c p)" using r v unfolding roots_wf_def by blast
  show dm: "m' dm = m0 c dm" "outside (after c cs m') dm" using outside_after [OF wf col] after_outside [OF wf col] P by blast+
  have rts: "rts c = root_slots (cenv c) (m0 c) r" using r by (simp add: roots_wf_def)
  show eq: "m' p \<noteq> 0 \<and> m' dm = own_domain (cenv c) \<longleftrightarrow> m0 c p \<noteq> 0 \<and> m0 c dm = own_domain (cenv c)"
  proof (cases "m0 c p \<noteq> 0 \<and> m0 c dm = own_domain (cenv c)")
    case True
    then have "p \<in> set (irq_slots (cenv c) (m0 c) (irq_objects r))" using v by (force simp: irq_slots_def)
    then have "(p, 0) \<in> set (rts c)" unfolding rts root_slots_def set_append by simp
    then show ?thesis using after_root_set [OF wf col, of p 0] True dm by simp
  next
    case False
    then have "m' p = m0 c p" using outside_after [OF wf col] P by blast
    then show ?thesis using dm by simp
  qed
  show "m' p = 0 \<or> m' dm \<noteq> own_domain (cenv c) \<Longrightarrow> outside (after c cs m') p" using eq P after_outside [OF wf col] by blast
qed

text \<open>The roots meet the assumptions of the collector again.\<close>

lemma after_roots:
  assumes wf: "gc_wf c" and col: "collected c cs m'" and r: "roots_wf c r"
  shows "roots_wf (after c cs m') r"
proof -
  let ?T = "table (service_table r) MAX_SERVICE_ENTRIES"
  have rts: "rts c = root_slots (cenv c) (m0 c) r" using r by (simp add: roots_wf_def)
  have "(curthrP r, 4) \<in> set (rts c)" unfolding rts root_slots_def set_append by simp
  then have cur: "m' (curthrP r) \<noteq> 0" using after_root_set [OF wf col] r by (simp add: roots_wf_def)
  have "portal_slots m' ?T = portal_slots (m0 c) ?T"
    unfolding portal_slots_def by (rule filter_cong [OF refl]) (use after_portals(1) [OF wf col r] in blast)
  moreover have "irq_slots (cenv c) m' (irq_objects r) = irq_slots (cenv c) (m0 c) (irq_objects r)"
    unfolding irq_slots_def by (rule arg_cong [where f = "map fst"], rule filter_cong [OF refl]) (use after_irq(2) [OF wf col r] in auto)
  ultimately have "rts c = root_slots (cenv c) m' r" unfolding rts root_slots_def using after_switch(1) [OF wf col r] by simp
  moreover have "\<forall>p \<in> set ?T. if m' p = 0 \<or> m' p = 0xffffffff then outside (after c cs m') p
      else \<exists>ob. points (after c cs m') 0 (m' p) ob \<and> m' ob = OBJFLAGS_SERVICE"
    using after_portals(2) [OF wf col r] by blast
  moreover have "\<forall>(p, dm) \<in> set (irq_objects r). outside (after c cs m') dm \<and>
      (m' p = 0 \<or> m' dm \<noteq> own_domain (cenv c) \<longrightarrow> outside (after c cs m') p)"
    using after_irq(3,4) [OF wf col r] by blast
  ultimately show ?thesis using after_switch(2) [OF wf col r] cur unfolding roots_wf_def after_simps by (intro conjI) assumption+
qed

lemma slot_nonzero:
  assumes wf: "gc_wf c" and a: "a \<in> set (objs c)" and k: "(k, d) \<in> set (slots c a)" "points c d (m0 c (a + k)) ob"
  shows "m0 c (a + k) \<noteq> 0"
proof (cases "d = 0 \<or> d = 4")
  case True
  then show ?thesis by (rule points_nonzero [OF wf k(2)])
next
  case False
  then have c: "m0 c a = OBJFLAGS_CPUSTATE" using slots_disp [of "m0 c" a "(k, d)"] k(1) by auto
  then have "k = 3" using k(1) False unfolding tcb_shape(7) [OF wf a c] by (auto split: if_splits)
  then show ?thesis using context_nonzero [OF wf a c] by simp
qed

text \<open>Every object of the new heap is reachable.\<close>

lemma after_reachable:
  assumes wf: "gc_wf c" and col: "collected c cs m'"
  shows "reachable c a \<Longrightarrow> fwd c cs a = Some n \<Longrightarrow> reachable (after c cs m') n"
proof (induction arbitrary: n rule: reachable.induct)
  case (reach_root p d ob)
  have nz: "m0 c p \<noteq> 0" using points_nonzero [OF wf reach_root(2)] gc_wfD(10) [OF wf reach_root(1)] by blast
  obtain k where "fwd c cs ob = Some k" "points (after c cs m') d (m' p) k" using after_root [OF wf col reach_root(1,2) nz] by blast
  then show ?case using reachable.reach_root [of p d "after c cs m'" n] reach_root(1,3) by simp
next
  case (reach_obj a k d ob)
  note C = collectedD [OF col]
  obtain b where b: "fwd c cs a = Some b" using place_Some [OF C(4) [OF reach_obj(1)]] by blast
  have re: "reachable (after c cs m') b" by (rule reach_obj(4) [OF b])
  note ao = reachable_objs [OF reach_obj(1)]
  have val: "m' (b + k) = tr (fwd c cs) d (m0 c (a + k))"
    using heap_copiedD(4) [OF C(3) b _ _ reach_obj(2)] slots_range [OF gc_wfD(7) [OF wf ao] reach_obj(2)] by simp
  have sl: "(k, d) \<in> set (slots (after c cs m') b)" using copy_shape(3) [OF wf C(1-3) b] reach_obj(2) by simp
  have nz: "m0 c (a + k) \<noteq> 0" by (rule slot_nonzero [OF wf ao reach_obj(2,3)])
  obtain n' where "fwd c cs ob = Some n'" "points (after c cs m') d (tr (fwd c cs) d (m0 c (a + k))) n'"
    using after_points [OF wf col reach_obj(3) nz reachable.reach_obj [OF reach_obj(1-3)]] by blast
  then show ?case using reachable.reach_obj [OF re sl, of n] val reach_obj(5) by simp
qed

subsection \<open>What a collection does\<close>

lemma collection_collected:
  assumes "gc_wf c" "roots_wf c r" "gc_start c s" "length (objs c) < N"
  obtains cs s' where "gc_new_gc N (cenv c) r s = Ok s'" "collected c cs (gmem s')" "heap s' = base c"
    "heapTop s' = base c + sum_list (map (osize c) cs)" "heapBorder s' = heapBorder2 s" "heap2 s' = hbeg c" "heapTop2 s' = hbeg c"
    "heapBorder2 s' = heapBorder s"
    "finalized s' = finalized s @ concat (map (memory_events c cs) (objs c)) @ concat (map (portal_events c cs) (objs c))"
proof -
  obtain cs s2 where s2: "gc_inv c cs (slots_of c cs) (fst ` set (rts c)) s2" "same_rest s s2"
    "gc_new_gc N (cenv c) r s = Ok (swap_heaps (s2\<lparr>finalized := finalized s @
       concat (map (memory_events c cs) (objs c)) @ concat (map (portal_events c cs) (objs c))\<rparr>))" by (rule collection_ok [OF assms])
  note I = gc_invD [OF s2(1)]
  have col: "collected c cs (gmem s2)" using copied_reachable [OF s2(1)] I(5) heap_copied_inv [OF s2(1)] by (simp add: collected_def)
  show ?thesis
    by (rule that [OF s2(3)]) (use col spaces_okD [OF I(1)] s2(2) in \<open>simp_all add: swap_heaps_def same_rest_def\<close>)
qed

text \<open>Which words of an object are not kept: the list mode of an atomic variable, the two dummy words of a memory
  proxy and the two words behind a thread descriptor.\<close>

definition lost_words :: "words \<Rightarrow> nat \<Rightarrow> nat" where
  "lost_words m a = (if m a = OBJFLAGS_ATOMVAR then 1 else if m a = OBJFLAGS_MEMORY \<or> m a = OBJFLAGS_CPUSTATE then 2 else 0)"

lemma kept_end_size:
  assumes "obj_ok env m a"
  shows "kept_end env m a + lost_words m a = obj_size env m a"
proof -
  note ok = assms [unfolded obj_ok_def]
  have arr: "m a = OBJFLAGS_ARRAY \<Longrightarrow> unat (m (a + 4) + 5) = unat (m (a + 4)) + 5" using ok by (simp add: unat_word_ariths)
  have k: "m a \<in> set heap_kinds" using ok by simp
  then show ?thesis
    unfolding obj_size_def walk_size_def Let_def heap_kind_masks(1) [OF k]
    by (cases rule: heap_kindE) (use ok arr in \<open>auto simp: object_size_def class_of_def check_class_def has_class_def fixed_size_def
      gc_objSize2_def assert_object_def OBJSIZE_ARRAY_def objsizes kept_end_def lost_words_def objflags gc_masks\<close>)
qed

text \<open>C3: A collection of a well-formed heap returns.  Exactly the objects reachable from the roots have been copied to the
  second semispace, one behind the other.  A copy has the words of its original, apart from the list mode of an atomic
  variable, the two dummy words of a memory proxy and the two words behind a thread descriptor; its references and those of
  the roots point to the copies of the objects they pointed to.  No word changes outside the roots, the objects of the heap,
  the space of their copies and three words behind each of the two, which copying an object may overrun.  The
  semispaces have changed their roles.  What \<^verbatim>\<open>memory_deleted\<close> and \<^verbatim>\<open>service_decRefcount\<close> do is not part of the statement: the
  finalization hands them the dead memory objects and portals, which is recorded as a list of events.\<close>

theorem gc_new_gc_copies:
  assumes "gc_wf c" "roots_wf c r" "gc_start c s" "length (objs c) < N"
  shows "\<exists>cs s'. gc_new_gc N (cenv c) r s = Ok s' \<and> distinct cs \<and> set cs = {a. reachable c a} \<and> heap_copied c cs (gmem s') \<and>
    (\<forall>a \<in> set cs. kept_end (cenv c) (m0 c) a + lost_words (m0 c) a = osize c a) \<and>
    heap s' = base c \<and> heapTop s' = base c + sum_list (map (osize c) cs) \<and> heapBorder s' = heapBorder2 s \<and>
    heap2 s' = hbeg c \<and> heapTop2 s' = hbeg c \<and> heapBorder2 s' = heapBorder s"
proof -
  obtain cs s' where s': "gc_new_gc N (cenv c) r s = Ok s'" "collected c cs (gmem s')" "heap s' = base c"
    "heapTop s' = base c + sum_list (map (osize c) cs)" "heapBorder s' = heapBorder2 s" "heap2 s' = hbeg c" "heapTop2 s' = hbeg c"
    "heapBorder2 s' = heapBorder s" by (rule collection_collected [OF assms])
  have "\<forall>a \<in> set cs. kept_end (cenv c) (m0 c) a + lost_words (m0 c) a = osize c a"
    using kept_end_size collectedD(2) [OF s'(2)] gc_wfD(7) [OF assms(1)] by blast
  with s' show ?thesis by (intro exI [of _ cs] exI [of _ s']) (auto simp: collected_def)
qed

text \<open>C4: After a collection the heap is well-formed again, every object in it is reachable, and the
  roots and the second semispace are ready for the next collection.\<close>

theorem gc_new_gc_again:
  assumes "gc_wf c" "roots_wf c r" "gc_start c s" "length (objs c) < N" "hend c \<le> heapBorder s"
  shows "\<exists>c' s'. gc_new_gc N (cenv c) r s = Ok s' \<and> gc_wf c' \<and> roots_wf c' r \<and> gc_start c' s' \<and>
    set (objs c') = {a. reachable c' a} \<and> cenv c' = cenv c \<and> rts c' = rts c \<and> hend c' \<le> heapBorder s'"
proof -
  obtain cs s' where s': "gc_new_gc N (cenv c) r s = Ok s'" "collected c cs (gmem s')" "heap s' = base c"
    "heapTop s' = base c + sum_list (map (osize c) cs)" "heapBorder s' = heapBorder2 s" "heap2 s' = hbeg c" "heapTop2 s' = hbeg c"
    "heapBorder2 s' = heapBorder s" by (rule collection_collected [OF assms(1-4)])
  note C = collectedD [OF s'(2)]
  let ?c = "after c cs (gmem s')"
  have sum: "sum_list (map (osize c) cs) \<le> hend c - hbeg c" by (rule target_sum [OF assms(1) C(1,2)])
  moreover have "hbeg c \<le> hend c" using laid_out_sum [OF gc_wfD(1) [OF assms(1)]] by linarith
  ultimately have st: "gc_start ?c s'" using s' assms(5) unfolding gc_start_def after_simps by simp
  have "hend ?c \<le> heapBorder s'" using sum assms(3) s'(5) by (simp add: gc_start_def)
  moreover have "reachable ?c n" if "n \<in> set (objs ?c)" for n
    using after_obj [OF assms(1) s'(2) that] after_reachable [OF assms(1) s'(2)] by metis
  then have "set (objs ?c) = {n. reachable ?c n}" using reachable_objs [of ?c] by blast
  ultimately show ?thesis using s'(1) st after_wf [OF assms(1) s'(2)] after_roots [OF assms(1) s'(2) assms(2)]
    by (intro exI [of _ ?c] exI [of _ s']) simp
qed

lemma concat_if: "concat (map (\<lambda>x. if P x then [f x] else []) xs) = map f (filter P xs)"
  by (induction xs) auto

text \<open>C11: A collection reports the deletion of every memory object that is no longer reachable, and then drops one reference to the
  service of every unreachable portal whose target domain exists and is another one; nothing else is reported.\<close>

theorem gc_new_gc_finalizes:
  assumes "gc_wf c" "roots_wf c r" "gc_start c s" "length (objs c) < N"
  shows "\<exists>s'. gc_new_gc N (cenv c) r s = Ok s' \<and> finalized s' = finalized s @
    map MemoryDeleted (filter (\<lambda>a. m0 c a = OBJFLAGS_MEMORY \<and> \<not> reachable c a) (objs c)) @
    map (\<lambda>a. DecRefcount (m0 c (a + 3)) (m0 c (a + 5))) (filter (\<lambda>a. m0 c a = OBJFLAGS_PORTAL \<and> \<not> reachable c a \<and> m0 c (a + 3) \<noteq> 0 \<and>
      domain_ids (cenv c) (m0 c (a + 3)) = m0 c (a + 4) \<and> m0 c (a + 3) \<noteq> own_domain (cenv c)) (objs c))"
proof -
  obtain cs s' where s': "gc_new_gc N (cenv c) r s = Ok s'" "collected c cs (gmem s')"
    "finalized s' = finalized s @ concat (map (memory_events c cs) (objs c)) @ concat (map (portal_events c cs) (objs c))"
    by (rule collection_collected [OF assms])
  have cs: "a \<in> set cs \<longleftrightarrow> reachable c a" for a using s'(2) by (simp add: collected_def)
  have "concat (map (memory_events c cs) (objs c)) = map MemoryDeleted (filter (\<lambda>a. m0 c a = OBJFLAGS_MEMORY \<and> \<not> reachable c a) (objs c))"
    unfolding memory_events_def [abs_def] cs by (rule concat_if)
  moreover have "concat (map (portal_events c cs) (objs c)) =
    map (\<lambda>a. DecRefcount (m0 c (a + 3)) (m0 c (a + 5))) (filter (\<lambda>a. m0 c a = OBJFLAGS_PORTAL \<and> \<not> reachable c a \<and> m0 c (a + 3) \<noteq> 0 \<and>
      domain_ids (cenv c) (m0 c (a + 3)) = m0 c (a + 4) \<and> m0 c (a + 3) \<noteq> own_domain (cenv c)) (objs c))"
    unfolding portal_events_def [abs_def] cs Let_def by (rule concat_if)
  ultimately show ?thesis using s'(1,3) by simp
qed

subsection \<open>Allocation\<close>

lemma registerObject_ok:
  assumes "\<exists>p \<in> set ps. gmem s p = 0"
  shows "\<exists>p \<in> set ps. registerObject ps v s = Ok (p, gput p v s) \<and> gmem s p = 0"
  using assms by (induction ps) auto

text \<open>Below the end of the address space the pointers are ordered like the numbers of the words.\<close>

lemma unat_pointer: "w < 1073741824 \<Longrightarrow> unat (pointer w) = 4 * w"
  unfolding pointer_def unat_of_nat by simp

lemma unat_times4: "unat sz < 1073741824 \<Longrightarrow> unat (4 * sz :: u4) = 4 * unat sz"
  by (simp add: unat_word_ariths)

lemma unat_nextObj:
  assumes "heapTop s + unat objSize < 1073741824"
  shows "unat (nextObj objSize s) = 4 * (heapTop s + unat objSize)"
  using assms unat_pointer [of "heapTop s"] unat_times4 [of objSize] by (simp add: nextObj_def unat_word_ariths)

text \<open>The room test of the code, when nothing wraps around.\<close>

definition fits_addresses :: "jint \<Rightarrow> gcheap \<Rightarrow> bool" where
  "fits_addresses objSize s \<longleftrightarrow> heapTop s + unat objSize < 1073741824 \<and> HEAP_RESERVE \<le> heapBorder s \<and> heapBorder s < 1073741824"

lemma no_room_iff:
  assumes "fits_addresses objSize s"
  shows "no_room objSize s \<longleftrightarrow> heapBorder s < heapTop s + unat objSize + HEAP_RESERVE"
proof -
  have b: "HEAP_RESERVE \<le> heapBorder s" "heapBorder s < 1073741824" "heapTop s + unat objSize < 1073741824"
    using assms by (simp_all add: fits_addresses_def)
  have "pointer (heapBorder s) - pointer HEAP_RESERVE = pointer (heapBorder s - HEAP_RESERVE)"
    using b(1) by (simp add: pointer_def of_nat_diff)
  then have "unat (pointer (heapBorder s) - pointer HEAP_RESERVE) = 4 * (heapBorder s - HEAP_RESERVE)"
    using unat_pointer [of "heapBorder s - HEAP_RESERVE"] b(2) by simp
  then show ?thesis using b(1) unat_nextObj [OF b(3)] unfolding no_room_def word_less_nat_alt by auto
qed

lemma clear_words_at:
  assumes "data + unat objSize < 1073741824"
  shows "clear_words data objSize m x = (if data \<le> x \<and> x < data + unat objSize then 0 else m x)"
proof (cases "x < 1073741824")
  case True
  have "unat (pointer x - pointer data) = (if data \<le> x then 4 * (x - data) else 4 * x + 4294967296 - 4 * data)"
    using unat_minus [of "4 * data" "pointer x"] assms True unat_pointer [OF True] by (auto simp: pointer_def)
  then show ?thesis using True assms unat_times4 [of objSize] by (auto simp: clear_words_def)
next
  case False
  then show ?thesis using assms by (simp add: clear_words_def)
qed

text \<open>The object that \<open>gc_new_do_alloc\<close> makes at the end of the heap, and that nothing else changes.\<close>

definition new_object :: "nat \<Rightarrow> u4 \<Rightarrow> gcheap \<Rightarrow> nat \<Rightarrow> gcheap \<Rightarrow> bool" where
  "new_object objSize flags s h s' \<longleftrightarrow> (let data = heapTop s in
     heapTop s' = data + objSize \<and> heap s' = heap s \<and> heapBorder s' = heapBorder s \<and>
     heap2 s' = heap2 s \<and> heapTop2 s' = heapTop2 s \<and> heapBorder2 s' = heapBorder2 s \<and> finalized s' = finalized s \<and>
     gmem s h = 0 \<and> gmem s' h = obj_ref data \<and> gmem s' data = flags \<and> gmem s' (data + 1) = MAGIC_OBJECT \<and>
     (\<forall>i. 2 \<le> i \<and> i < objSize \<longrightarrow> gmem s' (data + i) = 0) \<and>
     (\<forall>x. x \<noteq> h \<and> (x < data \<or> data + objSize \<le> x) \<longrightarrow> gmem s' x = gmem s x))"

lemma gc_new_do_alloc_ok:
  assumes sz: "2 \<le> unat objSize" and top: "0 < heapTop s" "heapTop s + unat objSize < 1073741824"
    and free: "p \<in> set (table (registered r) MAX_REGISTERED)" "gmem s p = 0"
    and apart: "\<forall>p \<in> set (table (registered r) MAX_REGISTERED). p < heapTop s \<or> heapTop s + unat objSize \<le> p"
  shows "\<exists>h s'. gc_new_do_alloc r objSize flags s = Ok (h, s') \<and> h \<in> set (table (registered r) MAX_REGISTERED) \<and>
    new_object (unat objSize) flags s h s'"
proof -
  let ?d = "heapTop s" and ?n = "unat objSize" and ?T = "table (registered r) MAX_REGISTERED"
  define s1 where "s1 = s\<lparr>heapTop := waddr (nextObj objSize s), gmem := set_header ?d flags (clear_words ?d objSize (gmem s))\<rparr>"
  have new: "gmem s1 x = (if x = ?d then flags else if x = ?d + 1 then MAGIC_OBJECT else if ?d \<le> x \<and> x < ?d + ?n then 0 else gmem s x)" for x
    by (simp add: s1_def set_header_def clear_words_at [OF top(2)])
  have rest: "heapTop s1 = ?d + ?n" "heap s1 = heap s" "heapBorder s1 = heapBorder s" "heap2 s1 = heap2 s" "heapTop2 s1 = heapTop2 s"
    "heapBorder2 s1 = heapBorder2 s" "finalized s1 = finalized s"
    using unat_nextObj [OF top(2)] by (simp_all add: s1_def waddr_def)
  have same: "gmem s1 x = gmem s x" if "x < ?d \<or> ?d + ?n \<le> x" for x using that sz by (auto simp: new)
  have "gmem s1 p = 0" using same bspec [OF apart free(1)] free(2) by simp
  then obtain h where h: "h \<in> set ?T" "registerObject ?T (obj_ref ?d) s1 = Ok (h, gput h (obj_ref ?d) s1)" "gmem s1 h = 0"
    using registerObject_ok [of ?T s1] free(1) by blast
  have hd: "h < ?d \<or> ?d + ?n \<le> h" by (rule bspec [OF apart h(1)])
  have "gc_new_do_alloc r objSize flags s = Ok (h, gput h (obj_ref ?d) s1)"
    using h(2) top(1) by (simp add: gc_new_do_alloc_def s1_def Let_def)
  moreover have "new_object ?n flags s h (gput h (obj_ref ?d) s1)"
    using same [OF hd] h(3) hd sz rest unfolding new_object_def Let_def by (auto simp: new gput_def)
  ultimately show ?thesis using h(1) by blast
qed

text \<open>C17: While there is room for the object and the reserve below the border, and the border is an address, an allocation returns a
  new object at the end of the heap without a collection: its header is set, its words are zero, a reference to it is in a formerly empty
  entry of the table of registered objects, and apart from those words and the top of the heap nothing changes: no other word, neither the
  other bounds of the two semispaces nor the list of finalized objects.\<close>

theorem gc_new_alloc_correct:
  assumes "2 \<le> unat objSize" "p \<in> set (table (registered r) MAX_REGISTERED)" "gmem s p = 0"
    "\<forall>p \<in> set (table (registered r) MAX_REGISTERED). p < heapTop s \<or> heapTop s + unat objSize \<le> p"
    "0 < heapTop s" "heapTop s + unat objSize + HEAP_RESERVE \<le> heapBorder s" "4 * heapBorder s < 2 ^ 32"
  shows "\<exists>h s'. gc_new_allocDataInDomain N env r irq gcThread objSize flags s = Ok (h, s') \<and>
    h \<in> set (table (registered r) MAX_REGISTERED) \<and> new_object (unat objSize) flags s h s' \<and> heapTop s' \<le> heapBorder s'"
proof -
  have f: "fits_addresses objSize s" "heapTop s + unat objSize < 1073741824" using assms(6,7) by (simp_all add: fits_addresses_def)
  obtain h s' where h: "gc_new_do_alloc r objSize flags s = Ok (h, s')" "h \<in> set (table (registered r) MAX_REGISTERED)"
    "new_object (unat objSize) flags s h s'" using gc_new_do_alloc_ok [OF assms(1,5) f(2) assms(2-4)] by blast
  moreover have "heapTop s' \<le> heapBorder s'" using h(3) assms(6) by (simp add: new_object_def Let_def)
  ultimately show ?thesis using assms(6) no_room_iff [OF f(1)] by (auto simp: gc_new_allocDataInDomain_def)
qed

text \<open>C12: When the room does not suffice, a thread of a domain with a collector thread collects first.  If the live objects, the new object
  and the reserve fit into the semispace, the new object lies behind the copies of the live objects.  The borders are addresses, and the
  pointer behind the object does not wrap around.\<close>

theorem gc_new_alloc_collects:
  assumes wf: "gc_wf c" and r: "roots_wf c r" and s: "gc_start c s" and N: "length (objs c) < N" and sz: "2 \<le> unat objSize"
    and full: "heapBorder s < heapTop s + unat objSize + HEAP_RESERVE"
    and addr: "fits_addresses objSize s" "4 * heapBorder2 s < 2 ^ 32"
    and fits: "sum_list (map (osize c) (filter (reachable c) (objs c))) + unat objSize + HEAP_RESERVE \<le> heapBorder2 s - base c"
    and free: "p \<in> set (table (registered r) MAX_REGISTERED)" "m0 c p = 0"
    and apart: "\<forall>p \<in> set (table (registered r) MAX_REGISTERED). p < base c \<or> heapBorder2 s \<le> p"
  shows "\<exists>cs s1 h s'. gc_new_allocDataInDomain N (cenv c) r False True objSize flags s = Ok (h, s') \<and>
    set cs = {a. reachable c a} \<and> heap_copied c cs (gmem s1) \<and> heapTop s1 = base c + sum_list (map (osize c) cs) \<and>
    new_object (unat objSize) flags s1 h s' \<and> heapTop s' \<le> heapBorder s'"
proof -
  obtain cs s1 where s1: "gc_new_gc N (cenv c) r s = Ok s1" "collected c cs (gmem s1)" "heap s1 = base c"
    "heapTop s1 = base c + sum_list (map (osize c) cs)" "heapBorder s1 = heapBorder2 s" by (rule collection_collected [OF wf r s N])
  note C = collectedD [OF s1(2)]
  have cs: "set cs = {a. reachable c a}" using s1(2) by (auto simp: collected_def)
  have "distinct (filter (reachable c) (objs c))" "set (filter (reachable c) (objs c)) = set cs"
    using laid_out_distinct [OF gc_wfD(1) [OF wf]] reachable_objs cs by auto
  then have "sum_list (map (osize c) cs) = sum_list (map (osize c) (filter (reachable c) (objs c)))"
    using C(1) by (simp add: sum_list_distinct_conv_sum_set)
  then have room: "heapTop s1 + unat objSize + HEAP_RESERVE \<le> heapBorder s1" using s1(4,5) fits sz by linarith
  then have f1: "fits_addresses objSize s1" "heapTop s1 + unat objSize < 1073741824"
    using addr(2) s1(5) by (simp_all add: fits_addresses_def)
  have t1: "0 < heapTop s1" using s1(4) wf by (simp add: gc_wf_def)
  have "rts c = root_slots (cenv c) (m0 c) r" using r by (simp add: roots_wf_def)
  then have "(p, 0) \<in> set (rts c)" using free(1) unfolding root_slots_def set_append by simp
  then have "gmem s1 p = 0" using heap_copiedD(5) [OF C(3)] free(2) by (simp add: tr_def)
  moreover have "\<forall>p \<in> set (table (registered r) MAX_REGISTERED). p < heapTop s1 \<or> heapTop s1 + unat objSize \<le> p"
  proof
    fix q assume "q \<in> set (table (registered r) MAX_REGISTERED)"
    then have "q < base c \<or> heapBorder2 s \<le> q" by (rule bspec [OF apart])
    then show "q < heapTop s1 \<or> heapTop s1 + unat objSize \<le> q" using s1(4,5) room by linarith
  qed
  ultimately obtain h s' where h: "gc_new_do_alloc r objSize flags s1 = Ok (h, s')" "new_object (unat objSize) flags s1 h s'"
    using gc_new_do_alloc_ok [OF sz t1 f1(2) free(1)] by blast
  have "gc_new_allocDataInDomain N (cenv c) r False True objSize flags s = Ok (h, s')"
    using full s1(1) room h(1) no_room_iff [OF addr(1)] no_room_iff [OF f1(1)] by (simp add: gc_new_allocDataInDomain_def)
  moreover have "heapTop s' \<le> heapBorder s'" using h(2) room by (simp add: new_object_def Let_def)
  ultimately show ?thesis using cs C(3) s1(4) h(2) by blast
qed

text \<open>C40: In a domain whose semispaces have at most 10240 words every allocation by an ordinary thread throws after a collection, even
  when nothing is alive, as long as the pointer behind the object does not wrap around the address space: the reserve is subtracted in words, while
  \<open>gc_new_init\<close> compares it with the size in bytes and accepts such heaps.\<close>

theorem gc_new_small_heap:
  assumes wf: "gc_wf c" and r: "roots_wf c r" and s: "gc_start c s" and N: "length (objs c) < N" and sz: "0 < unat objSize"
    and small: "heapBorder s \<le> heap s + HEAP_RESERVE" "heapBorder2 s \<le> heap2 s + HEAP_RESERVE"
    and addr: "HEAP_RESERVE \<le> heapBorder s" "4 * heapBorder s < 2 ^ 32" "HEAP_RESERVE \<le> heapBorder2 s" "4 * heapBorder2 s < 2 ^ 32"
    and nowrap: "4 * (heapTop s + unat objSize) < 2 ^ 32" "4 * (base c + (hend c - hbeg c) + unat objSize) < 2 ^ 32"
  shows "gc_new_allocDataInDomain N (cenv c) r False True objSize flags s = Fault (JavaThrow ''RuntimeException'') \<and>
    is_ok (gc_new_init (4 * HEAP_RESERVE) a1 a2 m)"
proof -
  obtain cs s1 where s1: "gc_new_gc N (cenv c) r s = Ok s1" "collected c cs (gmem s1)" "heapTop s1 = base c + sum_list (map (osize c) cs)"
    "heapBorder s1 = heapBorder2 s" by (rule collection_collected [OF wf r s N])
  have st: "heap s = hbeg c" "heapTop s = hend c" "heap2 s = base c" using s by (simp_all add: gc_start_def)
  note L = gc_wfD(1) [OF wf] and C = collectedD [OF s1(2)]
  have "hbeg c \<le> hend c" using laid_out_sum [OF L] by linarith
  moreover have "sum_list (map (osize c) cs) \<le> hend c - hbeg c"
    by (rule target_sum [OF wf C(1,2)])
  ultimately have "fits_addresses objSize s" "fits_addresses objSize s1" and
    "heapBorder s < heapTop s + unat objSize + HEAP_RESERVE" "heapBorder s1 < heapTop s1 + unat objSize + HEAP_RESERVE"
    using small s1(3,4) st sz addr nowrap unfolding fits_addresses_def by simp_all
  then have "gc_new_allocDataInDomain N (cenv c) r False True objSize flags s = Fault (JavaThrow ''RuntimeException'')"
    using s1(1) no_room_iff by (simp add: gc_new_allocDataInDomain_def)
  moreover have "is_ok (gc_new_init (4 * HEAP_RESERVE) a1 a2 m)" by (simp add: gc_new_init_def HEAP_RESERVE_def)
  ultimately show ?thesis by blast
qed

text \<open>An array of 0x3ffffffb elements needs 0x40000000 words, which are \<open>2 ^ 32\<close> bytes: the pointer behind it wraps around to the
  top of the heap, the test for room succeeds, and the allocation returns an object of no words.  The top of the heap
  stays where it is, so that the next object is laid over this one.\<close>

theorem gc_new_alloc_size_wraps:
  assumes "p \<in> set (table (registered r) MAX_REGISTERED)" "gmem s p = 0"
    "\<forall>p \<in> set (table (registered r) MAX_REGISTERED). p \<noteq> heapTop s \<and> p \<noteq> heapTop s + 1"
    "0 < heapTop s" "heapTop s + HEAP_RESERVE \<le> heapBorder s" "4 * heapBorder s < 2 ^ 32"
  shows "OBJSIZE_ARRAY 0x3ffffffb = 0x40000000 \<and>
    (\<exists>h s'. gc_new_allocDataInDomain N env r irq gcThread 0x40000000 flags s = Ok (h, s') \<and> heapTop s' = heapTop s \<and>
      gmem s' h = obj_ref (heapTop s) \<and> gmem s' (heapTop s) = flags)"
proof -
  let ?d = "heapTop s" and ?T = "table (registered r) MAX_REGISTERED"
  have sz: "4 * (0x40000000 :: jint) = 0" by simp
  define s1 where "s1 = s\<lparr>gmem := set_header ?d flags (gmem s)\<rparr>"
  have z: "fits_addresses 0 s" using assms(5,6) by (simp add: fits_addresses_def)
  have n: "nextObj 0x40000000 s = nextObj 0 s" using sz by (simp add: nextObj_def)
  have "clear_words ?d 0x40000000 m = m" for m by (simp add: clear_words_def sz fun_eq_iff)
  moreover have "waddr (nextObj 0 s) = ?d" using unat_nextObj [of s 0] assms(5,6) by (simp add: waddr_def)
  ultimately have "gc_new_do_alloc r 0x40000000 flags s = registerObject ?T (obj_ref ?d) s1"
    using assms(4) n by (simp add: gc_new_do_alloc_def s1_def Let_def)
  moreover have "\<not> no_room 0x40000000 s" using no_room_iff [OF z] assms(5) n by (simp add: no_room_def)
  moreover have "gmem s1 p = 0" using assms(1-3) by (auto simp: s1_def set_header_def)
  moreover obtain h where h: "h \<in> set ?T" "registerObject ?T (obj_ref ?d) s1 = Ok (h, gput h (obj_ref ?d) s1)"
    using registerObject_ok [of ?T s1 "obj_ref ?d"] assms(1) \<open>gmem s1 p = 0\<close> by blast
  ultimately have al: "gc_new_allocDataInDomain N env r irq gcThread 0x40000000 flags s = Ok (h, gput h (obj_ref ?d) s1)"
    by (simp add: gc_new_allocDataInDomain_def)
  have "h \<noteq> ?d" using bspec [OF assms(3) h(1)] by simp
  then have "gmem (gput h (obj_ref ?d) s1) ?d = flags" by (simp add: gput_def s1_def set_header_def)
  then show ?thesis using al by (auto simp: OBJSIZE_ARRAY_def gput_def s1_def)
qed

subsection \<open>A concrete heap\<close>

text \<open>A heap with a thread, an object that refers to the thread, and a memory proxy that nothing refers to.  The object is in a slot of
  a stack, the thread is the current one.\<close>

definition sample_env :: gc_env where
  "sample_env = \<lparr>class_at = (\<lambda>v. if v = 500 then Some \<lparr>instanceSize = 1, cl_map = [1]\<rparr> else None), array_elem = (\<lambda>_. CHR ''I''),
     method_args = (\<lambda>_ _. (0, [])), domain_ids = (\<lambda>_. 0), own_domain = 9, dz_refcount = (\<lambda>_. 1), irq_vectors = []\<rparr>"

definition sample_mem :: words where
  "sample_mem = (\<lambda>_. 0)(2000 := OBJFLAGS_CPUSTATE, 2001 := MAGIC_OBJECT, 2003 := obj_ref 2000 + 32,
     2073 := OBJFLAGS_OBJECT, 2074 := MAGIC_OBJECT, 2075 := 500, 2076 := obj_ref 2000,
     2078 := OBJFLAGS_MEMORY, 2079 := MAGIC_OBJECT, 2080 := 600, 2083 := 700,
     40000 := obj_ref 2073, 40001 := obj_ref 2000 + 4)"

definition sample_roots :: gc_roots where
  "sample_roots = \<lparr>stack_slots = [40000], statics = [], service_table = 50000, registered = 60000, special_refs = [], special_tcbs = [],
     switchBackTo = 40002, curthrP = 40001, irq_objects = []\<rparr>"

definition sample :: collection where
  "sample = \<lparr>cenv = sample_env, m0 = sample_mem, objs = [2000, 2073, 2078], hbeg = 2000, hend = 2086, base = 20000,
     rts = root_slots sample_env sample_mem sample_roots\<rparr>"

definition sample_heap :: gcheap where
  "sample_heap = \<lparr>gmem = sample_mem, heap = 2000, heapBorder = 12340, heapTop = 2086, heap2 = 20000, heapBorder2 = 30340, heapTop2 = 20000,
     finalized = []\<rparr>"

lemma sample_simps [simp]:
  "cenv sample = sample_env" "m0 sample = sample_mem" "objs sample = [2000, 2073, 2078]" "hbeg sample = 2000" "hend sample = 2086" "base sample = 20000"
  by (simp_all add: sample_def)

lemma sample_high [simp]: "40002 \<le> x \<Longrightarrow> sample_mem x = 0"
  by (simp add: sample_mem_def)

lemma sample_rts: "rts sample = (40000, 0) # ref_slots 0 (table 60000 50) @ [(40001, 4)]"
proof -
  have "portal_slots sample_mem (table 50000 MAX_SERVICE_ENTRIES) = []" by (simp add: portal_slots_def filter_empty_conv)
  then show ?thesis
    by (simp add: sample_def root_slots_def sample_roots_def static_slots_def switch_slots_def irq_slots_def ref_slots_def MAX_REGISTERED_def)
qed

lemma sample_fmap: "forbitmap [1] (Suc 0) 0 0 = [0]"
  by (subst forbitmap.simps, simp, subst forbitmap.simps, simp)

lemma sample_sizes: "osize sample 2000 = 73" "osize sample 2073 = 5" "osize sample 2078 = 8"
  by (simp_all add: obj_size_def walk_size_def sample_mem_def sample_env_def objflags gc_masks fixed_size_def objsizes
    object_size_def class_of_def check_class_def has_class_def)

lemma sample_slots: "slots sample 2000 = [(3, 32), (36, 4), (37, 4), (8, 4), (60, 0), (61, 0), (28, 0)]" "slots sample 2073 = [(3, 0)]" "slots sample 2078 = []"
  by (simp_all add: obj_slots_def sample_mem_def sample_env_def objflags sample_fmap)

lemma sample_objects: "obj_ok sample_env sample_mem 2000" "obj_ok sample_env sample_mem 2073" "obj_ok sample_env sample_mem 2078"
  by (simp_all add: obj_ok_def heap_kinds_def tcb_quiet_def sample_mem_def sample_env_def objflags STATE_WAIT_FOR_RCV_def)

lemma sample_points: "points sample 32 (sample_mem 2003) 2000" "points sample 0 (sample_mem 2076) 2000"
  "points sample 0 (sample_mem 40000) 2073" "points sample 4 (sample_mem 40001) 2000"
  by (simp_all add: points_def sample_mem_def)

lemma sample_wf: "gc_wf sample"
  unfolding gc_wf_def
proof (intro conjI)
  show "laid_out (osize sample) (hbeg sample) (objs sample) (hend sample)" using sample_sizes by simp
  show "from_space sample \<inter> target_space sample = {}" by (auto simp: from_space_def target_space_def)
  show "distinct (map fst (rts sample))" by (auto simp: sample_rts distinct_map)
  have z: "slot_ok sample d 0" for d by (simp add: slot_ok_def)
  have cpu: "sample_mem 2000 = OBJFLAGS_CPUSTATE" by (simp add: sample_mem_def)
  have words: "sample_mem 2036 = 0" "sample_mem 2037 = 0" "sample_mem 2008 = 0" "sample_mem 2060 = 0" "sample_mem 2061 = 0" "sample_mem 2028 = 0"
    by (simp_all add: sample_mem_def)
  have ok: "slot_ok sample 32 (sample_mem 2003)" "slot_ok sample 0 (sample_mem 2076)" "slot_ok sample 0 (sample_mem 40000)" "slot_ok sample 4 (sample_mem 40001)"
    unfolding slot_ok_def using sample_points cpu by auto
  have kinds: "sample_mem 2073 \<noteq> OBJFLAGS_CPUSTATE" "sample_mem 2078 \<noteq> OBJFLAGS_CPUSTATE" by (simp_all add: sample_mem_def objflags)
  show "\<forall>a \<in> set (objs sample). obj_ok (cenv sample) (m0 sample) a \<and> (\<forall>(k, d) \<in> set (slots sample a). slot_ok sample d (m0 sample (a + k))) \<and>
     (m0 sample a = OBJFLAGS_CPUSTATE \<longrightarrow> m0 sample (a + 28) = 0 \<or> (\<exists>ob. points sample 0 (m0 sample (a + 28)) ob \<and> m0 sample ob = OBJFLAGS_SERVICE))"
    using sample_objects sample_slots words ok kinds z by simp
  show "\<forall>(p, d) \<in> set (rts sample). (d = 0 \<or> d = 4) \<and> slot_ok sample d (m0 sample p) \<and> p \<notin> from_space sample \<and> p \<notin> target_space sample"
    using ok z by (auto simp: sample_rts ref_slots_def from_space_def target_space_def)
qed simp_all

lemma sample_outside: "40002 \<le> x \<Longrightarrow> x < 60000 \<Longrightarrow> outside sample x"
  by (auto simp: outside_def sample_rts from_space_def target_space_def)

lemma sample_roots_wf: "roots_wf sample sample_roots"
  unfolding roots_wf_def
proof (intro conjI)
  show "rts sample = root_slots (cenv sample) (m0 sample) sample_roots" by (simp add: sample_def)
  show "m0 sample (curthrP sample_roots) \<noteq> 0" by (simp add: sample_roots_def sample_mem_def obj_ref_def)
qed (auto simp: sample_roots_def MAX_SERVICE_ENTRIES_def intro!: sample_outside)

lemma sample_start: "gc_start sample sample_heap"
  by (simp add: gc_start_def sample_heap_def)

lemma sample_reachable: "reachable sample a \<longleftrightarrow> a = 2000 \<or> a = 2073"
proof
  show "a = 2000 \<or> a = 2073 \<Longrightarrow> reachable sample a"
    using reach_root [of 40001 4 sample 2000] reach_root [of 40000 0 sample 2073] sample_points by (auto simp: sample_rts)
  have obj: "a \<in> {2000, 2073, 2078}" if "reachable sample a" for a using reachable_objs [OF that] by simp
  show "a = 2000 \<or> a = 2073" if "reachable sample a" using that
  proof (cases rule: reachable.cases)
    case (reach_root p d)
    then show ?thesis using points_start(1) [OF sample_wf reach_root(2)] by (auto simp: sample_rts ref_slots_def points_def sample_mem_def obj_ref_def)
  next
    case (reach_obj b k d)
    consider "b = 2000" | "b = 2073" | "b = 2078" using obj [OF reach_obj(1)] by auto
    then have "(b + k, d) \<in> {(2003, 32), (2036, 4), (2037, 4), (2008, 4), (2060, 0), (2061, 0), (2028, 0), (2076, 0)}"
    proof cases
      case 1
      have "(k, d) \<in> set [(3, 32), (36, 4), (37, 4), (8, 4), (60, 0), (61, 0), (28, 0)]"
        using reach_obj(2) unfolding 1 sample_slots(1) .
      then show ?thesis using 1 by auto
    next
      case 2
      then show ?thesis using reach_obj(2) sample_slots(2) by simp
    next
      case 3
      then show ?thesis using reach_obj(2) sample_slots(3) by simp
    qed
    then show ?thesis using reach_obj(3) by (auto simp: points_def sample_mem_def obj_ref_def)
  qed
qed

subsection \<open>The properties on that heap\<close>

lemma sample_sum: "distinct cs \<Longrightarrow> set cs = {a. reachable sample a} \<Longrightarrow> sum_list (map (osize sample) cs) = 78"
  using sample_sizes by (simp add: sum_list_distinct_conv_sum_set sample_reachable Collect_disj_eq)

theorem gc_new_gc_copies_witness:
  "\<exists>cs s'. gc_new_gc 4 sample_env sample_roots sample_heap = Ok s' \<and> set cs = {2000, 2073} \<and> heap_copied sample cs (gmem s') \<and>
    heap s' = 20000 \<and> heapTop s' = 20078"
proof -
  obtain cs s' where s': "gc_new_gc 4 (cenv sample) sample_roots sample_heap = Ok s'" "distinct cs" "set cs = {a. reachable sample a}"
    "heap_copied sample cs (gmem s')" "heap s' = base sample" "heapTop s' = base sample + sum_list (map (osize sample) cs)"
    using gc_new_gc_copies [OF sample_wf sample_roots_wf sample_start, of 4] by auto
  have "set cs = {2000, 2073}" using s'(3) by (auto simp: sample_reachable)
  then show ?thesis using s' sample_sum [OF s'(2,3)] by (intro exI [of _ cs] exI [of _ s']) simp
qed

theorem gc_new_gc_again_witness:
  "\<exists>c' s'. gc_new_gc 4 sample_env sample_roots sample_heap = Ok s' \<and> gc_wf c' \<and> roots_wf c' sample_roots \<and> gc_start c' s' \<and>
    set (objs c') = {a. reachable c' a}"
  using gc_new_gc_again [OF sample_wf sample_roots_wf sample_start, of 4] by (auto simp: sample_heap_def)

theorem gc_new_gc_finalizes_witness:
  "\<exists>s'. gc_new_gc 4 sample_env sample_roots sample_heap = Ok s' \<and> finalized s' = [MemoryDeleted 2078]"
proof -
  have "sample_mem 2000 = OBJFLAGS_CPUSTATE" "sample_mem 2073 = OBJFLAGS_OBJECT" "sample_mem 2078 = OBJFLAGS_MEMORY" by (simp_all add: sample_mem_def)
  moreover have "finalized sample_heap = []" by (simp add: sample_heap_def)
  ultimately show ?thesis
    using gc_new_gc_finalizes [OF sample_wf sample_roots_wf sample_start, of 4] by (simp add: sample_reachable objflags)
qed

lemma sample_registered: "60000 \<in> set (table (registered sample_roots) MAX_REGISTERED)" "sample_mem 60000 = 0"
  by (simp_all add: sample_roots_def MAX_REGISTERED_def)

theorem gc_new_alloc_correct_witness:
  "\<exists>h s'. gc_new_allocDataInDomain 4 sample_env sample_roots False True 20 OBJFLAGS_OBJECT (sample_heap\<lparr>heapBorder := 13000\<rparr>) = Ok (h, s') \<and>
    new_object 20 OBJFLAGS_OBJECT (sample_heap\<lparr>heapBorder := 13000\<rparr>) h s' \<and> heapTop s' \<le> heapBorder s'"
proof -
  let ?s = "sample_heap\<lparr>heapBorder := 13000\<rparr>"
  have sz: "2 \<le> unat (20 :: jint)" by simp
  have f: "gmem ?s 60000 = 0" by (simp add: sample_heap_def)
  have a: "\<forall>p \<in> set (table (registered sample_roots) MAX_REGISTERED). p < heapTop ?s \<or> heapTop ?s + unat (20 :: jint) \<le> p"
    by (simp add: sample_heap_def sample_roots_def)
  have b: "0 < heapTop ?s" "heapTop ?s + unat (20 :: jint) + HEAP_RESERVE \<le> heapBorder ?s" "4 * heapBorder ?s < 2 ^ 32"
    by (simp_all add: sample_heap_def HEAP_RESERVE_def)
  show ?thesis using gc_new_alloc_correct [OF sz sample_registered(1) f a b, of 4 sample_env False True OBJFLAGS_OBJECT] by auto
qed

theorem gc_new_alloc_collects_witness:
  "\<exists>cs s1 h s'. gc_new_allocDataInDomain 4 sample_env sample_roots False True 20 OBJFLAGS_OBJECT sample_heap = Ok (h, s') \<and>
    heap_copied sample cs (gmem s1) \<and> new_object 20 OBJFLAGS_OBJECT s1 h s' \<and> heapTop s' \<le> heapBorder s'"
proof -
  have sz: "2 \<le> unat (20 :: jint)" by simp
  have "filter (reachable sample) (objs sample) = [2000, 2073]" by (simp add: sample_reachable)
  then have "sum_list (map (osize sample) (filter (reachable sample) (objs sample))) = 78" using sample_sizes by simp
  then have fits: "sum_list (map (osize sample) (filter (reachable sample) (objs sample))) + unat (20 :: jint) + HEAP_RESERVE
      \<le> heapBorder2 sample_heap - base sample"
    by (simp add: sample_heap_def HEAP_RESERVE_def)
  have full: "heapBorder sample_heap < heapTop sample_heap + unat (20 :: jint) + HEAP_RESERVE" "fits_addresses 20 sample_heap"
    "4 * heapBorder2 sample_heap < 2 ^ 32"
    by (simp_all add: sample_heap_def HEAP_RESERVE_def fits_addresses_def)
  have apart: "\<forall>p \<in> set (table (registered sample_roots) MAX_REGISTERED). p < base sample \<or> heapBorder2 sample_heap \<le> p"
    by (simp add: sample_heap_def sample_roots_def)
  have free: "m0 sample 60000 = 0" by simp
  show ?thesis
    using gc_new_alloc_collects [OF sample_wf sample_roots_wf sample_start _ sz full fits sample_registered(1) free apart, of 4 OBJFLAGS_OBJECT]
    by auto
qed

theorem gc_new_small_heap_witness:
  "gc_new_allocDataInDomain 4 sample_env sample_roots False True 20 OBJFLAGS_OBJECT (sample_heap\<lparr>heapBorder := 12240, heapBorder2 := 30240\<rparr>) =
    Fault (JavaThrow ''RuntimeException'')"
proof -
  have "gc_start sample (sample_heap\<lparr>heapBorder := 12240, heapBorder2 := 30240\<rparr>)" by (simp add: gc_start_def sample_heap_def)
  from gc_new_small_heap [OF sample_wf sample_roots_wf this, of 4 20 OBJFLAGS_OBJECT] show ?thesis
    by (simp add: sample_heap_def HEAP_RESERVE_def)
qed

theorem gc_new_alloc_size_wraps_witness:
  "\<exists>h s'. gc_new_allocDataInDomain 4 sample_env sample_roots False True 0x40000000 OBJFLAGS_ARRAY (sample_heap\<lparr>heapBorder := 13000\<rparr>) = Ok (h, s') \<and>
    heapTop s' = 2086"
proof -
  let ?s = "sample_heap\<lparr>heapBorder := 13000\<rparr>"
  have f: "gmem ?s 60000 = 0" by (simp add: sample_heap_def)
  have a: "\<forall>p \<in> set (table (registered sample_roots) MAX_REGISTERED). p \<noteq> heapTop ?s \<and> p \<noteq> heapTop ?s + 1"
    by (simp add: sample_heap_def sample_roots_def)
  have b: "0 < heapTop ?s" "heapTop ?s + HEAP_RESERVE \<le> heapBorder ?s" "4 * heapBorder ?s < 2 ^ 32" "heapTop ?s = 2086"
    by (simp_all add: sample_heap_def HEAP_RESERVE_def)
  show ?thesis
    using gc_new_alloc_size_wraps [OF sample_registered(1) f a b(1-3), of 4 sample_env False True OBJFLAGS_ARRAY] b(4) by auto
qed

end
