(* ===== verification/Spec2Isabelle.thy ===== *)
theory Spec2Isabelle
  imports JX_Prelude Jxmalloc Codemem Ptr_Queue Runq Sched_Steps Thread Kernel_Runs
    Memory_Obj Memory_Steps Block_Copy Memory_Access Quad_Arith Class_Types Array_Copy Portals Portal_Runs
    Gc_Heap Gc_Copy Gc_Scan Gc_Collect
begin

text \<open>
  A verification development for the JX kernel core (\<^verbatim>\<open>src/src/\<close>): the C microkernel that
  runs Java operating-system components in isolated \<^emph>\<open>domains\<close> on a 32 bit x86 machine.  The model follows
  the kernel as \<^verbatim>\<open>settings.makefile\<close> configures it: \<^verbatim>\<open>KERNEL\<close>, \<^verbatim>\<open>DEBUG\<close> (so \<^verbatim>\<open>ASSERT\<close> traps),
  \<^verbatim>\<open>MEMORY_USE_ORG\<close>, \<^verbatim>\<open>USE_MAGIC\<close>, one processor, neither \<^verbatim>\<open>NEW_SCHED\<close> nor \<^verbatim>\<open>JAVASCHEDULER\<close>.

  \<^bold>\<open>The parts of the system and how they work together.\<close>  At boot \<^verbatim>\<open>jxmalloc_init\<close> reads the
  multiboot tags, sizes the memory and sets up a bitmap of 1024 byte blocks; everything else lives in
  memory \<^verbatim>\<open>jxmalloc\<close> returns.  Each domain takes code memory in fragments from it (\<^verbatim>\<open>malloc_code\<close> and the
  typed wrappers of \<^verbatim>\<open>core/malloc.c\<close>); each thread takes a stack of eight blocks and is linked into its
  domain and into the run queues.  The scheduler keeps one queue of runnable threads per domain and one
  queue of domains; yields, preemption by the timer, blocking, portal calls and interrupts move threads
  between the processor and these queues.  Java code reaches raw memory only through \<^emph>\<open>memory objects\<close>:
  small heap objects that share a reference-counted proxy, which names a range that came from \<^verbatim>\<open>jxmalloc\<close>
  and goes back to it when the last piece of the range is dropped.  The objects of a domain live in its own heap, two
  semispaces from \<^verbatim>\<open>jxmalloc\<close>; when the first is full the live objects are copied to the second, and memory objects
  that were not copied are handed back.

  \<^bold>\<open>Theories.\<close>
  \<^item> \<open>JX_Prelude\<close>: machine words, the result type \<open>'a res\<close> (a value, or a \<open>fault\<close>: panic, domain panic, Java
    exception, failed assertion), byte memory with little-endian accesses, generic lemmas.
  \<^item> \<open>Jxmalloc\<close> (\<^verbatim>\<open>core/malloc.c\<close>, allocator): the record \<open>malloc_state\<close> holds the statics of the file; the
    bitmap lives in the byte memory, where the code has it.  \<^verbatim>\<open>markUsed\<close>, \<^verbatim>\<open>nextFree\<close>, \<^verbatim>\<open>isFree\<close>,
    \<^verbatim>\<open>jxmalloc_internal\<close>, \<^verbatim>\<open>jxfree\<close>, and the initialisation (\<open>jxmalloc_setup\<close>).  The locales \<open>fresh_allocator\<close> and
    \<open>region_allocator\<close> state what a client may rely on; \<open>jx\<close> and \<open>codemem\<close> interpret them.
  \<^item> \<open>Codemem\<close> (\<^verbatim>\<open>core/malloc.c\<close>, typed allocation): code fragments, every typed wrapper, temporary
    memory, thread stacks.
  \<^item> \<open>Ptr_Queue\<close>: singly linked queues through a next-pointer function and the locale \<open>fifo_queue\<close>.
  \<^item> \<open>Runq\<close> (\<^verbatim>\<open>core/runq.c\<close>, \<^verbatim>\<open>core/runq_inline.c\<close>, \<^verbatim>\<open>core/thread.c\<close>): descriptors, the queue
    operations, the consistency checks, and the abstract run queues (\<open>ready_queues\<close>) they represent.
  \<^item> \<open>Sched_Steps\<close>: portal handoffs, interrupt threads (\<^verbatim>\<open>Interface/zero_IRQ.c\<close>), the interpretations
    \<open>tq\<close> and \<open>dq\<close> of \<open>fifo_queue\<close>, and the refinement of the abstract round robin.
  \<^item> \<open>Thread\<close> (\<^verbatim>\<open>core/thread.c\<close>): creation with stack and initial frame, thread lists, termination.
  \<^item> \<open>Kernel_Runs\<close>: the step relation \<open>kstep\<close> that interleaves all scheduler entry points, and its
    invariant; fuel monotonicity.
  \<^item> \<open>Memory_Obj\<close>, \<open>Memory_Steps\<close> (\<^verbatim>\<open>Interface/zero_Memory_org.c\<close>, \<^verbatim>\<open>Interface/zero_MemoryManager.c\<close>):
    the pool of proxies (20000, as \<^verbatim>\<open>settings.makefile\<close> sets it), reference counts, split, join, sub-ranges, revocation, release; the chunk
    invariant \<open>dz_inv\<close> and the step relation \<open>dzstep\<close>.
  \<^item> \<open>Block_Copy\<close> (\<^verbatim>\<open>Assembly/lowlevel.S\<close> and inline assembler): the string instructions and the copy
    routines built from them, against one reference copy.
  \<^item> \<open>Memory_Access\<close> (\<^verbatim>\<open>Interface/zero_Memory_org.c\<close>): every accessor with its range checks.
  \<^item> \<open>Portals\<close>, \<open>Portal_Runs\<close> (\<^verbatim>\<open>core/portal.c\<close>, \<^verbatim>\<open>core/exception_handler.c\<close>): the control part of calls between
    domains.  The record \<open>portals\<close> adds the service tables and the portal fields of threads to the scheduler's
    state; \<open>sq\<close> interprets \<open>fifo_queue\<close> on the queue of waiting senders; \<open>portal_inv\<close> is the invariant, \<open>pstep\<close>
    interleaves calls, replies, exceptions and scheduling.
  \<^item> \<open>Class_Types\<close> (\<^verbatim>\<open>core/vmsupport.c\<close>): the assignment test behind \<^verbatim>\<open>instanceof\<close> and \<^verbatim>\<open>checkcast\<close>, against an inductive
    relation; \<open>Array_Copy\<close>: the array copies of the virtual machine over the block copies.
  \<^item> \<open>Quad_Arith\<close> (\<^verbatim>\<open>arch/minic.c\<close>): the 64 bit division routines of the run-time library.

  \<^item> \<open>Gc_Heap\<close> (\<^verbatim>\<open>Memory/gc_new.c\<close>, \<^verbatim>\<open>gc_move_common.c\<close>, \<^verbatim>\<open>gc_move.c\<close>, \<^verbatim>\<open>gc_common.c\<close>, \<^verbatim>\<open>gc_impl.c\<close>): the copying collector on
    word-addressed memory with the headers of objects.  The record \<open>gcheap\<close> holds the memory and the bounds of the two
    semispaces, \<open>gc_env\<close> what the collector only reads (classes, domains), \<open>gc_roots\<close> where the references outside the heap are.
  \<^item> \<open>Gc_Copy\<close>, \<open>Gc_Scan\<close>, \<open>Gc_Collect\<close>: well-formed heaps (\<open>gc_wf\<close>), the invariant \<open>gc_inv\<close> that relates the memory during a
    collection to the memory before it through the list of objects copied so far, its preservation by every step,
    and the theorems on collections and allocation; \<open>heap_copied\<close> is the specification of a collection.

  \<^bold>\<open>What is shown.\<close>  Allocation returns free, disjoint memory, a fitting request always terminates, release
  undoes it and a double free panics; initialisation establishes the invariant exactly when the block count
  is a multiple of eight.  Every scheduler operation refines its abstract counterpart on queues of lists; in
  every reachable state no assertion or consistency check fires and no queue walk loops; every ready thread
  eventually runs.  Creating a thread yields a well-formed frame in fresh memory; ending it releases that
  memory.  Creations, splits, pairwise joins, shares and drops keep the proxy pool partitioned into the free list and
  doubly linked contiguous chunks; splitting and joining are inverse; memory of more than 4 bytes returns to the
  allocator exactly with the last reference (the last drop of a smaller piece fails an assertion); the operations that
  test validity refuse revoked objects; writes whose offset and length are not negative and do not
  overflow in their sum stay inside their object; moves are \<^verbatim>\<open>memmove\<close>.  A portal call that is not answered is always in
  exactly one place, the queue of its service or the hands of one service thread, a receiver sleeps only
  while nobody waits for it, and no portal operation fails a check in a reachable state.  The assignment
  test allows nothing that Java forbids and decides like Java except for the interfaces of arrays; the 64 bit division computes quotient and remainder for
  all operands; an array copy that is not an upward copy within one array moves exactly the range asked for.  A collection
  returns, copies exactly the reachable objects (with all their words but those \<open>lost_words\<close> counts), redirects every
  reference to the copies, finalizes exactly the dead memory objects and portals, and leaves a heap on which it can run
  again; an allocation whose pointers do not wrap around returns a zeroed object behind the live ones.  Where the code departs from its intention the
  theorem states what the code does (searches that never end, stores below an object, a partial clear, a
  stray link, a copy from the wrong end, the sign of a remainder, a lost sender, a heap too small to allocate from, sizes and
  indices that wrap around their 32 bit sums).

  \<^bold>\<open>Fuel and bounds.\<close>  Loops over linked structures and the allocator's search take a fuel argument and yield
  \<open>OutOfFuel\<close> when it is used up; this is not an outcome of the code.  Theorems that an operation returns
  name a sufficient fuel or say that all large enough fuels agree: one more than the number of elements for
  a queue walk, one more than the pool size for a chunk walk, twice the number of blocks plus a constant for
  a search, one more than the number of objects for a walk over a heap.  For the walks over a class hierarchy \<open>settles\<close> says that all large enough fuels give one answer.
  Theorems that code diverges hold for every fuel.

  \<^bold>\<open>Parameters.\<close>  In the theories on memory objects the garbage collector (\<open>gc_run\<close>, \<open>gc_alloc\<close>) is a field of \<open>memenv\<close>, because
  allocating an object may run it; the slots of thread stacks that hold references are an argument of the collector; sizes of C structures are the record \<open>abi\<close>; \<open>junk\<close> and \<open>stray\<close> stand for
  uninitialised locals of the C code, over which theorems quantify.

  \<^bold>\<open>Not modelled.\<close>  Magic words and flags of object headers (tested by \<^verbatim>\<open>ASSERTMEMORY\<close>, \<^verbatim>\<open>ASSERTOBJECT\<close>) outside the
  collector: the other theories have no object headers.  Stack maps and the freezing of threads before a collection, the other
  collectors, and heap checks; the theorems on collections are for heaps whose threads are outside portal calls, although
  the model has all branches.  The big-endian 32 bit accessors: their assembler statement has no input
  operand, hence no determined effect.  Statistics, tracing and printing.  Register save and restore in
  the context switch.  Tests for remaining stack space.  The copying of parameters and results of portal
  calls, the loader, field accesses and the search for exception handlers work on Java
  object layouts and are not modelled; drivers of interrupt controllers, timers
  and further processors are input/output; the Java-level schedulers, the other memory variants and the
  Linux emulation are not built; \<^verbatim>\<open>minilzo\<close> is third-party code.
\<close>

end
